(* ===== verification/Net_Prelude.thy ===== *)
theory Net_Prelude
  imports Main "HOL-Library.Word" "HOL-Library.Sublist"
begin

text \<open>
  Shared vocabulary of the development: the error codes the library returns, the
  operations of \<^verbatim>\<open>std::string_view\<close> that the parsers use (\<^verbatim>\<open>find\<close>, \<^verbatim>\<open>find_first_not_of\<close>,
  \<^verbatim>\<open>substr\<close>), the memory operations on byte arrays (\<^verbatim>\<open>memcpy\<close> into an array at an offset)
  and the generic facts about lists and machine words that the component theories use.
  A \<^verbatim>\<open>std::string_view\<close> is modelled by the list of its characters, a position that may be
  \<^verbatim>\<open>npos\<close> by an optional natural number.
\<close>

named_theorems sv_simps \<open>evaluation of the string view operations\<close>
named_theorems mem_simps \<open>reads and writes of byte arrays\<close>

unbundle bit_operations_syntax

section \<open>Error codes\<close>

text \<open>
  \<^verbatim>\<open>std::errc\<close>: the values the library itself produces are constructors, \<open>Errno\<close> is a
  value taken from the operating system.
\<close>

datatype errc =
    illegal_byte_sequence
  | resource_unavailable_try_again
  | operation_would_block
  | connection_aborted
  | not_connected
  | invalid_argument
  | io_error
  | no_such_file_or_directory
  | function_not_supported
  | operation_not_permitted
  | protocol_error
  | no_message
  | not_supported
  | value_too_large
  | address_family_not_supported
  | Errno nat

text \<open>
  A function returning \<^verbatim>\<open>errc\<close>, where the value \<^verbatim>\<open>errc{}\<close> is success, is modelled by
  \<^typ>\<open>errc option\<close>; \<open>ok\<close> is the success value.
\<close>

type_synonym ec = "errc option"

abbreviation ok :: ec where
  "ok \<equiv> None"

section \<open>String views\<close>

type_synonym sv = string

abbreviation CR :: char where "CR \<equiv> CHR 0x0D"
abbreviation LF :: char where "LF \<equiv> CHR 0x0A"
abbreviation SP :: char where "SP \<equiv> CHR '' ''"

text \<open>The first index at which \<open>pat\<close> occurs.\<close>

primrec find_sub :: "'a list \<Rightarrow> 'a list \<Rightarrow> nat option" where
  "find_sub pat [] = (if pat = [] then Some 0 else None)"
| "find_sub pat (x # xs) =
     (if prefix pat (x # xs) then Some 0 else map_option Suc (find_sub pat xs))"

text \<open>\<^verbatim>\<open>view.find(pat, pos)\<close>: \<^verbatim>\<open>npos\<close> is \<^term>\<open>None\<close>.\<close>

definition sv_find :: "'a list \<Rightarrow> 'a list \<Rightarrow> nat \<Rightarrow> nat option" where
  "sv_find pat s pos =
     (if length s < pos then None else map_option ((+) pos) (find_sub pat (drop pos s)))"

text \<open>The first index of a character satisfying a predicate.\<close>

primrec find_idx :: "('a \<Rightarrow> bool) \<Rightarrow> 'a list \<Rightarrow> nat option" where
  "find_idx P [] = None"
| "find_idx P (x # xs) = (if P x then Some 0 else map_option Suc (find_idx P xs))"

text \<open>\<^verbatim>\<open>view.find_first_not_of(c, pos)\<close>.\<close>

definition sv_find_first_not_of :: "'a list \<Rightarrow> 'a list \<Rightarrow> nat \<Rightarrow> nat option" where
  "sv_find_first_not_of cs s pos =
     (if length s < pos then None
      else map_option ((+) pos) (find_idx (\<lambda>c. c \<notin> set cs) (drop pos s)))"

text \<open>\<^verbatim>\<open>view.substr(pos, n)\<close> at a position inside the view.\<close>

definition sub :: "'a list \<Rightarrow> nat \<Rightarrow> nat \<Rightarrow> 'a list" where
  "sub s pos n = take n (drop pos s)"

text \<open>\<^verbatim>\<open>view.substr(pos)\<close> with its range check: \<^term>\<open>None\<close> is the \<^verbatim>\<open>std::out_of_range\<close> exception.\<close>

definition sv_substr :: "'a list \<Rightarrow> nat option \<Rightarrow> 'a list option" where
  "sv_substr s pos =
     (case pos of None \<Rightarrow> None | Some p \<Rightarrow> if length s < p then None else Some (drop p s))"

subsection \<open>Searching\<close>

lemma all_nat_less_Suc_split: "(\<forall>j<Suc n. P j) \<longleftrightarrow> P 0 \<and> (\<forall>j<n. P (Suc j))"
  by (auto simp: less_Suc_eq_0_disj)

lemma find_sub_Some:
  "find_sub pat s = Some i \<longleftrightarrow>
     i \<le> length s \<and> prefix pat (drop i s) \<and> (\<forall>j<i. \<not> prefix pat (drop j s))"
proof (induction s arbitrary: i)
  case Nil
  then show ?case by auto
next
  case (Cons x xs)
  show ?case
    by (cases i) (auto simp: Cons.IH less_Suc_eq_0_disj)
qed

lemma find_sub_None: "find_sub pat s = None \<longleftrightarrow> (\<forall>j\<le>length s. \<not> prefix pat (drop j s))"
proof (induction s)
  case Nil
  then show ?case by auto
next
  case (Cons x xs)
  have "(\<forall>j\<le>length (x # xs). \<not> prefix pat (drop j (x # xs))) \<longleftrightarrow>
        \<not> prefix pat (x # xs) \<and> (\<forall>j\<le>length xs. \<not> prefix pat (drop j xs))"
    by (simp add: all_nat_less_Suc_split flip: less_Suc_eq_le)
  with Cons.IH show ?case by simp
qed

lemma find_sub_bound: "find_sub pat s = Some i \<Longrightarrow> i + length pat \<le> length s"
  by (auto simp: find_sub_Some dest: prefix_length_le)

text \<open>Appending input never changes where a pattern was first found.\<close>

lemma find_sub_append:
  assumes "find_sub pat s = Some i"
  shows "find_sub pat (s @ t) = Some i"
proof -
  have i: "i + length pat \<le> length s" using assms by (rule find_sub_bound)
  have "\<not> prefix pat (drop j (s @ t))" if "j < i" for j
  proof
    assume "prefix pat (drop j (s @ t))"
    then have "prefix pat (drop j s)"
      using i that by (auto simp: prefix_append dest: prefix_length_le)
    with assms that show False by (simp add: find_sub_Some)
  qed
  with assms i show ?thesis by (simp add: find_sub_Some)
qed

lemma find_sub_take:
  assumes "find_sub pat s = Some e" "e + length pat \<le> n"
  shows "find_sub pat (take n s) = Some e"
proof (cases "find_sub pat (take n s)")
  case None
  have "prefix pat (drop e (take n s))"
    using assms by (auto simp: find_sub_Some drop_take prefix_def)
  moreover have "e \<le> length (take n s)" using assms by (auto dest: find_sub_bound)
  ultimately show ?thesis using None by (auto simp: find_sub_None)
next
  case (Some i)
  then show ?thesis using find_sub_append [OF Some, of "drop n s"] assms(1) by simp
qed

lemma find_sub_char: "find_sub [c] s = find_idx (\<lambda>x. x = c) s"
  by (induction s) auto

lemma find_idx_Some:
  "find_idx P s = Some i \<longleftrightarrow> i < length s \<and> P (s ! i) \<and> (\<forall>j<i. \<not> P (s ! j))"
proof (induction s arbitrary: i)
  case Nil
  then show ?case by simp
next
  case (Cons x xs)
  then show ?case
    by (cases i) (auto simp: less_Suc_eq_0_disj)
qed

lemma find_idx_None: "find_idx P s = None \<longleftrightarrow> (\<forall>x\<in>set s. \<not> P x)"
  by (induction s) auto

lemma find_idx_append:
  "find_idx P (s @ t) =
     (case find_idx P s of Some i \<Rightarrow> Some i | None \<Rightarrow> map_option ((+) (length s)) (find_idx P t))"
proof (induction s)
  case Nil
  then show ?case by (cases "find_idx P t") auto
next
  case (Cons x xs)
  then show ?case by (auto simp: option.map_comp comp_def split: option.splits intro!: option.map_cong)
qed

lemma find_idx_takeWhile:
  "find_idx P s = (let n = length (takeWhile (\<lambda>x. \<not> P x) s) in if n < length s then Some n else None)"
  by (induction s) (auto simp: Let_def)

lemma find_sub_split:
  "find_sub pat s = Some e \<Longrightarrow> s = take e s @ pat @ drop (e + length pat) s"
  by (auto simp: find_sub_Some prefix_def) (metis add.commute append_eq_conv_conj append_take_drop_id drop_drop)

lemma find_sub_drop:
  assumes "find_sub pat s = Some e" "k \<le> e"
  shows "find_sub pat (drop k s) = Some (e - k)"
  using assms by (auto simp: find_sub_Some add.commute)

section \<open>Byte arrays\<close>

text \<open>\<^verbatim>\<open>memcpy(dst + off, src, n)\<close> on an array large enough to hold the copy.\<close>

definition blit :: "'a list \<Rightarrow> nat \<Rightarrow> 'a list \<Rightarrow> 'a list" where
  "blit dst off src = take off dst @ src @ drop (off + length src) dst"

lemma length_blit [simp]: "off + length src \<le> length dst \<Longrightarrow> length (blit dst off src) = length dst"
  by (simp add: blit_def)

lemma nth_blit:
  assumes "off + length src \<le> length dst" "i < length dst"
  shows "blit dst off src ! i =
     (if off \<le> i \<and> i < off + length src then src ! (i - off) else dst ! i)"
  using assms by (auto simp: blit_def nth_append)

lemma take_blit [mem_simps]:
  "off + length src \<le> length dst \<Longrightarrow> n \<le> off \<Longrightarrow> take n (blit dst off src) = take n dst"
  by (simp add: blit_def)

lemma blit_nil [simp]: "blit dst off [] = dst"
  by (simp add: blit_def)

lemma sub_blit_same [mem_simps]:
  "off + length src \<le> length dst \<Longrightarrow> sub (blit dst off src) off (length src) = src"
  by (simp add: sub_def blit_def)

lemma sub_blit_before [mem_simps]:
  "off + length src \<le> length dst \<Longrightarrow> p + n \<le> off \<Longrightarrow> sub (blit dst off src) p n = sub dst p n"
  by (simp add: sub_def blit_def drop_take min_absorb1)

lemma sub_blit_after [mem_simps]:
  "off + length src \<le> p \<Longrightarrow> p \<le> length dst \<Longrightarrow> sub (blit dst off src) p n = sub dst p n"
  by (simp add: sub_def blit_def drop_append)

lemma length_sub [simp]: "length (sub s p n) = min n (length s - p)"
  by (simp add: sub_def)

lemma sub_append: "sub s k n @ sub s (k + n) j = sub s k (n + j)"
  by (simp add: sub_def take_add add.commute [of k n])

text \<open>A letter in lower case, in the C locale.\<close>

definition lower_char :: "char \<Rightarrow> char" where
  "lower_char c = (if (65::nat) \<le> of_char c \<and> of_char c \<le> (90::nat) then char_of (of_char c + 32 :: nat) else c)"

section \<open>Counting\<close>

lemma count_list_update:
  "i < length xs \<Longrightarrow>
     count_list (xs[i := y]) x + (if xs ! i = x then 1 else 0) = count_list xs x + (if y = x then 1 else 0)"
proof (induction xs arbitrary: i)
  case Nil
  then show ?case by simp
next
  case (Cons z zs)
  show ?case
  proof (cases i)
    case (Suc k)
    with Cons.IH [of k] Cons.prems show ?thesis by auto
  qed auto
qed

section \<open>Decimal numbers\<close>

text \<open>\<^verbatim>\<open>std::to_string\<close> and \<^verbatim>\<open>std::to_chars\<close> of an unsigned number, and the value of a run of digits.\<close>

fun dec_digits :: "nat \<Rightarrow> string" where
  "dec_digits n = (if n < 10 then [char_of (48 + n)] else dec_digits (n div 10) @ [char_of (48 + n mod 10)])"

declare dec_digits.simps [simp del]

definition is_digit :: "char \<Rightarrow> bool" where
  "is_digit c \<longleftrightarrow> c \<in> set ''0123456789''"

definition digits_value :: "string \<Rightarrow> nat" where
  "digits_value s = fold (\<lambda>c n. 10 * n + (of_char c - 48)) s 0"

lemma is_digit_char: "k < 10 \<Longrightarrow> is_digit (char_of (48 + k))" for k :: nat
proof -
  have "\<forall>k\<in>set [0..<10]. is_digit (char_of (48 + k :: nat))" by code_simp
  then show "k < 10 \<Longrightarrow> is_digit (char_of (48 + k))" by simp
qed

lemma dec_digits_digit: "list_all is_digit (dec_digits n)"
  by (induction n rule: dec_digits.induct) (subst dec_digits.simps, simp add: is_digit_char)

lemma dec_digits_value: "digits_value (dec_digits n) = n"
proof (induction n rule: dec_digits.induct)
  case (1 n)
  then show ?case by (subst dec_digits.simps) (auto simp: digits_value_def)
qed

lemma dec_digits_length: "n < 10 ^ Suc k \<Longrightarrow> length (dec_digits n) \<le> Suc k"
proof (induction n arbitrary: k rule: dec_digits.induct)
  case (1 n)
  show ?case
  proof (cases "n < 10")
    case False
    then obtain j where k: "k = Suc j" using "1.prems" by (cases k) auto
    have "n div 10 < 10 ^ Suc j" using "1.prems" k by (simp add: div_less_iff_less_mult mult.commute)
    then show ?thesis using "1.IH" [OF False] False k by (subst dec_digits.simps) auto
  qed (subst dec_digits.simps, simp)
qed

lemma dec_digits_nonempty [simp]: "dec_digits n \<noteq> []"
  by (subst dec_digits.simps) simp

section \<open>Words\<close>

lemma and_mask_mod:
  "i AND (2 ^ k - Suc 0) = i mod (2 ^ k :: nat)"
  by (metis One_nat_def mask_eq_exp_minus_1 take_bit_eq_mask take_bit_eq_mod)

lemma unat_exp_word:
  assumes "k < LENGTH('a::len)" shows "unat (2 ^ k :: 'a word) = 2 ^ k"
proof -
  have "unat (2 ^ k :: 'a word) = unat (word_of_nat (2 ^ k) :: 'a word)" by simp
  also have "\<dots> = 2 ^ k mod 2 ^ LENGTH('a)" by (rule unat_of_nat)
  also have "\<dots> = 2 ^ k" using assms by simp
  finally show ?thesis .
qed

lemma mod_inj_window:
  fixes a b N :: nat
  assumes "a mod N = b mod N" "a \<le> b" "b < a + N"
  shows "a = b"
proof -
  have "N dvd b - a" using assms(1,2) by (metis mod_eq_dvd_iff_nat)
  moreover have "b - a < N" using assms(2,3) by arith
  ultimately have "b - a = 0" by (meson nat_dvd_not_less not_gr_zero)
  with assms(2) show ?thesis by simp
qed

end
