(* ===== verification/Wheel.thy ===== *)
theory Wheel
  imports Net_Prelude
begin

text \<open>
  The infrastructure layer \<^verbatim>\<open>include/xsl/wheel\<close>: rounding up to a power of two
  (\<^verbatim>\<open>bit.h\<close>), the reference-counted pointer \<^verbatim>\<open>Rc\<close> (\<^verbatim>\<open>rc.h\<close>) over an explicit heap of
  counted cells, the fixed vector (\<^verbatim>\<open>vec.h\<close>) and the fixed string with its three-way
  comparison (\<^verbatim>\<open>str.h\<close>).
\<close>

section \<open>Rounding up to a power of two\<close>

text \<open>The loop of \<^verbatim>\<open>ceil2pow2\<close> at an unsigned type of any width.\<close>

function smear :: "nat \<Rightarrow> 'a::len word \<Rightarrow> 'a word" where
  "smear i n =
     (if 0 < i \<and> i < LENGTH('a) then smear (2 * i) (n OR drop_bit i n) else n)"
  by pat_completeness auto
termination
  by (relation "measure (\<lambda>(i, n :: 'a word). LENGTH('a) - i)") auto

declare smear.simps [simp del]

definition ceil2pow2 :: "'a::len word \<Rightarrow> 'a word" where
  "ceil2pow2 n = smear 1 (n - 1) + 1"

lemma ex_shift_split:
  "(\<exists>d<2 * i. P (k + d)) \<longleftrightarrow> (\<exists>d<i. P (k + d)) \<or> (\<exists>d<i. P (i + k + d))" for i k :: nat
proof
  assume "\<exists>d<2 * i. P (k + d)"
  then obtain d where d: "d < 2 * i" "P (k + d)" by blast
  show "(\<exists>d<i. P (k + d)) \<or> (\<exists>d<i. P (i + k + d))"
  proof (cases "d < i")
    case True
    with d show ?thesis by blast
  next
    case False
    with d have "d - i < i" "P (i + k + (d - i))" by (auto simp: add.commute)
    then show ?thesis by blast
  qed
next
  assume "(\<exists>d<i. P (k + d)) \<or> (\<exists>d<i. P (i + k + d))"
  then show "\<exists>d<2 * i. P (k + d)"
  proof (elim disjE exE conjE)
    fix d assume "d < i" "P (k + d)"
    then show ?thesis by (intro exI [of _ d]) auto
  next
    fix d assume "d < i" "P (i + k + d)"
    then show ?thesis by (intro exI [of _ "i + d"]) (auto simp: ac_simps)
  qed
qed

text \<open>After the loop every bit below a set bit of the input is set.\<close>

lemma bit_smear:
  fixes n m :: "'a::len word"
  assumes "0 < i" "\<forall>k. bit n k \<longleftrightarrow> (\<exists>d<i. bit m (k + d))"
  shows "bit (smear i n) k \<longleftrightarrow> (\<exists>j\<ge>k. bit m j)"
  using assms
proof (induction i n rule: smear.induct)
  case (1 i n)
  show ?case
  proof (cases "i < LENGTH('a)")
    case True
    have "\<forall>k. bit (n OR drop_bit i n) k \<longleftrightarrow> (\<exists>d<2 * i. bit m (k + d))"
      by (simp add: bit_or_iff bit_drop_bit_eq "1.prems"(2) ex_shift_split)
    with "1.IH" "1.prems" True show ?thesis
      by (simp add: smear.simps [of i n])
  next
    case False
    have "(\<exists>d<i. bit m (k + d)) \<longleftrightarrow> (\<exists>j\<ge>k. bit m j)"
    proof
      assume "\<exists>j\<ge>k. bit m j"
      then obtain j where j: "j \<ge> k" "bit m j" by blast
      then have "j < LENGTH('a)" using bit_imp_le_length by blast
      with j False show "\<exists>d<i. bit m (k + d)"
        by (intro exI [of _ "j - k"]) auto
    qed (use le_add1 in blast)
    with False "1.prems" show ?thesis by (simp add: smear.simps [of i n])
  qed
qed

lemma smear_1: "bit (smear (Suc 0) m) k \<longleftrightarrow> (\<exists>j\<ge>k. bit m j)"
  by (rule bit_smear) auto

lemma word_ge_exp_bit:
  fixes m :: "'a::len word"
  assumes "2 ^ j \<le> unat m"
  shows "\<exists>i\<ge>j. bit m i"
proof (rule ccontr)
  assume *: "\<not> ?thesis"
  have "take_bit j m = m"
    by (rule bit_eqI) (use * in \<open>auto simp: bit_take_bit_iff not_le [symmetric]\<close>)
  then have "unat m = take_bit j (unat m)"
    by (metis unsigned_take_bit_eq)
  then have "unat m < 2 ^ j" by (metis take_bit_nat_less_exp)
  with assms show False by simp
qed

lemma word_bit_lt:
  fixes m :: "'a::len word"
  assumes "bit m i" shows "2 ^ i \<le> unat m"
proof (rule ccontr)
  assume "\<not> ?thesis"
  then have "take_bit i (unat m) = unat m"
    by (simp add: take_bit_nat_eq_self)
  then have "\<not> bit (unat m) i" by (metis bit_take_bit_iff less_irrefl)
  with assms show False by (simp add: bit_unsigned_iff)
qed

text \<open>The smeared value of a number below \<open>2 ^ k\<close> and not below \<open>2 ^ (k - 1)\<close> is a mask.\<close>

lemma smear_mask:
  fixes m :: "'a::len word"
  assumes "unat m < 2 ^ k" "\<And>j. unat m < 2 ^ j \<Longrightarrow> k \<le> j"
  shows "smear 1 m = mask k"
proof (rule bit_word_eqI)
  fix j assume j: "j < LENGTH('a)"
  have "(\<exists>i\<ge>j. bit m i) \<longleftrightarrow> j < k"
  proof
    assume "\<exists>i\<ge>j. bit m i"
    then obtain i where i: "i \<ge> j" "2 ^ i \<le> unat m" using word_bit_lt by blast
    have "i < k" using i(2) assms(1) by (meson le_less_trans less_exp power_less_imp_less_exp one_less_numeral_iff semiring_norm(76))
    with i(1) show "j < k" by simp
  next
    assume "j < k"
    then have "2 ^ j \<le> unat m" using assms(2) by (meson leD not_le_imp_less)
    then show "\<exists>i\<ge>j. bit m i" by (rule word_ge_exp_bit)
  qed
  with j show "bit (smear 1 m) j \<longleftrightarrow> bit (mask k :: 'a word) j"
    by (simp add: smear_1 bit_mask_iff)
qed

lemma ceil2pow2_least:
  fixes n :: "'a::len word"
  assumes pos: "0 < n" and fits: "unat n \<le> 2 ^ (LENGTH('a) - 1)"
  obtains k where "k < LENGTH('a)" "unat (ceil2pow2 n) = 2 ^ k" "unat n \<le> 2 ^ k"
    "\<And>j. unat n \<le> 2 ^ j \<Longrightarrow> k \<le> j"
proof -
  have un: "unat (n - 1) = unat n - 1" "0 < unat n"
    using pos by (auto simp: unat_minus_one word_neq_0_conv [symmetric] unat_gt_0)
  then have lt_iff: "unat (n - 1) < 2 ^ j \<longleftrightarrow> unat n \<le> 2 ^ j" for j by auto
  define k where "k = (LEAST j. unat (n - 1) < 2 ^ j)"
  have ex: "unat (n - 1) < 2 ^ (LENGTH('a) - 1)" using fits lt_iff by blast
  then have k: "unat (n - 1) < 2 ^ k" and least: "\<And>j. unat (n - 1) < 2 ^ j \<Longrightarrow> k \<le> j"
    unfolding k_def by (auto intro: LeastI Least_le)
  from least ex have "k \<le> LENGTH('a) - 1" by blast
  then have kl: "k < LENGTH('a)" by (metis One_nat_def Suc_pred le_imp_less_Suc len_gt_0)
  have "ceil2pow2 n = 2 ^ k"
    using smear_mask [OF k least] by (simp add: ceil2pow2_def mask_eq_exp_minus_1)
  then have "unat (ceil2pow2 n) = 2 ^ k" using kl by (simp add: unat_exp_word)
  then show ?thesis using that kl k least lt_iff by blast
qed

text \<open>\<^verbatim>\<open>ceil2pow2\<close> at an unsigned type returns the least power of two that is not below
  its argument, for every positive argument for which that power is representable.\<close>

lemma ceil2pow2_correct:
  fixes n :: "'a::len word"
  assumes "0 < n" "unat n \<le> 2 ^ (LENGTH('a) - 1)"
  shows "\<exists>k. unat (ceil2pow2 n) = 2 ^ k \<and> unat n \<le> 2 ^ k \<and> (\<forall>j. unat n \<le> 2 ^ j \<longrightarrow> k \<le> j)"
  using ceil2pow2_least [OF assms] by metis

lemma ceil2pow2_correct_witness:
  "\<exists>k. unat (ceil2pow2 (5 :: 64 word)) = 2 ^ k \<and> unat (5 :: 64 word) \<le> 2 ^ k \<and>
       (\<forall>j. unat (5 :: 64 word) \<le> 2 ^ j \<longrightarrow> k \<le> j)"
  by (rule ceil2pow2_correct) simp_all

section \<open>The reference-counted pointer\<close>

text \<open>
  An \<^verbatim>\<open>Rc\<close> object is a pointer to an \<^verbatim>\<open>Inner\<close> cell, which holds the value and the
  count. \<open>cells\<close> is the heap of \<^verbatim>\<open>Inner\<close> objects, \<open>rcs\<close> the list of the \<^verbatim>\<open>Rc\<close>
  variables of the program: \<^term>\<open>None\<close> is the null \<^verbatim>\<open>inner_\<close> of an empty, moved-from or
  destroyed variable. The result \<^term>\<open>None\<close> of an operation is undefined behaviour (a null
  or dangling \<^verbatim>\<open>inner_\<close> is dereferenced).
\<close>

record 'a rc_heap =
  cells :: "nat \<rightharpoonup> 'a \<times> nat"
  rcs :: "nat option list"

definition incr :: "'a rc_heap \<Rightarrow> nat \<Rightarrow> 'a rc_heap option" where
  "incr h a =
     (case cells h a of None \<Rightarrow> None
      | Some (v, n) \<Rightarrow> Some (h\<lparr>cells := (cells h)(a \<mapsto> (v, n + 1))\<rparr>))"

text \<open>\<^verbatim>\<open>if (inner_ && --inner_->ref_count == 0) delete inner_;\<close>\<close>

definition release_inner :: "'a rc_heap \<Rightarrow> nat option \<Rightarrow> 'a rc_heap option" where
  "release_inner h p =
     (case p of None \<Rightarrow> Some h
      | Some a \<Rightarrow>
          (case cells h a of None \<Rightarrow> None
           | Some (v, n) \<Rightarrow>
               Some (if n - 1 = 0 then h\<lparr>cells := (cells h)(a := None)\<rparr>
                     else h\<lparr>cells := (cells h)(a \<mapsto> (v, n - 1))\<rparr>)))"

text \<open>The constructor allocates a cell at a fresh address \<open>a\<close> chosen by the allocator.\<close>

definition rc_make :: "'a rc_heap \<Rightarrow> nat \<Rightarrow> 'a \<Rightarrow> 'a rc_heap" where
  "rc_make h a v = h\<lparr>cells := (cells h)(a \<mapsto> (v, 1)), rcs := rcs h @ [Some a]\<rparr>"

definition rc_copy :: "'a rc_heap \<Rightarrow> nat \<Rightarrow> 'a rc_heap option" where
  "rc_copy h i =
     (case rcs h ! i of None \<Rightarrow> None
      | Some a \<Rightarrow> map_option (\<lambda>h'. h'\<lparr>rcs := rcs h' @ [Some a]\<rparr>) (incr h a))"

definition rc_move :: "'a rc_heap \<Rightarrow> nat \<Rightarrow> 'a rc_heap" where
  "rc_move h i = h\<lparr>rcs := (rcs h)[i := None] @ [rcs h ! i]\<rparr>"

definition rc_drop :: "'a rc_heap \<Rightarrow> nat \<Rightarrow> 'a rc_heap option" where
  "rc_drop h i =
     map_option (\<lambda>h'. h'\<lparr>rcs := (rcs h')[i := None]\<rparr>) (release_inner h (rcs h ! i))"

definition rc_assign_copy :: "'a rc_heap \<Rightarrow> nat \<Rightarrow> nat \<Rightarrow> 'a rc_heap option" where
  "rc_assign_copy h i j =
     (if i \<noteq> j then
        (case release_inner h (rcs h ! i) of None \<Rightarrow> None
         | Some h' \<Rightarrow>
             (case rcs h ! j of None \<Rightarrow> None
              | Some a \<Rightarrow> map_option (\<lambda>h''. h''\<lparr>rcs := (rcs h'')[i := Some a]\<rparr>) (incr h' a)))
      else Some h)"

definition rc_assign_move :: "'a rc_heap \<Rightarrow> nat \<Rightarrow> nat \<Rightarrow> 'a rc_heap option" where
  "rc_assign_move h i j =
     (if i \<noteq> j then
        map_option (\<lambda>h'. h'\<lparr>rcs := (rcs h')[i := rcs h ! j, j := None]\<rparr>)
          (release_inner h (rcs h ! i))
      else Some h)"

definition use_count :: "'a rc_heap \<Rightarrow> nat \<Rightarrow> nat" where
  "use_count h i =
     (case rcs h ! i of None \<Rightarrow> 0 | Some a \<Rightarrow> (case cells h a of None \<Rightarrow> 0 | Some (v, n) \<Rightarrow> n))"

definition rc_unique :: "'a rc_heap \<Rightarrow> nat \<Rightarrow> bool" where
  "rc_unique h i =
     (case rcs h ! i of None \<Rightarrow> False
      | Some a \<Rightarrow> (case cells h a of None \<Rightarrow> False | Some (v, n) \<Rightarrow> n = 1))"

text \<open>
  The invariant: a cell exists exactly when some variable owns it, and its count is the
  number of owners \<open>f a\<close>.
\<close>

definition cell_ok :: "('a \<times> nat) option \<Rightarrow> nat \<Rightarrow> bool" where
  "cell_ok c k = (case c of None \<Rightarrow> k = 0 | Some (v, n) \<Rightarrow> n = k \<and> 0 < n)"

definition cells_ok :: "(nat \<rightharpoonup> 'a \<times> nat) \<Rightarrow> (nat \<Rightarrow> nat) \<Rightarrow> bool" where
  "cells_ok C f \<longleftrightarrow> (\<forall>a. cell_ok (C a) (f a))"

abbreviation owners :: "nat option list \<Rightarrow> nat \<Rightarrow> nat" where
  "owners xs a \<equiv> count_list xs (Some a)"

definition rc_inv :: "'a rc_heap \<Rightarrow> bool" where
  "rc_inv h \<longleftrightarrow> cells_ok (cells h) (owners (rcs h))"

datatype 'a rc_op =
    Make nat 'a | Copy nat | Move nat | Drop nat | AssignCopy nat nat | AssignMove nat nat

text \<open>
  One operation of the program on variables that exist; copying needs a source that is not
  empty, allocation returns an address that is not in use.
\<close>

fun rc_enabled :: "'a rc_heap \<Rightarrow> 'a rc_op \<Rightarrow> bool" where
  "rc_enabled h (Make a v) = (cells h a = None)"
| "rc_enabled h (Copy i) = (i < length (rcs h) \<and> rcs h ! i \<noteq> None)"
| "rc_enabled h (Move i) = (i < length (rcs h))"
| "rc_enabled h (Drop i) = (i < length (rcs h))"
| "rc_enabled h (AssignCopy i j) = (i < length (rcs h) \<and> j < length (rcs h) \<and> rcs h ! j \<noteq> None)"
| "rc_enabled h (AssignMove i j) = (i < length (rcs h) \<and> j < length (rcs h))"

fun rc_exec :: "'a rc_heap \<Rightarrow> 'a rc_op \<Rightarrow> 'a rc_heap option" where
  "rc_exec h (Make a v) = Some (rc_make h a v)"
| "rc_exec h (Copy i) = rc_copy h i"
| "rc_exec h (Move i) = Some (rc_move h i)"
| "rc_exec h (Drop i) = rc_drop h i"
| "rc_exec h (AssignCopy i j) = rc_assign_copy h i j"
| "rc_exec h (AssignMove i j) = rc_assign_move h i j"

lemma count_list_update_eq:
  "i < length xs \<Longrightarrow>
     count_list (xs[i := y]) x =
       count_list xs x + (if y = x then 1 else 0) - (if xs ! i = x then 1 else 0)"
  using count_list_update [of i xs y x] by auto

lemma count_list_pos: "i < length xs \<Longrightarrow> xs ! i = x \<Longrightarrow> 0 < count_list xs x"
  by (metis count_notin gr_zeroI count_list_0_iff nth_mem)

lemma cell_ok_simps [simp]:
  "cell_ok None k \<longleftrightarrow> k = 0"
  "cell_ok (Some (v, n)) k \<longleftrightarrow> n = k \<and> 0 < n"
  by (simp_all add: cell_ok_def)

lemma cells_ok_owned: "cells_ok C f \<Longrightarrow> 0 < f a \<Longrightarrow> \<exists>v. C a = Some (v, f a)"
  by (cases "C a") (force simp: cells_ok_def dest!: spec [of _ a])+

lemma cells_ok_fresh: "cells_ok C f \<Longrightarrow> C a = None \<Longrightarrow> f a = 0"
  by (force simp: cells_ok_def dest!: spec [of _ a])

lemma cells_ok_upd:
  assumes "cells_ok C f" "cell_ok x (g a)" "\<And>b. b \<noteq> a \<Longrightarrow> g b = f b"
  shows "cells_ok (C(a := x)) g"
  using assms by (simp add: cells_ok_def)

text \<open>Giving up one ownership, and taking one more, keep the counts exact.\<close>

lemma release_inner_ok:
  assumes "cells_ok (cells h) f" "\<And>a. p = Some a \<Longrightarrow> 0 < f a"
    "\<And>a. g a = f a - (if p = Some a then 1 else 0)"
  obtains h' where "release_inner h p = Some h'" "cells_ok (cells h') g" "rcs h' = rcs h"
proof (cases p)
  case None
  with assms(3) have "g = f" by auto
  with assms(1) None that [of h] show ?thesis by (simp add: release_inner_def)
next
  case (Some a)
  then obtain v where v: "cells h a = Some (v, f a)" using assms(1,2) cells_ok_owned by metis
  have "cells_ok ((cells h)(a := if f a - 1 = 0 then None else Some (v, f a - 1))) g"
    by (rule cells_ok_upd [OF assms(1)]) (use assms(2,3) Some in auto)
  with v Some that show ?thesis by (auto simp: release_inner_def split: if_splits)
qed

lemma incr_ok:
  assumes "cells_ok (cells h) f" "0 < f a" "\<And>b. g b = f b + (if b = a then 1 else 0)"
  obtains h' where "incr h a = Some h'" "cells_ok (cells h') g" "rcs h' = rcs h"
proof -
  obtain v where v: "cells h a = Some (v, f a)" using assms(1,2) cells_ok_owned by metis
  have "cells_ok ((cells h)(a \<mapsto> (v, f a + 1))) g"
    by (rule cells_ok_upd [OF assms(1)]) (use assms(2,3) in auto)
  with v that show ?thesis by (auto simp: incr_def)
qed

lemma owners_pos: "i < length xs \<Longrightarrow> xs ! i = Some a \<Longrightarrow> 0 < owners xs a"
  by (rule count_list_pos)

lemma rc_make_ok:
  assumes "rc_inv h" "cells h a = None"
  shows "rc_inv (rc_make h a v)"
proof -
  have "owners (rcs h) a = 0"
    using cells_ok_fresh [OF assms(1) [unfolded rc_inv_def] assms(2)] .
  then show ?thesis using assms
    by (auto simp: rc_inv_def rc_make_def intro!: cells_ok_upd)
qed

lemma rc_copy_ok:
  assumes "rc_inv h" "i < length (rcs h)" "rcs h ! i = Some a"
  shows "\<exists>h'. rc_copy h i = Some h' \<and> rc_inv h'"
proof -
  have g: "owners (rcs h @ [Some a]) b = owners (rcs h) b + (if b = a then 1 else 0)" for b
    by simp
  obtain h' where "incr h a = Some h'" "cells_ok (cells h') (owners (rcs h @ [Some a]))"
      "rcs h' = rcs h"
    using incr_ok [OF assms(1) [unfolded rc_inv_def] owners_pos [OF assms(2,3)] g] by blast
  with assms(3) show ?thesis by (simp add: rc_copy_def rc_inv_def)
qed

lemma rc_move_ok:
  assumes "rc_inv h" "i < length (rcs h)"
  shows "rc_inv (rc_move h i)"
proof -
  have "owners ((rcs h)[i := None] @ [rcs h ! i]) a = owners (rcs h) a" for a
    using assms(2) owners_pos [of i "rcs h" a] by (simp add: count_list_update_eq)
  with assms show ?thesis by (simp add: rc_inv_def rc_move_def)
qed

lemma release_slot:
  assumes "rc_inv h" "i < length (rcs h)"
  obtains h' where "release_inner h (rcs h ! i) = Some h'"
    "cells_ok (cells h') (owners ((rcs h)[i := None]))" "rcs h' = rcs h"
proof -
  have "owners ((rcs h)[i := None]) a = owners (rcs h) a - (if rcs h ! i = Some a then 1 else 0)" for a
    using assms(2) by (simp add: count_list_update_eq)
  then show ?thesis
    using release_inner_ok [OF assms(1) [unfolded rc_inv_def] owners_pos [OF assms(2)]] that by metis
qed

lemma rc_drop_ok:
  assumes "rc_inv h" "i < length (rcs h)"
  shows "\<exists>h'. rc_drop h i = Some h' \<and> rc_inv h'"
proof -
  obtain h' where "release_inner h (rcs h ! i) = Some h'"
      "cells_ok (cells h') (owners ((rcs h)[i := None]))" "rcs h' = rcs h"
    using release_slot [OF assms] .
  then show ?thesis by (simp add: rc_drop_def rc_inv_def)
qed

lemma rc_assign_copy_ok:
  assumes "rc_inv h" "i < length (rcs h)" "j < length (rcs h)" "rcs h ! j = Some a"
  shows "\<exists>h'. rc_assign_copy h i j = Some h' \<and> rc_inv h'"
proof (cases "i = j")
  case True
  with assms(1) show ?thesis by (simp add: rc_assign_copy_def)
next
  case False
  obtain h1 where h1: "release_inner h (rcs h ! i) = Some h1"
      "cells_ok (cells h1) (owners ((rcs h)[i := None]))" "rcs h1 = rcs h"
    using release_slot [OF assms(1,2)] .
  have g: "owners ((rcs h)[i := Some a]) b = owners ((rcs h)[i := None]) b + (if b = a then 1 else 0)" for b
    using assms(2) owners_pos [of i "rcs h" b] by (auto simp: count_list_update_eq)
  have "0 < owners ((rcs h)[i := None]) a"
    using False assms(2-4) by (intro owners_pos [of j]) auto
  from incr_ok [OF h1(2) this g] obtain h2 where
    "incr h1 a = Some h2" "cells_ok (cells h2) (owners ((rcs h)[i := Some a]))" "rcs h2 = rcs h1"
    by blast
  with h1 False assms(4) show ?thesis by (simp add: rc_assign_copy_def rc_inv_def)
qed

lemma rc_assign_move_ok:
  assumes "rc_inv h" "i < length (rcs h)" "j < length (rcs h)"
  shows "\<exists>h'. rc_assign_move h i j = Some h' \<and> rc_inv h'"
proof (cases "i = j")
  case True
  with assms(1) show ?thesis by (simp add: rc_assign_move_def)
next
  case False
  obtain h1 where h1: "release_inner h (rcs h ! i) = Some h1"
      "cells_ok (cells h1) (owners ((rcs h)[i := None]))" "rcs h1 = rcs h"
    using release_slot [OF assms(1,2)] .
  have "owners ((rcs h)[i := rcs h ! j, j := None]) a = owners ((rcs h)[i := None]) a" for a
    using False assms(2,3) owners_pos [of i "rcs h" a] owners_pos [of j "rcs h" a]
      owners_pos [of j "(rcs h)[i := None]" a]
    by (auto simp: count_list_update_eq)
  with h1 False show ?thesis by (simp add: rc_assign_move_def rc_inv_def)
qed

text \<open>The counting of \<^verbatim>\<open>Rc\<close> is exact: from a heap whose counts are right, every operation
  of the class (construction, copy, move, destruction and both assignments) is defined, and
  leaves a heap in which a cell exists exactly when a variable owns it, with the number of
  owners as its count; so no cell leaks and none is freed while owned.\<close>

lemma rc_exec_preserves:
  assumes "rc_inv h" "rc_enabled h x"
  shows "\<exists>h'. rc_exec h x = Some h' \<and> rc_inv h'"
  using assms
  by (cases x)
     (auto simp: rc_make_ok rc_copy_ok rc_move_ok rc_drop_ok rc_assign_copy_ok rc_assign_move_ok)

lemma rc_exec_preserves_witness:
  "\<exists>h'. rc_exec \<lparr>cells = [7 \<mapsto> (True, 2)], rcs = [Some 7, None, Some 7]\<rparr> (AssignMove 0 2) = Some h' \<and>
        rc_inv h'"
  by (rule rc_exec_preserves) (auto simp: rc_inv_def cells_ok_def)

section \<open>Fixed vectors\<close>

text \<open>
  \<^verbatim>\<open>FixedVector\<close> owns an array of \<open>_size\<close> elements. The contents of the array are the
  list \<open>fv_data\<close>; the default value of \<^verbatim>\<open>new T[n]\<close> is the argument \<open>d\<close>.
\<close>

record 'a fixed_vector =
  fv_data :: "'a list"
  fv_size :: nat

definition fv_empty :: "'a fixed_vector" where
  "fv_empty = \<lparr>fv_data = [], fv_size = 0\<rparr>"

definition fv_of_list :: "'a list \<Rightarrow> 'a fixed_vector" where
  "fv_of_list il = \<lparr>fv_data = il, fv_size = length il\<rparr>"

definition fv_sized :: "'a \<Rightarrow> nat \<Rightarrow> 'a fixed_vector" where
  "fv_sized d n = \<lparr>fv_data = replicate n d, fv_size = n\<rparr>"

primrec fv_fill :: "'a list \<Rightarrow> nat \<Rightarrow> 'a \<Rightarrow> 'a list" where
  "fv_fill xs 0 v = xs"
| "fv_fill xs (Suc n) v = (fv_fill xs n v)[n := v]"

definition fv_filled :: "'a \<Rightarrow> nat \<Rightarrow> 'a \<Rightarrow> 'a fixed_vector" where
  "fv_filled d n v = \<lparr>fv_data = fv_fill (replicate n d) n v, fv_size = n\<rparr>"

definition fv_copy :: "'a fixed_vector \<Rightarrow> 'a fixed_vector" where
  "fv_copy other = \<lparr>fv_data = take (fv_size other) (fv_data other), fv_size = fv_size other\<rparr>"

text \<open>
  \<^verbatim>\<open>operator=(const FixedVector&)\<close>: the parameter is unnamed, the temporary is a copy of
  \<^verbatim>\<open>*this\<close> and is moved back into \<^verbatim>\<open>*this\<close>.
\<close>

definition fv_assign_copy :: "'a fixed_vector \<Rightarrow> 'a fixed_vector \<Rightarrow> 'a fixed_vector" where
  "fv_assign_copy self other = (let tmp = fv_copy self in tmp)"

definition fv_at :: "'a fixed_vector \<Rightarrow> nat \<Rightarrow> 'a option" where
  "fv_at self i = (if i < fv_size self then Some (fv_data self ! i) else None)"

definition fv_is_empty :: "'a fixed_vector \<Rightarrow> bool" where
  "fv_is_empty self = (fv_size self = 0)"

definition fv_wf :: "'a fixed_vector \<Rightarrow> bool" where
  "fv_wf v \<longleftrightarrow> length (fv_data v) = fv_size v"

lemma length_fv_fill [simp]: "length (fv_fill xs n v) = length xs"
  by (induction n) auto

lemma nth_fv_fill: "n \<le> length xs \<Longrightarrow> i < n \<Longrightarrow> fv_fill xs n v ! i = v"
  by (induction n) (auto simp: nth_list_update less_Suc_eq)

lemma fv_filled_at: "i < n \<Longrightarrow> fv_at (fv_filled d n v) i = Some v"
  by (simp add: fv_at_def fv_filled_def nth_fv_fill)

text \<open>The copy assignment of \<^verbatim>\<open>FixedVector\<close> never takes over the right-hand side: on a
  well-formed vector it leaves the assigned vector as it was, whatever is assigned.\<close>

lemma fv_assign_copy_keeps_self:
  assumes "fv_wf self"
  shows "fv_assign_copy self other = self"
  using assms by (simp add: fv_assign_copy_def fv_copy_def fv_wf_def)

lemma fv_assign_copy_keeps_self_witness:
  "fv_assign_copy (fv_of_list [1, 2 :: nat]) (fv_of_list [3]) = fv_of_list [1, 2]"
  by (rule fv_assign_copy_keeps_self) (simp add: fv_wf_def fv_of_list_def)

section \<open>Fixed strings\<close>

text \<open>
  \<^verbatim>\<open>FixedString\<close> holds \<open>_size\<close> characters behind a \<^verbatim>\<open>unique_ptr\<close>; \<open>fs_data\<close> is
  \<^term>\<open>None\<close> for the null pointer. Characters are compared as \<^verbatim>\<open>char\<close>, which is signed on
  the platforms the library targets.
\<close>

record fixed_string =
  fs_size :: nat
  fs_data :: "char list option"

definition schar :: "char \<Rightarrow> int" where
  "schar c = (let n = of_char c in if n < 128 then n else n - 256)"

definition fs_of :: "char list \<Rightarrow> fixed_string" where
  "fs_of str = \<lparr>fs_size = length str, fs_data = Some str\<rparr>"

definition fs_assign_copy :: "fixed_string \<Rightarrow> fixed_string \<Rightarrow> fixed_string" where
  "fs_assign_copy self other =
     (let s1 = (if fs_size self \<noteq> fs_size other
                then \<lparr>fs_size = fs_size other, fs_data = Some (replicate (fs_size other) (CHR 0x00))\<rparr>
                else self)
      in (case fs_data other of None \<Rightarrow> s1 | Some d \<Rightarrow> s1\<lparr>fs_data := Some (take (fs_size s1) d)\<rparr>))"

definition fs_assign_move :: "fixed_string \<Rightarrow> fixed_string \<Rightarrow> fixed_string \<times> fixed_string" where
  "fs_assign_move self other =
     (\<lparr>fs_size = fs_size other, fs_data = fs_data other\<rparr>, other\<lparr>fs_data := None\<rparr>)"

definition fs_assign :: "fixed_string \<Rightarrow> char list option \<Rightarrow> fixed_string" where
  "fs_assign self str =
     (case str of None \<Rightarrow> self
      | Some d \<Rightarrow> if fs_size self = 0 then self
                  else self\<lparr>fs_data := Some (take (fs_size self) d)\<rparr>)"

text \<open>The characters of the string, the view \<^verbatim>\<open>to_string_view()\<close> returns.\<close>

definition fs_view :: "fixed_string \<Rightarrow> char list" where
  "fs_view s = (case fs_data s of None \<Rightarrow> [] | Some d \<Rightarrow> take (fs_size s) d)"

text \<open>The loop of \<^verbatim>\<open>compare\<close> over the common length, then the comparison of the sizes.\<close>

fun fs_compare :: "char list \<Rightarrow> char list \<Rightarrow> int" where
  "fs_compare (a # as) (b # bs) =
     (if schar a < schar b then -1 else if schar b < schar a then 1 else fs_compare as bs)"
| "fs_compare as bs =
     (if length bs < length as then 1 else if length as < length bs then -1 else 0)"

definition fs_wf :: "fixed_string \<Rightarrow> bool" where
  "fs_wf s \<longleftrightarrow> (case fs_data s of None \<Rightarrow> fs_size s = 0 | Some d \<Rightarrow> length d = fs_size s)"

lemma schar_inj: "schar a = schar b \<longleftrightarrow> a = b"
proof
  assume "schar a = schar b"
  moreover have "of_char a < (256 :: int)" "of_char b < (256 :: int)"
    "0 \<le> (of_char a :: int)" "0 \<le> (of_char b :: int)"
    by (simp_all add: of_char_def horner_sum_nonnegative)
  ultimately have "of_char a = (of_char b :: int)"
    by (auto simp: schar_def Let_def split: if_splits)
  then show "a = b" by simp
qed simp

lemma fs_compare_eq_0: "fs_compare a b = 0 \<longleftrightarrow> a = b"
  by (induction a b rule: fs_compare.induct) (auto simp: schar_inj not_less order.antisym)

lemma fs_compare_swap: "fs_compare b a = - fs_compare a b"
  by (induction a b rule: fs_compare.induct) auto

lemma fs_compare_nil [simp]:
  "fs_compare [] bs \<le> 0" "fs_compare bs [] \<le> 0 \<longleftrightarrow> bs = []"
  by (cases bs; simp)+

lemma fs_compare_trans:
  "fs_compare a b \<le> 0 \<Longrightarrow> fs_compare b c \<le> 0 \<Longrightarrow> fs_compare a c \<le> 0"
proof (induction a arbitrary: b c)
  case (Cons x xs)
  then obtain y ys where b: "b = y # ys" by (cases b) auto
  with Cons.prems obtain z zs where c: "c = z # zs" by (cases c) auto
  have le: "schar x \<le> schar y" "schar y \<le> schar z"
    using Cons.prems by (auto simp: b c split: if_splits)
  show ?case
  proof (cases "schar x = schar z")
    case True
    with le have "schar x = schar y" "schar y = schar z" by auto
    with Cons.IH [of ys zs] Cons.prems show ?thesis by (simp add: b c)
  qed (use le in \<open>simp add: c\<close>)
qed simp

text \<open>\<^verbatim>\<open>FixedString::compare\<close> is a three-way total order on strings: it is zero exactly for
  equal contents, swapping the operands negates it, and it is transitive.\<close>

lemma fs_compare_total_order:
  "(fs_compare a b = 0 \<longleftrightarrow> a = b) \<and> fs_compare b a = - fs_compare a b \<and>
   (fs_compare a b \<le> 0 \<and> fs_compare b c \<le> 0 \<longrightarrow> fs_compare a c \<le> 0)"
  by (intro conjI impI fs_compare_eq_0 fs_compare_swap) (blast intro: fs_compare_trans)

lemma fs_compare_total_order_witness:
  "fs_compare ''a'' ''ab'' \<le> 0 \<and> fs_compare ''ab'' ''b'' \<le> 0 \<and> fs_compare ''a'' ''b'' \<le> 0"
proof -
  have "fs_compare ''a'' ''ab'' \<le> 0" "fs_compare ''ab'' ''b'' \<le> 0"
    by (simp_all add: schar_def)
  with fs_compare_total_order [of "''a''" "''ab''" "''b''"] show ?thesis by blast
qed

end
