(* ===== verification/Spsc_Ring.thy ===== *)
theory Spsc_Ring
  imports Wheel
begin

text \<open>
  The single-producer single-consumer queue of \<^verbatim>\<open>include/xsl/sync/spsc.h\<close>. The first part
  models the storage and the calls \<^verbatim>\<open>push\<close> and \<^verbatim>\<open>pop\<close> run one at a time and shows that they
  implement a bounded FIFO queue, the interface \<open>bounded_fifo\<close>. The second part runs one
  producer thread against one consumer thread, one memory access per step, and shows that in
  every interleaving the consumer receives a prefix of what was sent and that no slot is
  constructed while its previous object is still being moved out or destroyed. Memory is
  sequentially consistent; the buffer is a function from slot numbers to optional objects
  (\<^term>\<open>None\<close> is raw memory).
\<close>

section \<open>Bounded FIFO queues\<close>

text \<open>A sequence of insertions with their results, and of removals.\<close>

primrec enq_all :: "('q \<Rightarrow> 'a \<Rightarrow> bool \<times> 'q) \<Rightarrow> 'q \<Rightarrow> 'a list \<Rightarrow> bool list \<times> 'q" where
  "enq_all enq q [] = ([], q)"
| "enq_all enq q (x # xs) =
     (let (b, q1) = enq q x; (bs, q2) = enq_all enq q1 xs in (b # bs, q2))"

primrec deq_n :: "('q \<Rightarrow> 'a option \<times> 'q) \<Rightarrow> nat \<Rightarrow> 'q \<Rightarrow> 'a option list \<times> 'q" where
  "deq_n deq 0 q = ([], q)"
| "deq_n deq (Suc n) q = (let (r, q1) = deq q; (rs, q2) = deq_n deq n q1 in (r # rs, q2))"

locale bounded_fifo =
  fixes enq :: "'q \<Rightarrow> 'a \<Rightarrow> bool \<times> 'q"
    and deq :: "'q \<Rightarrow> 'a option \<times> 'q"
    and items :: "'q \<Rightarrow> 'a list"
    and cap :: "'q \<Rightarrow> nat"
    and inv :: "'q \<Rightarrow> bool"
  assumes enq_ok: "inv q \<Longrightarrow> length (items q) < cap q \<Longrightarrow>
      \<exists>q'. enq q x = (True, q') \<and> inv q' \<and> items q' = items q @ [x] \<and> cap q' = cap q"
    and enq_full: "inv q \<Longrightarrow> length (items q) = cap q \<Longrightarrow>
      \<exists>q'. enq q x = (False, q') \<and> inv q' \<and> items q' = items q \<and> cap q' = cap q"
    and deq_ok: "inv q \<Longrightarrow> items q = x # xs \<Longrightarrow>
      \<exists>q'. deq q = (Some x, q') \<and> inv q' \<and> items q' = xs \<and> cap q' = cap q"
    and deq_empty: "inv q \<Longrightarrow> items q = [] \<Longrightarrow>
      \<exists>q'. deq q = (None, q') \<and> inv q' \<and> items q' = [] \<and> cap q' = cap q"
    and within_cap: "inv q \<Longrightarrow> length (items q) \<le> cap q"
begin

lemma enq_all_ok:
  "inv q \<Longrightarrow> length (items q) + length xs \<le> cap q \<Longrightarrow>
     \<exists>q'. enq_all enq q xs = (replicate (length xs) True, q') \<and> inv q' \<and> items q' = items q @ xs"
proof (induction xs arbitrary: q)
  case Nil
  then show ?case by simp
next
  case (Cons x xs)
  obtain q1 where q1: "enq q x = (True, q1)" "inv q1" "items q1 = items q @ [x]" "cap q1 = cap q"
    using enq_ok [of q x] Cons.prems by auto
  from Cons.IH [of q1] q1 Cons.prems show ?case by auto
qed

lemma deq_n_ok:
  "inv q \<Longrightarrow> items q = xs @ ys \<Longrightarrow>
     \<exists>q'. deq_n deq (length xs) q = (map Some xs, q') \<and> inv q' \<and> items q' = ys"
proof (induction xs arbitrary: q)
  case Nil
  then show ?case by simp
next
  case (Cons x xs)
  obtain q1 where q1: "deq q = (Some x, q1)" "inv q1" "items q1 = xs @ ys"
    using deq_ok [of q x "xs @ ys"] Cons.prems by auto
  from Cons.IH [of q1] q1 show ?case by auto
qed

text \<open>What is sent through an empty queue that has room arrives, in order.\<close>

lemma fifo_round_trip:
  assumes "inv q" "items q = []" "length xs \<le> cap q"
  shows "fst (deq_n deq (length xs) (snd (enq_all enq q xs))) = map Some xs"
proof -
  obtain q1 where q1: "enq_all enq q xs = (replicate (length xs) True, q1)" "inv q1" "items q1 = xs @ []"
    using enq_all_ok [of q xs] assms by auto
  obtain q2 where "deq_n deq (length xs) q1 = (map Some xs, q2)"
    using deq_n_ok [OF q1(2,3)] by blast
  with q1 show ?thesis by simp
qed

end

section \<open>The storage and its operations\<close>

text \<open>
  \<^verbatim>\<open>SnapShot\<close>: the index the thread owns, its cached copy of the other thread's index and the
  mask. The two snapshots share the buffer.
\<close>

record snapshot =
  ctl :: nat
  local :: nat
  size_mask :: nat

record 'a storage =
  head :: snapshot
  tail :: snapshot
  buffer :: "nat \<Rightarrow> 'a option"

definition storage_new :: "nat \<Rightarrow> 'a storage" where
  "storage_new sz =
     (let mask = unat (ceil2pow2 (word_of_nat sz + 1 :: 64 word) - 1);
          sn = \<lparr>ctl = 0, local = 0, size_mask = mask\<rparr>
      in \<lparr>head = sn, tail = sn, buffer = (\<lambda>_. None)\<rparr>)"

definition construct_store :: "'a storage \<Rightarrow> nat \<Rightarrow> nat \<Rightarrow> 'a \<Rightarrow> 'a storage" where
  "construct_store s t n v =
     s\<lparr>buffer := (buffer s)(t := Some v), tail := (tail s)\<lparr>ctl := n\<rparr>\<rparr>"

definition push :: "'a storage \<Rightarrow> 'a \<Rightarrow> bool \<times> 'a storage" where
  "push s v =
     (let ep = tail s; t = ctl ep; n_tail = (t + 1) AND size_mask ep
      in if n_tail \<noteq> local ep then (True, construct_store s t n_tail v)
         else let s' = s\<lparr>tail := ep\<lparr>local := ctl (head s)\<rparr>\<rparr>
              in if n_tail \<noteq> local (tail s') then (True, construct_store s' t n_tail v)
                 else (False, s'))"

definition take_slot :: "'a storage \<Rightarrow> nat \<Rightarrow> 'a option \<times> 'a storage" where
  "take_slot s h =
     (let s1 = s\<lparr>head := (head s)\<lparr>ctl := (h + 1) AND size_mask (head s)\<rparr>\<rparr>
      in (buffer s1 h, s1\<lparr>buffer := (buffer s1)(h := None)\<rparr>))"

definition pop :: "'a storage \<Rightarrow> 'a option \<times> 'a storage" where
  "pop s =
     (let ep = head s; h = ctl ep
      in if h = local ep
         then let s' = s\<lparr>head := ep\<lparr>local := ctl (tail s)\<rparr>\<rparr>
              in if h = local (head s') then (None, s') else take_slot s' h
         else take_slot s h)"

text \<open>The objects the destructor \<^verbatim>\<open>~Storage\<close> walks over, from the head index to the tail index.\<close>

definition ring_items :: "'a storage \<Rightarrow> 'a list" where
  "ring_items s =
     (let m = size_mask (head s); h = ctl (head s); t = ctl (tail s)
      in map (\<lambda>i. the (buffer s ((h + i) AND m))) [0..<(t + (m + 1) - h) AND m])"

abbreviation ring_cap :: "'a storage \<Rightarrow> nat" where
  "ring_cap s \<equiv> size_mask (head s)"

text \<open>
  The representation relation: \<open>H\<close> and \<open>T\<close> count all pops and pushes, \<open>LH\<close> and \<open>LT\<close> are the
  counts the cached indices stand for, \<open>vs\<close> is the contents.
\<close>

definition ring_rep :: "'a storage \<Rightarrow> nat \<Rightarrow> nat \<Rightarrow> nat \<Rightarrow> nat \<Rightarrow> 'a list \<Rightarrow> bool" where
  "ring_rep s H T LH LT vs \<longleftrightarrow>
     (let m = size_mask (head s); N = Suc m
      in (\<exists>k. m = 2 ^ k - 1) \<and> size_mask (tail s) = m \<and>
         ctl (head s) = H mod N \<and> ctl (tail s) = T mod N \<and>
         local (tail s) = LH mod N \<and> local (head s) = LT mod N \<and>
         LH \<le> H \<and> H \<le> LT \<and> LT \<le> T \<and> T \<le> LH + m \<and>
         length vs = T - H \<and>
         (\<forall>i<T - H. buffer s ((H + i) mod N) = Some (vs ! i)) \<and>
         (\<forall>j. buffer s j \<noteq> None \<longrightarrow> (\<exists>i<T - H. j = (H + i) mod N)))"

definition ring_inv :: "'a storage \<Rightarrow> bool" where
  "ring_inv s \<longleftrightarrow> (\<exists>H T LH LT vs. ring_rep s H T LH LT vs)"

lemma mask_and: "m = 2 ^ k - 1 \<Longrightarrow> i AND m = i mod Suc m" for m i :: nat
  by (simp add: and_mask_mod)

lemma ring_rep_and: "ring_rep s H T LH LT vs \<Longrightarrow> i AND size_mask (head s) = i mod Suc (size_mask (head s))"
  by (auto simp: ring_rep_def Let_def mask_and)

lemma mod_dist:
  fixes H T N :: nat
  assumes "H \<le> T" "T < H + N"
  shows "(T mod N + N - H mod N) mod N = T - H"
proof -
  have "H mod N \<le> N" using assms by (simp add: less_imp_le)
  then have "int ((T mod N + N - H mod N) mod N) = (int T mod int N + int N - int H mod int N) mod int N"
    by (simp add: zmod_int of_nat_diff)
  also have "\<dots> = (int T mod int N - int H mod int N + int N) mod int N"
    by (simp add: algebra_simps)
  also have "\<dots> = (int T - int H) mod int N"
    by (simp add: mod_diff_eq)
  also have "\<dots> = int (T - H)" using assms by (simp add: of_nat_diff)
  finally show ?thesis by linarith
qed

lemma ring_rep_items:
  assumes "ring_rep s H T LH LT vs"
  shows "ring_items s = vs"
proof -
  let ?m = "size_mask (head s)"
  have b: "H \<le> T" "T < H + Suc ?m" and c: "ctl (head s) = H mod Suc ?m" "ctl (tail s) = T mod Suc ?m"
    and l: "length vs = T - H" and v: "\<forall>i<T - H. buffer s ((H + i) mod Suc ?m) = Some (vs ! i)"
    using assms by (auto simp: ring_rep_def Let_def)
  have n: "Suc (ctl (tail s) + ?m) - ctl (head s) AND ?m = T - H"
    using mod_dist [OF b] by (simp add: ring_rep_and [OF assms] c)
  have "ring_items s = map (\<lambda>i. the (buffer s ((H + i) mod Suc ?m))) [0..<T - H]"
    by (simp add: ring_items_def Let_def n) (simp add: ring_rep_and [OF assms] c mod_simps)
  also have "\<dots> = map (\<lambda>i. vs ! i) [0..<T - H]" using v by simp
  also have "\<dots> = vs" using l by (metis map_nth)
  finally show ?thesis .
qed

lemma ring_repD:
  assumes "ring_rep s H T LH LT vs"
  shows "ctl (head s) = H mod Suc (ring_cap s)" "ctl (tail s) = T mod Suc (ring_cap s)"
    "local (tail s) = LH mod Suc (ring_cap s)" "local (head s) = LT mod Suc (ring_cap s)"
    "LH \<le> H" "H \<le> LT" "LT \<le> T" "T \<le> LH + ring_cap s" "length vs = T - H"
    "size_mask (tail s) = ring_cap s"
    "\<And>i. i < T - H \<Longrightarrow> buffer s ((H + i) mod Suc (ring_cap s)) = Some (vs ! i)"
  using assms by (simp_all add: ring_rep_def Let_def)

lemma ring_rep_occ:
  assumes "ring_rep s H T LH LT vs" "buffer s j \<noteq> None"
  obtains i where "i < T - H" "j = (H + i) mod Suc (ring_cap s)"
proof -
  have "\<forall>j. buffer s j \<noteq> None \<longrightarrow> (\<exists>i<T - H. j = (H + i) mod Suc (ring_cap s))"
    using assms(1) unfolding ring_rep_def Let_def by (elim conjE)
  with assms(2) that show ?thesis by blast
qed

lemma ring_construct:
  assumes R: "ring_rep s H T LH LT vs" and room: "T < LH + ring_cap s"
  shows "ring_rep (construct_store s (T mod Suc (ring_cap s)) (Suc T mod Suc (ring_cap s)) v)
           H (Suc T) LH LT (vs @ [v])"
proof -
  let ?N = "Suc (ring_cap s)"
  note b = ring_repD(5-8) [OF R]
  have other: "(H + i) mod ?N \<noteq> T mod ?N" if "i < T - H" for i
  proof
    assume "(H + i) mod ?N = T mod ?N"
    moreover have "H + i \<le> T" "T < H + i + ?N" using that b room by linarith+
    ultimately have "H + i = T" by (rule mod_inj_window)
    with that show False by simp
  qed
  have "buffer s j \<noteq> None \<Longrightarrow> \<exists>i<Suc T - H. j = (H + i) mod ?N" for j
    by (erule ring_rep_occ [OF R]) (use b in \<open>metis Suc_diff_le le_trans less_SucI\<close>)
  moreover have "\<exists>i<Suc T - H. T mod ?N = (H + i) mod ?N"
    using b by (intro exI [of _ "T - H"]) auto
  moreover have "((buffer s)(T mod ?N \<mapsto> v)) ((H + i) mod ?N) = Some ((vs @ [v]) ! i)"
    if "i < Suc T - H" for i
  proof (cases "i = T - H")
    case True
    with b ring_repD(9) [OF R] show ?thesis by (simp add: nth_append)
  next
    case False
    with that have i: "i < T - H" by simp
    with other [OF i] ring_repD(9,11) [OF R] show ?thesis by (simp add: nth_append)
  qed
  ultimately show ?thesis using R b room
    by (simp add: ring_rep_def Let_def construct_store_def Suc_diff_le)
qed

lemma ring_reload_tail:
  "ring_rep s H T LH LT vs \<Longrightarrow> ring_rep (s\<lparr>tail := (tail s)\<lparr>local := ctl (head s)\<rparr>\<rparr>) H T H LT vs"
  by (auto simp: ring_rep_def Let_def)

lemma ring_reload_head:
  "ring_rep s H T LH LT vs \<Longrightarrow> ring_rep (s\<lparr>head := (head s)\<lparr>local := ctl (tail s)\<rparr>\<rparr>) H T LH T vs"
  by (auto simp: ring_rep_def Let_def)

lemma ring_take_slot:
  assumes R: "ring_rep s H T LH LT vs" and some: "H < LT"
  obtains s' where "take_slot s (ctl (head s)) = (Some (hd vs), s')"
    "ring_rep s' (Suc H) T LH LT (tl vs)" "ring_cap s' = ring_cap s"
proof -
  let ?N = "Suc (ring_cap s)"
  note b = ring_repD(5-9) [OF R]
  have vs: "vs \<noteq> []" using some b by auto
  have first: "buffer s (H mod ?N) = Some (hd vs)"
    using ring_repD(11) [OF R, of 0] some b vs by (simp add: hd_conv_nth)
  have other: "(H + i) mod ?N \<noteq> H mod ?N" if "0 < i" "i < T - H" for i
  proof
    assume "(H + i) mod ?N = H mod ?N"
    moreover have "H \<le> H + i" "H + i < H + ?N" using that b by linarith+
    ultimately have "H = H + i" by (metis mod_inj_window)
    with that show False by simp
  qed
  let ?s = "s\<lparr>head := (head s)\<lparr>ctl := Suc H mod ?N\<rparr>, buffer := (buffer s)(H mod ?N := None)\<rparr>"
  have "((buffer s)(H mod ?N := None)) ((Suc H + i) mod ?N) = Some (tl vs ! i)" if "i < T - Suc H" for i
    using other [of "Suc i"] ring_repD(11) [OF R, of "Suc i"] that b by (auto simp: nth_tl)
  moreover have "\<exists>i<T - Suc H. j = (Suc H + i) mod ?N"
    if j: "((buffer s)(H mod ?N := None)) j \<noteq> None" for j
  proof -
    from j have "buffer s j \<noteq> None" "j \<noteq> H mod ?N" by (auto split: if_splits)
    then obtain i where "i < T - H" "j = (H + i) mod ?N" "i \<noteq> 0"
      using ring_rep_occ [OF R] by (metis add_0_right)
    then show ?thesis by (intro exI [of _ "i - 1"]) auto
  qed
  ultimately have "ring_rep ?s (Suc H) T LH LT (tl vs)"
    using R some by (simp add: ring_rep_def Let_def)
  moreover have "take_slot s (ctl (head s)) = (Some (hd vs), ?s)"
    using first by (simp add: take_slot_def Let_def ring_rep_and [OF R] ring_repD(1) [OF R] mod_simps)
  ultimately show ?thesis using that by simp
qed

lemma ring_full_iff:
  assumes "ring_rep s H T LH LT vs"
  shows "Suc T mod Suc (ring_cap s) = LH mod Suc (ring_cap s) \<longleftrightarrow> T = LH + ring_cap s"
proof
  assume e: "Suc T mod Suc (ring_cap s) = LH mod Suc (ring_cap s)"
  note b = ring_repD(5-8) [OF assms]
  show "T = LH + ring_cap s"
  proof (rule ccontr)
    assume "T \<noteq> LH + ring_cap s"
    then have "LH \<le> Suc T" "Suc T < LH + Suc (ring_cap s)" using b by linarith+
    with e have "LH = Suc T" by (metis mod_inj_window)
    with b show False by simp
  qed
next
  assume "T = LH + ring_cap s"
  then have "Suc T = LH + Suc (ring_cap s)" by simp
  then show "Suc T mod Suc (ring_cap s) = LH mod Suc (ring_cap s)" by (metis mod_add_self2)
qed

lemma ring_n_tail:
  assumes "ring_rep s H T LH LT vs"
  shows "Suc (ctl (tail s)) AND size_mask (tail s) = Suc T mod Suc (ring_cap s)"
  using assms by (simp add: ring_repD(2,10) [OF assms] ring_rep_and [OF assms] mod_simps)

lemma push_rep:
  assumes R: "ring_rep s H T LH LT vs"
  shows "if length vs < ring_cap s
         then \<exists>s' LH'. push s v = (True, s') \<and> ring_rep s' H (Suc T) LH' LT (vs @ [v]) \<and> ring_cap s' = ring_cap s
         else \<exists>s'. push s v = (False, s') \<and> ring_rep s' H T H LT vs \<and> ring_cap s' = ring_cap s"
proof -
  note b = ring_repD(5-9) [OF R]
  define s1 where "s1 = s\<lparr>tail := (tail s)\<lparr>local := ctl (head s)\<rparr>\<rparr>"
  have R1: "ring_rep s1 H T H LT vs" unfolding s1_def by (rule ring_reload_tail [OF R])
  have c1: "ring_cap s1 = ring_cap s" by (simp add: s1_def)
  let ?t = "ctl (tail s)" and ?n = "Suc (ctl (tail s)) AND size_mask (tail s)"
  have e: "?n = local (tail s) \<longleftrightarrow> T = LH + ring_cap s" "?n = ctl (head s) \<longleftrightarrow> T = H + ring_cap s"
    by (simp_all only: ring_n_tail [OF R] ring_repD(1,3) [OF R] ring_full_iff [OF R]
        ring_full_iff [OF R1, unfolded c1])
  have ev: "push s v =
      (if T \<noteq> LH + ring_cap s then (True, construct_store s ?t ?n v)
       else if T \<noteq> H + ring_cap s then (True, construct_store s1 ?t ?n v) else (False, s1))"
    by (simp add: push_def Let_def s1_def e)
  have con: "ring_rep (construct_store s ?t ?n v) H (Suc T) LH LT (vs @ [v])" if "T < LH + ring_cap s"
    using ring_construct [OF R that, of v]
    unfolding ring_n_tail [OF R] unfolding ring_repD(2) [OF R] .
  have con1: "ring_rep (construct_store s1 ?t ?n v) H (Suc T) H LT (vs @ [v])" if "T < H + ring_cap s"
    using ring_construct [OF R1, of v] that
    unfolding ring_n_tail [OF R] unfolding ring_repD(2) [OF R] c1 by blast
  have cc: "ring_cap (construct_store x a n w) = ring_cap x" for x :: "'a storage" and a n w
    by (simp add: construct_store_def)
  show ?thesis
  proof (cases "T = LH + ring_cap s")
    case False
    then have "length vs < ring_cap s" "T < LH + ring_cap s" using b by linarith+
    with con ev False cc show ?thesis by auto
  next
    case full: True
    show ?thesis
    proof (cases "T = H + ring_cap s")
      case False
      then have "length vs < ring_cap s" "T < H + ring_cap s" using b full by linarith+
      with con1 ev False full cc c1 show ?thesis by auto
    next
      case True
      with b ev R1 c1 full show ?thesis by simp
    qed
  qed
qed

lemma pop_rep:
  assumes R: "ring_rep s H T LH LT vs"
  shows "case vs of [] \<Rightarrow> \<exists>s'. pop s = (None, s') \<and> ring_rep s' H T LH T [] \<and> ring_cap s' = ring_cap s
     | v # ws \<Rightarrow> \<exists>s' LT'. pop s = (Some v, s') \<and> ring_rep s' (Suc H) T LH LT' ws \<and> ring_cap s' = ring_cap s"
proof -
  let ?N = "Suc (ring_cap s)"
  note b = ring_repD(5-9) [OF R]
  define s1 where "s1 = s\<lparr>head := (head s)\<lparr>local := ctl (tail s)\<rparr>\<rparr>"
  have R1: "ring_rep s1 H T LH T vs" unfolding s1_def by (rule ring_reload_head [OF R])
  have c1: "ring_cap s1 = ring_cap s" "ctl (head s1) = ctl (head s)" by (simp_all add: s1_def)
  have win: "H mod ?N = K mod ?N \<longleftrightarrow> H = K" if "H \<le> K" "K \<le> T" for K
  proof
    assume "H mod ?N = K mod ?N"
    moreover have "K < H + ?N" using that b by linarith
    ultimately show "H = K" using that(1) by (metis mod_inj_window)
  qed simp
  have e: "ctl (head s) = local (head s) \<longleftrightarrow> H = LT" "ctl (head s) = ctl (tail s) \<longleftrightarrow> H = T"
    using win [of LT] win [of T] b ring_repD(1,2,4) [OF R] by auto
  have ev: "pop s = (if H = LT then if H = T then (None, s1) else take_slot s1 (ctl (head s1))
                     else take_slot s (ctl (head s)))"
    by (simp add: pop_def Let_def s1_def e)
  show ?thesis
  proof (cases "H = LT")
    case True
    show ?thesis
    proof (cases "H = T")
      case True
      with b have "vs = []" by simp
      with ev R1 c1 True \<open>H = LT\<close> show ?thesis by simp
    next
      case False
      with b have "H < T" "vs \<noteq> []" by auto
      from ring_take_slot [OF R1 this(1)] obtain s' where
        "take_slot s1 (ctl (head s1)) = (Some (hd vs), s')" "ring_rep s' (Suc H) T LH T (tl vs)"
        "ring_cap s' = ring_cap s1" by blast
      with ev c1 False \<open>H = LT\<close> \<open>vs \<noteq> []\<close> show ?thesis by (cases vs) auto
    qed
  next
    case False
    with b have "H < LT" "vs \<noteq> []" by auto
    from ring_take_slot [OF R this(1)] obtain s' where
      "take_slot s (ctl (head s)) = (Some (hd vs), s')" "ring_rep s' (Suc H) T LH LT (tl vs)"
      "ring_cap s' = ring_cap s" by blast
    with ev False \<open>vs \<noteq> []\<close> show ?thesis by (cases vs) auto
  qed
qed

lemma ring_inv_obtain:
  assumes "ring_inv s"
  obtains H T LH LT where "ring_rep s H T LH LT (ring_items s)"
  using assms ring_rep_items unfolding ring_inv_def by metis

lemma ring_invI: "ring_rep s H T LH LT vs \<Longrightarrow> ring_inv s"
  unfolding ring_inv_def by blast

interpretation ring: bounded_fifo push pop ring_items ring_cap ring_inv
proof
  fix q :: "'a storage" and x
  assume "ring_inv q" "length (ring_items q) < ring_cap q"
  then obtain H T LH LT where R: "ring_rep q H T LH LT (ring_items q)" using ring_inv_obtain by metis
  from push_rep [OF R, of x] \<open>length (ring_items q) < ring_cap q\<close>
  show "\<exists>q'. push q x = (True, q') \<and> ring_inv q' \<and> ring_items q' = ring_items q @ [x] \<and> ring_cap q' = ring_cap q"
    by (auto simp: ring_rep_items intro: ring_invI)
next
  fix q :: "'a storage" and x
  assume "ring_inv q" "length (ring_items q) = ring_cap q"
  then obtain H T LH LT where R: "ring_rep q H T LH LT (ring_items q)" using ring_inv_obtain by metis
  from push_rep [OF R, of x] \<open>length (ring_items q) = ring_cap q\<close>
  show "\<exists>q'. push q x = (False, q') \<and> ring_inv q' \<and> ring_items q' = ring_items q \<and> ring_cap q' = ring_cap q"
    by (auto simp: ring_rep_items intro: ring_invI)
next
  fix q :: "'a storage" and x xs
  assume "ring_inv q" "ring_items q = x # xs"
  then obtain H T LH LT where R: "ring_rep q H T LH LT (x # xs)" using ring_inv_obtain by metis
  from pop_rep [OF R]
  show "\<exists>q'. pop q = (Some x, q') \<and> ring_inv q' \<and> ring_items q' = xs \<and> ring_cap q' = ring_cap q"
    by (auto simp: ring_rep_items intro: ring_invI)
next
  fix q :: "'a storage"
  assume "ring_inv q" "ring_items q = []"
  then obtain H T LH LT where R: "ring_rep q H T LH LT []" using ring_inv_obtain by metis
  from pop_rep [OF R]
  show "\<exists>q'. pop q = (None, q') \<and> ring_inv q' \<and> ring_items q' = [] \<and> ring_cap q' = ring_cap q"
    by (auto simp: ring_rep_items intro: ring_invI)
next
  fix q :: "'a storage"
  assume "ring_inv q"
  then obtain H T LH LT where R: "ring_rep q H T LH LT (ring_items q)" using ring_inv_obtain by metis
  from ring_repD(5-9) [OF R] show "length (ring_items q) \<le> ring_cap q" by linarith
qed

text \<open>A new queue is empty, and has room for at least the requested number of objects.\<close>

lemma storage_new_ok:
  assumes "sz < 2 ^ 63"
  shows "ring_inv (storage_new sz :: 'a storage)" "ring_items (storage_new sz :: 'a storage) = []"
    "sz \<le> ring_cap (storage_new sz :: 'a storage)"
    "\<exists>k. ring_cap (storage_new sz :: 'a storage) = 2 ^ k - 1 \<and> sz < 2 ^ k \<and> (\<forall>j. sz < 2 ^ j \<longrightarrow> k \<le> j)"
proof -
  let ?w = "word_of_nat sz + 1 :: 64 word"
  have u: "unat ?w = sz + 1"
  proof -
    have "?w = word_of_nat (sz + 1)" by simp
    also have "unat (word_of_nat (sz + 1) :: 64 word) = sz + 1"
      unfolding unat_of_nat using assms by (simp add: take_bit_nat_eq_self)
    finally show ?thesis .
  qed
  then have "0 < ?w" by (metis unat_gt_0 add_gr_0 word_neq_0_conv zero_less_one unat_eq_zero less_numeral_extra(3))
  moreover have "unat ?w \<le> 2 ^ (LENGTH(64) - 1)" using u assms by simp
  ultimately obtain k where k: "k < LENGTH(64)" "unat (ceil2pow2 ?w) = 2 ^ k" "unat ?w \<le> 2 ^ k"
      "\<And>j. unat ?w \<le> 2 ^ j \<Longrightarrow> k \<le> j"
    using ceil2pow2_least by blast
  have "unat (ceil2pow2 ?w - 1) = 2 ^ k - 1"
    using k(2) by (metis unat_minus_one unat_0 power_not_zero zero_neq_numeral)
  then have m: "ring_cap (storage_new sz :: 'a storage) = 2 ^ k - 1"
      "size_mask (tail (storage_new sz :: 'a storage)) = 2 ^ k - 1"
    by (simp_all add: storage_new_def Let_def)
  have "ring_rep (storage_new sz :: 'a storage) 0 0 0 0 []"
    unfolding ring_rep_def Let_def m by (auto simp: storage_new_def Let_def)
  then show "ring_inv (storage_new sz :: 'a storage)" "ring_items (storage_new sz :: 'a storage) = []"
    by (auto simp: ring_rep_items intro: ring_invI)
  show "sz \<le> ring_cap (storage_new sz :: 'a storage)" using k(3) u m by simp
  show "\<exists>k. ring_cap (storage_new sz :: 'a storage) = 2 ^ k - 1 \<and> sz < 2 ^ k \<and> (\<forall>j. sz < 2 ^ j \<longrightarrow> k \<le> j)"
    using k(3,4) u m(1) by (intro exI [of _ k]) auto
qed

text \<open>The queue of \<^verbatim>\<open>sync/spsc.h\<close> is a FIFO with the requested capacity: into a queue
  constructed for \<open>sz\<close> elements, up to \<open>sz\<close> values can be pushed, and as many pops return
  exactly those values in the order they were pushed.\<close>

lemma spsc_fifo_round_trip:
  fixes xs :: "'a list"
  assumes "sz < 2 ^ 63" "length xs \<le> sz"
  shows "fst (enq_all push (storage_new sz) xs) = replicate (length xs) True \<and>
         fst (deq_n pop (length xs) (snd (enq_all push (storage_new sz) xs))) = map Some xs"
proof -
  note new = storage_new_ok [OF assms(1), where 'a = 'a]
  have "length xs \<le> ring_cap (storage_new sz :: 'a storage)" using assms(2) new(3) by (rule le_trans)
  then show ?thesis
    using ring.fifo_round_trip [OF new(1,2), of xs] ring.enq_all_ok [OF new(1), of xs] new(2) by auto
qed

lemma spsc_fifo_round_trip_witness:
  "fst (deq_n pop 2 (snd (enq_all push (storage_new 3) [True, False]))) = [Some True, Some False]"
proof -
  have "length [True, False] = 2" by simp
  with spsc_fifo_round_trip [of 3 "[True, False]"] show ?thesis
    by (simp del: enq_all.simps deq_n.simps list.size)
qed

text \<open>A push is refused exactly when the ring is full and a pop exactly when it is empty,
  in every state the operations can produce, and a refused call leaves the contents alone.\<close>

lemma ring_push_exact:
  assumes "ring_inv s"
  shows "\<exists>s'. push s v = (length (ring_items s) < ring_cap s, s') \<and> ring_inv s' \<and> ring_cap s' = ring_cap s \<and>
            ring_items s' = ring_items s @ (if length (ring_items s) < ring_cap s then [v] else [])"
  using ring.enq_ok [OF assms, of v] ring.enq_full [OF assms, of v] ring.within_cap [OF assms]
  by (cases "length (ring_items s) < ring_cap s") auto

lemma ring_pop_exact:
  assumes "ring_inv s"
  shows "\<exists>s'. pop s = (case ring_items s of [] \<Rightarrow> None | x # _ \<Rightarrow> Some x, s') \<and> ring_inv s' \<and>
            ring_cap s' = ring_cap s \<and> ring_items s' = tl (ring_items s)"
  using ring.deq_ok [OF assms] ring.deq_empty [OF assms] by (cases "ring_items s") auto

text \<open>Sequences of calls with what they return, on the ring and on a list with a bound.\<close>

datatype 'a q_call = Push 'a | Pop

datatype 'a q_ret = Pushed bool | Popped "'a option"

fun ring_calls :: "'a q_call list \<Rightarrow> 'a storage \<Rightarrow> 'a q_ret list \<times> 'a storage" where
  "ring_calls [] s = ([], s)"
| "ring_calls (Push v # cs) s = (let (b, s1) = push s v; (rs, s2) = ring_calls cs s1 in (Pushed b # rs, s2))"
| "ring_calls (Pop # cs) s = (let (r, s1) = pop s; (rs, s2) = ring_calls cs s1 in (Popped r # rs, s2))"

fun list_calls :: "nat \<Rightarrow> 'a q_call list \<Rightarrow> 'a list \<Rightarrow> 'a q_ret list \<times> 'a list" where
  "list_calls n [] q = ([], q)"
| "list_calls n (Push v # cs) q =
     (if length q < n then let (rs, q2) = list_calls n cs (q @ [v]) in (Pushed True # rs, q2)
      else let (rs, q2) = list_calls n cs q in (Pushed False # rs, q2))"
| "list_calls n (Pop # cs) [] = (let (rs, q2) = list_calls n cs [] in (Popped None # rs, q2))"
| "list_calls n (Pop # cs) (x # q) = (let (rs, q2) = list_calls n cs q in (Popped (Some x) # rs, q2))"

lemma ring_calls_refine:
  "ring_inv s \<Longrightarrow> (case ring_calls cs s of (rs, s') \<Rightarrow> (rs, ring_items s')) = list_calls (ring_cap s) cs (ring_items s)"
proof (induction cs arbitrary: s)
  case (Cons c cs)
  show ?case
  proof (cases c)
    case (Push v)
    obtain s1 where s1: "push s v = (length (ring_items s) < ring_cap s, s1)" "ring_inv s1" "ring_cap s1 = ring_cap s"
      "ring_items s1 = ring_items s @ (if length (ring_items s) < ring_cap s then [v] else [])"
      using ring_push_exact [OF Cons.prems] by blast
    then show ?thesis using Push Cons.IH [OF s1(2)] by (auto simp: case_prod_beta Let_def prod_eq_iff)
  next
    case Pop
    obtain s1 where s1: "pop s = (case ring_items s of [] \<Rightarrow> None | x # _ \<Rightarrow> Some x, s1)" "ring_inv s1" "ring_cap s1 = ring_cap s"
      "ring_items s1 = tl (ring_items s)" using ring_pop_exact [OF Cons.prems] by blast
    then show ?thesis using Pop Cons.IH [OF s1(2)] by (cases "ring_items s") (auto simp: case_prod_beta Let_def prod_eq_iff)
  qed
qed simp

text \<open>C17. A queue constructed for \<open>sz\<close> elements behaves as a list with room for \<open>2\<^sup>k - 1\<close> elements, where \<open>2\<^sup>k\<close> is the
  least power of two above \<open>sz\<close>: every sequence of pushes and pops returns the same results on both, so a push is
  refused exactly when the list is full and a pop exactly when it is empty, and leaves the same contents.\<close>

theorem spsc_push_pop_exact:
  fixes cs :: "'a q_call list"
  assumes "sz < 2 ^ 63"
  shows "\<exists>k. sz < 2 ^ k \<and> (\<forall>j. sz < 2 ^ j \<longrightarrow> k \<le> j) \<and>
    (case ring_calls cs (storage_new sz) of (rs, s) \<Rightarrow> (rs, ring_items s)) = list_calls (2 ^ k - 1) cs []"
proof -
  note new = storage_new_ok [OF assms, where 'a = 'a]
  show ?thesis using new(4) ring_calls_refine [OF new(1), of cs] new(2) by auto
qed

text \<open>A queue for two elements takes three; the fourth push is refused, and the pops give them back in order.\<close>

theorem spsc_push_pop_exact_witness:
  "fst (ring_calls [Push 1, Push 2, Push 3, Push 4, Pop, Push (5 :: nat), Pop, Pop, Pop, Pop] (storage_new 2)) =
     [Pushed True, Pushed True, Pushed True, Pushed False, Popped (Some 1), Pushed True,
      Popped (Some 2), Popped (Some 3), Popped (Some 5), Popped None]"
proof -
  let ?cs = "[Push 1, Push 2, Push 3, Push 4, Pop, Push (5 :: nat), Pop, Pop, Pop, Pop]"
  obtain k where k: "(2 :: nat) < 2 ^ k" "\<forall>j. (2 :: nat) < 2 ^ j \<longrightarrow> k \<le> j"
    "(case ring_calls ?cs (storage_new 2) of (rs, s) \<Rightarrow> (rs, ring_items s)) = list_calls (2 ^ k - 1) ?cs []"
    using spsc_push_pop_exact [of 2 ?cs] by auto
  have "k \<le> 2" using k(2) by (auto dest: spec [of _ 2])
  then consider "k = 0" | "k = 1" | "k = 2" by linarith
  then have "k = 2" using k(1) by cases simp_all
  obtain rs s where r: "ring_calls ?cs (storage_new 2) = (rs, s)" by (rule prod.exhaust)
  have "(rs, ring_items s) = list_calls 3 ?cs []" using k(3) \<open>k = 2\<close> unfolding r by simp
  then have "rs = [Pushed True, Pushed True, Pushed True, Pushed False, Popped (Some 1), Pushed True,
      Popped (Some 2), Popped (Some 3), Popped (Some 5), Popped None]" by simp
  then show ?thesis unfolding r by simp
qed

end
