(* ===== verification/Spsc_Threads.thy ===== *)
theory Spsc_Threads
  imports Spsc_Ring
begin

text \<open>
  One producer thread calling \<^verbatim>\<open>TxTraits::push\<close> and one consumer thread calling
  \<^verbatim>\<open>RxTraits::pop\<close> on the same storage, interleaved at every access to shared memory. The
  program counters name the access a thread performs next and carry its local variables.
  \<open>sent\<close> and \<open>got\<close> are histories: the values whose push has returned \<^verbatim>\<open>true\<close> and the values
  moved out by pops, in order.
\<close>

datatype 'a push_pc = PIdle | PReload 'a nat nat | PConstruct 'a nat nat | PStore 'a nat nat

datatype pop_pc = CIdle | CReload nat | CPublish nat | CMove nat | CDestroy nat

record 'a spsc_sys =
  mem :: "'a storage"
  ppc :: "'a push_pc"
  cpc :: pop_pc
  sent :: "'a list"
  got :: "'a list"

inductive spsc_step :: "'a spsc_sys \<Rightarrow> 'a spsc_sys \<Rightarrow> bool" where
  push_start:
    "ppc s = PIdle \<Longrightarrow> t = ctl (tail (mem s)) \<Longrightarrow> n = (t + 1) AND size_mask (tail (mem s)) \<Longrightarrow>
     spsc_step s (s\<lparr>ppc := if n \<noteq> local (tail (mem s)) then PConstruct v t n else PReload v t n\<rparr>)"
| push_reload:
    "ppc s = PReload v t n \<Longrightarrow>
     spsc_step s (s\<lparr>mem := (mem s)\<lparr>tail := (tail (mem s))\<lparr>local := ctl (head (mem s))\<rparr>\<rparr>,
                    ppc := if n \<noteq> ctl (head (mem s)) then PConstruct v t n else PIdle\<rparr>)"
| push_construct:
    "ppc s = PConstruct v t n \<Longrightarrow>
     spsc_step s (s\<lparr>mem := (mem s)\<lparr>buffer := (buffer (mem s))(t := Some v)\<rparr>, ppc := PStore v t n\<rparr>)"
| push_store:
    "ppc s = PStore v t n \<Longrightarrow>
     spsc_step s (s\<lparr>mem := (mem s)\<lparr>tail := (tail (mem s))\<lparr>ctl := n\<rparr>\<rparr>, ppc := PIdle,
                    sent := sent s @ [v]\<rparr>)"
| pop_start:
    "cpc s = CIdle \<Longrightarrow> h = ctl (head (mem s)) \<Longrightarrow>
     spsc_step s (s\<lparr>cpc := if h = local (head (mem s)) then CReload h else CPublish h\<rparr>)"
| pop_reload:
    "cpc s = CReload h \<Longrightarrow>
     spsc_step s (s\<lparr>mem := (mem s)\<lparr>head := (head (mem s))\<lparr>local := ctl (tail (mem s))\<rparr>\<rparr>,
                    cpc := if h = ctl (tail (mem s)) then CIdle else CPublish h\<rparr>)"
| pop_publish:
    "cpc s = CPublish h \<Longrightarrow>
     spsc_step s (s\<lparr>mem := (mem s)\<lparr>head := (head (mem s))\<lparr>ctl := (h + 1) AND size_mask (head (mem s))\<rparr>\<rparr>,
                    cpc := CMove h\<rparr>)"
| pop_move:
    "cpc s = CMove h \<Longrightarrow> buffer (mem s) h = Some v \<Longrightarrow>
     spsc_step s (s\<lparr>cpc := CDestroy h, got := got s @ [v]\<rparr>)"
| pop_destroy:
    "cpc s = CDestroy h \<Longrightarrow>
     spsc_step s (s\<lparr>mem := (mem s)\<lparr>buffer := (buffer (mem s))(h := None)\<rparr>, cpc := CIdle\<rparr>)"

definition spsc_init :: "nat \<Rightarrow> 'a spsc_sys" where
  "spsc_init sz = \<lparr>mem = storage_new sz, ppc = PIdle, cpc = CIdle, sent = [], got = []\<rparr>"

inductive spsc_reachable :: "nat \<Rightarrow> 'a spsc_sys \<Rightarrow> bool" for sz where
  init: "spsc_reachable sz (spsc_init sz)"
| step: "spsc_reachable sz s \<Longrightarrow> spsc_step s t \<Longrightarrow> spsc_reachable sz t"

section \<open>The invariant\<close>

text \<open>How many heads have been published, how many slots destroyed, how many constructed.\<close>

definition published :: "'a spsc_sys \<Rightarrow> nat" where
  "published s = length (got s) + (case cpc s of CMove _ \<Rightarrow> 1 | _ \<Rightarrow> 0)"

definition destroyed :: "'a spsc_sys \<Rightarrow> nat" where
  "destroyed s = length (got s) - (case cpc s of CDestroy _ \<Rightarrow> 1 | _ \<Rightarrow> 0)"

definition constructed :: "'a spsc_sys \<Rightarrow> nat" where
  "constructed s = length (sent s) + (case ppc s of PStore _ _ _ \<Rightarrow> 1 | _ \<Rightarrow> 0)"

abbreviation slots :: "'a spsc_sys \<Rightarrow> nat" where
  "slots s \<equiv> Suc (size_mask (head (mem s)))"

text \<open>The indices: \<open>LH\<close> and \<open>LT\<close> are the counts the cached indices stand for.\<close>

definition idx_inv :: "'a spsc_sys \<Rightarrow> nat \<Rightarrow> nat \<Rightarrow> bool" where
  "idx_inv s LH LT \<longleftrightarrow>
     (\<exists>k. size_mask (head (mem s)) = 2 ^ k - 1) \<and> size_mask (tail (mem s)) = size_mask (head (mem s)) \<and>
     ctl (head (mem s)) = published s mod slots s \<and> ctl (tail (mem s)) = length (sent s) mod slots s \<and>
     local (tail (mem s)) = LH mod slots s \<and> local (head (mem s)) = LT mod slots s \<and>
     LH \<le> published s \<and> published s \<le> LT \<and> LT \<le> length (sent s) \<and> length (sent s) < LH + slots s"

text \<open>
  What a program counter promises: \<open>P\<close> heads are published, \<open>D\<close> slots destroyed, \<open>T\<close> values
  sent through a ring of \<open>N\<close> slots.
\<close>

fun cons_ok :: "pop_pc \<Rightarrow> nat \<Rightarrow> nat \<Rightarrow> nat \<Rightarrow> nat \<Rightarrow> bool" where
  "cons_ok CIdle P D N LT = True"
| "cons_ok (CReload h) P D N LT = (h = P mod N)"
| "cons_ok (CPublish h) P D N LT = (h = P mod N \<and> P < LT)"
| "cons_ok (CMove h) P D N LT = (h = D mod N \<and> P = Suc D)"
| "cons_ok (CDestroy h) P D N LT = (h = D mod N \<and> P = Suc D)"

fun prod_ok :: "'a push_pc \<Rightarrow> nat \<Rightarrow> nat \<Rightarrow> nat \<Rightarrow> (nat \<Rightarrow> 'a option) \<Rightarrow> bool" where
  "prod_ok PIdle T N LH buf = True"
| "prod_ok (PReload v t n) T N LH buf = (t = T mod N \<and> n = Suc T mod N)"
| "prod_ok (PConstruct v t n) T N LH buf = (t = T mod N \<and> n = Suc T mod N \<and> Suc T < LH + N)"
| "prod_ok (PStore v t n) T N LH buf =
     (t = T mod N \<and> n = Suc T mod N \<and> Suc T < LH + N \<and> buf t = Some v)"

definition pc_inv :: "'a spsc_sys \<Rightarrow> nat \<Rightarrow> nat \<Rightarrow> bool" where
  "pc_inv s LH LT \<longleftrightarrow>
     cons_ok (cpc s) (published s) (destroyed s) (slots s) LT \<and>
     prod_ok (ppc s) (length (sent s)) (slots s) LH (buffer (mem s))"

definition buf_inv :: "'a spsc_sys \<Rightarrow> bool" where
  "buf_inv s \<longleftrightarrow>
     got s = take (length (got s)) (sent s) \<and>
     (\<forall>i. destroyed s \<le> i \<longrightarrow> i < length (sent s) \<longrightarrow> buffer (mem s) (i mod slots s) = Some (sent s ! i)) \<and>
     (\<forall>j. buffer (mem s) j \<noteq> None \<longrightarrow> (\<exists>i. destroyed s \<le> i \<and> i < constructed s \<and> j = i mod slots s))"

definition spsc_inv :: "'a spsc_sys \<Rightarrow> bool" where
  "spsc_inv s \<longleftrightarrow> buf_inv s \<and> (\<exists>LH LT. idx_inv s LH LT \<and> pc_inv s LH LT)"

lemmas count_defs = published_def destroyed_def constructed_def

lemma counts_frame [simp]:
  "published (s\<lparr>ppc := p\<rparr>) = published s" "published (s\<lparr>mem := m\<rparr>) = published s"
  "published (s\<lparr>sent := x\<rparr>) = published s"
  "destroyed (s\<lparr>ppc := p\<rparr>) = destroyed s" "destroyed (s\<lparr>mem := m\<rparr>) = destroyed s"
  "destroyed (s\<lparr>sent := x\<rparr>) = destroyed s"
  "constructed (s\<lparr>cpc := c\<rparr>) = constructed s" "constructed (s\<lparr>mem := m\<rparr>) = constructed s"
  "constructed (s\<lparr>got := x\<rparr>) = constructed s"
  by (simp_all add: count_defs)

lemma published_le: "pc_inv s LH LT \<Longrightarrow> published s \<le> Suc (destroyed s)"
  by (auto simp: count_defs split: pop_pc.splits)

lemma idx_and:
  "idx_inv s LH LT \<Longrightarrow> i AND size_mask (head (mem s)) = i mod slots s"
  "idx_inv s LH LT \<Longrightarrow> i AND size_mask (tail (mem s)) = i mod slots s"
  by (auto simp: idx_inv_def mask_and)

text \<open>The slot the producer is about to construct is raw memory.\<close>

lemma construct_slot_raw:
  assumes "spsc_inv s" "ppc s = PConstruct v t n"
  shows "buffer (mem s) t = None"
proof (rule ccontr)
  assume occ: "buffer (mem s) t \<noteq> None"
  obtain LH LT where I: "idx_inv s LH LT" "pc_inv s LH LT" and B: "buf_inv s"
    using assms(1) by (auto simp: spsc_inv_def)
  from occ B obtain i where i: "destroyed s \<le> i" "i < constructed s" "t = i mod slots s"
    unfolding buf_inv_def by blast
  have T: "t = length (sent s) mod slots s" "Suc (length (sent s)) < LH + slots s"
    using I(2) assms(2) by (auto simp: pc_inv_def)
  have c: "constructed s = length (sent s)" using assms(2) by (simp add: constructed_def)
  have "LH \<le> Suc (destroyed s)"
    using published_le [OF I(2)] I(1) by (auto simp: idx_inv_def)
  then have "i \<le> length (sent s)" "length (sent s) < i + slots s" using T(2) i c by linarith+
  with i T have "i = length (sent s)" using mod_inj_window by metis
  with i c show False by simp
qed

text \<open>The slot a pop moves from holds the next value in order, until the pop destroys it.\<close>

lemma pop_slot_live:
  assumes "spsc_inv s" "cpc s = CMove h \<or> cpc s = CDestroy h"
  shows "destroyed s < length (sent s)" "buffer (mem s) h = Some (sent s ! destroyed s)"
proof -
  obtain LH LT where I: "idx_inv s LH LT" "pc_inv s LH LT" and B: "buf_inv s"
    using assms(1) by (auto simp: spsc_inv_def)
  have "destroyed s < published s \<and> h = destroyed s mod slots s"
    using assms(2) I(2) by (auto simp: pc_inv_def count_defs)
  moreover have "published s \<le> length (sent s)" using I(1) by (auto simp: idx_inv_def)
  ultimately show "destroyed s < length (sent s)" "buffer (mem s) h = Some (sent s ! destroyed s)"
    using B by (auto simp: buf_inv_def)
qed

section \<open>Every step keeps the invariant\<close>

lemma spsc_invI: "buf_inv s \<Longrightarrow> idx_inv s LH LT \<Longrightarrow> pc_inv s LH LT \<Longrightarrow> spsc_inv s"
  by (auto simp: spsc_inv_def)

lemma not_full:
  fixes T LH N :: nat
  assumes "T < LH + N" "Suc T mod N \<noteq> LH mod N"
  shows "Suc T < LH + N"
proof (rule ccontr)
  assume "\<not> ?thesis"
  with assms(1) have "Suc T = LH + N" by simp
  then show False using assms(2) by simp
qed

lemma not_empty:
  fixes H K N :: nat
  assumes "H \<le> K" "H mod N \<noteq> K mod N"
  shows "H < K"
  using assms by (cases "H = K") auto

lemma step_push_start:
  assumes "spsc_inv s" "ppc s = PIdle" "t = ctl (tail (mem s))"
    "n = (t + 1) AND size_mask (tail (mem s))"
  shows "spsc_inv (s\<lparr>ppc := if n \<noteq> local (tail (mem s)) then PConstruct v t n else PReload v t n\<rparr>)"
proof -
  obtain LH LT where I: "idx_inv s LH LT" "pc_inv s LH LT" and B: "buf_inv s"
    using assms(1) by (auto simp: spsc_inv_def)
  have t: "t = length (sent s) mod slots s" using I(1) assms(3) by (auto simp: idx_inv_def)
  have n: "n = Suc (length (sent s)) mod slots s"
    by (simp add: assms(4) idx_and(2) [OF I(1)] t mod_simps)
  have "n \<noteq> local (tail (mem s)) \<Longrightarrow> Suc (length (sent s)) < LH + slots s"
    using I(1) n not_full [of "length (sent s)" LH "slots s"] by (auto simp: idx_inv_def)
  then show ?thesis using I B assms(2) t n
    by (intro spsc_invI [of _ LH LT]) (simp_all add: buf_inv_def idx_inv_def pc_inv_def constructed_def)
qed

lemma step_push_reload:
  assumes "spsc_inv s" "ppc s = PReload v t n"
  shows "spsc_inv (s\<lparr>mem := (mem s)\<lparr>tail := (tail (mem s))\<lparr>local := ctl (head (mem s))\<rparr>\<rparr>,
                     ppc := if n \<noteq> ctl (head (mem s)) then PConstruct v t n else PIdle\<rparr>)"
proof -
  obtain LH LT where I: "idx_inv s LH LT" "pc_inv s LH LT" and B: "buf_inv s"
    using assms(1) by (auto simp: spsc_inv_def)
  have n: "n = Suc (length (sent s)) mod slots s" using I(2) assms(2) by (simp add: pc_inv_def)
  have "n \<noteq> ctl (head (mem s)) \<Longrightarrow> Suc (length (sent s)) < published s + slots s"
    using I(1) n not_full [of "length (sent s)" "published s" "slots s"] by (auto simp: idx_inv_def)
  then show ?thesis using I B assms(2)
    by (intro spsc_invI [of _ "published s" LT])
       (simp_all add: buf_inv_def idx_inv_def pc_inv_def constructed_def)
qed

lemma step_push_store:
  assumes "spsc_inv s" "ppc s = PStore v t n"
  shows "spsc_inv (s\<lparr>mem := (mem s)\<lparr>tail := (tail (mem s))\<lparr>ctl := n\<rparr>\<rparr>, ppc := PIdle,
                     sent := sent s @ [v]\<rparr>)"
proof -
  obtain LH LT where I: "idx_inv s LH LT" "pc_inv s LH LT" and B: "buf_inv s"
    using assms(1) by (auto simp: spsc_inv_def)
  have P: "n = Suc (length (sent s)) mod slots s" "Suc (length (sent s)) < LH + slots s"
    "buffer (mem s) (length (sent s) mod slots s) = Some v"
    using I(2) assms(2) by (auto simp: pc_inv_def)
  have le: "length (got s) \<le> length (sent s)" using B by (metis buf_inv_def length_take min.cobounded1)
  have "buf_inv (s\<lparr>mem := (mem s)\<lparr>tail := (tail (mem s))\<lparr>ctl := n\<rparr>\<rparr>, ppc := PIdle, sent := sent s @ [v]\<rparr>)"
    using B P(3) le assms(2) by (auto simp: buf_inv_def count_defs nth_append less_Suc_eq)
  then show ?thesis using I P assms(2)
    by (intro spsc_invI [of _ LH LT])
       (auto simp: idx_inv_def pc_inv_def)
qed

lemma step_push_construct:
  assumes "spsc_inv s" "ppc s = PConstruct v t n"
  shows "spsc_inv (s\<lparr>mem := (mem s)\<lparr>buffer := (buffer (mem s))(t := Some v)\<rparr>, ppc := PStore v t n\<rparr>)"
proof -
  obtain LH LT where I: "idx_inv s LH LT" "pc_inv s LH LT" and B: "buf_inv s"
    using assms(1) by (auto simp: spsc_inv_def)
  have raw: "buffer (mem s) t = None" using assms by (rule construct_slot_raw)
  have t: "t = length (sent s) mod slots s" using I(2) assms(2) by (simp add: pc_inv_def)
  have le: "destroyed s \<le> length (sent s)"
    using I(1) by (auto simp: idx_inv_def count_defs split: pop_pc.splits)
  let ?s = "s\<lparr>mem := (mem s)\<lparr>buffer := (buffer (mem s))(t := Some v)\<rparr>, ppc := PStore v t n\<rparr>"
  have cnt: "destroyed ?s = destroyed s" "constructed ?s = Suc (length (sent s))"
    "constructed s = length (sent s)" "slots ?s = slots s"
    using assms(2) by (simp_all add: count_defs)
  have "i mod slots s \<noteq> t" if "destroyed s \<le> i" "i < length (sent s)" for i
    using B that raw by (auto simp: buf_inv_def)
  then have "buf_inv ?s"
    using B t le unfolding buf_inv_def cnt
    by (auto split: if_splits dest: less_SucI) (metis less_SucI option.distinct(1) option.exhaust)+
  then show ?thesis using I assms(2)
    by (intro spsc_invI [of _ LH LT])
       (auto simp: idx_inv_def pc_inv_def)
qed

lemma step_pop_start:
  assumes "spsc_inv s" "cpc s = CIdle" "h = ctl (head (mem s))"
  shows "spsc_inv (s\<lparr>cpc := if h = local (head (mem s)) then CReload h else CPublish h\<rparr>)"
proof -
  obtain LH LT where I: "idx_inv s LH LT" "pc_inv s LH LT" and B: "buf_inv s"
    using assms(1) by (auto simp: spsc_inv_def)
  have c: "published (s\<lparr>cpc := CReload h\<rparr>) = published s" "published (s\<lparr>cpc := CPublish h\<rparr>) = published s"
    "destroyed (s\<lparr>cpc := CReload h\<rparr>) = destroyed s" "destroyed (s\<lparr>cpc := CPublish h\<rparr>) = destroyed s"
    using assms(2) by (simp_all add: published_def destroyed_def)
  have "h \<noteq> local (head (mem s)) \<Longrightarrow> published s < LT"
    using I(1) assms(3) not_empty [of "published s" LT "slots s"] by (auto simp: idx_inv_def)
  then show ?thesis using I B assms(2,3) c
    by (intro spsc_invI [of _ LH LT]) (auto simp: buf_inv_def idx_inv_def pc_inv_def)
qed

lemma step_pop_reload:
  assumes "spsc_inv s" "cpc s = CReload h"
  shows "spsc_inv (s\<lparr>mem := (mem s)\<lparr>head := (head (mem s))\<lparr>local := ctl (tail (mem s))\<rparr>\<rparr>,
                     cpc := if h = ctl (tail (mem s)) then CIdle else CPublish h\<rparr>)"
proof -
  obtain LH LT where I: "idx_inv s LH LT" "pc_inv s LH LT" and B: "buf_inv s"
    using assms(1) by (auto simp: spsc_inv_def)
  have c: "published (s\<lparr>mem := m, cpc := CIdle\<rparr>) = published s"
    "published (s\<lparr>mem := m, cpc := CPublish h\<rparr>) = published s"
    "destroyed (s\<lparr>mem := m, cpc := CIdle\<rparr>) = destroyed s"
    "destroyed (s\<lparr>mem := m, cpc := CPublish h\<rparr>) = destroyed s" for m
    using assms(2) by (simp_all add: published_def destroyed_def)
  have "h \<noteq> ctl (tail (mem s)) \<Longrightarrow> published s < length (sent s)"
    using I assms(2) not_empty [of "published s" "length (sent s)" "slots s"]
    by (auto simp: idx_inv_def pc_inv_def)
  then show ?thesis using I B assms(2) c
    by (intro spsc_invI [of _ LH "length (sent s)"]) (auto simp: buf_inv_def idx_inv_def pc_inv_def)
qed

lemma step_pop_publish:
  assumes "spsc_inv s" "cpc s = CPublish h"
  shows "spsc_inv (s\<lparr>mem := (mem s)\<lparr>head := (head (mem s))\<lparr>ctl := (h + 1) AND size_mask (head (mem s))\<rparr>\<rparr>,
                     cpc := CMove h\<rparr>)"
proof -
  obtain LH LT where I: "idx_inv s LH LT" "pc_inv s LH LT" and B: "buf_inv s"
    using assms(1) by (auto simp: spsc_inv_def)
  have c: "published (s\<lparr>mem := m, cpc := CMove h\<rparr>) = Suc (published s)"
    "destroyed (s\<lparr>mem := m, cpc := CMove h\<rparr>) = destroyed s" "published s = destroyed s" for m
    using assms(2) by (simp_all add: published_def destroyed_def)
  have h: "h = published s mod slots s" "published s < LT" using I(2) assms(2) by (simp_all add: pc_inv_def)
  then have "(h + 1) AND size_mask (head (mem s)) = Suc (published s) mod slots s"
    by (simp add: idx_and(1) [OF I(1)] mod_simps)
  then show ?thesis using I B h c
    by (intro spsc_invI [of _ LH LT]) (auto simp: buf_inv_def idx_inv_def pc_inv_def)
qed

lemma step_pop_move:
  assumes "spsc_inv s" "cpc s = CMove h" "buffer (mem s) h = Some v"
  shows "spsc_inv (s\<lparr>cpc := CDestroy h, got := got s @ [v]\<rparr>)"
proof -
  obtain LH LT where I: "idx_inv s LH LT" "pc_inv s LH LT" and B: "buf_inv s"
    using assms(1) by (auto simp: spsc_inv_def)
  have c: "published (s\<lparr>cpc := CDestroy h, got := got s @ [v]\<rparr>) = published s"
    "destroyed (s\<lparr>cpc := CDestroy h, got := got s @ [v]\<rparr>) = destroyed s" "destroyed s = length (got s)"
    using assms(2) by (simp_all add: published_def destroyed_def)
  have "v = sent s ! length (got s)" "length (got s) < length (sent s)"
    using pop_slot_live [OF assms(1), of h] assms(2,3) c by auto
  then have "got s @ [v] = take (Suc (length (got s))) (sent s)"
    using B by (simp add: take_Suc_conv_app_nth buf_inv_def)
  then show ?thesis using I B c assms(2)
    by (intro spsc_invI [of _ LH LT]) (auto simp: buf_inv_def idx_inv_def pc_inv_def)
qed

lemma step_pop_destroy:
  assumes "spsc_inv s" "cpc s = CDestroy h"
  shows "spsc_inv (s\<lparr>mem := (mem s)\<lparr>buffer := (buffer (mem s))(h := None)\<rparr>, cpc := CIdle\<rparr>)"
proof -
  obtain LH LT where I: "idx_inv s LH LT" "pc_inv s LH LT" and B: "buf_inv s"
    using assms(1) by (auto simp: spsc_inv_def)
  have h: "h = destroyed s mod slots s" "published s = Suc (destroyed s)"
    using I(2) assms(2) by (simp_all add: pc_inv_def)
  have c: "published (s\<lparr>mem := m, cpc := CIdle\<rparr>) = published s"
    "destroyed (s\<lparr>mem := m, cpc := CIdle\<rparr>) = Suc (destroyed s)" for m
    using assms(2) h(2) by (simp_all add: published_def destroyed_def)
  have win: "i mod slots s \<noteq> h" if "Suc (destroyed s) \<le> i" "i < constructed s" for i
  proof
    assume e: "i mod slots s = h"
    have "constructed s < LH + slots s" "LH \<le> Suc (destroyed s)"
      using I h(2) by (auto simp: constructed_def idx_inv_def pc_inv_def split: push_pc.splits)
    then have "destroyed s \<le> i" "i < destroyed s + slots s" using that by linarith+
    with e h(1) have "destroyed s = i" by (metis mod_inj_window)
    with that show False by simp
  qed
  let ?s = "s\<lparr>mem := (mem s)\<lparr>buffer := (buffer (mem s))(h := None)\<rparr>, cpc := CIdle\<rparr>"
  have T: "length (sent s) \<le> constructed s" by (simp add: constructed_def)
  have occ: "\<exists>i\<ge>Suc (destroyed s). i < constructed s \<and> j = i mod slots s"
    if "buffer (mem s) j \<noteq> None" "j \<noteq> h" for j
  proof -
    obtain i where "destroyed s \<le> i" "i < constructed s" "j = i mod slots s"
      using B \<open>buffer (mem s) j \<noteq> None\<close> unfolding buf_inv_def by blast
    moreover have "i \<noteq> destroyed s" using \<open>j \<noteq> h\<close> h(1) \<open>j = i mod slots s\<close> by blast
    ultimately show ?thesis by (metis Suc_leI le_neq_implies_less)
  qed
  have "buf_inv ?s"
    using B win T occ unfolding buf_inv_def c by (auto simp: Suc_le_eq split: if_splits)
  moreover have "prod_ok (ppc s) (length (sent s)) (slots s) LH ((buffer (mem s))(h := None))"
    using I h(2) win [of "length (sent s)"]
    by (cases "ppc s") (auto simp: pc_inv_def idx_inv_def constructed_def)
  ultimately show ?thesis using I c
    by (intro spsc_invI [of _ LH LT]) (auto simp: idx_inv_def pc_inv_def)
qed

lemma spsc_step_inv: "spsc_step s t \<Longrightarrow> spsc_inv s \<Longrightarrow> spsc_inv t"
  by (induction rule: spsc_step.induct)
     (blast intro: step_push_start step_push_reload step_push_construct step_push_store
        step_pop_start step_pop_reload step_pop_publish step_pop_move step_pop_destroy)+

lemma spsc_init_inv:
  assumes "sz < 2 ^ 63"
  shows "spsc_inv (spsc_init sz :: 'a spsc_sys)"
proof -
  obtain H T LH LT where R: "ring_rep (storage_new sz :: 'a storage) H T LH LT []"
    using storage_new_ok [OF assms, where 'a = 'a] ring_inv_obtain by metis
  then obtain k where k: "size_mask (head (storage_new sz :: 'a storage)) = 2 ^ k - 1"
    unfolding ring_rep_def Let_def by blast
  show ?thesis
    by (rule spsc_invI [of _ 0 0])
       (use k in \<open>auto simp: spsc_init_def storage_new_def Let_def buf_inv_def idx_inv_def pc_inv_def count_defs\<close>)
qed

lemma spsc_reachable_inv:
  "spsc_reachable sz s \<Longrightarrow> sz < 2 ^ 63 \<Longrightarrow> spsc_inv s"
  by (induction rule: spsc_reachable.induct) (auto simp: spsc_init_inv intro: spsc_step_inv)

section \<open>What the threads observe\<close>

text \<open>The mask never changes.\<close>

lemma reachable_slots: "spsc_reachable sz s \<Longrightarrow> ring_cap (mem s) = ring_cap (storage_new sz :: 'a storage)" for s :: "'a spsc_sys"
proof (induction rule: spsc_reachable.induct)
  case (step s t)
  from step(2,3) show ?case by cases auto
qed (simp add: spsc_init_def)

text \<open>C5. Under every interleaving of one producer and one consumer, at every access to shared
  memory, the values popped so far are a prefix of the values pushed so far: none is lost,
  duplicated, reordered or torn.  The values pushed and not yet popped are at most as many as the queue has
  room for; while a pop has published its head and not yet moved the value out, there may be that one more.\<close>

theorem spsc_concurrent_fifo:
  fixes s :: "'a spsc_sys"
  assumes "spsc_reachable sz s" "sz < 2 ^ 63"
  shows "prefix (got s) (sent s) \<and>
    length (sent s) \<le> length (got s) + ring_cap (storage_new sz :: 'a storage) + (case cpc s of CMove _ \<Rightarrow> 1 | _ \<Rightarrow> 0)"
proof -
  have I: "spsc_inv s" by (rule spsc_reachable_inv [OF assms])
  then obtain LH LT where "idx_inv s LH LT" by (auto simp: spsc_inv_def)
  then have "length (sent s) \<le> published s + ring_cap (mem s)" by (auto simp: idx_inv_def)
  then have "length (sent s) \<le> length (got s) + ring_cap (storage_new sz :: 'a storage) + (case cpc s of CMove _ \<Rightarrow> 1 | _ \<Rightarrow> 0)"
    using reachable_slots [OF assms(1)] by (simp add: published_def)
  moreover have "prefix (got s) (sent s)" using I by (metis spsc_inv_def buf_inv_def take_is_prefix)
  ultimately show ?thesis by blast
qed

text \<open>C10. Although \<^verbatim>\<open>pop\<close> publishes the new head before it moves the object out, no object is
  overwritten or read raw: the slot a push constructs into is always raw memory, and the slot
  a pop moves from and destroys always holds the next value in order.\<close>

theorem spsc_no_slot_conflict:
  assumes "spsc_reachable sz s" "sz < 2 ^ 63"
  shows "(\<forall>v t n. ppc s = PConstruct v t n \<longrightarrow> buffer (mem s) t = None) \<and>
         (\<forall>h. cpc s = CMove h \<longrightarrow> buffer (mem s) h = Some (sent s ! length (got s))) \<and>
         (\<forall>h. cpc s = CDestroy h \<longrightarrow> buffer (mem s) h = Some (last (got s)))"
proof -
  have I: "spsc_inv s" using assms by (rule spsc_reachable_inv)
  have "buffer (mem s) h = Some (last (got s))" if "cpc s = CDestroy h" for h
  proof -
    have g: "got s = take (length (got s)) (sent s)" using I by (simp add: spsc_inv_def buf_inv_def)
    have "destroyed s = length (got s) - 1" "got s \<noteq> []"
      using that I by (auto simp: destroyed_def published_def spsc_inv_def pc_inv_def)
    then have "sent s ! destroyed s = last (got s)"
      by (metis g diff_less length_greater_0_conv less_numeral_extra(1) nth_take last_conv_nth)
    with pop_slot_live(2) [OF I, of h] that show ?thesis by simp
  qed
  moreover have "destroyed s = length (got s)" if "cpc s = CMove h" for h
    using that by (simp add: destroyed_def)
  ultimately show ?thesis
    using construct_slot_raw [OF I] pop_slot_live(2) [OF I] by auto
qed

text \<open>A run of both threads: the producer sends a value, and the consumer takes it and has published its head.\<close>

lemma spsc_run_example:
  "\<exists>s. spsc_reachable 1 s \<and> sent s = [True] \<and> got s = [] \<and> cpc s = CMove 0"
proof -
  let ?i = "spsc_init 1 :: bool spsc_sys"
  have m: "size_mask (tail (mem ?i)) = 1" "ctl (tail (mem ?i)) = 0" "local (tail (mem ?i)) = 0"
    "size_mask (head (mem ?i)) = 1" "ctl (head (mem ?i)) = 0" "local (head (mem ?i)) = 0"
    by (simp_all add: spsc_init_def storage_new_def Let_def ceil2pow2_def smear.simps)
  have "spsc_step ?i (?i\<lparr>ppc := PConstruct True 0 1\<rparr>)" (is "spsc_step _ ?a")
    using push_start [of ?i 0 1 True] m by (simp add: spsc_init_def)
  moreover have "spsc_step ?a (?a\<lparr>mem := (mem ?a)\<lparr>buffer := (buffer (mem ?a))(0 := Some True)\<rparr>, ppc := PStore True 0 1\<rparr>)"
    (is "spsc_step _ ?b") by (rule push_construct) simp
  moreover have "spsc_step ?b (?b\<lparr>mem := (mem ?b)\<lparr>tail := (tail (mem ?b))\<lparr>ctl := 1\<rparr>\<rparr>, ppc := PIdle, sent := sent ?b @ [True]\<rparr>)"
    (is "spsc_step _ ?c") by (rule push_store) simp
  moreover have "spsc_step ?c (?c\<lparr>cpc := CReload 0\<rparr>)" (is "spsc_step _ ?d")
    using pop_start [of ?c 0] m by (simp add: spsc_init_def)
  moreover have "spsc_step ?d (?d\<lparr>mem := (mem ?d)\<lparr>head := (head (mem ?d))\<lparr>local := 1\<rparr>\<rparr>, cpc := CPublish 0\<rparr>)" (is "spsc_step _ ?e")
    using pop_reload [of ?d 0] by simp
  moreover have "spsc_step ?e (?e\<lparr>mem := (mem ?e)\<lparr>head := (head (mem ?e))\<lparr>ctl := 1\<rparr>\<rparr>, cpc := CMove 0\<rparr>)" (is "spsc_step _ ?f")
    using pop_publish [of ?e 0] m by simp
  ultimately have "spsc_reachable 1 ?f" by (meson spsc_reachable.intros)
  then show ?thesis by (intro exI [of _ ?f]) (simp add: spsc_init_def)
qed

theorem spsc_concurrent_fifo_witness:
  "\<exists>s :: bool spsc_sys. spsc_reachable 1 s \<and> sent s = [True] \<and> prefix (got s) (sent s) \<and>
     length (sent s) \<le> length (got s) + ring_cap (storage_new 1 :: bool storage) + 1"
proof -
  obtain s :: "bool spsc_sys" where s: "spsc_reachable 1 s" "sent s = [True]" "cpc s = CMove 0" using spsc_run_example by blast
  with spsc_concurrent_fifo [OF s(1)] show ?thesis by auto
qed

theorem spsc_no_slot_conflict_witness:
  "\<exists>s :: bool spsc_sys. spsc_reachable 1 s \<and> cpc s = CMove 0 \<and> buffer (mem s) 0 = Some True"
proof -
  obtain s :: "bool spsc_sys" where s: "spsc_reachable 1 s" "sent s = [True]" "got s = []" "cpc s = CMove 0" using spsc_run_example by blast
  with spsc_no_slot_conflict [OF s(1)] show ?thesis by auto
qed

end
