(* ===== verification/Spsc_Lifetime.thy ===== *)
theory Spsc_Lifetime
  imports Spsc_Ring
begin

text \<open>
  The life of a queue (\<^verbatim>\<open>include/xsl/sync/spsc.h\<close>, and the storage of \<^verbatim>\<open>include/xsl/coro/channel/spsc.h\<close>, which is destroyed in the same
  way): the queue object \<^verbatim>\<open>spsc\<close>, the ends \<^verbatim>\<open>Tx\<close> and \<^verbatim>\<open>Rx\<close> it is split into, which share the storage, and the
  destructor of the storage, which runs with the last of them.  The lemmas show that the destructor's walk ends
  and destroys exactly the objects that are in the queue, so that every object accepted by \<^verbatim>\<open>push\<close> is either
  handed out or destroyed, once.
\<close>

section \<open>The destructor\<close>

text \<open>The walk from the head index to the tail index; \<^term>\<open>None\<close> is a walk that destroys raw memory or never ends.\<close>

partial_function (option) destroy_walk :: "nat \<Rightarrow> nat \<Rightarrow> nat \<Rightarrow> (nat \<Rightarrow> 'a option) \<Rightarrow> ('a list \<times> (nat \<Rightarrow> 'a option)) option" where
  "destroy_walk msk n i buf =
     (if i = n then Some ([], buf)
      else case buf i of
             None \<Rightarrow> None
           | Some v \<Rightarrow> Option.bind (destroy_walk msk n ((i + 1) AND msk) (buf(i := None))) (\<lambda>(vs, b). Some (v # vs, b)))"

declare destroy_walk.simps [code]

text \<open>\<^verbatim>\<open>~Storage\<close>: the objects destroyed and the memory that is given back.\<close>

definition storage_destroy :: "'a storage \<Rightarrow> ('a list \<times> (nat \<Rightarrow> 'a option)) option" where
  "storage_destroy s = destroy_walk (size_mask (head s)) (ctl (tail s)) (ctl (head s)) (buffer s)"

text \<open>The channel's storage passes the two indices to a callback that holds the mask and the buffer.\<close>

definition destructor_callback :: "nat \<Rightarrow> (nat \<Rightarrow> 'a option) \<Rightarrow> nat \<Rightarrow> nat \<Rightarrow> ('a list \<times> (nat \<Rightarrow> 'a option)) option" where
  "destructor_callback msk buf i n = destroy_walk msk n i buf"

definition channel_destroy :: "'a storage \<Rightarrow> ('a list \<times> (nat \<Rightarrow> 'a option)) option" where
  "channel_destroy s = destructor_callback (size_mask (head s)) (buffer s) (ctl (head s)) (ctl (tail s))"

section \<open>The queue and its ends\<close>

text \<open>The objects that share the storage are counted; \<open>destroyed\<close> is what the destructor got rid of, once it ran.\<close>

record 'a spsc_queue =
  sq_storage :: "'a storage"
  sq_refs :: nat
  sq_destroyed :: "'a list option"

definition spsc_new :: "nat \<Rightarrow> 'a spsc_queue" where
  "spsc_new n = \<lparr>sq_storage = storage_new n, sq_refs = 1, sq_destroyed = None\<rparr>"

definition spsc_push :: "'a \<Rightarrow> 'a spsc_queue \<Rightarrow> bool \<times> 'a spsc_queue" where
  "spsc_push v q = (let (b, s) = push (sq_storage q) v in (b, q\<lparr>sq_storage := s\<rparr>))"

definition spsc_pop :: "'a spsc_queue \<Rightarrow> 'a option \<times> 'a spsc_queue" where
  "spsc_pop q = (let (r, s) = pop (sq_storage q) in (r, q\<lparr>sq_storage := s\<rparr>))"

text \<open>\<^verbatim>\<open>split\<close>: one end copies the pointer and the other takes it, so the queue object that is left has none.\<close>

definition spsc_split :: "'a spsc_queue \<Rightarrow> 'a spsc_queue" where
  "spsc_split q = q\<lparr>sq_refs := sq_refs q + 1\<rparr>"

text \<open>The operation of \<^verbatim>\<open>Tx\<close>, named \<^verbatim>\<open>pop\<close>, pushes; that of \<^verbatim>\<open>Rx\<close>, named \<^verbatim>\<open>push\<close>, pops.\<close>

definition Tx_pop :: "'a \<Rightarrow> 'a spsc_queue \<Rightarrow> bool \<times> 'a spsc_queue" where
  "Tx_pop v q = (let (b, s) = push (sq_storage q) v in (b, q\<lparr>sq_storage := s\<rparr>))"

definition Rx_push :: "'a spsc_queue \<Rightarrow> 'a option \<times> 'a spsc_queue" where
  "Rx_push q = (let (r, s) = pop (sq_storage q) in (r, q\<lparr>sq_storage := s\<rparr>))"

text \<open>An end, or the queue object, goes away; the last one destroys the storage.\<close>

definition spsc_drop :: "'a spsc_queue \<Rightarrow> 'a spsc_queue option" where
  "spsc_drop q =
     (if sq_refs q = 1
      then map_option (\<lambda>(vs, b). q\<lparr>sq_refs := 0, sq_destroyed := Some vs, sq_storage := (sq_storage q)\<lparr>buffer := b\<rparr>\<rparr>)
             (storage_destroy (sq_storage q))
      else Some (q\<lparr>sq_refs := sq_refs q - 1\<rparr>))"

section \<open>What is destroyed\<close>

lemma walk_items:
  "ring_rep s H T LH T vs \<Longrightarrow> storage_destroy s = Some (vs, \<lambda>_. None)"
proof (induction vs arbitrary: s H)
  case Nil
  have "H = T" using ring_repD(6,7,9) [OF Nil] by simp
  moreover have "buffer s = (\<lambda>_. None)"
    using ring_rep_occ [OF Nil] \<open>H = T\<close> by (metis diff_self_eq_0 not_less0 ext)
  ultimately show ?case using ring_repD(1,2) [OF Nil] by (simp add: storage_destroy_def destroy_walk.simps)
next
  case (Cons v vs)
  note d = ring_repD [OF Cons.prems]
  have lt: "H < T" using d(5-7,9) by simp
  obtain s' where s': "take_slot s (ctl (head s)) = (Some (hd (v # vs)), s')" "ring_rep s' (Suc H) T LH T (tl (v # vs))"
    using ring_take_slot [OF Cons.prems lt] by metis
  have e: "buffer s (ctl (head s)) = Some v" "buffer s' = (buffer s)(ctl (head s) := None)" "tail s' = tail s"
    "head s' = (head s)\<lparr>ctl := (ctl (head s) + 1) AND size_mask (head s)\<rparr>"
    using s'(1) by (auto simp: take_slot_def Let_def)
  have "H mod Suc (ring_cap s) \<noteq> T mod Suc (ring_cap s)"
    using mod_inj_window [where a = H and b = T and N = "Suc (ring_cap s)"] lt d(5,8) by linarith
  then have "ctl (head s) \<noteq> ctl (tail s)" using d(1,2) by simp
  moreover have "storage_destroy s' = Some (vs, \<lambda>_. None)" using Cons.IH [of s' "Suc H"] s'(2) by simp
  ultimately show ?case using e by (simp add: storage_destroy_def destroy_walk.simps [of _ _ "ctl (head s)"])
qed

text \<open>The destructor ends, and the objects it destroys are those in the queue, in order; no other memory held an object.\<close>

lemma storage_destroy_items:
  assumes "ring_inv s"
  shows "storage_destroy s = Some (ring_items s, \<lambda>_. None)"
proof -
  obtain H T LH LT where r: "ring_rep s H T LH LT (ring_items s)" using ring_inv_obtain [OF assms] .
  from walk_items [OF ring_reload_head [OF r]] show ?thesis by (simp add: storage_destroy_def)
qed

lemma channel_destroy_items: "ring_inv s \<Longrightarrow> channel_destroy s = Some (ring_items s, \<lambda>_. None)"
  using storage_destroy_items by (simp add: channel_destroy_def destructor_callback_def storage_destroy_def)

section \<open>Every object is accounted for\<close>

text \<open>A life of a queue: operations through its ends, and ends that go away.  The run gives the objects accepted and those
  handed out; \<^term>\<open>None\<close> is an operation through an end that does not exist, or a destructor that went wrong.\<close>

datatype 'a queue_op = QPush 'a | QPop | QSplit | QDrop

fun queue_run :: "'a queue_op list \<Rightarrow> 'a spsc_queue \<Rightarrow> ('a list \<times> 'a list \<times> 'a spsc_queue) option" where
  "queue_run [] q = Some ([], [], q)"
| "queue_run (QPush v # ops) q =
     (if sq_refs q = 0 then None
      else let (b, q1) = spsc_push v q in map_option (\<lambda>(ins, outs, q2). (if b then v # ins else ins, outs, q2)) (queue_run ops q1))"
| "queue_run (QPop # ops) q =
     (if sq_refs q = 0 then None
      else let (r, q1) = spsc_pop q
           in map_option (\<lambda>(ins, outs, q2). (ins, case r of None \<Rightarrow> outs | Some v \<Rightarrow> v # outs, q2)) (queue_run ops q1))"
| "queue_run (QSplit # ops) q = (if sq_refs q = 0 then None else queue_run ops (spsc_split q))"
| "queue_run (QDrop # ops) q = (if sq_refs q = 0 then None else Option.bind (spsc_drop q) (queue_run ops))"

text \<open>What is left in the queue, or was destroyed with it.\<close>

definition left_over :: "'a spsc_queue \<Rightarrow> 'a list" where
  "left_over q = (case sq_destroyed q of None \<Rightarrow> ring_items (sq_storage q) | Some vs \<Rightarrow> vs)"

definition queue_ok :: "'a spsc_queue \<Rightarrow> bool" where
  "queue_ok q \<longleftrightarrow> (if sq_refs q = 0 then sq_destroyed q \<noteq> None \<and> buffer (sq_storage q) = (\<lambda>_. None) else sq_destroyed q = None \<and> ring_inv (sq_storage q))"

lemma push_left:
  assumes "queue_ok q" "sq_refs q \<noteq> 0" "spsc_push v q = (b, q1)"
  shows "queue_ok q1 \<and> sq_refs q1 = sq_refs q \<and> left_over q1 = left_over q @ (if b then [v] else [])"
proof -
  have i: "ring_inv (sq_storage q)" "sq_destroyed q = None" using assms(1,2) by (simp_all add: queue_ok_def)
  obtain s where s: "push (sq_storage q) v = (b, s)" "q1 = q\<lparr>sq_storage := s\<rparr>"
    using assms(3) by (auto simp: spsc_push_def split: prod.splits)
  show ?thesis using ring.enq_ok [OF i(1), of v] ring.enq_full [OF i(1), of v] ring.within_cap [OF i(1)] s i(2) assms(2)
    by (cases "length (ring_items (sq_storage q)) < ring_cap (sq_storage q)") (auto simp: queue_ok_def left_over_def)
qed

lemma pop_left:
  assumes "queue_ok q" "sq_refs q \<noteq> 0" "spsc_pop q = (r, q1)"
  shows "queue_ok q1 \<and> sq_refs q1 = sq_refs q \<and> left_over q = (case r of None \<Rightarrow> [] | Some v \<Rightarrow> [v]) @ left_over q1"
proof -
  have i: "ring_inv (sq_storage q)" "sq_destroyed q = None" using assms(1,2) by (simp_all add: queue_ok_def)
  obtain s where s: "pop (sq_storage q) = (r, s)" "q1 = q\<lparr>sq_storage := s\<rparr>"
    using assms(3) by (auto simp: spsc_pop_def split: prod.splits)
  show ?thesis using ring.deq_ok [OF i(1)] ring.deq_empty [OF i(1)] s i(2) assms(2)
    by (cases "ring_items (sq_storage q)") (auto simp: queue_ok_def left_over_def)
qed

lemma drop_left:
  assumes "queue_ok q" "sq_refs q \<noteq> 0"
  shows "\<exists>q1. spsc_drop q = Some q1 \<and> queue_ok q1 \<and> sq_refs q1 = sq_refs q - 1 \<and> left_over q1 = left_over q"
  using assms storage_destroy_items [of "sq_storage q"] by (auto simp: spsc_drop_def queue_ok_def left_over_def)

lemma queue_run_alive: "queue_run (x # ops) q = Some r \<Longrightarrow> sq_refs q \<noteq> 0"
  by (cases x) (auto split: if_splits)

lemma queue_run_accounts:
  "queue_ok q \<Longrightarrow> queue_run ops q = Some (ins, outs, q') \<Longrightarrow> queue_ok q' \<and> left_over q @ ins = outs @ left_over q'"
proof (induction ops arbitrary: q ins outs)
  case (Cons x ops)
  note n = queue_run_alive [OF Cons.prems(2)]
  show ?case
  proof (cases x)
    case (QPush v)
    obtain b q1 where p: "spsc_push v q = (b, q1)" by (cases "spsc_push v q")
    obtain ins' where r: "queue_run ops q1 = Some (ins', outs, q')" "ins = (if b then v # ins' else ins')"
      using Cons.prems(2) n p QPush by auto
    from push_left [OF Cons.prems(1) n p] Cons.IH [OF _ r(1)] r(2) show ?thesis by (cases b) auto
  next
    case QPop
    obtain y q1 where p: "spsc_pop q = (y, q1)" by (cases "spsc_pop q")
    obtain outs' where r: "queue_run ops q1 = Some (ins, outs', q')" "outs = (case y of None \<Rightarrow> outs' | Some v \<Rightarrow> v # outs')"
      using Cons.prems(2) n p QPop by auto
    from pop_left [OF Cons.prems(1) n p] Cons.IH [OF _ r(1)] r(2) show ?thesis by (cases y) auto
  next
    case QSplit
    have "queue_ok (spsc_split q)" "left_over (spsc_split q) = left_over q"
      using Cons.prems(1) n by (simp_all add: spsc_split_def queue_ok_def left_over_def)
    then show ?thesis using Cons.IH [of "spsc_split q"] Cons.prems(2) n QSplit by simp
  next
    case QDrop
    obtain q1 where q1: "spsc_drop q = Some q1" "queue_ok q1" "left_over q1 = left_over q" using drop_left [OF Cons.prems(1) n] by blast
    then show ?thesis using Cons.IH [OF q1(2)] Cons.prems(2) n QDrop by simp
  qed
qed simp

text \<open>C27. Whatever is done with a queue through its ends, when the last of them is gone the objects accepted are, in order, those handed
  out followed by those destroyed: none is lost, none handed out or destroyed twice, and no memory of the
  queue holds an object any more.\<close>

theorem spsc_objects_accounted:
  assumes "n < 2 ^ 63" "queue_run ops (spsc_new n) = Some (ins, outs, q)" "sq_refs q = 0"
  shows "\<exists>gone. sq_destroyed q = Some gone \<and> ins = outs @ gone \<and> buffer (sq_storage q) = (\<lambda>_. None)"
proof -
  note new = storage_new_ok [OF assms(1), where 'a = 'a]
  have "queue_ok (spsc_new n :: 'a spsc_queue)" "left_over (spsc_new n :: 'a spsc_queue) = []"
    using new by (simp_all add: queue_ok_def spsc_new_def left_over_def)
  from queue_run_accounts [OF this(1) assms(2)] this(2) assms(3) show ?thesis by (auto simp: queue_ok_def left_over_def)
qed

theorem spsc_objects_accounted_witness:
  "\<exists>q. queue_run [QPush (1 :: nat), QSplit, QPush 2, QPop, QDrop, QPush 3, QDrop] (spsc_new 3) = Some ([1, 2, 3], [1], q) \<and> sq_destroyed q = Some [2, 3]"
proof -
  let ?ops = "[QPush (1 :: nat), QSplit, QPush 2, QPop, QDrop, QPush 3, QDrop]"
  have e: "map_option (\<lambda>(ins, outs, q). (ins, outs, sq_refs q)) (queue_run ?ops (spsc_new 3)) = Some ([1, 2, 3], [1], 0)"
    by code_simp
  then obtain q where q: "queue_run ?ops (spsc_new 3) = Some ([1, 2, 3], [1], q)" "sq_refs q = 0" by auto
  with spsc_objects_accounted [OF _ q] show ?thesis by auto
qed

end
