(* ===== verification/Coro_Signal.thy ===== *)
theory Coro_Signal
  imports Net_Prelude
begin

text \<open>
  The two signal tiers of \<^verbatim>\<open>include/xsl/coro/signal/core.h\<close>. A signal wakes one consumer
  coroutine. The state word is one of four sentinels and the continuation is kept in the signal;
  an operation that invokes a continuation returns it as an output. The first sections run each
  operation to completion and compare both tiers with the contract the header states. The last
  section splits the operations of the atomic tier at each access to shared memory.
\<close>

section \<open>State\<close>

datatype sig_state = IDLE | SIGNALED | STOPPED | WAITING

record 'h signal =
  state :: sig_state
  handle :: "'h option"

definition signal_new :: "'h signal" where
  "signal_new = \<lparr>state = IDLE, handle = None\<rparr>"

datatype 'h sig_op = Await 'h | Release | Stop

text \<open>What a caller observes: an await suspends or returns a value, a producer resumes a handle or not.\<close>

datatype 'h sig_out = Suspended | Returned bool | Woke "'h option" | Quiet

section \<open>\<^verbatim>\<open>UnsafeSignal\<close>\<close>

definition us_await_ready :: "'h signal \<Rightarrow> bool \<times> 'h signal" where
  "us_await_ready s =
     (if state s = SIGNALED then (True, s\<lparr>state := IDLE\<rparr>) else (state s = STOPPED, s))"

definition us_await_suspend :: "'h \<Rightarrow> 'h signal \<Rightarrow> bool \<times> 'h signal" where
  "us_await_suspend h s = (True, s\<lparr>handle := Some h, state := WAITING\<rparr>)"

definition us_await_resume :: "'h signal \<Rightarrow> bool" where
  "us_await_resume s \<longleftrightarrow> state s \<noteq> STOPPED"

definition us_release :: "'h signal \<Rightarrow> 'h sig_out \<times> 'h signal" where
  "us_release s =
     (if state s = IDLE then (Quiet, s\<lparr>state := SIGNALED\<rparr>)
      else if state s \<noteq> WAITING then (Quiet, s)
      else (Woke (handle s), s\<lparr>state := IDLE\<rparr>))"

definition us_stop :: "'h signal \<Rightarrow> 'h sig_out \<times> 'h signal" where
  "us_stop s =
     (if state s = STOPPED then (Quiet, s)
      else (if state s = WAITING then Woke (handle s) else Quiet, s\<lparr>state := STOPPED\<rparr>))"

definition us_stopped :: "'h signal \<Rightarrow> bool" where
  "us_stopped s \<longleftrightarrow> state s = STOPPED"

section \<open>\<^verbatim>\<open>MPSCSignal\<close>, each operation run to completion\<close>

definition exchange :: "sig_state \<Rightarrow> 'h signal \<Rightarrow> sig_state \<times> 'h signal" where
  "exchange v s = (state s, s\<lparr>state := v\<rparr>)"

definition ms_await_ready :: "'h signal \<Rightarrow> bool \<times> 'h signal" where
  "ms_await_ready s =
     (if state s = SIGNALED
      then (True, if state s = SIGNALED then s\<lparr>state := IDLE\<rparr> else s)
      else (state s = STOPPED, s))"

definition ms_await_suspend :: "'h \<Rightarrow> 'h signal \<Rightarrow> bool \<times> 'h signal" where
  "ms_await_suspend h s =
     (let (old, s1) = exchange WAITING (s\<lparr>handle := Some h\<rparr>)
      in if old = IDLE then (True, s1)
         else let (got, s2) = exchange (if old = STOPPED then STOPPED else IDLE) s1
              in (got \<noteq> WAITING, s2))"

definition ms_await_resume :: "'h signal \<Rightarrow> bool" where
  "ms_await_resume s \<longleftrightarrow> state s \<noteq> STOPPED"

definition ms_release :: "'h signal \<Rightarrow> 'h sig_out \<times> 'h signal" where
  "ms_release s =
     (let (old, s1) = exchange SIGNALED s
      in if old = IDLE \<or> old = SIGNALED then (Quiet, s1)
         else if old = STOPPED then (Quiet, s1\<lparr>state := STOPPED\<rparr>)
         else (Woke (handle s1), s1\<lparr>state := IDLE\<rparr>))"

definition ms_stop :: "'h signal \<Rightarrow> 'h sig_out \<times> 'h signal" where
  "ms_stop s =
     (let (old, s1) = exchange STOPPED s
      in if old = IDLE \<or> old = SIGNALED \<or> old = STOPPED then (Quiet, s1) else (Woke (handle s1), s1))"

definition ms_stopped :: "'h signal \<Rightarrow> bool" where
  "ms_stopped s \<longleftrightarrow> state s = STOPPED"

text \<open>
  \<^verbatim>\<open>co_await\<close> on a signal: the compiler calls \<^verbatim>\<open>await_ready\<close>, then \<^verbatim>\<open>await_suspend\<close> when it is
  false, and \<^verbatim>\<open>await_resume\<close> when the coroutine does not stay suspended.
\<close>

definition co_await ::
  "('h signal \<Rightarrow> bool \<times> 'h signal) \<Rightarrow> ('h \<Rightarrow> 'h signal \<Rightarrow> bool \<times> 'h signal) \<Rightarrow> ('h signal \<Rightarrow> bool) \<Rightarrow>
   'h \<Rightarrow> 'h signal \<Rightarrow> 'h sig_out \<times> 'h signal" where
  "co_await ready suspend resume h s =
     (let (r, s1) = ready s
      in if r then (Returned (resume s1), s1)
         else let (w, s2) = suspend h s1 in (if w then Suspended else Returned (resume s2), s2))"

definition us_exec :: "'h signal \<Rightarrow> 'h sig_op \<Rightarrow> 'h sig_out \<times> 'h signal" where
  "us_exec s p =
     (case p of Await h \<Rightarrow> co_await us_await_ready us_await_suspend us_await_resume h s
      | Release \<Rightarrow> us_release s | Stop \<Rightarrow> us_stop s)"

definition ms_exec :: "'h signal \<Rightarrow> 'h sig_op \<Rightarrow> 'h sig_out \<times> 'h signal" where
  "ms_exec s p =
     (case p of Await h \<Rightarrow> co_await ms_await_ready ms_await_suspend ms_await_resume h s
      | Release \<Rightarrow> ms_release s | Stop \<Rightarrow> ms_stop s)"

section \<open>The contract\<close>

text \<open>
  What the header promises: releases coalesce into one pending signal, stop is sticky, a suspended
  consumer is woken by the next release (and then finds the signal clear) or by stop.
\<close>

datatype 'h sig_spec = Open bool | Waiting 'h | Stopped

fun spec_exec :: "'h sig_spec \<Rightarrow> 'h sig_op \<Rightarrow> 'h sig_out \<times> 'h sig_spec" where
  "spec_exec (Open True) (Await h) = (Returned True, Open False)"
| "spec_exec (Open False) (Await h) = (Suspended, Waiting h)"
| "spec_exec Stopped (Await h) = (Returned False, Stopped)"
| "spec_exec (Waiting w) (Await h) = (Suspended, Waiting h)"
| "spec_exec (Open b) Release = (Quiet, Open True)"
| "spec_exec (Waiting w) Release = (Woke (Some w), Open False)"
| "spec_exec Stopped Release = (Quiet, Stopped)"
| "spec_exec (Waiting w) Stop = (Woke (Some w), Stopped)"
| "spec_exec s Stop = (Quiet, Stopped)"

text \<open>The single-consumer rule: no await while one is outstanding.\<close>

fun spec_ok :: "'h sig_spec \<Rightarrow> 'h sig_op \<Rightarrow> bool" where
  "spec_ok (Waiting w) (Await h) = False"
| "spec_ok s p = True"

fun run_ops :: "('s \<Rightarrow> 'p \<Rightarrow> 'o \<times> 's) \<Rightarrow> 's \<Rightarrow> 'p list \<Rightarrow> 'o list \<times> 's" where
  "run_ops ex s [] = ([], s)"
| "run_ops ex s (p # ps) = (let (o1, s1) = ex s p; (os, s2) = run_ops ex s1 ps in (o1 # os, s2))"

lemma run_ops_Cons [simp]:
  "run_ops ex s (p # ps) =
     (fst (ex s p) # fst (run_ops ex (snd (ex s p)) ps), snd (run_ops ex (snd (ex s p)) ps))"
  by (simp add: split_beta Let_def)

declare run_ops.simps(2) [simp del]

fun spec_run_ok :: "'h sig_spec \<Rightarrow> 'h sig_op list \<Rightarrow> bool" where
  "spec_run_ok s [] = True"
| "spec_run_ok s (p # ps) = (spec_ok s p \<and> spec_run_ok (snd (spec_exec s p)) ps)"

fun wakes :: "'h sig_out list \<Rightarrow> nat" where
  "wakes [] = 0"
| "wakes (Woke _ # os) = Suc (wakes os)"
| "wakes (_ # os) = wakes os"

fun is_waiting :: "'h sig_spec \<Rightarrow> bool" where
  "is_waiting (Waiting _) = True"
| "is_waiting _ = False"

lemma is_waiting_iff: "is_waiting s \<longleftrightarrow> (\<exists>h. s = Waiting h)"
  by (cases s) auto

lemma spec_balance:
  "spec_run_ok s ps \<Longrightarrow> run_ops spec_exec s ps = (os, t) \<Longrightarrow>
     of_bool (is_waiting s) + length (filter (\<lambda>x. x = Suspended) os) = wakes os + of_bool (is_waiting t)"
proof (induction ps arbitrary: s os)
  case (Cons p ps)
  obtain o1 s1 where e: "spec_exec s p = (o1, s1)" by fastforce
  obtain os' where r: "run_ops spec_exec s1 ps = (os', t)" "os = o1 # os'"
    using Cons.prems(2) e by (cases "run_ops spec_exec s1 ps") auto
  have "of_bool (is_waiting s1) + length (filter (\<lambda>x. x = Suspended) os') = wakes os' + of_bool (is_waiting t)"
    using Cons.IH [OF _ r(1)] Cons.prems(1) e by simp
  moreover have "of_bool (is_waiting s) + (if o1 = Suspended then 1 else 0)
                 = of_bool (is_waiting s1) + (case o1 of Woke _ \<Rightarrow> 1 | _ \<Rightarrow> (0 :: nat))"
    using Cons.prems(1) e by (cases "(s, p)" rule: spec_exec.cases) auto
  ultimately show ?case using r(2) by (cases o1) auto
qed simp

lemma spec_sticky: "run_ops spec_exec Stopped ps = (os, t) \<Longrightarrow> t = Stopped \<and> wakes os = 0 \<and> Suspended \<notin> set os"
proof (induction ps arbitrary: os)
  case (Cons p ps)
  then show ?case by (cases p; cases "run_ops spec_exec Stopped ps") auto
qed simp

locale signal_contract =
  fixes exec :: "'s \<Rightarrow> 'h sig_op \<Rightarrow> 'h sig_out \<times> 's"
    and abs :: "'s \<Rightarrow> 'h sig_spec option"
  assumes exec_refines:
    "abs s = Some a \<Longrightarrow> spec_ok a p \<Longrightarrow>
       fst (exec s p) = fst (spec_exec a p) \<and> abs (snd (exec s p)) = Some (snd (spec_exec a p))"
begin

lemma run_refines:
  "abs s = Some a \<Longrightarrow> spec_run_ok a ps \<Longrightarrow>
     fst (run_ops exec s ps) = fst (run_ops spec_exec a ps) \<and>
     abs (snd (run_ops exec s ps)) = Some (snd (run_ops spec_exec a ps))"
proof (induction ps arbitrary: s a)
  case (Cons p ps)
  then show ?case using exec_refines [OF Cons.prems(1), of p] by simp
qed simp

lemma balance:
  assumes "abs s = Some a" "spec_run_ok a ps" "\<not> is_waiting a" "run_ops exec s ps = (os, t)"
  shows "length (filter (\<lambda>x. x = Suspended) os)
           = wakes os + of_bool (is_waiting (the (abs t)))"
  using run_refines [OF assms(1,2)] spec_balance [OF assms(2) surjective_pairing] assms(3,4)
  by (simp add: is_waiting_iff)

lemma sticky:
  assumes "abs s = Some a" "spec_run_ok a (ps @ Stop # qs)"
    and "run_ops exec s (ps @ Stop # qs) = (os, t)"
  shows "abs t = Some Stopped"
proof -
  have "spec_run_ok b (xs @ Stop # qs) \<Longrightarrow> snd (run_ops spec_exec b (xs @ Stop # qs)) = Stopped" for b xs
  proof (induction xs arbitrary: b)
    case Nil
    have "snd (spec_exec b Stop) = Stopped" by (cases b) auto
    then show ?case using spec_sticky [OF surjective_pairing, of qs] by simp
  qed simp
  then show ?thesis using run_refines [OF assms(1,2)] assms(2,3) by simp
qed

end

definition sig_abs :: "'h signal \<Rightarrow> 'h sig_spec option" where
  "sig_abs s =
     (case state s of IDLE \<Rightarrow> Some (Open False) | SIGNALED \<Rightarrow> Some (Open True) | STOPPED \<Rightarrow> Some Stopped
      | WAITING \<Rightarrow> map_option Waiting (handle s))"

lemmas us_defs = us_exec_def co_await_def us_await_ready_def us_await_suspend_def us_await_resume_def
  us_release_def us_stop_def

lemmas ms_defs = ms_exec_def co_await_def ms_await_ready_def ms_await_suspend_def ms_await_resume_def
  ms_release_def ms_stop_def exchange_def

interpretation unsafe: signal_contract us_exec sig_abs
proof
  fix s :: "'h signal" and a p
  assume "sig_abs s = Some a" "spec_ok a p"
  then show "fst (us_exec s p) = fst (spec_exec a p) \<and> sig_abs (snd (us_exec s p)) = Some (snd (spec_exec a p))"
    by (cases p; cases "state s"; cases "handle s") (auto simp: us_defs sig_abs_def)
qed

interpretation mpsc: signal_contract ms_exec sig_abs
proof
  fix s :: "'h signal" and a p
  assume "sig_abs s = Some a" "spec_ok a p"
  then show "fst (ms_exec s p) = fst (spec_exec a p) \<and> sig_abs (snd (ms_exec s p)) = Some (snd (spec_exec a p))"
    by (cases p; cases "state s"; cases "handle s") (auto simp: ms_defs sig_abs_def)
qed

lemma sig_abs_waiting: "sig_abs s = Some a \<Longrightarrow> is_waiting a \<longleftrightarrow> state s = WAITING"
  by (auto simp: sig_abs_def split: sig_state.splits)

lemma sig_abs_new [simp]: "sig_abs signal_new = Some (Open False)"
  by (simp add: sig_abs_def signal_new_def)

text \<open>Equivalence of the tiers: whatever sequence of awaits, releases and stops is run on a fresh
  \<^verbatim>\<open>UnsafeSignal\<close> and on a fresh \<^verbatim>\<open>MPSCSignal\<close>, with at most one await outstanding and no two
  operations overlapping, both produce the same observations as the contract: pending signals
  coalesce, each await and each wakeup has the contract's outcome.\<close>

lemma signal_tiers_agree:
  assumes "spec_run_ok (Open False) ps"
  shows "fst (run_ops us_exec signal_new ps) = fst (run_ops spec_exec (Open False) ps) \<and>
         fst (run_ops ms_exec signal_new ps) = fst (run_ops spec_exec (Open False) ps)"
  using assms unsafe.run_refines [OF sig_abs_new] mpsc.run_refines [OF sig_abs_new] by blast

lemma signal_tiers_agree_witness:
  "fst (run_ops us_exec signal_new [Release, Release, Await 7, Await (7 :: nat), Release, Await 7, Stop, Await 7])
     = [Quiet, Quiet, Returned True, Suspended, Woke (Some 7), Suspended, Woke (Some 7), Returned False] \<and>
   fst (run_ops ms_exec signal_new [Release, Release, Await 7, Await (7 :: nat), Release, Await 7, Stop, Await 7])
     = [Quiet, Quiet, Returned True, Suspended, Woke (Some 7), Suspended, Woke (Some 7), Returned False]"
  using signal_tiers_agree [of "[Release, Release, Await 7, Await (7 :: nat), Release, Await 7, Stop, Await 7]"]
  by simp

text \<open>C34. No wakeup is lost or doubled: after any such sequence on a fresh \<^verbatim>\<open>MPSCSignal\<close>, the awaits
  that suspended are exactly the handles that were resumed plus the one that is still registered, and
  a consumer is registered only in the state \<^verbatim>\<open>WAITING\<close>; once a stop has run, none is.\<close>

theorem signal_wakeups_balanced:
  assumes "spec_run_ok (Open False) ps" "run_ops ms_exec signal_new ps = (os, t)"
  shows "length (filter (\<lambda>x. x = Suspended) os) = wakes os + of_bool (state t = WAITING) \<and>
         (Stop \<in> set ps \<longrightarrow> ms_stopped t \<and> length (filter (\<lambda>x. x = Suspended) os) = wakes os)"
proof (intro conjI impI)
  have t: "sig_abs t = Some (snd (run_ops spec_exec (Open False) ps))"
    using mpsc.run_refines [OF sig_abs_new assms(1)] assms(2) by simp
  then have w: "is_waiting (the (sig_abs t)) \<longleftrightarrow> state t = WAITING"
    using sig_abs_waiting by fastforce
  then show *: "length (filter (\<lambda>x. x = Suspended) os) = wakes os + of_bool (state t = WAITING)"
    using mpsc.balance [OF sig_abs_new assms(1) _ assms(2)] by simp
  show "ms_stopped t" "length (filter (\<lambda>x. x = Suspended) os) = wakes os" if stp: "Stop \<in> set ps"
  proof -
  from stp obtain xs ys where ps: "ps = xs @ Stop # ys" by (meson split_list)
  have "sig_abs t = Some Stopped"
    using mpsc.sticky [OF sig_abs_new, of xs ys os t] assms unfolding ps by blast
  then have "state t = STOPPED" by (auto simp: sig_abs_def split: sig_state.splits)
  then show "ms_stopped t" "length (filter (\<lambda>x. x = Suspended) os) = wakes os"
    using * by (simp_all add: ms_stopped_def)
  qed
qed

theorem signal_wakeups_balanced_witness:
  "case run_ops ms_exec signal_new [Await (1 :: nat), Release, Await 2, Stop, Release] of
     (os, t) \<Rightarrow> ms_stopped t \<and> length (filter (\<lambda>x. x = Suspended) os) = wakes os \<and> wakes os = 2"
proof -
  have r: "run_ops ms_exec signal_new [Await (1 :: nat), Release, Await 2, Stop, Release]
      = ([Suspended, Woke (Some 1), Suspended, Woke (Some 2), Quiet], \<lparr>state = STOPPED, handle = Some 2\<rparr>)"
    by (simp add: ms_defs signal_new_def)
  show ?thesis
    using signal_wakeups_balanced [OF _ r] unfolding r by simp
qed

end
