(* ===== verification/Coro_Signal_Threads.thy ===== *)
theory Coro_Signal_Threads
  imports Coro_Signal
begin

text \<open>
  \<^verbatim>\<open>MPSCSignal\<close> with its operations split at every access to the shared state word: one consumer
  coroutine that awaits the signal in a loop, and any number of producer threads that call
  \<^verbatim>\<open>release\<close> or \<^verbatim>\<open>stop\<close>. When the first exchange of \<^verbatim>\<open>await_suspend\<close> finds a signal, the rest of
  \<^verbatim>\<open>await_suspend\<close> runs in the publishing thread while the coroutine can already be resumed by the
  producer that takes the slot; these rests are kept in \<open>retract\<close>. Every await has a number, which
  stands for the stored continuation; \<open>broken\<close> records that a coroutine was resumed which was not
  suspended in that await.
\<close>

datatype coro_pc = Running | CasReady | Load2 | Register | Publish | Asleep | Waking

datatype prod_pc = PIdle | PRestore | PCopyRel | PClear "nat option" | PCopyStop | PInvoke "nat option"

record sig_sys =
  word :: sig_state
  field :: "nat option"
  coro :: coro_pc
  gen :: nat
  retract :: "(nat \<times> sig_state) list"
  prods :: "nat \<Rightarrow> prod_pc"
  results :: "bool list"
  broken :: bool

definition sig_init :: sig_sys where
  "sig_init = \<lparr>word = IDLE, field = None, coro = Running, gen = 0, retract = [],
     prods = (\<lambda>_. PIdle), results = [], broken = False\<rparr>"

datatype sig_act = Cons | Retract | Rel nat | Stp nat | Prod nat

text \<open>Resuming the coroutine that is registered as await number \<open>h\<close>.\<close>

definition resume_coro :: "nat option \<Rightarrow> sig_sys \<Rightarrow> sig_sys" where
  "resume_coro h s =
     (if coro s = Asleep \<and> h = Some (gen s) then s\<lparr>coro := Waking\<rparr> else s\<lparr>broken := True\<rparr>)"

text \<open>The next access of the consumer: \<^verbatim>\<open>await_ready\<close>, \<^verbatim>\<open>await_suspend\<close> up to its first exchange,
  \<^verbatim>\<open>await_resume\<close>.\<close>

definition cons_exec :: "sig_sys \<Rightarrow> sig_sys option" where
  "cons_exec s =
     (case coro s of
        Running \<Rightarrow> Some (s\<lparr>coro := if word s = SIGNALED then CasReady else Load2\<rparr>)
      | CasReady \<Rightarrow> Some (s\<lparr>word := if word s = SIGNALED then IDLE else word s, coro := Waking\<rparr>)
      | Load2 \<Rightarrow> Some (s\<lparr>coro := if word s = STOPPED then Waking else Register\<rparr>)
      | Register \<Rightarrow> Some (s\<lparr>gen := Suc (gen s), field := Some (Suc (gen s)), coro := Publish\<rparr>)
      | Publish \<Rightarrow>
          Some (s\<lparr>word := WAITING, coro := Asleep,
                  retract := (if word s = IDLE then retract s else retract s @ [(gen s, word s)])\<rparr>)
      | Asleep \<Rightarrow> None
      | Waking \<Rightarrow> Some (s\<lparr>results := results s @ [word s \<noteq> STOPPED], coro := Running\<rparr>))"

text \<open>The second exchange of \<^verbatim>\<open>await_suspend\<close>: the coroutine goes on when the slot was still \<^verbatim>\<open>WAITING\<close>.\<close>

definition retract_exec :: "sig_sys \<Rightarrow> sig_sys option" where
  "retract_exec s =
     (case retract s of [] \<Rightarrow> None
      | (g, old) # rs \<Rightarrow>
          (let s1 = s\<lparr>word := if old = STOPPED then STOPPED else IDLE, retract := rs\<rparr>
           in Some (if word s = WAITING then resume_coro (Some g) s1 else s1)))"

definition set_prod :: "nat \<Rightarrow> prod_pc \<Rightarrow> sig_sys \<Rightarrow> sig_sys" where
  "set_prod i p s = s\<lparr>prods := (prods s)(i := p)\<rparr>"

definition rel_exec :: "nat \<Rightarrow> sig_sys \<Rightarrow> sig_sys option" where
  "rel_exec i s =
     (if prods s i \<noteq> PIdle then None
      else Some (set_prod i (case word s of STOPPED \<Rightarrow> PRestore | WAITING \<Rightarrow> PCopyRel | _ \<Rightarrow> PIdle)
                  (s\<lparr>word := SIGNALED\<rparr>)))"

definition stp_exec :: "nat \<Rightarrow> sig_sys \<Rightarrow> sig_sys option" where
  "stp_exec i s =
     (if prods s i \<noteq> PIdle then None
      else Some (set_prod i (if word s = WAITING then PCopyStop else PIdle) (s\<lparr>word := STOPPED\<rparr>)))"

definition prod_exec :: "nat \<Rightarrow> sig_sys \<Rightarrow> sig_sys option" where
  "prod_exec i s =
     (case prods s i of
        PIdle \<Rightarrow> None
      | PRestore \<Rightarrow> Some (set_prod i PIdle (s\<lparr>word := STOPPED\<rparr>))
      | PCopyRel \<Rightarrow> Some (set_prod i (PClear (field s)) s)
      | PClear h \<Rightarrow> Some (set_prod i (PInvoke h) (s\<lparr>word := IDLE\<rparr>))
      | PCopyStop \<Rightarrow> Some (set_prod i (PInvoke (field s)) s)
      | PInvoke h \<Rightarrow> Some (resume_coro h (set_prod i PIdle s)))"

primrec sig_exec :: "sig_sys \<Rightarrow> sig_act \<Rightarrow> sig_sys option" where
  "sig_exec s Cons = cons_exec s"
| "sig_exec s Retract = retract_exec s"
| "sig_exec s (Rel i) = rel_exec i s"
| "sig_exec s (Stp i) = stp_exec i s"
| "sig_exec s (Prod i) = prod_exec i s"

fun sig_run :: "sig_sys \<Rightarrow> sig_act list \<Rightarrow> sig_sys option" where
  "sig_run s [] = Some s"
| "sig_run s (a # as) = (case sig_exec s a of None \<Rightarrow> None | Some t \<Rightarrow> sig_run t as)"

definition quiescent :: "sig_sys \<Rightarrow> bool" where
  "quiescent s \<longleftrightarrow> (\<forall>i. prods s i = PIdle) \<and> retract s = []"

lemmas sig_exec_defs = cons_exec_def retract_exec_def rel_exec_def stp_exec_def prod_exec_def
  resume_coro_def set_prod_def

lemma sig_run_snoc: "sig_run s (as @ [a]) = Option.bind (sig_run s as) (\<lambda>t. sig_exec t a)"
  by (induction as arbitrary: s) (auto split: option.splits)

section \<open>Cancellation without releases is safe\<close>

text \<open>
  The invariant of runs in which producers only call \<^verbatim>\<open>stop\<close>; \<open>S\<close> says that some stop has taken
  effect. Before it the word tells whether the coroutine is registered. After it the slot is
  \<^verbatim>\<open>WAITING\<close> only until the publishing thread retracts it, and a suspended coroutine whose slot is
  gone has exactly one producer about to resume it.
\<close>

definition owner :: "sig_sys \<Rightarrow> nat \<Rightarrow> bool" where
  "owner s j \<longleftrightarrow> (prods s j = PCopyStop \<or> prods s j = PInvoke (Some (gen s))) \<and> (\<forall>i. i \<noteq> j \<longrightarrow> prods s i = PIdle)"

definition owned :: "sig_sys \<Rightarrow> bool" where
  "owned s \<longleftrightarrow> (\<exists>j. owner s j)"

definition idle_prods :: "sig_sys \<Rightarrow> bool" where
  "idle_prods s \<longleftrightarrow> (\<forall>i. prods s i = PIdle)"

definition cancel_inv :: "bool \<Rightarrow> sig_sys \<Rightarrow> bool" where
  "cancel_inv S s \<longleftrightarrow>
     \<not> broken s \<and> coro s \<noteq> CasReady \<and> word s \<noteq> SIGNALED \<and>
     (coro s \<in> {Publish, Asleep} \<longrightarrow> field s = Some (gen s)) \<and>
     (if S then
        (word s = WAITING \<and> coro s = Asleep \<and> retract s = [(gen s, STOPPED)] \<and> idle_prods s) \<or>
        (word s = STOPPED \<and>
           (if coro s = Asleep then owned s else idle_prods s) \<and>
           (retract s = [] \<or> (coro s \<notin> {Register, Publish} \<and> retract s = [(gen s, STOPPED)])))
      else word s = (if coro s = Asleep then WAITING else IDLE) \<and> retract s = [] \<and> idle_prods s)"

lemma owned_frame [simp]:
  "owned (s\<lparr>word := w\<rparr>) = owned s" "owned (s\<lparr>coro := c\<rparr>) = owned s"
  "owned (s\<lparr>retract := r\<rparr>) = owned s" "owned (s\<lparr>results := b\<rparr>) = owned s"
  by (simp_all add: owned_def owner_def)

lemma idle_prods_frame [simp]:
  "idle_prods (s\<lparr>word := w\<rparr>) = idle_prods s" "idle_prods (s\<lparr>coro := c\<rparr>) = idle_prods s"
  "idle_prods (s\<lparr>retract := r\<rparr>) = idle_prods s" "idle_prods (s\<lparr>results := b\<rparr>) = idle_prods s"
  "idle_prods (s\<lparr>gen := g\<rparr>) = idle_prods s" "idle_prods (s\<lparr>field := f\<rparr>) = idle_prods s"
  by (simp_all add: idle_prods_def)

lemma cancel_inv_cons: "cancel_inv S s \<Longrightarrow> cons_exec s = Some t \<Longrightarrow> cancel_inv S t"
  by (cases "coro s") (auto simp: cancel_inv_def cons_exec_def split: if_splits)

lemma cancel_inv_retract: "cancel_inv S s \<Longrightarrow> retract_exec s = Some t \<Longrightarrow> cancel_inv S t"
  by (auto simp: cancel_inv_def retract_exec_def resume_coro_def Let_def split: if_splits)

lemma set_prod_idle: "prods s i = PIdle \<Longrightarrow> set_prod i PIdle s = s"
  by (simp add: set_prod_def fun_upd_idem)

lemma cancel_inv_stp:
  assumes inv: "cancel_inv S s" and st: "stp_exec i s = Some t"
  shows "cancel_inv True t"
proof (cases "word s = WAITING")
  case True
  have "coro s = Asleep" "idle_prods s" "field s = Some (gen s)" "\<not> broken s"
    "retract s = [] \<or> retract s = [(gen s, STOPPED)]"
    using inv True by (auto simp: cancel_inv_def split: if_splits)
  moreover have "t = set_prod i PCopyStop (s\<lparr>word := STOPPED\<rparr>)"
    using st True by (simp add: stp_exec_def split: if_splits)
  moreover from calculation have "owned t"
    by (auto simp: owned_def owner_def set_prod_def idle_prods_def intro: exI [of _ i])
  ultimately show ?thesis by (auto simp: cancel_inv_def set_prod_def)
next
  case False
  then have "t = s\<lparr>word := STOPPED\<rparr>"
    using st by (auto simp: stp_exec_def set_prod_idle split: if_splits)
  with inv False show ?thesis
    by (auto simp: cancel_inv_def split: if_splits)
qed

lemma cancel_inv_prod:
  assumes inv: "cancel_inv S s" and st: "prod_exec i s = Some t"
  shows "cancel_inv S t"
proof -
  have "prods s i \<noteq> PIdle" using st by (auto simp: prod_exec_def)
  then have w: "S" "word s = STOPPED" "coro s = Asleep" "owner s i" "field s = Some (gen s)"
    and r: "\<not> broken s" "retract s = [] \<or> retract s = [(gen s, STOPPED)]"
    using inv by (auto simp: cancel_inv_def idle_prods_def owned_def owner_def split: if_splits) metis+
  from w(4) consider "prods s i = PCopyStop" | "prods s i = PInvoke (Some (gen s))"
    by (auto simp: owner_def)
  then show ?thesis
  proof cases
    case 1
    with st w have t: "t = set_prod i (PInvoke (Some (gen s))) s" by (simp add: prod_exec_def)
    with w(4) have "owned t"
      by (auto simp: owned_def owner_def set_prod_def intro: exI [of _ i])
    with w r t show ?thesis by (auto simp: cancel_inv_def set_prod_def)
  next
    case 2
    with st w have t: "t = (set_prod i PIdle s)\<lparr>coro := Waking\<rparr>"
      by (simp add: prod_exec_def resume_coro_def set_prod_def)
    with w(4) have "idle_prods t" by (simp add: owner_def set_prod_def idle_prods_def)
    with w r t show ?thesis by (auto simp: cancel_inv_def set_prod_def)
  qed
qed

lemma cancel_inv_run:
  "(\<forall>i. Rel i \<notin> set as) \<Longrightarrow> sig_run sig_init as = Some s \<Longrightarrow> cancel_inv (\<exists>i. Stp i \<in> set as) s"
proof (induction as arbitrary: s rule: rev_induct)
  case Nil
  then show ?case by (auto simp: cancel_inv_def sig_init_def idle_prods_def)
next
  case (snoc a as)
  then obtain t where t: "sig_run sig_init as = Some t" "sig_exec t a = Some s"
    by (auto simp: sig_run_snoc bind_eq_Some_conv)
  with snoc have inv: "cancel_inv (\<exists>i. Stp i \<in> set as) t" by simp
  show ?case
  proof (cases a)
    case (Stp i)
    then have "\<exists>i. Stp i \<in> set (as @ [a])" by auto
    moreover have "cancel_inv True s" using cancel_inv_stp [OF inv] t(2) Stp by simp
    ultimately show ?thesis by simp
  qed (use inv t(2) snoc.prems(1) in \<open>auto dest: cancel_inv_cons cancel_inv_retract cancel_inv_prod\<close>)
qed

text \<open>C20. Cancellation is safe: in every interleaving of the consumer with any number of threads that only
  call \<^verbatim>\<open>stop\<close>, no coroutine is resumed twice or in the wrong await; a consumer that is suspended while
  no stop has taken effect is registered; and when all calls have finished after a stop, the signal is
  stopped and the consumer is not left suspended.\<close>

theorem mpsc_cancel_safe:
  assumes "\<forall>i. Rel i \<notin> set as" "sig_run sig_init as = Some s"
  shows "\<not> broken s \<and>
         ((\<forall>i. Stp i \<notin> set as) \<longrightarrow> coro s = Asleep \<longrightarrow> word s = WAITING) \<and>
         ((\<exists>i. Stp i \<in> set as) \<longrightarrow> quiescent s \<longrightarrow> word s = STOPPED \<and> coro s \<noteq> Asleep)"
  using cancel_inv_run [OF assms]
  by (auto simp: cancel_inv_def quiescent_def owned_def owner_def split: if_splits)

lemma cancel_run_example:
  "sig_run sig_init [Cons, Cons, Cons, Stp 0, Cons, Stp 1, Prod 1, Prod 1, Retract, Cons] =
     Some \<lparr>word = STOPPED, field = Some 1, coro = Running, gen = 1, retract = [],
       prods = ((\<lambda>_. PIdle)(0 := PIdle, 1 := PCopyStop, 1 := PInvoke (Some 1), 1 := PIdle)),
       results = [False], broken = False\<rparr>"
  by (simp add: sig_exec_defs sig_init_def)

theorem mpsc_cancel_safe_witness:
  "\<exists>s. sig_run sig_init [Cons, Cons, Cons, Stp 0, Cons, Stp 1, Prod 1, Prod 1, Retract, Cons] = Some s \<and>
     word s = STOPPED \<and> coro s \<noteq> Asleep \<and> \<not> broken s \<and> results s = [False]"
  using mpsc_cancel_safe [OF _ cancel_run_example] cancel_run_example by (auto simp: quiescent_def)

section \<open>Releases and stops that overlap\<close>

text \<open>A state from which no operation can wake the suspended consumer again.\<close>

definition stranded :: "sig_sys \<Rightarrow> bool" where
  "stranded s \<longleftrightarrow> coro s = Asleep \<and> retract s = [] \<and> word s \<in> {STOPPED, SIGNALED} \<and>
     (\<forall>i. prods s i \<in> {PIdle, PRestore})"

lemma stranded_step: "stranded s \<Longrightarrow> sig_exec s a = Some t \<Longrightarrow> stranded t"
proof (cases a)
  case (Prod i)
  assume s: "stranded s" "sig_exec s a = Some t"
  then have "prods s i = PIdle \<or> prods s i = PRestore" by (auto simp: stranded_def)
  then show ?thesis
  proof
    assume "prods s i = PRestore"
    with s Prod have t: "t = set_prod i PIdle (s\<lparr>word := STOPPED\<rparr>)" by (simp add: prod_exec_def)
    have "prods t k \<in> {PIdle, PRestore}" for k using s(1) by (simp add: t set_prod_def stranded_def)
    then show ?thesis using s(1) by (simp add: t set_prod_def stranded_def)
  qed (use s Prod in \<open>simp add: prod_exec_def\<close>)
qed (auto simp: stranded_def sig_exec_defs split: if_splits sig_state.splits)

lemma stranded_run: "stranded s \<Longrightarrow> sig_run s as = Some t \<Longrightarrow> stranded t"
  by (induction as arbitrary: s) (auto split: option.splits dest: stranded_step)

text \<open>\<^verbatim>\<open>release\<close> racing with \<^verbatim>\<open>stop\<close> can strand the consumer: there is an interleaving after which every
  call has returned, the signal is stopped and the consumer is suspended, and no further sequence of
  operations ever wakes it. The release has overwritten \<^verbatim>\<open>STOPPED\<close> with \<^verbatim>\<open>SIGNALED\<close>; the consumer took
  that signal, awaited again and registered; then the release restored \<^verbatim>\<open>STOPPED\<close> over \<^verbatim>\<open>WAITING\<close>.\<close>

lemma mpsc_release_strands_consumer:
  "\<exists>as s. sig_run sig_init as = Some s \<and> quiescent s \<and> word s = STOPPED \<and> coro s = Asleep \<and>
     (\<forall>bs. case sig_run s bs of None \<Rightarrow> True | Some t \<Rightarrow> coro t = Asleep)"
proof -
  let ?as = "[Stp 0, Rel 1, Cons, Cons, Cons, Cons, Cons, Cons, Cons, Prod 1]"
  obtain s where s: "sig_run sig_init ?as = Some s" "word s = STOPPED" "coro s = Asleep" "retract s = []"
    "prods s = ((\<lambda>_. PIdle)(0 := PIdle, 1 := PRestore, 1 := PIdle))"
    by (simp add: sig_exec_defs sig_init_def)
  then have "stranded s" "quiescent s" by (auto simp: stranded_def quiescent_def)
  moreover from this(1) have "case sig_run s bs of None \<Rightarrow> True | Some t \<Rightarrow> coro t = Asleep" for bs
    using stranded_run [of s bs] by (auto simp: stranded_def split: option.split)
  ultimately show ?thesis using s by blast
qed

text \<open>A stop can be lost: there is an interleaving in which a \<^verbatim>\<open>stop\<close> runs to completion while a release
  is between its exchange and its store of \<^verbatim>\<open>IDLE\<close>; afterwards every call has returned, the signal is
  not stopped, and the consumer's next await suspends.\<close>

lemma mpsc_stop_can_be_lost:
  "\<exists>as s. Stp 1 \<in> set as \<and> sig_run sig_init as = Some s \<and> quiescent s \<and>
     word s = WAITING \<and> coro s = Asleep \<and> results s = [True]"
proof -
  let ?as = "[Cons, Cons, Cons, Cons, Rel 0, Stp 1, Prod 0, Prod 0, Prod 0, Cons, Cons, Cons, Cons, Cons]"
  obtain s where "sig_run sig_init ?as = Some s" "word s = WAITING" "coro s = Asleep" "retract s = []"
    "prods s = ((\<lambda>_. PIdle)(0 := PCopyRel, 1 := PIdle, 0 := PClear (Some 1), 0 := PInvoke (Some 1), 0 := PIdle))"
    "results s = [True]"
    by (simp add: sig_exec_defs sig_init_def)
  then show ?thesis by (intro exI [of _ ?as] exI [of _ s]) (auto simp: quiescent_def)
qed

text \<open>One releasing thread is enough to resume a coroutine in the wrong await: the release takes the slot
  that \<^verbatim>\<open>await_suspend\<close> is about to retract, the resumed coroutine registers again, and the second
  exchange of the first \<^verbatim>\<open>await_suspend\<close> then finds the new registration and takes it for its own.\<close>

lemma mpsc_retract_takes_newer_await:
  "\<exists>as s. set as \<subseteq> {Cons, Retract, Rel 0, Prod 0} \<and> sig_run sig_init as = Some s \<and> broken s"
proof -
  let ?as = "[Cons, Cons, Cons, Rel 0, Cons, Rel 0, Prod 0, Prod 0, Prod 0,
              Cons, Cons, Cons, Cons, Cons, Retract]"
  obtain s where "sig_run sig_init ?as = Some s" "broken s"
    by (simp add: sig_exec_defs sig_init_def)
  then show ?thesis by (intro exI [of _ ?as] exI [of _ s]) simp
qed

end
