(* ===== verification/Coro_Channel.thy ===== *)
theory Coro_Channel
  imports Spsc_Threads
begin

text \<open>
  The awaitable single-producer single-consumer channel of \<^verbatim>\<open>include/xsl/coro/channel/spsc.h\<close>, split at every
  access to shared memory: one consumer coroutine that awaits the channel in a loop, one producer thread that
  calls \<^verbatim>\<open>push\<close> and one thread that calls \<^verbatim>\<open>close\<close>.  Memory is sequentially consistent, which the
  \<^verbatim>\<open>seq_cst\<close> fences of the code provide for the callback protocol.  The queue part of the state is the ring
  of theory \<^verbatim>\<open>Spsc_Threads\<close> (the pushes are the same code); a registered callback is the number of the await
  that stored it.  The rest of an \<^verbatim>\<open>await_suspend\<close> after its store runs in its own thread while the coroutine can
  already be resumed; these rests are kept in \<open>susp\<close>.  With \<open>confined\<close> a scheduled coroutine is resumed only
  after its \<^verbatim>\<open>await_suspend\<close> has returned (an executor that runs the consumer on one thread).
  \<open>broken\<close> records a resumption of a coroutine that is not suspended in that await, \<open>spurious\<close> the failed
  assertion of \<^verbatim>\<open>await_resume\<close>, which returns \<^verbatim>\<open>nullopt\<close> when assertions are off.  The main theorem shows that
  no item and no wakeup is lost; two runs show a wakeup without an item and the race without confinement.
\<close>

section \<open>The system\<close>

datatype 'a cons_pc = KRun | KReload | KClosed | KStore | KAsleep | KResume | KPublish nat 'a

datatype susp_pc = SStart nat | SHead nat nat | SClosed nat nat | SRetract nat nat

datatype call_pc = NIdle | NExchange | NCall nat

record 'a chan_sys =
  q :: "'a spsc_sys"
  closed :: bool
  callback :: "nat option"
  kpc :: "'a cons_pc"
  gen :: nat
  susp :: "susp_pc list"
  notify :: call_pc
  closer :: call_pc
  wakes :: "nat list"
  outs :: "'a option list"
  broken :: bool
  spurious :: bool

definition chan_new :: "nat \<Rightarrow> 'a chan_sys" where
  "chan_new sz = \<lparr>q = spsc_init sz, closed = False, callback = None, kpc = KRun, gen = 0, susp = [],
     notify = NIdle, closer = NIdle, wakes = [], outs = [], broken = False, spurious = False\<rparr>"

definition set_mem :: "'a storage \<Rightarrow> 'a chan_sys \<Rightarrow> 'a chan_sys" where
  "set_mem m s = s\<lparr>q := (q s)\<lparr>mem := m\<rparr>\<rparr>"

text \<open>Continuing the coroutine that is suspended in await \<open>g\<close>.\<close>

definition resume_await :: "nat \<Rightarrow> 'a chan_sys \<Rightarrow> 'a chan_sys" where
  "resume_await g s = (if kpc s = KAsleep \<and> g = gen s then s\<lparr>kpc := KResume\<rparr> else s\<lparr>broken := True\<rparr>)"

definition set_local :: "nat \<Rightarrow> 'a chan_sys \<Rightarrow> 'a chan_sys" where
  "set_local t s = set_mem ((mem (q s))\<lparr>head := (head (mem (q s)))\<lparr>local := t\<rparr>\<rparr>) s"

text \<open>\<^verbatim>\<open>await_ready\<close>: the cached tail, then the tail, then the closed flag.\<close>

definition await_ready :: "'a chan_sys \<Rightarrow> 'a chan_sys option" where
  "await_ready s =
     (let m = mem (q s); h = ctl (head m) in
      case kpc s of
        KRun \<Rightarrow> Some (s\<lparr>kpc := if h = local (head m) then KReload else KResume\<rparr>)
      | KReload \<Rightarrow> Some ((set_local (ctl (tail m)) s)\<lparr>kpc := if h = ctl (tail m) then KClosed else KResume\<rparr>)
      | KClosed \<Rightarrow> Some (s\<lparr>kpc := if closed s then KResume else KStore\<rparr>)
      | _ \<Rightarrow> None)"

text \<open>\<^verbatim>\<open>await_suspend\<close> up to the store of the callback; from then on the coroutine can be resumed.\<close>

definition await_store :: "'a chan_sys \<Rightarrow> 'a chan_sys option" where
  "await_store s =
     (if kpc s = KStore
      then Some (s\<lparr>gen := Suc (gen s), callback := Some (Suc (gen s)), kpc := KAsleep, susp := susp s @ [SStart (Suc (gen s))]\<rparr>)
      else None)"

text \<open>The rest of the \<open>i\<close>-th \<^verbatim>\<open>await_suspend\<close> that is still running: load the head, the tail, the closed flag, and
  retract the callback.\<close>

definition drop_nth :: "nat \<Rightarrow> 'b list \<Rightarrow> 'b list" where
  "drop_nth i xs = take i xs @ drop (Suc i) xs"

definition await_rest :: "nat \<Rightarrow> 'a chan_sys \<Rightarrow> 'a chan_sys option" where
  "await_rest i s =
     (if length (susp s) \<le> i then None
      else case susp s ! i of
          SStart g \<Rightarrow> Some (s\<lparr>susp := (susp s)[i := SHead g (ctl (head (mem (q s))))]\<rparr>)
        | SHead g h \<Rightarrow>
            (let t = ctl (tail (mem (q s))) in
             Some (s\<lparr>susp := (susp s)[i := if h \<noteq> t then SRetract g t else SClosed g t]\<rparr>))
        | SClosed g t \<Rightarrow>
            Some (if closed s then s\<lparr>susp := (susp s)[i := SRetract g t]\<rparr> else s\<lparr>susp := drop_nth i (susp s)\<rparr>)
        | SRetract g t \<Rightarrow>
            (let s1 = s\<lparr>callback := None, susp := drop_nth i (susp s)\<rparr> in
             Some (case callback s of None \<Rightarrow> s1 | Some g' \<Rightarrow> resume_await g (set_local t s1))))"

text \<open>\<^verbatim>\<open>await_resume\<close>: take the item out and destroy it, then publish the free slot.\<close>

definition await_resume :: "'a chan_sys \<Rightarrow> 'a chan_sys option" where
  "await_resume s =
     (let m = mem (q s); h = ctl (head m) in
      case kpc s of
        KResume \<Rightarrow>
          (if h \<noteq> ctl (tail m) then
             (case buffer m h of
                None \<Rightarrow> Some (s\<lparr>broken := True\<rparr>)
              | Some v \<Rightarrow> Some ((set_mem (m\<lparr>buffer := (buffer m)(h := None)\<rparr>) s)\<lparr>kpc := KPublish h v\<rparr>))
           else Some (s\<lparr>outs := outs s @ [None], kpc := KRun, spurious := spurious s \<or> \<not> closed s\<rparr>))
      | KPublish i v \<Rightarrow>
          Some (s\<lparr>q := (q s)\<lparr>mem := m\<lparr>head := (head m)\<lparr>ctl := (i + 1) AND size_mask (head m)\<rparr>\<rparr>,
                            got := got (q s) @ [v]\<rparr>,
                  outs := outs s @ [Some v], kpc := KRun\<rparr>)
      | _ \<Rightarrow> None)"

text \<open>The callback: refresh the cached tail and schedule the coroutine.\<close>

definition run_callback :: "nat \<Rightarrow> 'a chan_sys \<Rightarrow> 'a chan_sys" where
  "run_callback g s = (let s1 = set_local (ctl (tail (mem (q s)))) s in s1\<lparr>wakes := wakes s1 @ [g]\<rparr>)"

text \<open>\<^verbatim>\<open>push\<close>: the closed flag and the thread's own indices, then the queue accesses, then the callback.\<close>

definition push_begin :: "'a \<Rightarrow> 'a chan_sys \<Rightarrow> 'a chan_sys option" where
  "push_begin v s =
     (if ppc (q s) \<noteq> PIdle \<or> notify s \<noteq> NIdle then None
      else if closed s then Some s
      else
        (let ep = tail (mem (q s)); t = ctl ep; n = (t + 1) AND size_mask ep in
         Some (s\<lparr>q := (q s)\<lparr>ppc := if n \<noteq> local ep then PConstruct v t n else PReload v t n\<rparr>\<rparr>)))"

definition push_exec :: "'a chan_sys \<Rightarrow> 'a chan_sys option" where
  "push_exec s =
     (let x = q s; m = mem x in
      case ppc x of
        PReload v t n \<Rightarrow>
          Some (s\<lparr>q := x\<lparr>mem := m\<lparr>tail := (tail m)\<lparr>local := ctl (head m)\<rparr>\<rparr>,
                          ppc := if n \<noteq> ctl (head m) then PConstruct v t n else PIdle\<rparr>\<rparr>)
      | PConstruct v t n \<Rightarrow> Some (s\<lparr>q := x\<lparr>mem := m\<lparr>buffer := (buffer m)(t := Some v)\<rparr>, ppc := PStore v t n\<rparr>\<rparr>)
      | PStore v t n \<Rightarrow>
          Some (s\<lparr>q := x\<lparr>mem := m\<lparr>tail := (tail m)\<lparr>ctl := n\<rparr>\<rparr>, ppc := PIdle, sent := sent x @ [v]\<rparr>,
                  notify := NExchange\<rparr>)
      | PIdle \<Rightarrow>
          (case notify s of
             NIdle \<Rightarrow> None
           | NExchange \<Rightarrow>
               Some (s\<lparr>callback := None, notify := (case callback s of None \<Rightarrow> NIdle | Some g \<Rightarrow> NCall g)\<rparr>)
           | NCall g \<Rightarrow> Some (run_callback g (s\<lparr>notify := NIdle\<rparr>))))"

definition close_begin :: "'a chan_sys \<Rightarrow> 'a chan_sys option" where
  "close_begin s = (if closer s \<noteq> NIdle then None else Some (s\<lparr>closed := True, closer := NExchange\<rparr>))"

definition close_exec :: "'a chan_sys \<Rightarrow> 'a chan_sys option" where
  "close_exec s =
     (case closer s of
        NIdle \<Rightarrow> None
      | NExchange \<Rightarrow> Some (s\<lparr>callback := None, closer := (case callback s of None \<Rightarrow> NIdle | Some g \<Rightarrow> NCall g)\<rparr>)
      | NCall g \<Rightarrow> Some (run_callback g (s\<lparr>closer := NIdle\<rparr>)))"

text \<open>The executor resumes a scheduled coroutine.\<close>

definition wake_exec :: "bool \<Rightarrow> 'a chan_sys \<Rightarrow> 'a chan_sys option" where
  "wake_exec confined s =
     (case wakes s of
        [] \<Rightarrow> None
      | g # gs \<Rightarrow> if confined \<and> susp s \<noteq> [] then None else Some (resume_await g (s\<lparr>wakes := gs\<rparr>)))"

datatype 'a chan_act = Ready | Store | Rest nat | Resume | Push 'a | Prod | Close | Closer | Wake

fun chan_exec :: "bool \<Rightarrow> 'a chan_sys \<Rightarrow> 'a chan_act \<Rightarrow> 'a chan_sys option" where
  "chan_exec cf s Ready = await_ready s"
| "chan_exec cf s Store = await_store s"
| "chan_exec cf s (Rest i) = await_rest i s"
| "chan_exec cf s Resume = await_resume s"
| "chan_exec cf s (Push v) = push_begin v s"
| "chan_exec cf s Prod = push_exec s"
| "chan_exec cf s Close = close_begin s"
| "chan_exec cf s Closer = close_exec s"
| "chan_exec cf s Wake = wake_exec cf s"

fun chan_run :: "bool \<Rightarrow> 'a chan_sys \<Rightarrow> 'a chan_act list \<Rightarrow> 'a chan_sys option" where
  "chan_run cf s [] = Some s"
| "chan_run cf s (a # as) = (case chan_exec cf s a of None \<Rightarrow> None | Some t \<Rightarrow> chan_run cf t as)"

lemmas chan_defs = await_ready_def await_store_def await_rest_def await_resume_def push_begin_def push_exec_def
  close_begin_def close_exec_def wake_exec_def run_callback_def resume_await_def set_mem_def set_local_def
  drop_nth_def Let_def

lemma chan_run_snoc: "chan_run cf s (as @ [a]) = Option.bind (chan_run cf s as) (\<lambda>t. chan_exec cf t a)"
  by (induction as arbitrary: s) (auto split: option.splits)


section \<open>The queue part\<close>

text \<open>The cached tail of the consumer is only a hint here, so the ring invariant is asked of the state in which it is
  up to date.\<close>

definition norm :: "'a spsc_sys \<Rightarrow> 'a spsc_sys" where
  "norm x = x\<lparr>mem := (mem x)\<lparr>head := (head (mem x))\<lparr>local := ctl (tail (mem x))\<rparr>\<rparr>\<rparr>"

definition queue_ok :: "'a spsc_sys \<Rightarrow> bool" where
  "queue_ok x \<longleftrightarrow> cpc x = CIdle \<and> spsc_inv (norm x)"

lemma norm_inv:
  assumes "spsc_inv x" "cpc x = CIdle"
  shows "spsc_inv (norm x)"
proof -
  obtain LH LT where I: "idx_inv x LH LT" "pc_inv x LH LT" and B: "buf_inv x"
    using assms(1) by (auto simp: spsc_inv_def)
  then show ?thesis using assms(2)
    by (intro spsc_invI [of _ LH "length (sent x)"])
      (auto simp: norm_def buf_inv_def idx_inv_def pc_inv_def count_defs)
qed

lemma queue_okI: "spsc_inv y \<Longrightarrow> cpc x = CIdle \<Longrightarrow> cpc y = CIdle \<Longrightarrow> norm y = norm x \<Longrightarrow> queue_ok x"
  using norm_inv [of y] by (simp add: queue_ok_def)

lemma queue_ok_start:
  assumes "queue_ok x" "ppc x = PIdle" "t = ctl (tail (mem x))" "n = (t + 1) AND size_mask (tail (mem x))"
  shows "queue_ok (x\<lparr>ppc := if n \<noteq> local (tail (mem x)) then PConstruct v t n else PReload v t n\<rparr>)"
  using step_push_start [of "norm x" t n v] assms
  by (intro queue_okI [of "(norm x)\<lparr>ppc := if n \<noteq> local (tail (mem x)) then PConstruct v t n else PReload v t n\<rparr>"])
    (simp_all add: queue_ok_def norm_def)

lemma queue_ok_reload:
  assumes "queue_ok x" "ppc x = PReload v t n"
  shows "queue_ok (x\<lparr>mem := (mem x)\<lparr>tail := (tail (mem x))\<lparr>local := ctl (head (mem x))\<rparr>\<rparr>,
                     ppc := if n \<noteq> ctl (head (mem x)) then PConstruct v t n else PIdle\<rparr>)"
  by (rule queue_okI [OF step_push_reload [of "norm x" v t n]]) (use assms in \<open>simp_all add: queue_ok_def norm_def\<close>)

lemma queue_ok_construct:
  assumes "queue_ok x" "ppc x = PConstruct v t n"
  shows "queue_ok (x\<lparr>mem := (mem x)\<lparr>buffer := (buffer (mem x))(t := Some v)\<rparr>, ppc := PStore v t n\<rparr>)"
  by (rule queue_okI [OF step_push_construct [of "norm x" v t n]]) (use assms in \<open>simp_all add: queue_ok_def norm_def\<close>)

lemma queue_ok_store:
  assumes "queue_ok x" "ppc x = PStore v t n"
  shows "queue_ok (x\<lparr>mem := (mem x)\<lparr>tail := (tail (mem x))\<lparr>ctl := n\<rparr>\<rparr>, ppc := PIdle, sent := sent x @ [v]\<rparr>)"
  by (rule queue_okI [OF step_push_store [of "norm x" v t n]]) (use assms in \<open>simp_all add: queue_ok_def norm_def\<close>)

lemma queue_ok_raw: "queue_ok x \<Longrightarrow> ppc x = PConstruct v t n \<Longrightarrow> buffer (mem x) t = None"
  using construct_slot_raw [of "norm x" v t n] by (simp add: queue_ok_def norm_def)

lemma queue_ok_local:
  "queue_ok (x\<lparr>mem := (mem x)\<lparr>head := (head (mem x))\<lparr>local := k\<rparr>\<rparr>\<rparr>) = queue_ok x"
  by (simp add: queue_ok_def norm_def)

lemma queue_ok_empty:
  assumes "queue_ok x"
  shows "ctl (head (mem x)) = ctl (tail (mem x)) \<longleftrightarrow> got x = sent x" "prefix (got x) (sent x)"
proof -
  obtain LH LT where I: "idx_inv (norm x) LH LT" and B: "buf_inv (norm x)" and c: "cpc x = CIdle"
    using assms by (auto simp: queue_ok_def spsc_inv_def)
  let ?N = "slots (norm x)"
  have p: "published (norm x) = length (got x)" using c by (simp add: published_def norm_def)
  have i: "ctl (head (mem x)) = length (got x) mod ?N" "ctl (tail (mem x)) = length (sent x) mod ?N"
    "length (got x) \<le> length (sent x)" "length (sent x) < length (got x) + ?N"
    using I p by (auto simp: idx_inv_def norm_def)
  have t: "got x = take (length (got x)) (sent x)" using B by (simp add: buf_inv_def norm_def)
  then show "prefix (got x) (sent x)" by (metis take_is_prefix)
  have "ctl (head (mem x)) = ctl (tail (mem x)) \<longleftrightarrow> length (got x) = length (sent x)"
    using i mod_inj_window by metis
  also have "\<dots> \<longleftrightarrow> got x = sent x" using t by (metis take_all_iff le_refl)
  finally show "ctl (head (mem x)) = ctl (tail (mem x)) \<longleftrightarrow> got x = sent x" .
qed

text \<open>Taking the item out, publishing the slot: the two steps of \<^verbatim>\<open>await_resume\<close> together are a pop of the ring.\<close>

lemma queue_ok_pop:
  assumes "queue_ok x" "h = ctl (head (mem x))" "h \<noteq> ctl (tail (mem x))"
  shows "\<exists>v. buffer (mem x) h = Some v \<and>
    queue_ok (x\<lparr>mem := (mem x)\<lparr>buffer := (buffer (mem x))(h := None),
        head := (head (mem x))\<lparr>ctl := (h + 1) AND size_mask (head (mem x))\<rparr>\<rparr>, got := got x @ [v]\<rparr>)"
proof -
  define y where "y = norm x"
  have y: "spsc_inv y" "cpc y = CIdle" "h = ctl (head (mem y))" "h \<noteq> local (head (mem y))"
    using assms by (auto simp: y_def queue_ok_def norm_def)
  define y1 where "y1 = y\<lparr>cpc := CPublish h\<rparr>"
  have y1: "spsc_inv y1" using step_pop_start [OF y(1-3)] y(4) by (simp add: y1_def)
  define y2 where "y2 = y1\<lparr>mem := (mem y1)\<lparr>head := (head (mem y1))\<lparr>ctl := (h + 1) AND size_mask (head (mem y1))\<rparr>\<rparr>, cpc := CMove h\<rparr>"
  have y2: "spsc_inv y2" using step_pop_publish [OF y1, of h] by (simp add: y2_def y1_def)
  obtain v where v: "buffer (mem y2) h = Some v" using pop_slot_live(2) [OF y2, of h] by (simp add: y2_def)
  define y3 where "y3 = y2\<lparr>cpc := CDestroy h, got := got y2 @ [v]\<rparr>"
  have y3: "spsc_inv y3" using step_pop_move [OF y2 _ v] by (simp add: y3_def y2_def)
  have y4: "spsc_inv (y3\<lparr>mem := (mem y3)\<lparr>buffer := (buffer (mem y3))(h := None)\<rparr>, cpc := CIdle\<rparr>)"
    using step_pop_destroy [OF y3, of h] by (simp add: y3_def)
  have "buffer (mem x) h = Some v" using v by (simp add: y2_def y1_def y_def norm_def)
  moreover have "queue_ok (x\<lparr>mem := (mem x)\<lparr>buffer := (buffer (mem x))(h := None),
        head := (head (mem x))\<lparr>ctl := (h + 1) AND size_mask (head (mem x))\<rparr>\<rparr>, got := got x @ [v]\<rparr>)"
    by (rule queue_okI [OF y4]) (use assms(1) in \<open>simp_all add: queue_ok_def y3_def y2_def y1_def y_def norm_def\<close>)
  ultimately show ?thesis by blast
qed

section \<open>The invariant of confined runs\<close>

text \<open>Between the two steps of \<^verbatim>\<open>await_resume\<close> the item is in the consumer's hands.\<close>

definition refill :: "nat \<Rightarrow> 'a \<Rightarrow> 'a spsc_sys \<Rightarrow> 'a spsc_sys" where
  "refill h v x = x\<lparr>mem := (mem x)\<lparr>buffer := (buffer (mem x))(h := Some v)\<rparr>\<rparr>"

fun view_q :: "'a cons_pc \<Rightarrow> 'a spsc_sys \<Rightarrow> 'a spsc_sys" where
  "view_q (KPublish h v) x = refill h v x"
| "view_q _ x = x"

fun taken_ok :: "'a cons_pc \<Rightarrow> 'a spsc_sys \<Rightarrow> bool" where
  "taken_ok (KPublish h v) x = (h = ctl (head (mem x)) \<and> got x \<noteq> sent x \<and> buffer (mem x) h = None)"
| "taken_ok _ x = True"

definition ring_ok :: "'a chan_sys \<Rightarrow> bool" where
  "ring_ok s \<longleftrightarrow> queue_ok (view_q (kpc s) (q s)) \<and> taken_ok (kpc s) (q s) \<and> List.map_filter (\<lambda>r. r) (outs s) = got (q s)"

text \<open>Who may resume the coroutine: the slot, a thread about to call the callback, or the executor.\<close>

fun calls :: "call_pc \<Rightarrow> nat list" where
  "calls (NCall g) = [g]"
| "calls _ = []"

definition tokens :: "'a chan_sys \<Rightarrow> nat list" where
  "tokens s = (case callback s of None \<Rightarrow> [] | Some g \<Rightarrow> [g]) @ calls (notify s) @ calls (closer s) @ wakes s"

fun rest_ok :: "susp_pc \<Rightarrow> 'a chan_sys \<Rightarrow> bool" where
  "rest_ok (SStart g) s = (g = gen s)"
| "rest_ok (SHead g h) s = (g = gen s \<and> h = ctl (head (mem (q s))))"
| "rest_ok (SClosed g t) s = (g = gen s)"
| "rest_ok (SRetract g t) s = (g = gen s)"

definition token_ok :: "'a chan_sys \<Rightarrow> bool" where
  "token_ok s \<longleftrightarrow> \<not> broken s \<and>
     (if kpc s = KAsleep then tokens s = [gen s] \<and> (susp s = [] \<or> (\<exists>p. susp s = [p] \<and> rest_ok p s))
      else tokens s = [] \<and> susp s = [])"

text \<open>A registered consumer whose checks are done has an empty open channel, or someone about to notice it.\<close>

definition seen_items :: "'a chan_sys \<Rightarrow> bool" where
  "seen_items s \<longleftrightarrow> got (q s) = sent (q s) \<or> notify s = NExchange"

definition seen_close :: "'a chan_sys \<Rightarrow> bool" where
  "seen_close s \<longleftrightarrow> \<not> closed s \<or> closer s = NExchange"

definition wait_ok :: "'a chan_sys \<Rightarrow> bool" where
  "wait_ok s \<longleftrightarrow> (callback s \<noteq> None \<longrightarrow>
     (susp s = [] \<longrightarrow> seen_items s \<and> seen_close s) \<and> (\<forall>g t. susp s = [SClosed g t] \<longrightarrow> seen_items s))"

definition notify_ok :: "'a chan_sys \<Rightarrow> bool" where
  "notify_ok s \<longleftrightarrow> (notify s \<noteq> NIdle \<longrightarrow> ppc (q s) = PIdle)"

definition chan_inv :: "'a chan_sys \<Rightarrow> bool" where
  "chan_inv s \<longleftrightarrow> ring_ok s \<and> token_ok s \<and> wait_ok s \<and> notify_ok s"

lemma chan_inv_new: "sz < 2 ^ 63 \<Longrightarrow> chan_inv (chan_new sz)"
  using queue_okI [OF spsc_init_inv, of sz "spsc_init sz"]
  by (simp add: chan_inv_def chan_new_def ring_ok_def token_ok_def tokens_def wait_ok_def notify_ok_def spsc_init_def
      List.map_filter_def)


lemma awake_facts:
  assumes "token_ok s" "kpc s \<noteq> KAsleep"
  shows "callback s = None" "wakes s = []" "susp s = []" "calls (notify s) = []" "calls (closer s) = []"
  using assms by (auto simp: token_ok_def tokens_def split: option.splits)

lemma awake_frame:
  assumes "chan_inv s" "kpc s \<noteq> KAsleep" "ring_ok t" "kpc t \<noteq> KAsleep" "broken t = broken s" "callback t = callback s"
    "susp t = susp s" "notify t = notify s" "closer t = closer s" "wakes t = wakes s" "ppc (q t) = ppc (q s)"
  shows "chan_inv t"
proof -
  have s: "token_ok s" "notify_ok s" using assms(1) by (simp_all add: chan_inv_def)
  note f = awake_facts [OF s(1) assms(2)]
  have "token_ok t" using assms f s(1) by (simp add: token_ok_def tokens_def)
  moreover have "wait_ok t" "notify_ok t" using assms f s(2) by (simp_all add: wait_ok_def notify_ok_def)
  ultimately show ?thesis using assms(3) by (simp add: chan_inv_def)
qed

lemma view_q_simps [simp]:
  "tail (mem (view_q k x)) = tail (mem x)" "head (mem (view_q k x)) = head (mem x)" "ppc (view_q k x) = ppc x"
  "sent (view_q k x) = sent x" "got (view_q k x) = got x" "cpc (view_q k x) = cpc x"
  by (cases k; simp add: refill_def)+

lemma ring_ok_local: "ring_ok (set_local t s) = ring_ok s"
proof -
  have "view_q k (x\<lparr>mem := (mem x)\<lparr>head := (head (mem x))\<lparr>local := t\<rparr>\<rparr>\<rparr>) =
      (view_q k x)\<lparr>mem := (mem (view_q k x))\<lparr>head := (head (mem (view_q k x)))\<lparr>local := t\<rparr>\<rparr>\<rparr>" for k and x :: "'a spsc_sys"
    by (cases k) (simp_all add: refill_def)
  moreover have "taken_ok k (x\<lparr>mem := (mem x)\<lparr>head := (head (mem x))\<lparr>local := t\<rparr>\<rparr>\<rparr>) = taken_ok k x" for k and x :: "'a spsc_sys"
    by (cases k) simp_all
  ultimately show ?thesis
    using queue_ok_local [of t "view_q (kpc s) (q s)"] by (simp add: ring_ok_def set_local_def set_mem_def)
qed

lemma set_local_simps [simp]:
  "closed (set_local t s) = closed s" "callback (set_local t s) = callback s" "kpc (set_local t s) = kpc s"
  "gen (set_local t s) = gen s" "susp (set_local t s) = susp s" "notify (set_local t s) = notify s"
  "closer (set_local t s) = closer s" "wakes (set_local t s) = wakes s" "outs (set_local t s) = outs s"
  "broken (set_local t s) = broken s" "ppc (q (set_local t s)) = ppc (q s)" "got (q (set_local t s)) = got (q s)"
  "sent (q (set_local t s)) = sent (q s)" "ctl (head (mem (q (set_local t s)))) = ctl (head (mem (q s)))"
  "tail (mem (q (set_local t s))) = tail (mem (q s))"
  by (simp_all add: set_local_def set_mem_def)

subsection \<open>The consumer\<close>

lemma inv_ready: "chan_inv s \<Longrightarrow> await_ready s = Some t \<Longrightarrow> chan_inv t"
proof -
  assume s: "chan_inv s" "await_ready s = Some t"
  have k: "kpc s \<in> {KRun, KReload, KClosed}" using s(2) by (auto simp: await_ready_def Let_def split: cons_pc.splits)
  have "ring_ok t"
    using s k ring_ok_local [of "ctl (tail (mem (q s)))" s]
    by (auto simp: await_ready_def Let_def chan_inv_def ring_ok_def split: if_splits)
  moreover have "kpc t \<noteq> KAsleep" "broken t = broken s" "callback t = callback s"
    "susp t = susp s" "notify t = notify s" "closer t = closer s" "wakes t = wakes s" "ppc (q t) = ppc (q s)"
    using s(2) k by (auto simp: await_ready_def Let_def split: if_splits)
  moreover have "kpc s \<noteq> KAsleep" using k by auto
  ultimately show ?thesis using awake_frame [OF s(1)] by blast
qed

lemma inv_store: "chan_inv s \<Longrightarrow> await_store s = Some t \<Longrightarrow> chan_inv t"
proof -
  assume s: "chan_inv s" "await_store s = Some t"
  then have k: "kpc s = KStore" by (auto simp: await_store_def split: if_splits)
  then have aw: "token_ok s" "kpc s \<noteq> KAsleep" using s(1) by (auto simp: chan_inv_def)
  show ?thesis using s k awake_facts [OF aw]
    by (auto simp: await_store_def chan_inv_def ring_ok_def token_ok_def tokens_def wait_ok_def notify_ok_def)
qed

lemma inv_rest: "chan_inv s \<Longrightarrow> await_rest i s = Some t \<Longrightarrow> chan_inv t"
proof -
  assume s: "chan_inv s" "await_rest i s = Some t"
  have "susp s \<noteq> []" using s(2) by (auto simp: await_rest_def split: if_splits)
  then have k: "kpc s = KAsleep" using s(1) by (auto simp: chan_inv_def token_ok_def split: if_splits)
  then obtain p where p: "susp s = [p]" "rest_ok p s" "tokens s = [gen s]" "\<not> broken s"
    using s(1) \<open>susp s \<noteq> []\<close> by (auto simp: chan_inv_def token_ok_def)
  have i: "i = 0" using s(2) p(1) by (auto simp: await_rest_def split: if_splits)
  have em: "ctl (head (mem (q s))) = ctl (tail (mem (q s))) \<longleftrightarrow> got (q s) = sent (q s)"
    using s(1) k queue_ok_empty(1) by (auto simp: chan_inv_def ring_ok_def)
  note inv = s(1) [unfolded chan_inv_def]
  show ?thesis
  proof (cases "\<exists>g u. p = SRetract g u \<and> callback s \<noteq> None")
    case True
    then obtain g u g' where r: "p = SRetract g u" "callback s = Some g'" by auto
    define s1 where "s1 = s\<lparr>callback := None, susp := []\<rparr>"
    have t: "t = (set_local u s1)\<lparr>kpc := KResume\<rparr>"
      using s(2) p r i k by (simp add: await_rest_def Let_def drop_nth_def resume_await_def s1_def)
    have "ring_ok s1" using inv k by (simp add: ring_ok_def s1_def)
    then have "ring_ok t" using k ring_ok_local [of u s1] by (simp add: t ring_ok_def s1_def)
    moreover have "token_ok t" using p r by (auto simp: t s1_def token_ok_def tokens_def)
    moreover have "wait_ok t" "notify_ok t" using inv by (simp_all add: t s1_def wait_ok_def notify_ok_def)
    ultimately show ?thesis by (simp add: chan_inv_def)
  next
    case False
    then have t: "q t = q s" "kpc t = kpc s" "outs t = outs s" "broken t = broken s" "gen t = gen s"
      "callback t = callback s" "notify t = notify s" "closer t = closer s" "wakes t = wakes s" "closed t = closed s"
      using s(2) p(1) i by (auto simp: await_rest_def Let_def drop_nth_def split: susp_pc.splits if_splits)
    have su: "susp t = [] \<or> (\<exists>p'. susp t = [p'] \<and> rest_ok p' t)"
      using s(2) p i False by (auto simp: await_rest_def Let_def drop_nth_def split: susp_pc.splits if_splits)
    have "wait_ok t"
      using s(2) p i False inv em
      by (auto simp: await_rest_def Let_def drop_nth_def wait_ok_def seen_items_def seen_close_def split: susp_pc.splits if_splits)
    then show ?thesis using t su inv p k by (auto simp: chan_inv_def ring_ok_def token_ok_def tokens_def notify_ok_def)
  qed
qed

lemma inv_resume: "chan_inv s \<Longrightarrow> await_resume s = Some t \<Longrightarrow> chan_inv t"
proof -
  assume s: "chan_inv s" "await_resume s = Some t"
  note inv = s(1) [unfolded chan_inv_def]
  define m where "m = mem (q s)"
  define h where "h = ctl (head m)"
  have k: "kpc s = KResume \<or> (\<exists>i v. kpc s = KPublish i v)"
    using s(2) by (auto simp: await_resume_def Let_def split: cons_pc.splits)
  then have ns: "kpc s \<noteq> KAsleep" by auto
  from k show ?thesis
  proof (elim disjE exE)
    assume r: "kpc s = KResume"
    have qk: "queue_ok (q s)" using inv r by (simp add: ring_ok_def)
    show ?thesis
    proof (cases "h = ctl (tail m)")
      case True
      then have t: "t = s\<lparr>outs := outs s @ [None], kpc := KRun, spurious := spurious s \<or> \<not> closed s\<rparr>"
        using s(2) r by (simp add: await_resume_def Let_def m_def h_def)
      have "ring_ok t" using inv r by (simp add: t ring_ok_def List.map_filter_def)
      then show ?thesis by (rule awake_frame [OF s(1) ns]) (simp_all add: t)
    next
      case False
      obtain v where v: "buffer m h = Some v"
        using queue_ok_pop [OF qk, of h] False by (auto simp: m_def h_def)
      have t: "t = (set_mem (m\<lparr>buffer := (buffer m)(h := None)\<rparr>) s)\<lparr>kpc := KPublish h v\<rparr>"
        using s(2) r False v by (simp add: await_resume_def Let_def m_def h_def)
      have "refill h v (q t) = q s" using v by (simp add: t refill_def set_mem_def m_def fun_upd_idem)
      moreover have "got (q s) \<noteq> sent (q s)" using False queue_ok_empty(1) [OF qk] by (simp add: m_def h_def)
      ultimately have "ring_ok t" using inv qk by (simp add: t ring_ok_def set_mem_def m_def h_def)
      then show ?thesis by (rule awake_frame [OF s(1) ns]) (simp_all add: t set_mem_def)
    qed
  next
    fix i v assume r: "kpc s = KPublish i v"
    have qk: "queue_ok (refill i v (q s))" and tk: "i = h" "got (q s) \<noteq> sent (q s)" "buffer m i = None"
      using inv r by (auto simp: ring_ok_def m_def h_def)
    have t: "t = s\<lparr>q := (q s)\<lparr>mem := m\<lparr>head := (head m)\<lparr>ctl := (h + 1) AND size_mask (head m)\<rparr>\<rparr>, got := got (q s) @ [v]\<rparr>,
        outs := outs s @ [Some v], kpc := KRun\<rparr>"
      using s(2) r tk(1) by (simp add: await_resume_def Let_def m_def)
    have "h \<noteq> ctl (tail (mem (refill i v (q s))))"
      using queue_ok_empty(1) [OF qk] tk by (simp add: refill_def m_def h_def)
    from queue_ok_pop [OF qk _ this] have "queue_ok (q t)"
      using tk by (simp add: t refill_def m_def h_def fun_upd_idem)
    then have "ring_ok t" using inv by (simp add: t ring_ok_def List.map_filter_def)
    then show ?thesis by (rule awake_frame [OF s(1) ns]) (simp_all add: t)
  qed
qed


subsection \<open>The producer and the closer\<close>

text \<open>Running the callback hands the right to resume to the executor.\<close>

lemma inv_call:
  assumes "ring_ok s" "\<not> broken s" "kpc s = KAsleep" "tokens s = []" "g = gen s" "callback s = None" "notify_ok s"
    "susp s = [] \<or> (\<exists>p. susp s = [p] \<and> rest_ok p s)"
  shows "chan_inv (run_callback g s)"
proof -
  have r: "rest_ok p (set_local u s \<lparr>wakes := w\<rparr>) = rest_ok p s" for p u w by (cases p) simp_all
  have "ring_ok (set_local u s \<lparr>wakes := w\<rparr>)" for u w using ring_ok_local [of u s] assms(1) by (simp add: ring_ok_def)
  then show ?thesis using assms
    by (auto simp: run_callback_def Let_def chan_inv_def token_ok_def tokens_def wait_ok_def notify_ok_def r split: option.splits)
qed

lemma token_cases:
  assumes "token_ok s"
  shows "notify s = NCall g \<Longrightarrow> kpc s = KAsleep \<and> g = gen s \<and> callback s = None \<and> calls (closer s) = [] \<and> wakes s = []"
    "closer s = NCall g \<Longrightarrow> kpc s = KAsleep \<and> g = gen s \<and> callback s = None \<and> calls (notify s) = [] \<and> wakes s = []"
    "callback s = Some g \<Longrightarrow> kpc s = KAsleep \<and> g = gen s \<and> calls (notify s) = [] \<and> calls (closer s) = [] \<and> wakes s = []"
    "wakes s = g # gs \<Longrightarrow> kpc s = KAsleep \<and> g = gen s \<and> gs = [] \<and> callback s = None \<and> calls (notify s) = [] \<and> calls (closer s) = []"
  using assms by (auto simp: token_ok_def tokens_def split: if_splits option.splits simp: append_eq_Cons_conv)

lemma token_susp: "token_ok s \<Longrightarrow> susp s = [] \<or> (\<exists>p. susp s = [p] \<and> rest_ok p s)"
  by (auto simp: token_ok_def split: if_splits)

lemma inv_notify_call:
  assumes "chan_inv s" "notify s = NCall g"
  shows "chan_inv (run_callback g (s\<lparr>notify := NIdle\<rparr>))"
proof -
  have tk: "token_ok s" using assms(1) by (simp add: chan_inv_def)
  note c = token_cases(1) [OF tk assms(2)]
  have "rest_ok p (s\<lparr>notify := NIdle\<rparr>) = rest_ok p s" for p by (cases p) simp_all
  then show ?thesis using assms c token_susp [OF tk]
    by (intro inv_call) (auto simp: chan_inv_def ring_ok_def token_ok_def tokens_def notify_ok_def)
qed

lemma inv_closer_call:
  assumes "chan_inv s" "closer s = NCall g"
  shows "chan_inv (run_callback g (s\<lparr>closer := NIdle\<rparr>))"
proof -
  have tk: "token_ok s" using assms(1) by (simp add: chan_inv_def)
  note c = token_cases(2) [OF tk assms(2)]
  have "rest_ok p (s\<lparr>closer := NIdle\<rparr>) = rest_ok p s" for p by (cases p) simp_all
  then show ?thesis using assms c token_susp [OF tk]
    by (intro inv_call) (auto simp: chan_inv_def ring_ok_def token_ok_def tokens_def notify_ok_def)
qed

lemma inv_exchange:
  assumes "chan_inv s" "t = s\<lparr>callback := None, notify := (case callback s of None \<Rightarrow> NIdle | Some g \<Rightarrow> NCall g)\<rparr>"
    "notify s = NExchange"
  shows "chan_inv t"
proof -
  have tk: "token_ok s" using assms(1) by (simp add: chan_inv_def)
  have r: "rest_ok p t = rest_ok p s" for p by (cases p) (simp_all add: assms(2))
  have "tokens t = tokens s" using token_cases(3) [OF tk] assms(3) by (auto simp: assms(2) tokens_def split: option.splits)
  then show ?thesis using assms(1,3) r
    by (auto simp: chan_inv_def ring_ok_def token_ok_def wait_ok_def notify_ok_def assms(2) split: option.splits)
qed

lemma inv_close_exchange:
  assumes "chan_inv s" "t = s\<lparr>callback := None, closer := (case callback s of None \<Rightarrow> NIdle | Some g \<Rightarrow> NCall g)\<rparr>"
    "closer s = NExchange"
  shows "chan_inv t"
proof -
  have tk: "token_ok s" using assms(1) by (simp add: chan_inv_def)
  have r: "rest_ok p t = rest_ok p s" for p by (cases p) (simp_all add: assms(2))
  have "tokens t = tokens s" using token_cases(3) [OF tk] assms(3) by (auto simp: assms(2) tokens_def split: option.splits)
  then show ?thesis using assms(1,3) r
    by (auto simp: chan_inv_def ring_ok_def token_ok_def wait_ok_def notify_ok_def assms(2) split: option.splits)
qed

text \<open>A step of the push on the ring.\<close>

lemma inv_ring_step:
  assumes "chan_inv s" "ring_ok (s\<lparr>q := x\<rparr>)" "ctl (head (mem x)) = ctl (head (mem (q s)))" "got x = got (q s)" "sent x = sent (q s)"
    "notify s = NIdle"
  shows "chan_inv (s\<lparr>q := x\<rparr>)"
proof -
  have "rest_ok p (s\<lparr>q := x\<rparr>) = rest_ok p s" for p using assms(3) by (cases p) simp_all
  moreover have "tokens (s\<lparr>q := x\<rparr>) = tokens s" by (simp add: tokens_def)
  ultimately show ?thesis using assms
    by (auto simp: chan_inv_def token_ok_def wait_ok_def notify_ok_def seen_items_def seen_close_def)
qed

lemma inv_push_begin: "chan_inv s \<Longrightarrow> push_begin v s = Some t \<Longrightarrow> chan_inv t"
proof -
  assume s: "chan_inv s" "push_begin v s = Some t"
  show ?thesis
  proof (cases "closed s")
    case False
    define tl where "tl = ctl (tail (mem (q s)))"
    define n where "n = (tl + 1) AND size_mask (tail (mem (q s)))"
    define pc where "pc = (if n \<noteq> local (tail (mem (q s))) then PConstruct v tl n else PReload v tl n)"
    have i: "ppc (q s) = PIdle" "notify s = NIdle" and t: "t = s\<lparr>q := (q s)\<lparr>ppc := pc\<rparr>\<rparr>"
      using s(2) False by (auto simp: push_begin_def Let_def tl_def n_def pc_def split: if_splits)
    have r: "view_q k (x\<lparr>ppc := pc\<rparr>) = (view_q k x)\<lparr>ppc := pc\<rparr>" "taken_ok k (x\<lparr>ppc := pc\<rparr>) = taken_ok k x" for k and x :: "'a spsc_sys"
      by (cases k; simp add: refill_def)+
    have "queue_ok ((view_q (kpc s) (q s))\<lparr>ppc := pc\<rparr>)"
      using queue_ok_start [of "view_q (kpc s) (q s)" tl n v] s(1) i
      by (simp add: chan_inv_def ring_ok_def tl_def n_def pc_def)
    then have "ring_ok t" using s(1) by (simp add: t r ring_ok_def chan_inv_def)
    then show ?thesis using inv_ring_step [OF s(1), of "(q s)\<lparr>ppc := pc\<rparr>"] i by (simp add: t)
  qed (use s in \<open>auto simp: push_begin_def split: if_splits\<close>)
qed

lemma inv_push_reload:
  assumes "chan_inv s" "ppc (q s) = PReload v u n"
  shows "chan_inv (s\<lparr>q := (q s)\<lparr>mem := (mem (q s))\<lparr>tail := (tail (mem (q s)))\<lparr>local := ctl (head (mem (q s)))\<rparr>\<rparr>,
     ppc := if n \<noteq> ctl (head (mem (q s))) then PConstruct v u n else PIdle\<rparr>\<rparr>)"
proof -
  have r: "view_q k (x\<lparr>mem := (mem x)\<lparr>tail := tl\<rparr>, ppc := pc\<rparr>) = (view_q k x)\<lparr>mem := (mem (view_q k x))\<lparr>tail := tl\<rparr>, ppc := pc\<rparr>"
    "taken_ok k (x\<lparr>mem := (mem x)\<lparr>tail := tl\<rparr>, ppc := pc\<rparr>) = taken_ok k x" for k tl pc and x :: "'a spsc_sys"
    by (cases k; simp add: refill_def)+
  show ?thesis
    using queue_ok_reload [of "view_q (kpc s) (q s)" v u n] assms
    by (intro inv_ring_step) (auto simp: chan_inv_def ring_ok_def r notify_ok_def)
qed

lemma inv_push_construct:
  assumes "chan_inv s" "ppc (q s) = PConstruct v u n"
  shows "chan_inv (s\<lparr>q := (q s)\<lparr>mem := (mem (q s))\<lparr>buffer := (buffer (mem (q s)))(u := Some v)\<rparr>, ppc := PStore v u n\<rparr>\<rparr>)"
proof -
  have qk: "queue_ok (view_q (kpc s) (q s))" "taken_ok (kpc s) (q s)" using assms(1) by (simp_all add: chan_inv_def ring_ok_def)
  have raw: "buffer (mem (view_q (kpc s) (q s))) u = None" using queue_ok_raw [OF qk(1)] assms(2) by simp
  have "view_q (kpc s) ((q s)\<lparr>mem := (mem (q s))\<lparr>buffer := (buffer (mem (q s)))(u := Some v)\<rparr>, ppc := PStore v u n\<rparr>) =
      (view_q (kpc s) (q s))\<lparr>mem := (mem (view_q (kpc s) (q s)))\<lparr>buffer := (buffer (mem (view_q (kpc s) (q s))))(u := Some v)\<rparr>,
        ppc := PStore v u n\<rparr>"
  proof (cases "kpc s")
    case (KPublish i w)
    then have "u \<noteq> i" using raw by (auto simp: refill_def)
    then show ?thesis using KPublish by (simp add: refill_def fun_upd_twist [of u i])
  qed simp_all
  moreover have "taken_ok (kpc s) ((q s)\<lparr>mem := (mem (q s))\<lparr>buffer := (buffer (mem (q s)))(u := Some v)\<rparr>, ppc := PStore v u n\<rparr>)"
    using raw qk(2) by (cases "kpc s") (auto simp: refill_def)
  ultimately show ?thesis
    using queue_ok_construct [OF qk(1), of v u n] assms
    by (intro inv_ring_step) (auto simp: chan_inv_def ring_ok_def notify_ok_def)
qed

lemma inv_push_store:
  assumes "chan_inv s" "ppc (q s) = PStore v u n"
  shows "chan_inv (s\<lparr>q := (q s)\<lparr>mem := (mem (q s))\<lparr>tail := (tail (mem (q s)))\<lparr>ctl := n\<rparr>\<rparr>, ppc := PIdle, sent := sent (q s) @ [v]\<rparr>,
     notify := NExchange\<rparr>)" (is "chan_inv ?t")
proof -
  have qk: "queue_ok (view_q (kpc s) (q s))" using assms(1) by (simp add: chan_inv_def ring_ok_def)
  have "got (q s) \<noteq> sent (q s) @ [v]" using queue_ok_empty(2) [OF qk] prefix_length_le by fastforce
  then have r: "view_q (kpc s) (q ?t) = (view_q (kpc s) (q s))\<lparr>mem := (mem (view_q (kpc s) (q s)))\<lparr>tail := (tail (mem (view_q (kpc s) (q s))))\<lparr>ctl := n\<rparr>\<rparr>,
      ppc := PIdle, sent := sent (view_q (kpc s) (q s)) @ [v]\<rparr>"
    "taken_ok (kpc s) (q s) \<Longrightarrow> taken_ok (kpc s) (q ?t)"
    by (cases "kpc s"; simp add: refill_def)+
  have "ring_ok ?t" using queue_ok_store [OF qk, of v u n] assms r by (simp add: chan_inv_def ring_ok_def)
  moreover have "rest_ok p ?t = rest_ok p s" for p by (cases p) simp_all
  moreover have "notify s = NIdle" using assms by (auto simp: chan_inv_def notify_ok_def)
  then have "tokens ?t = tokens s" by (simp add: tokens_def)
  ultimately show ?thesis using assms(1)
    by (auto simp: chan_inv_def token_ok_def wait_ok_def notify_ok_def seen_items_def seen_close_def)
qed

lemma inv_push_exec: "chan_inv s \<Longrightarrow> push_exec s = Some t \<Longrightarrow> chan_inv t"
proof (cases "ppc (q s)")
  case PIdle
  assume s: "chan_inv s" "push_exec s = Some t"
  show ?thesis
  proof (cases "notify s")
    case NExchange
    with s PIdle show ?thesis by (intro inv_exchange [OF s(1)]) (simp_all add: push_exec_def Let_def)
  next
    case (NCall g)
    with s PIdle show ?thesis using inv_notify_call [OF s(1) NCall] by (simp add: push_exec_def Let_def)
  qed (use s PIdle in \<open>simp add: push_exec_def Let_def\<close>)
next
  case (PReload v u n)
  assume "chan_inv s" "push_exec s = Some t"
  with PReload show ?thesis using inv_push_reload [of s v u n] by (simp add: push_exec_def Let_def)
next
  case (PConstruct v u n)
  assume "chan_inv s" "push_exec s = Some t"
  with PConstruct show ?thesis using inv_push_construct [of s v u n] by (simp add: push_exec_def Let_def)
next
  case (PStore v u n)
  assume "chan_inv s" "push_exec s = Some t"
  with PStore show ?thesis using inv_push_store [of s v u n] by (simp add: push_exec_def Let_def)
qed

lemma inv_close_begin: "chan_inv s \<Longrightarrow> close_begin s = Some t \<Longrightarrow> chan_inv t"
proof -
  assume s: "chan_inv s" "close_begin s = Some t"
  then have t: "closer s = NIdle" "t = s\<lparr>closed := True, closer := NExchange\<rparr>" by (auto simp: close_begin_def split: if_splits)
  have "rest_ok p t = rest_ok p s" for p by (cases p) (simp_all add: t)
  then show ?thesis using s(1) t
    by (auto simp: chan_inv_def ring_ok_def token_ok_def tokens_def wait_ok_def notify_ok_def seen_items_def seen_close_def)
qed

lemma inv_close_exec: "chan_inv s \<Longrightarrow> close_exec s = Some t \<Longrightarrow> chan_inv t"
  using inv_close_exchange inv_closer_call by (cases "closer s") (fastforce simp: close_exec_def)+

lemma inv_wake: "chan_inv s \<Longrightarrow> wake_exec True s = Some t \<Longrightarrow> chan_inv t"
proof -
  assume s: "chan_inv s" "wake_exec True s = Some t"
  then obtain g gs where g: "wakes s = g # gs" "susp s = []" "t = resume_await g (s\<lparr>wakes := gs\<rparr>)"
    by (auto simp: wake_exec_def split: list.splits if_splits)
  have tk: "token_ok s" using s(1) by (simp add: chan_inv_def)
  have "chan_inv (s\<lparr>wakes := [], kpc := KResume\<rparr>)"
    using s(1) token_cases(4) [OF tk g(1)] g(2)
    by (auto simp: chan_inv_def ring_ok_def token_ok_def tokens_def wait_ok_def notify_ok_def)
  then show ?thesis using token_cases(4) [OF tk g(1)] g(3) by (simp add: resume_await_def)
qed

lemma inv_exec: "chan_inv s \<Longrightarrow> chan_exec True s a = Some t \<Longrightarrow> chan_inv t"
  by (cases a) (auto intro: inv_ready inv_store inv_rest inv_resume inv_push_begin inv_push_exec inv_close_begin inv_close_exec inv_wake)

lemma inv_run: "sz < 2 ^ 63 \<Longrightarrow> chan_run True (chan_new sz) as = Some s \<Longrightarrow> chan_inv s"
proof (induction as arbitrary: s rule: rev_induct)
  case (snoc a as)
  then show ?case by (auto simp: chan_run_snoc bind_eq_Some_conv intro: inv_exec)
qed (auto simp: chan_inv_new)

section \<open>What the channel promises\<close>

definition quiet :: "'a chan_sys \<Rightarrow> bool" where
  "quiet s \<longleftrightarrow> ppc (q s) = PIdle \<and> notify s = NIdle \<and> closer s = NIdle \<and> susp s = [] \<and> wakes s = []"

text \<open>C11. The channel loses neither items nor wakeups: in every interleaving of a consumer that is resumed on its own
  thread with one producer and one closing thread, no coroutine is resumed twice or in the wrong await, the
  items received are a prefix of the items accepted and are exactly what the awaits returned, and when all
  calls have returned and the consumer is suspended, the channel is empty and open and the consumer is
  registered, so that the next push or close wakes it.\<close>

theorem channel_no_lost_wakeup:
  assumes "sz < 2 ^ 63" "chan_run True (chan_new sz) as = Some s"
  shows "\<not> broken s \<and> prefix (got (q s)) (sent (q s)) \<and> List.map_filter (\<lambda>r. r) (outs s) = got (q s) \<and>
    (kpc s = KAsleep \<and> quiet s \<longrightarrow> callback s = Some (gen s) \<and> got (q s) = sent (q s) \<and> \<not> closed s)"
proof -
  have i: "chan_inv s" using inv_run [OF assms] .
  then have "prefix (got (q s)) (sent (q s))"
    using queue_ok_empty(2) [of "view_q (kpc s) (q s)"] by (simp add: chan_inv_def ring_ok_def)
  moreover have "callback s = Some (gen s)" if "kpc s = KAsleep" "quiet s"
    using i that by (auto simp: chan_inv_def token_ok_def tokens_def quiet_def split: option.splits)
  ultimately show ?thesis using i
    by (auto simp: chan_inv_def ring_ok_def token_ok_def wait_ok_def seen_items_def seen_close_def quiet_def)
qed

theorem channel_no_lost_wakeup_witness:
  "\<exists>s. chan_run True (chan_new 1 :: nat chan_sys)
       [Ready, Ready, Ready, Store, Push 7, Prod, Rest 0, Prod, Rest 0, Prod, Rest 0, Prod, Wake, Resume, Resume,
        Ready, Ready, Ready, Store, Rest 0, Rest 0, Rest 0] = Some s \<and>
     kpc s = KAsleep \<and> got (q s) = sent (q s) \<and> outs s = [Some 7] \<and> callback s = Some 2"
proof -
  let ?as = "[Ready, Ready, Ready, Store, Push (7::nat), Prod, Rest 0, Prod, Rest 0, Prod, Rest 0, Prod, Wake, Resume, Resume,
        Ready, Ready, Ready, Store, Rest 0, Rest 0, Rest 0]"
  have "map_option (\<lambda>s. (kpc s, outs s, gen s, ppc (q s), notify s, closer s, susp s, wakes s)) (chan_run True (chan_new 1) ?as) =
      Some (KAsleep, [Some 7], 2, PIdle, NIdle, NIdle, [], [])" by code_simp
  then obtain s where s: "chan_run True (chan_new 1) ?as = Some s" "kpc s = KAsleep" "outs s = [Some 7]" "gen s = 2" "quiet s"
    by (auto simp: quiet_def)
  from channel_no_lost_wakeup [OF _ s(1)] s show ?thesis by auto
qed

text \<open>A push can wake the consumer for an item it has already received: the producer stores the item, the consumer
  takes it, awaits again and registers, and only then does the producer exchange the callback.  The awaiting
  coroutine is resumed on an empty open channel and its await reports the end of the channel.\<close>

lemma channel_spurious_end:
  "\<exists>as s. chan_run True (chan_new 1 :: nat chan_sys) as = Some s \<and> \<not> closed s \<and> outs s = [Some 7, None] \<and> spurious s"
proof -
  let ?as = "[Push (7::nat), Prod, Prod, Ready, Ready, Resume, Resume, Ready, Ready, Ready, Store, Rest 0, Rest 0, Rest 0,
      Prod, Prod, Wake, Resume]"
  have "map_option (\<lambda>s. (closed s, outs s, spurious s)) (chan_run True (chan_new 1) ?as) = Some (False, [Some 7, None], True)"
    by code_simp
  then show ?thesis by blast
qed

text \<open>Without the confinement, the rest of an \<^verbatim>\<open>await_suspend\<close> can retract the callback of a newer await.\<close>

lemma channel_unconfined_broken:
  "\<exists>as s. chan_run False (chan_new 1 :: nat chan_sys) as = Some s \<and> broken s"
proof -
  let ?as = "[Ready, Ready, Ready, Store, Push (7::nat), Prod, Prod, Rest 0, Prod, Prod, Wake, Resume, Resume,
      Ready, Ready, Ready, Store, Push 8, Prod, Rest 0, Rest 0]"
  have "map_option broken (chan_run False (chan_new 1) ?as) = Some True" by code_simp
  then show ?thesis by blast
qed

end
