(* ===== verification/Coro_Executor.thy ===== *)
theory Coro_Executor
  imports Net_Prelude "HOL-Library.Multiset"
begin

text \<open>
  The executors that resume coroutines (\<^verbatim>\<open>include/xsl/coro/core/executor.h\<close>, \<^verbatim>\<open>src/coro/core/executor.cpp\<close>)
  and the coroutine context that carries one (\<^verbatim>\<open>include/xsl/coro/core/context.h\<close>).  The thread pool is a
  step relation: its shared state holds the task queue, the stop flag and, for every worker, where it is
  in its loop; a step is one critical section, one notification of the condition variable or the end of a
  task, so that every interleaving of the workers with the owner of the handle is a sequence of steps.
  The theorems show that tasks are started in the order of submission and exactly once, that no wake-up
  is lost, and that a pool with a worker drains its queue; a run shows that a pool without workers does not.
\<close>

section \<open>The executors\<close>

text \<open>\<^verbatim>\<open>NoopExecutor\<close> runs the function in place; \<^verbatim>\<open>NewThreadExecutor\<close> starts a detached thread for it.\<close>

record 't inline_exec =
  ie_finished :: "'t list"

definition noop_schedule :: "'t \<Rightarrow> 't inline_exec \<Rightarrow> 't inline_exec" where
  "noop_schedule t e = e\<lparr>ie_finished := ie_finished e @ [t]\<rparr>"

record 't thread_exec =
  te_threads :: "'t list"
  te_finished :: "'t list"

definition newthread_schedule :: "'t \<Rightarrow> 't thread_exec \<Rightarrow> 't thread_exec" where
  "newthread_schedule t e = e\<lparr>te_threads := te_threads e @ [t]\<rparr>"

inductive thread_step :: "'t thread_exec \<Rightarrow> 't thread_exec \<Rightarrow> bool" where
  "te_threads e = ts1 @ t # ts2 \<Longrightarrow>
   thread_step e (e\<lparr>te_threads := ts1 @ ts2, te_finished := te_finished e @ [t]\<rparr>)"

section \<open>The thread pool\<close>

text \<open>A worker is about to take the lock, blocked in \<^verbatim>\<open>cv.wait\<close>, running a task, or has returned.\<close>

datatype 't worker = WCheck | WWait | WRun 't | WExit

text \<open>
  \<^verbatim>\<open>ThreadPoolExecutor::State\<close>.  The last five fields are not in the code: whether the handle still
  refers to the state, the notifications that follow a critical section and are still to come, and the
  tasks in the order they were submitted, started and finished.
\<close>

record 't pool =
  tp_workers :: "'t worker list"
  tp_tasks :: "'t list"
  tp_stop :: bool
  tp_handle :: bool
  tp_notify_one :: nat
  tp_notify_all :: bool
  tp_submitted :: "'t list"
  tp_started :: "'t list"
  tp_finished :: "'t list"

definition pool_new :: "nat \<Rightarrow> 't pool" where
  "pool_new n = \<lparr>tp_workers = replicate n WCheck, tp_tasks = [], tp_stop = False, tp_handle = True,
     tp_notify_one = 0, tp_notify_all = False, tp_submitted = [], tp_started = [], tp_finished = []\<rparr>"

text \<open>\<^verbatim>\<open>schedule\<close>: the critical section, then \<^verbatim>\<open>notify_one\<close>.\<close>

definition pool_schedule :: "'t \<Rightarrow> 't pool \<Rightarrow> 't pool" where
  "pool_schedule t p = p\<lparr>tp_tasks := tp_tasks p @ [t], tp_notify_one := Suc (tp_notify_one p),
     tp_submitted := tp_submitted p @ [t]\<rparr>"

definition set_worker :: "nat \<Rightarrow> 't worker \<Rightarrow> 't pool \<Rightarrow> 't pool" where
  "set_worker i w p = p\<lparr>tp_workers := (tp_workers p)[i := w]\<rparr>"

definition wake :: "'t worker \<Rightarrow> 't worker" where
  "wake w = (if w = WWait then WCheck else w)"

text \<open>\<^verbatim>\<open>_signal_stop\<close>, run when the handle is destroyed or assigned to.\<close>

definition signal_stop :: "'t pool \<Rightarrow> 't pool" where
  "signal_stop p = p\<lparr>tp_handle := False, tp_stop := True, tp_notify_all := True\<rparr>"

text \<open>The critical section of a worker: wait, return, or take the first task.\<close>

definition worker_check :: "nat \<Rightarrow> 't pool \<Rightarrow> 't pool" where
  "worker_check i p =
     (case tp_tasks p of
        [] \<Rightarrow> set_worker i (if tp_stop p then WExit else WWait) p
      | t # ts \<Rightarrow> set_worker i (WRun t) (p\<lparr>tp_tasks := ts, tp_started := tp_started p @ [t]\<rparr>))"

text \<open>Steps the pool takes by itself.\<close>

inductive pool_int :: "'t pool \<Rightarrow> 't pool \<Rightarrow> bool" where
  notify_one: "tp_notify_one p = Suc k \<Longrightarrow> i < length (tp_workers p) \<Longrightarrow> tp_workers p ! i = WWait \<Longrightarrow>
     pool_int p (set_worker i WCheck (p\<lparr>tp_notify_one := k\<rparr>))"
| notify_none: "tp_notify_one p = Suc k \<Longrightarrow> WWait \<notin> set (tp_workers p) \<Longrightarrow> pool_int p (p\<lparr>tp_notify_one := k\<rparr>)"
| notify_all: "tp_notify_all p \<Longrightarrow> pool_int p (p\<lparr>tp_notify_all := False, tp_workers := map wake (tp_workers p)\<rparr>)"
| check: "i < length (tp_workers p) \<Longrightarrow> tp_workers p ! i = WCheck \<Longrightarrow> pool_int p (worker_check i p)"
| finish: "i < length (tp_workers p) \<Longrightarrow> tp_workers p ! i = WRun t \<Longrightarrow>
     pool_int p (set_worker i WCheck (p\<lparr>tp_finished := tp_finished p @ [t]\<rparr>))"

text \<open>All steps: those of the pool, those of the owner of the handle, and spurious wake-ups.\<close>

inductive pool_step :: "'t pool \<Rightarrow> 't pool \<Rightarrow> bool" where
  internal: "pool_int p q \<Longrightarrow> pool_step p q"
| schedule: "tp_handle p \<Longrightarrow> pool_step p (pool_schedule t p)"
| drop_handle: "tp_handle p \<Longrightarrow> pool_step p (signal_stop p)"
| spurious: "i < length (tp_workers p) \<Longrightarrow> tp_workers p ! i = WWait \<Longrightarrow> pool_step p (set_worker i WCheck p)"

inductive_cases pool_intE: "pool_int p q"
inductive_cases pool_stepE: "pool_step p q"

text \<open>\<^verbatim>\<open>~State\<close> on worker \<open>me\<close> (or on another thread): what it does with each \<^verbatim>\<open>std::thread\<close>.\<close>

datatype reap = Joined | Detached

definition state_dtor :: "nat option \<Rightarrow> 't pool \<Rightarrow> reap list" where
  "state_dtor me p = map (\<lambda>i. if me = Some i then Detached else Joined) [0..<length (tp_workers p)]"

section \<open>Handles\<close>

text \<open>Handles are pool numbers or null; moving leaves null behind, assigning stops the pool assigned over.\<close>

record 't exec_store =
  es_pools :: "nat \<Rightarrow> 't pool"
  es_handles :: "nat \<Rightarrow> nat option"

definition handle_stop :: "nat \<Rightarrow> 't exec_store \<Rightarrow> 't exec_store" where
  "handle_stop h s =
     (case es_handles s h of None \<Rightarrow> s | Some k \<Rightarrow> s\<lparr>es_pools := (es_pools s)(k := signal_stop (es_pools s k))\<rparr>)"

definition move_construct :: "nat \<Rightarrow> nat \<Rightarrow> 't exec_store \<Rightarrow> 't exec_store" where
  "move_construct h a s = s\<lparr>es_handles := (es_handles s)(h := es_handles s a, a := None)\<rparr>"

definition move_assign :: "nat \<Rightarrow> nat \<Rightarrow> 't exec_store \<Rightarrow> 't exec_store" where
  "move_assign h a s =
     (if h = a then s
      else (let s' = handle_stop h s in s'\<lparr>es_handles := (es_handles s')(h := es_handles s' a, a := None)\<rparr>))"

text \<open>\<^verbatim>\<open>schedule\<close> through a handle; a null handle is dereferenced.\<close>

definition handle_schedule :: "nat \<Rightarrow> 't \<Rightarrow> 't exec_store \<Rightarrow> 't exec_store option" where
  "handle_schedule h t s =
     (case es_handles s h of None \<Rightarrow> None
      | Some k \<Rightarrow> Some (s\<lparr>es_pools := (es_pools s)(k := pool_schedule t (es_pools s k))\<rparr>))"

section \<open>Coroutine contexts\<close>

text \<open>\<^verbatim>\<open>CoroContext\<close>: an executor, a reserved object and a stop source, all shared by reference.  The stop states
  live in a store: how many were created and which have been requested to stop.\<close>

record 'r coro_ctx =
  cc_exec :: nat
  cc_reserved :: "'r option"
  cc_stop :: nat

record stop_store =
  st_next :: nat
  st_requested :: "nat list"

definition context_new :: "nat \<Rightarrow> 'r option \<Rightarrow> stop_store \<Rightarrow> 'r coro_ctx \<times> stop_store" where
  "context_new e r st = (\<lparr>cc_exec = e, cc_reserved = r, cc_stop = st_next st\<rparr>, st\<lparr>st_next := Suc (st_next st)\<rparr>)"

text \<open>The constructors that take an existing stop source.\<close>

definition ctx_bound :: "nat \<Rightarrow> nat \<Rightarrow> 'r option \<Rightarrow> 'r coro_ctx" where
  "ctx_bound src e r = \<lparr>cc_exec = e, cc_reserved = r, cc_stop = src\<rparr>"

definition new_child_context :: "'r coro_ctx \<Rightarrow> 'r coro_ctx" where
  "new_child_context c = ctx_bound (cc_stop c) (cc_exec c) (cc_reserved c)"

definition new_independent_context :: "'r coro_ctx \<Rightarrow> stop_store \<Rightarrow> 'r coro_ctx \<times> stop_store" where
  "new_independent_context c st = context_new (cc_exec c) (cc_reserved c) st"

definition cancel :: "'r coro_ctx \<Rightarrow> stop_store \<Rightarrow> stop_store" where
  "cancel c st = st\<lparr>st_requested := List.insert (cc_stop c) (st_requested st)\<rparr>"

definition stop_requested :: "'r coro_ctx \<Rightarrow> stop_store \<Rightarrow> bool" where
  "stop_requested c st \<longleftrightarrow> cc_stop c \<in> set (st_requested st)"

text \<open>\<^verbatim>\<open>Reserved::await_resume\<close>: a context without a reserved object fails the assertion.\<close>

definition reserved_resume :: "'r coro_ctx \<Rightarrow> 'r option" where
  "reserved_resume c = cc_reserved c"

definition dispatch :: "('t \<Rightarrow> 'e \<Rightarrow> 'e) \<Rightarrow> 't \<Rightarrow> 'r coro_ctx \<Rightarrow> (nat \<Rightarrow> 'e) \<Rightarrow> (nat \<Rightarrow> 'e)" where
  "dispatch schedule t c ex = ex(cc_exec c := schedule t (ex (cc_exec c)))"

section \<open>Runs\<close>

text \<open>A run of an executor: what was submitted and the state reached.\<close>

inductive exec_run :: "('t \<Rightarrow> 's \<Rightarrow> 's) \<Rightarrow> ('s \<Rightarrow> bool) \<Rightarrow> ('s \<Rightarrow> 's \<Rightarrow> bool) \<Rightarrow> 's \<Rightarrow> 't list \<Rightarrow> 's \<Rightarrow> bool"
  for submit ready step s0 where
  run_start: "exec_run submit ready step s0 [] s0"
| run_submit: "exec_run submit ready step s0 ts s \<Longrightarrow> ready s \<Longrightarrow> exec_run submit ready step s0 (ts @ [t]) (submit t s)"
| run_step: "exec_run submit ready step s0 ts s \<Longrightarrow> step s s' \<Longrightarrow> exec_run submit ready step s0 ts s'"

fun run_of :: "'t worker \<Rightarrow> 't list" where
  "run_of (WRun t) = [t]"
| "run_of _ = []"

definition running :: "'t pool \<Rightarrow> 't list" where
  "running p = concat (map run_of (tp_workers p))"

text \<open>The number of steps a pool can take by itself is bounded by this measure.\<close>

fun weight :: "'t worker \<Rightarrow> nat" where
  "weight WCheck = 1"
| "weight (WRun _) = 2"
| "weight _ = 0"

definition pool_measure :: "'t pool \<Rightarrow> nat" where
  "pool_measure p = 2 * length (tp_tasks p) + 2 * tp_notify_one p +
     (if tp_notify_all p then Suc (length (tp_workers p)) else 0) + sum_list (map weight (tp_workers p))"

definition pool_inv :: "'t pool \<Rightarrow> bool" where
  "pool_inv p \<longleftrightarrow> tp_submitted p = tp_started p @ tp_tasks p \<and>
     mset (tp_started p) = mset (tp_finished p) + mset (running p) \<and>
     (WExit \<in> set (tp_workers p) \<longrightarrow> tp_stop p \<and> tp_tasks p = []) \<and>
     tp_stop p = (\<not> tp_handle p) \<and>
     (tp_stop p \<longrightarrow> WWait \<in> set (tp_workers p) \<longrightarrow> tp_notify_all p) \<and>
     (tp_tasks p \<noteq> [] \<longrightarrow> tp_workers p \<noteq> [] \<longrightarrow> 0 < tp_notify_one p \<or> tp_notify_all p \<or>
        (\<exists>w\<in>set (tp_workers p). weight w \<noteq> 0))"

text \<open>Contexts made from one another: fresh ones, children, independent ones, and cancellations.\<close>

datatype ctx_op = Fresh nat | Child nat | Independent nat | Cancel nat

fun ctx_exec :: "ctx_op \<Rightarrow> 'r coro_ctx list \<times> stop_store \<Rightarrow> 'r coro_ctx list \<times> stop_store" where
  "ctx_exec (Fresh e) (cs, st) = (let (c, st') = context_new e None st in (cs @ [c], st'))"
| "ctx_exec (Child i) (cs, st) = (if i < length cs then (cs @ [new_child_context (cs ! i)], st) else (cs, st))"
| "ctx_exec (Independent i) (cs, st) =
     (if i < length cs then (let (c, st') = new_independent_context (cs ! i) st in (cs @ [c], st')) else (cs, st))"
| "ctx_exec (Cancel i) (cs, st) = (if i < length cs then (cs, cancel (cs ! i) st) else (cs, st))"

text \<open>The same without stop sources: every context has the number of the context that founded its
  cancellation domain, and a domain is cancelled or not.\<close>

fun domain_exec :: "ctx_op \<Rightarrow> nat list \<times> nat list \<Rightarrow> nat list \<times> nat list" where
  "domain_exec (Fresh _) (ds, ks) = (ds @ [length ds], ks)"
| "domain_exec (Child i) (ds, ks) = (if i < length ds then (ds @ [ds ! i], ks) else (ds, ks))"
| "domain_exec (Independent i) (ds, ks) = (if i < length ds then (ds @ [length ds], ks) else (ds, ks))"
| "domain_exec (Cancel i) (ds, ks) = (if i < length ds then (ds, ds ! i # ks) else (ds, ks))"

definition domain_rel :: "'r coro_ctx list \<times> stop_store \<Rightarrow> nat list \<times> nat list \<Rightarrow> bool" where
  "domain_rel a b \<longleftrightarrow> length (fst a) = length (fst b) \<and>
     (\<forall>i<length (fst a). cc_stop (fst a ! i) < st_next (snd a) \<and> fst b ! i < length (fst b) \<and>
        (cc_stop (fst a ! i) \<in> set (st_requested (snd a)) \<longleftrightarrow> fst b ! i \<in> set (snd b))) \<and>
     (\<forall>i<length (fst a). \<forall>j<length (fst a). cc_stop (fst a ! i) = cc_stop (fst a ! j) \<longleftrightarrow> fst b ! i = fst b ! j) \<and>
     (\<forall>k\<in>set (st_requested (snd a)). k < st_next (snd a)) \<and> (\<forall>k\<in>set (snd b). k < length (fst b))"

section \<open>What an executor promises\<close>

locale executor =
  fixes submit :: "'t \<Rightarrow> 's \<Rightarrow> 's" and ready :: "'s \<Rightarrow> bool" and step :: "'s \<Rightarrow> 's \<Rightarrow> bool" and init :: 's
    and open_tasks :: "'s \<Rightarrow> 't multiset" and finished :: "'s \<Rightarrow> 't multiset"
  assumes init_accounts: "open_tasks init + finished init = {#}"
    and submit_accounts: "ready s \<Longrightarrow> open_tasks (submit t s) + finished (submit t s) = add_mset t (open_tasks s + finished s)"
    and step_accounts: "step s s' \<Longrightarrow> open_tasks s' + finished s' = open_tasks s + finished s"
begin

lemma run_accounts: "exec_run submit ready step init ts s \<Longrightarrow> open_tasks s + finished s = mset ts"
  by (induction rule: exec_run.induct) (simp_all add: init_accounts submit_accounts step_accounts)

lemma quiet_finished: "exec_run submit ready step init ts s \<Longrightarrow> open_tasks s = {#} \<Longrightarrow> finished s = mset ts"
  using run_accounts by fastforce

end

interpretation nx: executor noop_schedule "\<lambda>_. True" "\<lambda>_ _. False" "\<lparr>ie_finished = []\<rparr>" "\<lambda>_. {#}" "\<lambda>e. mset (ie_finished e)"
  by unfold_locales (simp_all add: noop_schedule_def)

interpretation tx: executor newthread_schedule "\<lambda>_. True" thread_step "\<lparr>te_threads = [], te_finished = []\<rparr>"
  "\<lambda>e. mset (te_threads e)" "\<lambda>e. mset (te_finished e)"
  by unfold_locales (auto simp: newthread_schedule_def elim!: thread_step.cases)

lemma running_set:
  assumes "i < length (tp_workers p)"
  shows "mset (running (set_worker i w p)) + mset (run_of (tp_workers p ! i)) = mset (running p) + mset (run_of w)"
proof -
  have "mset (concat (map run_of (xs[i := w]))) + mset (run_of (xs ! i)) = mset (concat (map run_of xs)) + mset (run_of w)"
    if "i < length xs" for xs
    using that by (induction xs arbitrary: i) (auto simp: nth_Cons split: nat.splits)
  from this [OF assms] show ?thesis by (simp add: running_def set_worker_def)
qed

lemma set_worker_sel [simp]:
  "tp_tasks (set_worker i w p) = tp_tasks p" "tp_stop (set_worker i w p) = tp_stop p" "tp_handle (set_worker i w p) = tp_handle p"
  "tp_notify_one (set_worker i w p) = tp_notify_one p" "tp_notify_all (set_worker i w p) = tp_notify_all p"
  "tp_submitted (set_worker i w p) = tp_submitted p" "tp_started (set_worker i w p) = tp_started p"
  "tp_finished (set_worker i w p) = tp_finished p" "tp_workers (set_worker i w p) = (tp_workers p)[i := w]"
  by (simp_all add: set_worker_def)

lemma running_wake: "concat (map run_of (map wake ws)) = concat (map run_of ws)"
  by (induction ws) (auto simp: wake_def)

lemma running_sel [simp]: "running (p\<lparr>tp_notify_one := k\<rparr>) = running p" "running (p\<lparr>tp_tasks := ts, tp_started := us\<rparr>) = running p"
  "running (p\<lparr>tp_finished := fs\<rparr>) = running p" "running (pool_schedule t p) = running p" "running (signal_stop p) = running p"
  "running (p\<lparr>tp_notify_all := b, tp_workers := map wake (tp_workers p)\<rparr>) = running p"
  by (simp_all add: running_def pool_schedule_def signal_stop_def running_wake del: map_map)

lemma pool_int_accounts:
  assumes "pool_int p q"
  shows "mset (tp_tasks q) + mset (running q) + mset (tp_finished q) = mset (tp_tasks p) + mset (running p) + mset (tp_finished p)"
  using assms
proof cases
  case (notify_one k i)
  then show ?thesis using running_set [of i "p\<lparr>tp_notify_one := k\<rparr>" WCheck] by simp
next
  case (check i)
  show ?thesis
  proof (cases "tp_tasks p")
    case Nil
    then show ?thesis using check running_set [of i p "if tp_stop p then WExit else WWait"] by (simp add: worker_check_def split: if_splits)
  next
    case (Cons t ts)
    then show ?thesis using check running_set [of i "p\<lparr>tp_tasks := ts, tp_started := tp_started p @ [t]\<rparr>" "WRun t"]
      by (simp add: worker_check_def)
  qed
next
  case (finish i t)
  then show ?thesis using running_set [of i "p\<lparr>tp_finished := tp_finished p @ [t]\<rparr>" WCheck] by simp
qed auto

lemma pool_step_accounts:
  assumes "pool_step p q" "\<And>t. q \<noteq> pool_schedule t p"
  shows "mset (tp_tasks q) + mset (running q) + mset (tp_finished q) = mset (tp_tasks p) + mset (running p) + mset (tp_finished p)"
  using assms(1)
proof cases
  case (spurious i)
  then show ?thesis using running_set [of i p WCheck] by simp
qed (use assms(2) pool_int_accounts in \<open>auto simp: signal_stop_def running_def\<close>)

interpretation px: executor pool_schedule tp_handle "\<lambda>p q. pool_step p q \<and> (\<forall>t. q \<noteq> pool_schedule t p)" "pool_new n"
  "\<lambda>p. mset (tp_tasks p) + mset (running p)" "\<lambda>p. mset (tp_finished p)"
proof
  show "mset (tp_tasks (pool_new n)) + mset (running (pool_new n)) + mset (tp_finished (pool_new n)) = {#}"
    by (simp add: pool_new_def running_def)
qed (use pool_step_accounts in \<open>auto simp: pool_schedule_def running_def\<close>)

text \<open>Hence whatever is submitted to an executor is accounted for, and an idle one has finished all of it.\<close>

lemma executors_finish:
  "exec_run noop_schedule (\<lambda>_. True) (\<lambda>_ _. False) \<lparr>ie_finished = []\<rparr> ts e \<Longrightarrow> mset (ie_finished e) = mset ts"
  "exec_run newthread_schedule (\<lambda>_. True) thread_step \<lparr>te_threads = [], te_finished = []\<rparr> ts f \<Longrightarrow>
   te_threads f = [] \<Longrightarrow> mset (te_finished f) = mset ts"
  "exec_run pool_schedule tp_handle (\<lambda>p q. pool_step p q \<and> (\<forall>t. q \<noteq> pool_schedule t p)) (pool_new n) ts p \<Longrightarrow>
   tp_tasks p = [] \<Longrightarrow> running p = [] \<Longrightarrow> mset (tp_finished p) = mset ts"
  by (simp_all add: nx.quiet_finished tx.quiet_finished px.quiet_finished)

section \<open>The invariant of the pool\<close>

lemma pool_inv_new: "pool_inv (pool_new n)"
  by (simp add: pool_inv_def pool_new_def running_def)

lemma pool_invI:
  assumes "tp_submitted p = tp_started p @ tp_tasks p" "mset (tp_started p) = mset (tp_finished p) + mset (running p)"
    and "WExit \<in> set (tp_workers p) \<Longrightarrow> tp_stop p \<and> tp_tasks p = []" "tp_stop p = (\<not> tp_handle p)"
    and "tp_stop p \<Longrightarrow> WWait \<in> set (tp_workers p) \<Longrightarrow> tp_notify_all p"
    and "tp_tasks p \<noteq> [] \<Longrightarrow> tp_workers p \<noteq> [] \<Longrightarrow> \<not> (0 < tp_notify_one p \<or> tp_notify_all p) \<Longrightarrow> \<exists>w\<in>set (tp_workers p). weight w \<noteq> 0"
  shows "pool_inv p"
  using assms unfolding pool_inv_def by blast

lemma pool_invD:
  assumes "pool_inv p"
  shows "tp_submitted p = tp_started p @ tp_tasks p" "mset (tp_started p) = mset (tp_finished p) + mset (running p)"
    "WExit \<in> set (tp_workers p) \<Longrightarrow> tp_stop p \<and> tp_tasks p = []" "tp_stop p = (\<not> tp_handle p)"
    "tp_stop p \<Longrightarrow> WWait \<in> set (tp_workers p) \<Longrightarrow> tp_notify_all p"
    "tp_tasks p \<noteq> [] \<Longrightarrow> tp_workers p \<noteq> [] \<Longrightarrow> \<not> (0 < tp_notify_one p \<or> tp_notify_all p) \<Longrightarrow> \<exists>w\<in>set (tp_workers p). weight w \<noteq> 0"
  using assms unfolding pool_inv_def by blast+

text \<open>Putting a worker into another place keeps the invariant when the place is justified.\<close>

lemma set_update_cases: "x \<in> set (xs[i := y]) \<Longrightarrow> x = y \<or> x \<in> set xs"
  using set_update_subset_insert by fastforce

lemma active_update: "i < length ws \<Longrightarrow> weight w \<noteq> 0 \<Longrightarrow> \<exists>v\<in>set (ws[i := w]). weight v \<noteq> 0"
  by (meson set_update_memI)

lemma idle_workers:
  assumes "\<forall>w\<in>set ws. weight w = 0" "WExit \<notin> set ws" "ws \<noteq> []"
  shows "WWait \<in> set ws"
proof -
  obtain w where w: "w \<in> set ws" using assms(3) by (meson hd_in_set)
  then have "weight w = 0" "w \<noteq> WExit" using assms(1,2) by auto
  then have "w = WWait" by (cases w) simp_all
  with w show ?thesis by simp
qed

lemma pool_inv_activate:
  assumes "pool_inv p" "i < length (tp_workers p)" "run_of (tp_workers p ! i) = run_of w" "weight w \<noteq> 0"
  shows "pool_inv (set_worker i w p)"
  using pool_invD [OF assms(1)] running_set [OF assms(2), of w] assms(2-4) active_update
  by (intro pool_invI) (auto dest: set_update_cases)

lemma pool_inv_check:
  assumes "pool_inv p" "i < length (tp_workers p)" "tp_workers p ! i = WCheck"
  shows "pool_inv (worker_check i p)"
proof (cases "tp_tasks p")
  case Nil
  let ?w = "if tp_stop p then WExit else WWait"
  have e: "worker_check i p = set_worker i ?w p" using Nil by (simp add: worker_check_def)
  show ?thesis unfolding e
    using pool_invD [OF assms(1)] running_set [OF assms(2), of ?w] assms(2,3) Nil
    by (intro pool_invI) (auto dest: set_update_cases split: if_splits)
next
  case (Cons t ts)
  let ?p = "p\<lparr>tp_tasks := ts, tp_started := tp_started p @ [t]\<rparr>"
  have e: "worker_check i p = set_worker i (WRun t) ?p" using Cons by (simp add: worker_check_def)
  show ?thesis unfolding e
    using pool_invD [OF assms(1)] running_set [of i ?p "WRun t"] assms(2,3) Cons active_update [of i "tp_workers p" "WRun t"]
    by (intro pool_invI) (auto dest: set_update_cases)
qed

lemma pool_inv_int:
  assumes "pool_inv p" "pool_int p q"
  shows "pool_inv q"
  using assms(2)
proof cases
  case (notify_one k i)
  have e: "q = (set_worker i WCheck p)\<lparr>tp_notify_one := k\<rparr>" using notify_one by (simp add: set_worker_def)
  show ?thesis unfolding e using pool_invD [OF pool_inv_activate [OF assms(1), of i WCheck]] notify_one active_update [of i "tp_workers p" WCheck]
    by (intro pool_invI) auto
next
  case (notify_none k)
  have "\<exists>w\<in>set (tp_workers p). weight w \<noteq> 0" if "tp_tasks p \<noteq> []" "tp_workers p \<noteq> []"
    using idle_workers [of "tp_workers p"] notify_none(3) pool_invD(3) [OF assms(1)] that by blast
  then show ?thesis using pool_invD(1-5) [OF assms(1)] notify_none by (intro pool_invI) auto
next
  case notify_all
  have "WWait \<notin> set (map wake (tp_workers p))" "WExit \<in> set (map wake (tp_workers p)) \<longleftrightarrow> WExit \<in> set (tp_workers p)"
    by (auto simp: wake_def image_iff)
  moreover from this have "\<exists>w\<in>set (map wake (tp_workers p)). weight w \<noteq> 0" if "tp_tasks p \<noteq> []" "tp_workers p \<noteq> []"
    using idle_workers [of "map wake (tp_workers p)"] pool_invD(3) [OF assms(1)] that by blast
  ultimately show ?thesis using notify_all pool_invD(1-4) [OF assms(1)] by (intro pool_invI) simp_all
next
  case (finish i t)
  let ?p = "p\<lparr>tp_finished := tp_finished p @ [t]\<rparr>"
  show ?thesis
    using finish pool_invD [OF assms(1)] running_set [of i ?p WCheck] active_update [of i "tp_workers p" WCheck]
    by (intro pool_invI) (auto dest: set_update_cases)
qed (use pool_inv_check [OF assms(1)] in auto)

lemma pool_inv_owner:
  assumes "pool_inv p" "tp_handle p"
  shows "pool_inv (pool_schedule t p)" "pool_inv (signal_stop p)"
  using pool_invD [OF assms(1)] assms(2)
  by - (rule pool_invI; simp add: pool_schedule_def signal_stop_def running_def; blast)+

lemma pool_inv_step: "pool_step p q \<Longrightarrow> pool_inv p \<Longrightarrow> pool_inv q"
  by (induction rule: pool_step.induct) (simp_all add: pool_inv_int pool_inv_owner pool_inv_activate)

lemma pool_inv_reach: "pool_step\<^sup>*\<^sup>* (pool_new n) p \<Longrightarrow> pool_inv p \<and> length (tp_workers p) = n"
proof (induction rule: rtranclp_induct)
  case (step p q)
  have "length (tp_workers q) = length (tp_workers p)" using step.hyps(2)
    by (auto elim!: pool_stepE pool_intE simp: worker_check_def pool_schedule_def signal_stop_def split: list.split)
  then show ?case using step pool_inv_step by metis
qed (simp_all add: pool_inv_new, simp add: pool_new_def)

section \<open>Order, exactly once, and draining\<close>

text \<open>C15. The thread pool runs tasks in the order of submission and exactly once: in every reachable state of a
  pool with any number of workers the tasks submitted are those started, in the same order, followed by
  the queue; the started ones are the finished ones and those the workers run, each as often as it was
  submitted; and a worker has returned only when the pool was stopped and the queue was empty.\<close>

theorem pool_in_order:
  assumes "pool_step\<^sup>*\<^sup>* (pool_new n) p"
  shows "tp_submitted p = tp_started p @ tp_tasks p \<and> mset (tp_started p) = mset (tp_finished p) + mset (running p) \<and>
    (WExit \<in> set (tp_workers p) \<longrightarrow> tp_stop p \<and> tp_tasks p = [])"
  using pool_invD(1-3) [OF conjunct1 [OF pool_inv_reach [OF assms]]] by blast

theorem pool_in_order_witness:
  "tp_submitted (worker_check 0 (pool_schedule 7 (pool_schedule (5::nat) (pool_new 2)))) = [5] @ [7]"
proof -
  let ?p = "pool_schedule 7 (pool_schedule (5::nat) (pool_new 2))"
  have "pool_step\<^sup>*\<^sup>* (pool_new 2) ?p"
    by (rule rtranclp.rtrancl_into_rtrancl [OF r_into_rtranclp], rule pool_step.schedule, code_simp, rule pool_step.schedule, code_simp)
  moreover have "pool_step ?p (worker_check 0 ?p)"
    by (rule pool_step.internal, rule pool_int.check) code_simp+
  ultimately have "pool_step\<^sup>*\<^sup>* (pool_new 2) (worker_check 0 ?p)" by (rule rtranclp.rtrancl_into_rtrancl)
  from pool_in_order [OF this] have "tp_submitted (worker_check 0 ?p) = tp_started (worker_check 0 ?p) @ tp_tasks (worker_check 0 ?p)" by blast
  moreover have "tp_started (worker_check 0 ?p) = [5]" "tp_tasks (worker_check 0 ?p) = [7]" by code_simp+
  ultimately show ?thesis by simp
qed

lemma weight_update:
  "i < length ws \<Longrightarrow> sum_list (map weight (ws[i := w])) + weight (ws ! i) = sum_list (map weight ws) + weight w"
  by (induction ws arbitrary: i) (auto simp: nth_Cons split: nat.splits)

lemma weight_wake: "sum_list (map weight (map wake ws)) \<le> sum_list (map weight ws) + length ws"
  by (induction ws) (auto simp: wake_def)

lemma pool_int_decreases: "pool_int p q \<Longrightarrow> pool_measure q < pool_measure p"
proof (induction rule: pool_int.induct)
  case (notify_one p k i)
  then show ?case using weight_update [of i "tp_workers p" WCheck] by (simp add: pool_measure_def)
next
  case (notify_all p)
  then show ?case using weight_wake [of "tp_workers p"] by (simp add: pool_measure_def)
next
  case (check i p)
  then show ?case
    using weight_update [of i "tp_workers p" WExit] weight_update [of i "tp_workers p" WWait] weight_update [of i "tp_workers p" "WRun (hd (tp_tasks p))"]
    by (cases "tp_tasks p") (auto simp: pool_measure_def worker_check_def)
next
  case (finish i p t)
  then show ?case using weight_update [of i "tp_workers p" WCheck] by (simp add: pool_measure_def)
qed (simp add: pool_measure_def)

lemma pool_runs_bounded: "(pool_int ^^ m) p q \<Longrightarrow> m + pool_measure q \<le> pool_measure p"
proof (induction m arbitrary: q)
  case (Suc m)
  then obtain r where "(pool_int ^^ m) p r" "pool_int r q" by auto
  then show ?case using Suc.IH [of r] pool_int_decreases [of r q] by simp
qed simp

lemma pool_settles: "\<exists>q. pool_int\<^sup>*\<^sup>* p q \<and> (\<nexists>r. pool_int q r)"
proof (induction "pool_measure p" arbitrary: p rule: less_induct)
  case less
  show ?case
  proof (cases "\<exists>q. pool_int p q")
    case True
    then obtain q where q: "pool_int p q" by blast
    then show ?thesis using less [OF pool_int_decreases [OF q]] converse_rtranclp_into_rtranclp [of pool_int, OF q] by blast
  qed blast
qed

lemma pool_stuck:
  assumes "pool_inv p" "0 < length (tp_workers p)" "\<nexists>q. pool_int p q"
  shows "tp_tasks p = [] \<and> running p = [] \<and> (tp_stop p \<longrightarrow> (\<forall>w\<in>set (tp_workers p). w = WExit))"
proof -
  have n: "\<not> tp_notify_all p" using assms(3) pool_int.notify_all by blast
  have k: "tp_notify_one p = 0"
  proof (rule ccontr)
    assume "tp_notify_one p \<noteq> 0"
    then obtain k where "tp_notify_one p = Suc k" by (meson not0_implies_Suc)
    then show False using assms(3) pool_int.notify_one [of p k] pool_int.notify_none [of p k] by (metis in_set_conv_nth)
  qed
  have w: "weight v = 0" if v: "v \<in> set (tp_workers p)" for v
  proof -
    obtain i where "i < length (tp_workers p)" "tp_workers p ! i = v" using v by (metis in_set_conv_nth)
    then show ?thesis using assms(3) pool_int.check [of i p] pool_int.finish [of i p] by (cases v) auto
  qed
  then have "running p = []" unfolding running_def by (auto simp: concat_eq_Nil_conv) (metis run_of.elims weight.simps(2) zero_neq_numeral)
  moreover have "tp_tasks p = []" using pool_invD(6) [OF assms(1)] assms(2) n k w by fastforce
  moreover have "v = WExit" if "tp_stop p" "v \<in> set (tp_workers p)" for v
    using w [OF that(2)] pool_invD(5) [OF assms(1)] n that by (cases v) auto
  ultimately show ?thesis by blast
qed

lemma pool_int_keeps: "pool_int p q \<Longrightarrow> tp_submitted q = tp_submitted p \<and> tp_stop q = tp_stop p \<and> tp_handle q = tp_handle p \<and>
   length (tp_workers q) = length (tp_workers p) \<and> (pool_inv p \<longrightarrow> pool_inv q)"
  by (auto simp: pool_inv_int elim: pool_intE) (auto elim!: pool_intE simp: worker_check_def split: list.splits)

lemma pool_ints_keep: "pool_int\<^sup>*\<^sup>* p q \<Longrightarrow> tp_submitted q = tp_submitted p \<and> tp_stop q = tp_stop p \<and>
   length (tp_workers q) = length (tp_workers p) \<and> (pool_inv p \<longrightarrow> pool_inv q)"
  by (induction rule: rtranclp_induct) (auto dest!: pool_int_keeps)

text \<open>C16. A pool with a worker drains its queue and no wake-up is lost: from every reachable state the steps of the
  workers and the pending notifications alone, without any spurious wake-up, come to an end within a
  bounded number of steps, and wherever they end every task submitted has been finished, and all workers
  have returned if the handle was destroyed.\<close>

theorem pool_drains:
  assumes "pool_step\<^sup>*\<^sup>* (pool_new n) p" "0 < n"
  shows "(\<forall>m q. (pool_int ^^ m) p q \<longrightarrow> m \<le> pool_measure p) \<and>
    (\<forall>q. pool_int\<^sup>*\<^sup>* p q \<longrightarrow> (\<nexists>r. pool_int q r) \<longrightarrow>
       mset (tp_finished q) = mset (tp_submitted p) \<and> (tp_stop p \<longrightarrow> (\<forall>w\<in>set (tp_workers q). w = WExit)))"
proof (intro conjI allI impI)
  fix m q assume "(pool_int ^^ m) p q"
  then show "m \<le> pool_measure p" using pool_runs_bounded by fastforce
next
  fix q assume q: "pool_int\<^sup>*\<^sup>* p q" "\<nexists>r. pool_int q r"
  have i: "pool_inv q" "0 < length (tp_workers q)" "tp_submitted q = tp_submitted p" "tp_stop q = tp_stop p"
    using pool_inv_reach [OF assms(1)] pool_ints_keep [OF q(1)] assms(2) by auto
  note s = pool_stuck [OF i(1,2) q(2)]
  then show "mset (tp_finished q) = mset (tp_submitted p)" using pool_invD(1,2) [OF i(1)] i(3) by simp
  show "\<forall>w\<in>set (tp_workers q). w = WExit" if "tp_stop p" using s that i(4) by simp
qed

theorem pool_drains_witness:
  "\<exists>q. pool_int\<^sup>*\<^sup>* (pool_schedule 7 (pool_schedule (5::nat) (pool_new 2))) q \<and> mset (tp_finished q) = {#5, 7#}"
proof -
  let ?p = "pool_schedule 7 (pool_schedule (5::nat) (pool_new 2))"
  have "pool_step\<^sup>*\<^sup>* (pool_new 2) ?p"
    by (rule rtranclp.rtrancl_into_rtrancl [OF r_into_rtranclp], rule pool_step.schedule, code_simp, rule pool_step.schedule, code_simp)
  note d = pool_drains [OF this]
  obtain q where q: "pool_int\<^sup>*\<^sup>* ?p q" "\<nexists>r. pool_int q r" using pool_settles by blast
  have "tp_submitted ?p = [5, 7]" by code_simp
  with d q show ?thesis by auto
qed

text \<open>The destructor of the shared state runs when the handle and all workers' references are gone.  It
  joins only threads other than its own, and these have returned.\<close>

lemma dtor_joins_returned:
  assumes "i < length (tp_workers p)" "state_dtor me p ! i = Joined" "\<forall>j<length (tp_workers p). me \<noteq> Some j \<longrightarrow> tp_workers p ! j = WExit"
  shows "tp_workers p ! i = WExit"
  using assms by (auto simp: state_dtor_def split: if_splits)

text \<open>Without workers (\<^verbatim>\<open>hardware_concurrency()\<close> may be 0) nothing is ever started.\<close>

lemma pool_without_workers: "pool_step\<^sup>*\<^sup>* (pool_new 0) p \<Longrightarrow> tp_started p = [] \<and> tp_finished p = [] \<and> tp_tasks p = tp_submitted p"
proof -
  assume r: "pool_step\<^sup>*\<^sup>* (pool_new 0) p"
  then have "tp_started p = [] \<and> tp_workers p = []"
  proof (induction rule: rtranclp_induct)
    case (step p q)
    then show ?case by (auto elim!: pool_stepE pool_intE simp: pool_schedule_def signal_stop_def)
  qed (simp add: pool_new_def)
  then show ?thesis using pool_invD(1,2) [OF conjunct1 [OF pool_inv_reach [OF r]]] by (simp add: running_def)
qed

text \<open>A moved-from handle is dereferenced by \<^verbatim>\<open>schedule\<close>.\<close>

lemma schedule_after_move: "h \<noteq> a \<Longrightarrow> handle_schedule a t (move_construct h a s) = None"
  by (simp add: handle_schedule_def move_construct_def)

text \<open>Assigning to a handle stops the pool it referred to and keeps the other one.\<close>

lemma move_assign_stops:
  assumes "h \<noteq> a" "es_handles s h = Some k" "es_handles s a = Some j" "j \<noteq> k"
  shows "tp_stop (es_pools (move_assign h a s) k)" "es_handles (move_assign h a s) h = Some j"
    "es_handles (move_assign h a s) a = None" "es_pools (move_assign h a s) j = es_pools s j"
  using assms by (simp_all add: move_assign_def handle_stop_def signal_stop_def Let_def)

section \<open>Cancellation domains\<close>

lemma domain_relD:
  assumes "domain_rel (cs, st) (ds, ks)"
  shows "length cs = length ds" "i < length ds \<Longrightarrow> cc_stop (cs ! i) < st_next st" "i < length ds \<Longrightarrow> ds ! i < length ds"
    "i < length ds \<Longrightarrow> cc_stop (cs ! i) \<in> set (st_requested st) \<longleftrightarrow> ds ! i \<in> set ks"
    "i < length ds \<Longrightarrow> j < length ds \<Longrightarrow> cc_stop (cs ! i) = cc_stop (cs ! j) \<longleftrightarrow> ds ! i = ds ! j"
    "k \<in> set (st_requested st) \<Longrightarrow> k < st_next st" "k \<in> set ks \<Longrightarrow> k < length ds"
  using assms by (simp_all add: domain_rel_def)

lemma domain_rel_fresh:
  assumes "domain_rel (cs, st) (ds, ks)" "cc_stop c = st_next st"
  shows "domain_rel (cs @ [c], st\<lparr>st_next := Suc (st_next st)\<rparr>) (ds @ [length ds], ks)"
  using domain_relD [OF assms(1)] assms(2) unfolding domain_rel_def
  by (auto simp: nth_append less_Suc_eq) (metis less_irrefl less_not_refl)+

lemma domain_rel_child:
  assumes "domain_rel (cs, st) (ds, ks)" "i < length ds"
  shows "domain_rel (cs @ [new_child_context (cs ! i)], st) (ds @ [ds ! i], ks)"
  using domain_relD [OF assms(1)] assms(2) unfolding domain_rel_def
  by (auto simp: nth_append less_Suc_eq new_child_context_def ctx_bound_def)

lemma domain_rel_cancel:
  assumes "domain_rel (cs, st) (ds, ks)" "i < length ds"
  shows "domain_rel (cs, cancel (cs ! i) st) (ds, ds ! i # ks)"
  using domain_relD [OF assms(1)] assms(2) unfolding domain_rel_def
  by (auto simp: cancel_def)

lemma domain_rel_exec:
  assumes "domain_rel a b"
  shows "domain_rel (ctx_exec op a) (domain_exec op b)"
proof -
  obtain cs st ds ks where e: "a = (cs, st)" "b = (ds, ks)" by (cases a, cases b) blast
  note r = assms [unfolded e] and l = domain_relD(1) [OF assms [unfolded e]]
  show ?thesis unfolding e
    by (cases op) (use r l in \<open>simp_all add: context_new_def new_independent_context_def domain_rel_fresh domain_rel_child domain_rel_cancel\<close>)
qed

lemma domain_rel_run: "domain_rel a b \<Longrightarrow> domain_rel (fold ctx_exec ops a) (fold domain_exec ops b)"
  by (induction ops arbitrary: a b) (simp_all only: fold.simps comp_apply id_apply domain_rel_exec)

text \<open>C38. Cancellation reaches exactly one domain: after any sequence of creating contexts, child contexts and
  independent contexts and of cancelling them, a context observes a stop request just when some context
  founded by the same fresh or independent context was cancelled, before or after it was created.\<close>

theorem cancel_reaches_domain:
  fixes cs :: "'r coro_ctx list"
  assumes "fold ctx_exec ops ([], \<lparr>st_next = 0, st_requested = []\<rparr>) = (cs, st)" "fold domain_exec ops ([], []) = (ds, ks)" "i < length cs"
  shows "length ds = length cs \<and> (stop_requested (cs ! i) st \<longleftrightarrow> ds ! i \<in> set ks)"
proof -
  have "domain_rel ([] :: 'r coro_ctx list, \<lparr>st_next = 0, st_requested = []\<rparr>) ([], [])" by (simp add: domain_rel_def)
  from domain_rel_run [OF this, of ops] have "domain_rel (cs, st) (ds, ks)" using assms(1,2) by simp
  then show ?thesis using domain_relD [of cs st ds ks] assms(3) by (simp add: stop_requested_def)
qed

theorem cancel_reaches_domain_witness:
  "let (cs, st) = fold ctx_exec [Fresh 0, Child 0, Independent 1, Cancel 1, Child 0] ([] :: nat coro_ctx list, \<lparr>st_next = 0, st_requested = []\<rparr>)
   in map (\<lambda>c. stop_requested c st) cs = [True, True, False, True]"
proof -
  let ?ops = "[Fresh 0, Child 0, Independent 1, Cancel 1, Child 0]"
  let ?s0 = "([] :: nat coro_ctx list, \<lparr>st_next = 0, st_requested = []\<rparr>)"
  have d: "fold domain_exec ?ops ([], []) = ([0, 0, 2, 0], [0])" by code_simp
  obtain cs st where c: "fold ctx_exec ?ops ?s0 = (cs, st)" by (cases "fold ctx_exec ?ops ?s0")
  have "length (fst (fold ctx_exec ?ops ?s0)) = 4" by code_simp
  then have l: "length cs = 4" using c by simp
  note r = cancel_reaches_domain [OF c d]
  have "map (\<lambda>c. stop_requested c st) cs = map (\<lambda>i. stop_requested (cs ! i) st) [0..<4]"
    using l by (intro nth_equalityI) auto
  also have "\<dots> = [True, True, False, True]" using r [of 0] r [of 1] r [of 2] r [of 3] l by (simp add: upt_rec numeral_eq_Suc)
  finally show ?thesis using c by simp
qed

end
