(* ===== verification/Coro_Task.thy ===== *)
theory Coro_Task
  imports Coro_Executor
begin

text \<open>
  Tasks (\<^verbatim>\<open>include/xsl/coro/core/task.h\<close>, \<^verbatim>\<open>then.h\<close>, \<^verbatim>\<open>detach.h\<close>, \<^verbatim>\<open>block.h\<close>, \<^verbatim>\<open>base.h\<close>, \<^verbatim>\<open>def.h\<close>).  A coroutine body is a
  resumption: what it does until it next reaches a \<^verbatim>\<open>co_await\<close>, \<^verbatim>\<open>co_yield\<close> or its end.  The machine has the frames
  the library allocates, each with its promise (continuation, context, result), and the stack of nested
  calls of \<^verbatim>\<open>resume\<close>; symmetric transfer replaces the top of that stack.  Contexts use the inline executor and
  events arrive when no coroutine runs.  Beside it stands a direct evaluator in which awaiting a task is a
  function call.  The theorems show that the machine computes what the evaluator computes: results and
  exceptions reach the awaiting coroutine, effects happen in program order, contexts are inherited unless
  set, cancellation makes awaits return false, and every frame is destroyed exactly once.
\<close>

section \<open>Bodies\<close>

datatype 'v outcome = Val 'v | Exc 'v

text \<open>
  \<open>Ret\<close> is \<^verbatim>\<open>co_return\<close>, \<open>Raise\<close> an exception that leaves the body, \<open>Emit\<close> an observable effect.  \<open>AwaitTask\<close> awaits a
  new task, after \<^verbatim>\<open>by(ctx)\<close> when a context is given, and goes on with its result or with the exception it
  rethrows; \<open>AwaitSig\<close> awaits a signal, a \<^verbatim>\<open>ForceReleasable\<close> awaiter with a boolean result; \<open>YieldTask\<close> is \<^verbatim>\<open>co_yield\<close> of a
  task, which detaches it.
\<close>

datatype 'v body =
    Ret 'v
  | Raise 'v
  | Emit 'v "'v body"
  | AwaitTask "unit coro_ctx option" "'v body" "'v outcome \<Rightarrow> 'v body"
  | AwaitSig nat "bool \<Rightarrow> 'v body"
  | YieldTask "'v body" "'v body"

text \<open>What happens outside: a signal is released, a stop source is requested to stop.\<close>

datatype event = Fire nat | CancelSource nat

section \<open>Continuations with \<open>then\<close>\<close>

text \<open>\<^verbatim>\<open>ThenAwaiter\<close>: the transforms, the one added last first; \<^verbatim>\<open>_apply\<close> starts with the innermost.\<close>

definition then_add :: "('v \<Rightarrow> 'v) \<Rightarrow> ('v \<Rightarrow> 'v) list \<Rightarrow> ('v \<Rightarrow> 'v) list" where
  "then_add f ts = f # ts"

fun then_apply :: "('v \<Rightarrow> 'v) list \<Rightarrow> 'v \<Rightarrow> 'v" where
  "then_apply [] v = v"
| "then_apply (f # ts) v = f (then_apply ts v)"

definition then_resume :: "('v \<Rightarrow> 'v) list \<Rightarrow> 'v outcome \<Rightarrow> 'v outcome" where
  "then_resume ts r = (case r of Val v \<Rightarrow> Val (then_apply ts v) | Exc e \<Rightarrow> Exc e)"

text \<open>\<^verbatim>\<open>and_then\<close> and \<^verbatim>\<open>map\<close> on a task whose result is an \<^verbatim>\<open>Expected\<close>.\<close>

definition and_then :: "('a \<Rightarrow> 'e + 'b) \<Rightarrow> 'e + 'a \<Rightarrow> 'e + 'b" where
  "and_then f r = (case r of Inl e \<Rightarrow> Inl e | Inr v \<Rightarrow> f v)"

definition task_map :: "('a \<Rightarrow> 'b) \<Rightarrow> 'e + 'a \<Rightarrow> 'e + 'b" where
  "task_map f r = (case r of Inl e \<Rightarrow> Inl e | Inr v \<Rightarrow> Inr (f v))"

definition await_then :: "unit coro_ctx option \<Rightarrow> 'v body \<Rightarrow> ('v \<Rightarrow> 'v) list \<Rightarrow> ('v outcome \<Rightarrow> 'v body) \<Rightarrow> 'v body" where
  "await_then c b ts k = AwaitTask c b (\<lambda>r. k (then_resume ts r))"

section \<open>The machine\<close>

text \<open>Where a frame is: about to execute a body, suspended on a task or a signal, or at its final suspend point.\<close>

datatype 'v code = Run "'v body" | OnTask nat "'v outcome \<Rightarrow> 'v body" | OnSig nat "bool \<Rightarrow> 'v body" | RunShell | Final

text \<open>A frame is a \<^verbatim>\<open>Task\<close> or a \<^verbatim>\<open>Detach\<close>, or the shell of \<^verbatim>\<open>block\<close> with its code \<open>RunShell\<close>; its promise has a continuation, a context and a result.\<close>

datatype kind = KTask | KDetach

record 'v frame =
  fr_kind :: kind
  fr_code :: "'v code"
  fr_next :: "nat option"
  fr_ctx :: "unit coro_ctx option"
  fr_result :: "'v outcome option"

record 'v machine =
  mc_frames :: "nat \<Rightarrow> 'v frame option"
  mc_fresh :: nat
  mc_stack :: "nat list"
  mc_waits :: "(nat \<times> nat) list"
  mc_fired :: "nat list"
  mc_stops :: "nat list"
  mc_events :: "event list"
  mc_log :: "(unit coro_ctx option \<times> 'v) list"
  mc_sem :: nat

text \<open>\<^verbatim>\<open>get_return_object\<close> and \<^verbatim>\<open>initial_suspend\<close>: a new frame, not started; \<^verbatim>\<open>by\<close> attaches a context.\<close>

definition new_frame :: "kind \<Rightarrow> 'v body \<Rightarrow> unit coro_ctx option \<Rightarrow> 'v frame" where
  "new_frame kd b c = \<lparr>fr_kind = kd, fr_code = Run b, fr_next = None, fr_ctx = c, fr_result = None\<rparr>"

definition alloc :: "'v frame \<Rightarrow> 'v machine \<Rightarrow> nat \<times> 'v machine" where
  "alloc x m = (mc_fresh m, m\<lparr>mc_frames := (mc_frames m)(mc_fresh m \<mapsto> x), mc_fresh := Suc (mc_fresh m)\<rparr>)"

definition destroy :: "nat \<Rightarrow> 'v machine \<Rightarrow> 'v machine" where
  "destroy f m = m\<lparr>mc_frames := (mc_frames m)(f := None)\<rparr>"

definition set_code :: "nat \<Rightarrow> 'v frame \<Rightarrow> 'v code \<Rightarrow> 'v machine \<Rightarrow> 'v machine" where
  "set_code f x c m = m\<lparr>mc_frames := (mc_frames m)(f \<mapsto> x\<lparr>fr_code := c\<rparr>)\<rparr>"

text \<open>\<^verbatim>\<open>NextBase::next\<close>: the continuation, and its context unless one was attached.\<close>

definition next_of :: "nat \<Rightarrow> unit coro_ctx option \<Rightarrow> 'v frame \<Rightarrow> 'v frame" where
  "next_of parent c x = x\<lparr>fr_next := Some parent, fr_ctx := (if fr_ctx x = None then c else fr_ctx x)\<rparr>"

text \<open>\<^verbatim>\<open>Task::await_suspend\<close>: set the continuation and transfer into the task.\<close>

definition await_task :: "nat \<Rightarrow> 'v frame \<Rightarrow> unit coro_ctx option \<Rightarrow> 'v body \<Rightarrow> ('v outcome \<Rightarrow> 'v body) \<Rightarrow> nat list \<Rightarrow> 'v machine \<Rightarrow> 'v machine" where
  "await_task f x c b k st m =
     (let (n, m1) = alloc (next_of f (fr_ctx x) (new_frame KTask b c)) m
      in (set_code f x (OnTask n k) m1)\<lparr>mc_stack := n # st\<rparr>)"

definition ctx_stopped :: "unit coro_ctx option \<Rightarrow> nat list \<Rightarrow> bool" where
  "ctx_stopped c stops = (case c of None \<Rightarrow> False | Some x \<Rightarrow> cc_stop x \<in> set stops)"

text \<open>\<^verbatim>\<open>AwaiterWrapper\<close> around a signal: \<^verbatim>\<open>await_ready\<close> takes a release that came before; \<^verbatim>\<open>await_suspend\<close> does not suspend
  once the context is cancelled; \<^verbatim>\<open>await_resume\<close> gives false whenever it is.\<close>

definition await_sig :: "nat \<Rightarrow> 'v frame \<Rightarrow> nat \<Rightarrow> (bool \<Rightarrow> 'v body) \<Rightarrow> nat list \<Rightarrow> 'v machine \<Rightarrow> 'v machine" where
  "await_sig f x s k st m =
     (if s \<in> set (mc_fired m)
      then set_code f x (Run (k (\<not> ctx_stopped (fr_ctx x) (mc_stops m)))) (m\<lparr>mc_fired := removeAll s (mc_fired m)\<rparr>)
      else if ctx_stopped (fr_ctx x) (mc_stops m) then set_code f x (Run (k False)) m
      else (set_code f x (OnSig s k) m)\<lparr>mc_stack := st, mc_waits := mc_waits m @ [(s, f)]\<rparr>)"

text \<open>\<^verbatim>\<open>yield_value\<close>: a \<^verbatim>\<open>Detach\<close> frame that awaits the task, with a child context, dispatched on the inline executor.\<close>

definition yield_task :: "nat \<Rightarrow> 'v frame \<Rightarrow> 'v body \<Rightarrow> 'v body \<Rightarrow> nat list \<Rightarrow> 'v machine \<Rightarrow> 'v machine" where
  "yield_task f x b k st m =
     (let (n, m1) = alloc (new_frame KDetach (AwaitTask None b (\<lambda>r. case r of Val v \<Rightarrow> Ret v | Exc e \<Rightarrow> Raise e))
                             (map_option new_child_context (fr_ctx x))) m
      in (set_code f x (Run k) m1)\<lparr>mc_stack := n # f # st\<rparr>)"

text \<open>The end of a body: the result is stored; a task transfers to its continuation, a detached frame destroys
  itself.\<close>

definition finish :: "nat \<Rightarrow> 'v frame \<Rightarrow> 'v outcome \<Rightarrow> nat list \<Rightarrow> 'v machine \<Rightarrow> 'v machine" where
  "finish f x r st m =
     (case fr_kind x of
        KTask \<Rightarrow>
          m\<lparr>mc_frames := (mc_frames m)(f \<mapsto> x\<lparr>fr_code := Final, fr_result := Some r\<rparr>),
            mc_stack := (case fr_next x of None \<Rightarrow> st | Some p \<Rightarrow> p # st)\<rparr>
      | KDetach \<Rightarrow> (destroy f m)\<lparr>mc_stack := st\<rparr>)"

text \<open>\<^verbatim>\<open>await_resume\<close> and the end of the awaited temporary: the result is read and the task's frame destroyed.\<close>

definition resume_parent :: "nat \<Rightarrow> 'v frame \<Rightarrow> nat \<Rightarrow> ('v outcome \<Rightarrow> 'v body) \<Rightarrow> 'v machine \<Rightarrow> 'v machine option" where
  "resume_parent f x n k m =
     (case mc_frames m n of
        None \<Rightarrow> None
      | Some y \<Rightarrow> (case fr_result y of None \<Rightarrow> None | Some r \<Rightarrow> Some (set_code f x (Run (k r)) (destroy n m))))"

text \<open>The shell of \<^verbatim>\<open>block\<close> releases the semaphore at its end.\<close>

definition shell_frame :: "'v frame" where
  "shell_frame = \<lparr>fr_kind = KTask, fr_code = RunShell, fr_next = None, fr_ctx = None, fr_result = None\<rparr>"

text \<open>A step of the running coroutine; \<^term>\<open>None\<close> is a use of a frame that does not exist or is not ready.\<close>

definition run_frame :: "nat \<Rightarrow> nat list \<Rightarrow> 'v machine \<Rightarrow> 'v machine option" where
  "run_frame f st m =
     (case mc_frames m f of
        None \<Rightarrow> None
      | Some x \<Rightarrow>
          (case fr_code x of
             Run (Ret v) \<Rightarrow> Some (finish f x (Val v) st m)
           | Run (Raise e) \<Rightarrow> Some (finish f x (Exc e) st m)
           | Run (Emit v b) \<Rightarrow> Some ((set_code f x (Run b) m)\<lparr>mc_log := mc_log m @ [(fr_ctx x, v)]\<rparr>)
           | Run (AwaitTask c b k) \<Rightarrow> Some (await_task f x c b k st m)
           | Run (AwaitSig s k) \<Rightarrow> Some (await_sig f x s k st m)
           | Run (YieldTask b k) \<Rightarrow> Some (yield_task f x b k st m)
           | OnTask n k \<Rightarrow> resume_parent f x n k m
           | OnSig s k \<Rightarrow> Some (set_code f x (Run (k (\<not> ctx_stopped (fr_ctx x) (mc_stops m)))) m)
           | RunShell \<Rightarrow>
               Some (m\<lparr>mc_frames := (mc_frames m)(f \<mapsto> x\<lparr>fr_code := Final\<rparr>), mc_stack := st, mc_sem := Suc (mc_sem m)\<rparr>)
           | Final \<Rightarrow> None))"

text \<open>An event while no coroutine runs: a released signal resumes its waiter or is kept; a stop request releases
  the signals of all waiters of that source.\<close>

definition ctx_of :: "nat \<Rightarrow> 'v machine \<Rightarrow> unit coro_ctx option" where
  "ctx_of f m = (case mc_frames m f of None \<Rightarrow> None | Some x \<Rightarrow> fr_ctx x)"

definition take_event :: "event \<Rightarrow> 'v machine \<Rightarrow> 'v machine" where
  "take_event e m =
     (case e of
        Fire s \<Rightarrow>
          (if s \<in> fst ` set (mc_waits m)
           then m\<lparr>mc_stack := map snd (filter (\<lambda>w. fst w = s) (mc_waits m)), mc_waits := filter (\<lambda>w. fst w \<noteq> s) (mc_waits m)\<rparr>
           else m\<lparr>mc_fired := s # mc_fired m\<rparr>)
      | CancelSource k \<Rightarrow>
          (let hit = (\<lambda>w. ctx_stopped (ctx_of (snd w) m) [k])
           in m\<lparr>mc_stops := k # mc_stops m, mc_stack := map snd (filter hit (mc_waits m)),
               mc_waits := filter (\<lambda>w. \<not> hit w) (mc_waits m)\<rparr>))"

inductive mstep :: "'v machine \<Rightarrow> 'v machine \<Rightarrow> bool" where
  run: "mc_stack m = f # st \<Longrightarrow> run_frame f st m = Some m' \<Longrightarrow> mstep m m'"
| event: "mc_stack m = [] \<Longrightarrow> mc_events m = e # es \<Longrightarrow> mstep m (take_event e (m\<lparr>mc_events := es\<rparr>))"

inductive_cases mstepE: "mstep m m'"

text \<open>\<^verbatim>\<open>block\<close>: the task's frame, by default with a fresh context, and the shell as its continuation; the task is
  resumed from the calling thread, which then waits for the semaphore.\<close>

definition block_start :: "'v body \<Rightarrow> unit coro_ctx option \<Rightarrow> unit coro_ctx \<Rightarrow> event list \<Rightarrow> 'v machine" where
  "block_start b c dflt es =
     \<lparr>mc_frames = [0 \<mapsto> next_of 1 None (new_frame KTask b (Some (case c of None \<Rightarrow> dflt | Some x \<Rightarrow> x))),
                   1 \<mapsto> shell_frame],
      mc_fresh = 2, mc_stack = [0], mc_waits = [], mc_fired = [], mc_stops = [], mc_events = es, mc_log = [], mc_sem = 0\<rparr>"

text \<open>After the semaphore was acquired: the result, and the machine without the two frames.\<close>

definition block_end :: "'v machine \<Rightarrow> 'v outcome option \<times> 'v machine" where
  "block_end m = (Option.bind (mc_frames m 0) fr_result, destroy 1 (destroy 0 m))"

text \<open>\<^verbatim>\<open>detach\<close>: a frame that awaits the task and nothing else, dispatched.\<close>

definition detach_start :: "'v body \<Rightarrow> unit coro_ctx \<Rightarrow> event list \<Rightarrow> 'v machine" where
  "detach_start b c es =
     \<lparr>mc_frames = [0 \<mapsto> new_frame KDetach (AwaitTask None b (\<lambda>r. case r of Val v \<Rightarrow> Ret v | Exc e \<Rightarrow> Raise e)) (Some c)],
      mc_fresh = 1, mc_stack = [0], mc_waits = [], mc_fired = [], mc_stops = [], mc_events = es, mc_log = [], mc_sem = 0\<rparr>"

section \<open>Direct evaluation\<close>

record env =
  en_fired :: "nat list"
  en_stops :: "nat list"
  en_events :: "event list"

text \<open>Waiting for a signal: the answer and the environment, or \<^term>\<open>None\<close> when the events run out.\<close>

fun wait_events :: "nat \<Rightarrow> unit coro_ctx option \<Rightarrow> nat list \<Rightarrow> nat list \<Rightarrow> event list \<Rightarrow> (bool \<times> env) option" where
  "wait_events s c fired stops [] = None"
| "wait_events s c fired stops (Fire s' # es) =
     (if s' = s then Some (True, \<lparr>en_fired = fired, en_stops = stops, en_events = es\<rparr>)
      else wait_events s c (s' # fired) stops es)"
| "wait_events s c fired stops (CancelSource k # es) =
     (if ctx_stopped c [k] then Some (False, \<lparr>en_fired = fired, en_stops = k # stops, en_events = es\<rparr>)
      else wait_events s c fired (k # stops) es)"

definition wait_sig :: "nat \<Rightarrow> unit coro_ctx option \<Rightarrow> env \<Rightarrow> (bool \<times> env) option" where
  "wait_sig s c e =
     (if s \<in> set (en_fired e) then Some (\<not> ctx_stopped c (en_stops e), e\<lparr>en_fired := removeAll s (en_fired e)\<rparr>)
      else if ctx_stopped c (en_stops e) then Some (False, e)
      else wait_events s c (en_fired e) (en_stops e) (en_events e))"

text \<open>
  A body as a direct program: its effects, its outcome and the environment left.  A yielded task is
  evaluated in place and must come to its end without waiting; \<^term>\<open>None\<close> when it does not or when the events
  run out.
\<close>

primrec direct :: "'v body \<Rightarrow> unit coro_ctx option \<Rightarrow> env \<Rightarrow> ((unit coro_ctx option \<times> 'v) list \<times> 'v outcome \<times> env) option" where
  "direct (Ret v) c e = Some ([], Val v, e)"
| "direct (Raise v) c e = Some ([], Exc v, e)"
| "direct (Emit v b) c e = map_option (\<lambda>(l, r). ((c, v) # l, r)) (direct b c e)"
| "direct (AwaitTask c' b k) c e =
     (case direct b (if c' = None then c else c') e of
        None \<Rightarrow> None
      | Some (l, r, e1) \<Rightarrow> map_option (\<lambda>(l2, r2). (l @ l2, r2)) (direct (k r) c e1))"
| "direct (AwaitSig s k) c e =
     (case wait_sig s c e of None \<Rightarrow> None | Some (b, e1) \<Rightarrow> direct (k b) c e1)"
| "direct (YieldTask b k) c e =
     (case direct b (map_option new_child_context c) (e\<lparr>en_events := []\<rparr>) of
        None \<Rightarrow> None
      | Some (l, r, e1) \<Rightarrow> map_option (\<lambda>(l2, r2). (l @ l2, r2)) (direct k c (e1\<lparr>en_events := en_events e\<rparr>)))"

section \<open>Simulation\<close>

fun end_body :: "'v outcome \<Rightarrow> 'v body" where
  "end_body (Val v) = Ret v"
| "end_body (Exc e) = Raise e"

definition agrees :: "env \<Rightarrow> event list \<Rightarrow> 'v machine \<Rightarrow> bool" where
  "agrees e es m \<longleftrightarrow> mc_fired m = en_fired e \<and> mc_stops m = en_stops e \<and> mc_events m = en_events e @ es"

definition after :: "'v machine \<Rightarrow> nat \<Rightarrow> 'v frame \<Rightarrow> nat \<Rightarrow> (unit coro_ctx option \<times> 'v) list \<Rightarrow> env \<Rightarrow> event list \<Rightarrow> 'v machine" where
  "after m f x k l e es = m\<lparr>mc_frames := (mc_frames m)(f \<mapsto> x), mc_fresh := k, mc_fired := en_fired e, mc_stops := en_stops e,
     mc_events := en_events e @ es, mc_log := mc_log m @ l\<rparr>"

definition ready :: "nat \<Rightarrow> 'v frame \<Rightarrow> 'v body \<Rightarrow> nat list \<Rightarrow> env \<Rightarrow> event list \<Rightarrow> 'v machine \<Rightarrow> bool" where
  "ready f x b st e es m \<longleftrightarrow> mc_frames m f = Some x \<and> fr_code x = Run b \<and> mc_stack m = f # st \<and> mc_waits m = [] \<and>
     agrees e es m \<and> (en_events e = [] \<or> st = []) \<and> (\<forall>n\<ge>mc_fresh m. mc_frames m n = None)"

definition sim :: "'v body \<Rightarrow> bool" where
  "sim b \<longleftrightarrow> (\<forall>e l r e' m f x st es. direct b (fr_ctx x) e = Some (l, r, e') \<longrightarrow> ready f x b st e es m \<longrightarrow>
     (\<exists>k\<ge>mc_fresh m. mstep\<^sup>*\<^sup>* m (after m f (x\<lparr>fr_code := Run (end_body r)\<rparr>) k l e' es)))"

lemma simD:
  assumes "sim b" "direct b (fr_ctx x) e = Some (l, r, e')" "ready f x b st e es m"
  obtains k where "k \<ge> mc_fresh m" "mstep\<^sup>*\<^sup>* m (after m f (x\<lparr>fr_code := Run (end_body r)\<rparr>) k l e' es)"
  using assms unfolding sim_def by blast

lemma readyD:
  assumes "ready f x b st e es m"
  shows "mc_frames m f = Some x" "fr_code x = Run b" "mc_stack m = f # st" "mc_waits m = []" "agrees e es m"
    "en_events e = [] \<or> st = []" "n \<ge> mc_fresh m \<Longrightarrow> mc_frames m n = None" "f < mc_fresh m"
  using assms unfolding ready_def by (simp_all, metis option.distinct(1) not_le)

lemma ready_run: "ready f x b st e es m \<Longrightarrow> run_frame f st m = Some m' \<Longrightarrow> mstep m m'"
  by (rule mstep.run [OF readyD(3)])

lemma wait_events_suffix: "wait_events s c fi st es = Some (b, e') \<Longrightarrow> \<exists>p. es = p @ en_events e'"
  by (induction s c fi st es rule: wait_events.induct) (auto split: if_splits)

lemma direct_events: "direct b c e = Some (l, r, e') \<Longrightarrow> \<exists>p. en_events e = p @ en_events e'"
proof (induction b arbitrary: c e l r e')
  case (AwaitTask c' b k)
  then show ?case by (fastforce split: option.splits prod.splits if_splits)
next
  case (AwaitSig s k)
  then show ?case by (fastforce simp: wait_sig_def split: option.splits prod.splits if_splits dest: wait_events_suffix)
next
  case (YieldTask b k)
  then show ?case by (fastforce split: option.splits prod.splits)
qed auto

lemma after_sel [simp]:
  "mc_frames (after m f x k l e es) = (mc_frames m)(f \<mapsto> x)" "mc_fresh (after m f x k l e es) = k"
  "mc_stack (after m f x k l e es) = mc_stack m" "mc_waits (after m f x k l e es) = mc_waits m"
  "mc_fired (after m f x k l e es) = en_fired e" "mc_stops (after m f x k l e es) = en_stops e"
  "mc_events (after m f x k l e es) = en_events e @ es" "mc_log (after m f x k l e es) = mc_log m @ l"
  "mc_sem (after m f x k l e es) = mc_sem m"
  by (simp_all add: after_def)

lemma after_after [simp]: "after (after m f x k l e es) f x' k' l' e' es' = after m f x' k' (l @ l') e' es'"
  by (simp add: after_def)

lemma ctx_stopped_Cons: "ctx_stopped c (k # stops) \<longleftrightarrow> ctx_stopped c [k] \<or> ctx_stopped c stops"
  by (auto simp: ctx_stopped_def split: option.split)

text \<open>Awaiting a task of which the simulation holds.\<close>

lemma call_sim:
  assumes s: "sim b" and r: "ready f x (AwaitTask c b k) st e es m" and d: "direct b (if c = None then fr_ctx x else c) e = Some (l, r, e')"
  shows "\<exists>n\<ge>mc_fresh m. mstep\<^sup>*\<^sup>* m (after m f (x\<lparr>fr_code := Run (k r)\<rparr>) n l e' es)"
proof -
  note R = readyD [OF r]
  define n where "n = mc_fresh m"
  define y where "y = next_of f (fr_ctx x) (new_frame KTask b c)"
  define x1 where "x1 = x\<lparr>fr_code := OnTask n k\<rparr>"
  define m1 where "m1 = m\<lparr>mc_frames := (mc_frames m)(n \<mapsto> y, f \<mapsto> x1), mc_fresh := Suc n, mc_stack := n # st\<rparr>"
  have nf: "n \<noteq> f" "mc_frames m n = None" using R(7) [of n] R(8) by (auto simp: n_def)
  have "run_frame f st m = Some m1" using R(1,2)
    by (simp add: run_frame_def await_task_def alloc_def set_code_def m1_def x1_def y_def n_def Let_def)
  then have s1: "mstep m m1" by (rule ready_run [OF r])
  have y: "fr_kind y = KTask" "fr_code y = Run b" "fr_next y = Some f" "fr_ctx y = (if c = None then fr_ctx x else c)" "fr_result y = None"
    by (simp_all add: y_def next_of_def new_frame_def)
  have r1: "ready n y b st e es m1"
    using R nf y by (auto simp: ready_def m1_def agrees_def n_def)
  have d1: "direct b (fr_ctx y) e = Some (l, r, e')" using d y(4) by simp
  obtain j where j: "j \<ge> Suc n" "mstep\<^sup>*\<^sup>* m1 (after m1 n (y\<lparr>fr_code := Run (end_body r)\<rparr>) j l e' es)"
    using simD [OF s d1 r1] by (auto simp: m1_def)
  define m2 where "m2 = after m1 n (y\<lparr>fr_code := Run (end_body r)\<rparr>) j l e' es"
  define m3 where "m3 = m2\<lparr>mc_frames := (mc_frames m2)(n \<mapsto> y\<lparr>fr_code := Final, fr_result := Some r\<rparr>), mc_stack := f # st\<rparr>"
  have "run_frame n st m2 = Some m3" using y
    by (cases r) (simp_all add: m2_def m3_def run_frame_def finish_def)
  then have s2: "mstep m2 m3" by (intro mstep.run [of _ n st]) (simp_all add: m2_def m1_def)
  have "run_frame f st m3 = Some (after m f (x\<lparr>fr_code := Run (k r)\<rparr>) j l e' es)"
    using nf R(1,3) fun_upd_idem [of "mc_frames m" n None]
    by (simp add: m3_def m2_def m1_def x1_def run_frame_def resume_parent_def set_code_def destroy_def)
  then have s3: "mstep m3 (after m f (x\<lparr>fr_code := Run (k r)\<rparr>) j l e' es)" by (intro mstep.run [of _ f st]) (simp_all add: m3_def)
  have "mstep\<^sup>*\<^sup>* m (after m f (x\<lparr>fr_code := Run (k r)\<rparr>) j l e' es)"
    using s1 j(2) s2 s3 unfolding m2_def [symmetric] by (meson converse_rtranclp_into_rtranclp rtranclp.rtrancl_into_rtrancl)
  then show ?thesis using j(1) by (intro exI [of _ j]) (simp add: n_def)
qed

text \<open>Waiting for a signal: the events up to the one that wakes the frame.\<close>

lemma wait_events_sim:
  assumes "wait_events s c fi sts ev = Some (b, e')" "mc_stack m = []" "mc_waits m = [(s, f)]" "mc_frames m f = Some x" "fr_ctx x = c"
    "mc_fired m = fi" "mc_stops m = sts" "mc_events m = ev @ es" "\<not> ctx_stopped c sts"
  shows "b = (\<not> ctx_stopped c (en_stops e')) \<and>
    mstep\<^sup>*\<^sup>* m (m\<lparr>mc_stack := [f], mc_waits := [], mc_fired := en_fired e', mc_stops := en_stops e', mc_events := en_events e' @ es\<rparr>)"
  using assms
proof (induction s c fi sts ev arbitrary: m rule: wait_events.induct)
  case (2 s c fired stops s' ev)
  let ?m = "take_event (Fire s') (m\<lparr>mc_events := ev @ es\<rparr>)"
  have step: "mstep m ?m" using 2 by (intro mstep.event) simp_all
  show ?case
  proof (cases "s' = s")
    case True
    have "?m = m\<lparr>mc_stack := [f], mc_waits := [], mc_fired := en_fired e', mc_stops := en_stops e', mc_events := en_events e' @ es\<rparr>"
      using 2 True by (auto simp: take_event_def intro!: machine.equality)
    then show ?thesis using 2 True step by auto
  next
    case False
    have m: "?m = m\<lparr>mc_events := ev @ es, mc_fired := s' # mc_fired m\<rparr>" using 2 False by (simp add: take_event_def)
    have "b = (\<not> ctx_stopped c (en_stops e')) \<and>
      mstep\<^sup>*\<^sup>* ?m (?m\<lparr>mc_stack := [f], mc_waits := [], mc_fired := en_fired e', mc_stops := en_stops e', mc_events := en_events e' @ es\<rparr>)"
      using 2 False by (intro "2.IH") (simp_all add: m)
    then show ?thesis using step by (auto simp: m intro: converse_rtranclp_into_rtranclp)
  qed
next
  case (3 s c fired stops k ev)
  let ?m = "take_event (CancelSource k) (m\<lparr>mc_events := ev @ es\<rparr>)"
  have step: "mstep m ?m" using 3 by (intro mstep.event) simp_all
  show ?case
  proof (cases "ctx_stopped c [k]")
    case True
    have "?m = m\<lparr>mc_stack := [f], mc_waits := [], mc_fired := en_fired e', mc_stops := en_stops e', mc_events := en_events e' @ es\<rparr>"
      using 3 True by (auto simp: take_event_def ctx_of_def Let_def intro!: machine.equality)
    then show ?thesis using 3 True step ctx_stopped_Cons [of c k stops] by auto
  next
    case False
    have m: "?m = m\<lparr>mc_events := ev @ es, mc_stops := k # mc_stops m\<rparr>" using 3 False
      by (auto simp: take_event_def ctx_of_def Let_def intro!: machine.equality)
    have "b = (\<not> ctx_stopped c (en_stops e')) \<and>
      mstep\<^sup>*\<^sup>* ?m (?m\<lparr>mc_stack := [f], mc_waits := [], mc_fired := en_fired e', mc_stops := en_stops e', mc_events := en_events e' @ es\<rparr>)"
      using 3 False ctx_stopped_Cons [of c k stops] by (intro "3.IH") (simp_all add: m)
    then show ?thesis using step by (auto simp: m intro: converse_rtranclp_into_rtranclp)
  qed
qed simp

lemma sig_sim:
  assumes r: "ready f x (AwaitSig s k) st e es m" and w: "wait_sig s (fr_ctx x) e = Some (b, e')"
  shows "mstep\<^sup>*\<^sup>* m (after m f (x\<lparr>fr_code := Run (k b)\<rparr>) (mc_fresh m) [] e' es)"
proof -
  note R = readyD [OF r] and A = readyD(5) [OF r, unfolded agrees_def]
  show ?thesis
  proof (cases "s \<in> set (en_fired e) \<or> ctx_stopped (fr_ctx x) (en_stops e)")
    case True
    then have "run_frame f st m = Some (after m f (x\<lparr>fr_code := Run (k b)\<rparr>) (mc_fresh m) [] e' es)"
      using R(1-3) A w by (auto simp: run_frame_def await_sig_def wait_sig_def set_code_def after_def intro!: machine.equality split: if_splits)
    then show ?thesis using ready_run [OF r] by blast
  next
    case False
    then have we: "wait_events s (fr_ctx x) (en_fired e) (en_stops e) (en_events e) = Some (b, e')" using w by (simp add: wait_sig_def split: if_splits)
    then have "st = []" using R(6) by (cases "en_events e") auto
    define x1 where "x1 = x\<lparr>fr_code := OnSig s k\<rparr>"
    define m1 where "m1 = m\<lparr>mc_frames := (mc_frames m)(f \<mapsto> x1), mc_stack := [], mc_waits := [(s, f)]\<rparr>"
    define m2 where "m2 = m1\<lparr>mc_stack := [f], mc_waits := [], mc_fired := en_fired e', mc_stops := en_stops e', mc_events := en_events e' @ es\<rparr>"
    have "run_frame f st m = Some m1" using R A False \<open>st = []\<close>
      by (simp add: run_frame_def await_sig_def set_code_def m1_def x1_def)
    then have s1: "mstep m m1" by (rule ready_run [OF r])
    have s2: "b = (\<not> ctx_stopped (fr_ctx x) (en_stops e')) \<and> mstep\<^sup>*\<^sup>* m1 m2" unfolding m2_def
      using A False by (intro wait_events_sim [OF we, of m1 f x1 es]) (simp_all add: m1_def x1_def)
    then have "run_frame f [] m2 = Some (after m f (x\<lparr>fr_code := Run (k b)\<rparr>) (mc_fresh m) [] e' es)"
      using R(3,4) \<open>st = []\<close> by (auto simp: m2_def m1_def x1_def run_frame_def set_code_def after_def intro!: machine.equality)
    then have s3: "mstep m2 (after m f (x\<lparr>fr_code := Run (k b)\<rparr>) (mc_fresh m) [] e' es)" by (intro mstep.run [of _ f "[]"]) (simp_all add: m2_def)
    from s1 conjunct2 [OF s2] s3 show ?thesis by (meson converse_rtranclp_into_rtranclp rtranclp.rtrancl_into_rtrancl)
  qed
qed

text \<open>The machine goes on with a body after reaching it.\<close>

lemma ready_after:
  assumes "ready f x b st e es m" "n \<ge> mc_fresh m" "\<exists>p. en_events e = p @ en_events e'"
  shows "ready f (x\<lparr>fr_code := Run b'\<rparr>) b' st e' es (after m f (x\<lparr>fr_code := Run b'\<rparr>) n l' e' es)"
  using readyD [OF assms(1)] assms(2,3) by (auto simp: ready_def agrees_def)

lemma after_self: "ready f x b st e es m \<Longrightarrow> after m f (x\<lparr>fr_code := Run b\<rparr>) (mc_fresh m) [] e es = m"
proof -
  assume r: "ready f x b st e es m"
  have "x\<lparr>fr_code := Run b\<rparr> = x" using readyD(2) [OF r] by simp
  then show ?thesis using readyD(1,5) [OF r] by (auto simp: agrees_def fun_upd_idem intro!: machine.equality)
qed

lemma wait_sig_suffix: "wait_sig s c e = Some (b, e') \<Longrightarrow> \<exists>p. en_events e = p @ en_events e'"
  by (auto simp: wait_sig_def split: if_splits dest: wait_events_suffix)

lemma sim_continue:
  assumes "sim b'" "ready f x b st e es m" "mstep\<^sup>*\<^sup>* m (after m f (x\<lparr>fr_code := Run b'\<rparr>) n l1 e1 es)" "n \<ge> mc_fresh m"
    "\<exists>p. en_events e = p @ en_events e1" "direct b' (fr_ctx x) e1 = Some (l2, r, e')"
  shows "\<exists>k\<ge>mc_fresh m. mstep\<^sup>*\<^sup>* m (after m f (x\<lparr>fr_code := Run (end_body r)\<rparr>) k (l1 @ l2) e' es)"
proof -
  have "direct b' (fr_ctx (x\<lparr>fr_code := Run b'\<rparr>)) e1 = Some (l2, r, e')" using assms(6) by simp
  from simD [OF assms(1) this ready_after [OF assms(2,4,5)]] obtain k where "k \<ge> n"
    "mstep\<^sup>*\<^sup>* (after m f (x\<lparr>fr_code := Run b'\<rparr>) n l1 e1 es) (after m f (x\<lparr>fr_code := Run (end_body r)\<rparr>) k (l1 @ l2) e' es)" by auto
  then show ?thesis using assms(3,4) by (intro exI [of _ k]) auto
qed

lemma simI:
  assumes "\<And>e l r e' m f x st es. direct b (fr_ctx x) e = Some (l, r, e') \<Longrightarrow> ready f x b st e es m \<Longrightarrow>
     \<exists>k\<ge>mc_fresh m. mstep\<^sup>*\<^sup>* m (after m f (x\<lparr>fr_code := Run (end_body r)\<rparr>) k l e' es)"
  shows "sim b"
  using assms unfolding sim_def by blast

lemma yield_sim:
  assumes s: "sim b" and r: "ready f x (YieldTask b k) st e es m"
    and d: "direct b (map_option new_child_context (fr_ctx x)) (e\<lparr>en_events := []\<rparr>) = Some (l, r, e')"
  shows "\<exists>n\<ge>mc_fresh m. mstep\<^sup>*\<^sup>* m (after m f (x\<lparr>fr_code := Run k\<rparr>) n l (e'\<lparr>en_events := en_events e\<rparr>) es)"
proof -
  note R = readyD [OF r] and A = readyD(5) [OF r, unfolded agrees_def]
  define n where "n = mc_fresh m"
  let ?k = "\<lambda>r. case r of Val v \<Rightarrow> Ret v | Exc e \<Rightarrow> Raise e"
  define y where "y = new_frame KDetach (AwaitTask None b ?k) (map_option new_child_context (fr_ctx x))"
  define x1 where "x1 = x\<lparr>fr_code := Run k\<rparr>"
  define m1 where "m1 = m\<lparr>mc_frames := (mc_frames m)(n \<mapsto> y, f \<mapsto> x1), mc_fresh := Suc n, mc_stack := n # f # st\<rparr>"
  have nf: "n \<noteq> f" "mc_frames m n = None" using R(7) [of n] R(8) by (auto simp: n_def)
  have "run_frame f st m = Some m1" using R(1,2)
    by (simp add: run_frame_def yield_task_def alloc_def set_code_def m1_def x1_def y_def n_def Let_def)
  then have s1: "mstep m m1" by (rule ready_run [OF r])
  have y: "fr_kind y = KDetach" "fr_code y = Run (AwaitTask None b ?k)" "fr_ctx y = map_option new_child_context (fr_ctx x)"
    by (simp_all add: y_def new_frame_def)
  have r1: "ready n y (AwaitTask None b ?k) (f # st) (e\<lparr>en_events := []\<rparr>) (en_events e @ es) m1"
    using R nf y by (auto simp: ready_def m1_def agrees_def n_def)
  have d1: "direct b (if (None :: unit coro_ctx option) = None then fr_ctx y else None) (e\<lparr>en_events := []\<rparr>) = Some (l, r, e')" using d y(3) by simp
  have e': "en_events e' = []" using direct_events [OF d] by simp
  obtain j where j: "j \<ge> Suc n" "mstep\<^sup>*\<^sup>* m1 (after m1 n (y\<lparr>fr_code := Run (?k r)\<rparr>) j l e' (en_events e @ es))"
    using call_sim [OF s r1 d1] by (auto simp: m1_def)
  define m2 where "m2 = after m1 n (y\<lparr>fr_code := Run (?k r)\<rparr>) j l e' (en_events e @ es)"
  have "run_frame n (f # st) m2 = Some (after m f x1 j l (e'\<lparr>en_events := en_events e\<rparr>) es)"
    using y nf R(3) e' fun_upd_idem [of "mc_frames m" n None]
    by (cases r) (auto simp: m2_def m1_def run_frame_def finish_def destroy_def after_def intro!: machine.equality)
  then have s2: "mstep m2 (after m f x1 j l (e'\<lparr>en_events := en_events e\<rparr>) es)" by (intro mstep.run [of _ n "f # st"]) (simp_all add: m2_def m1_def)
  have "mstep\<^sup>*\<^sup>* m (after m f x1 j l (e'\<lparr>en_events := en_events e\<rparr>) es)"
    using s1 j(2) s2 unfolding m2_def [symmetric] by (meson converse_rtranclp_into_rtranclp rtranclp.rtrancl_into_rtrancl)
  then show ?thesis using j(1) by (intro exI [of _ j]) (simp add: n_def x1_def)
qed

lemma emit_sim:
  assumes r: "ready f x (Emit v b) st e es m"
  shows "mstep\<^sup>*\<^sup>* m (after m f (x\<lparr>fr_code := Run b\<rparr>) (mc_fresh m) [(fr_ctx x, v)] e es)"
proof -
  have "run_frame f st m = Some (after m f (x\<lparr>fr_code := Run b\<rparr>) (mc_fresh m) [(fr_ctx x, v)] e es)"
    using readyD(1,2,5) [OF r] by (auto simp: run_frame_def set_code_def agrees_def intro!: machine.equality)
  then show ?thesis using ready_run [OF r] by blast
qed

lemma sim_all: "sim b"
proof (induction b)
  case (Ret v)
  show ?case by (rule simI) (auto simp: after_self)
next
  case (Raise v)
  show ?case by (rule simI) (auto simp: after_self)
next
  case (Emit v b)
  show ?case
  proof (rule simI)
    fix e l r e' m f x st es
    assume d: "direct (Emit v b) (fr_ctx x) e = Some (l, r, e')" and rd: "ready f x (Emit v b) st e es m"
    from d obtain l2 where "l = [(fr_ctx x, v)] @ l2" "direct b (fr_ctx x) e = Some (l2, r, e')" by auto
    with sim_continue [OF Emit rd emit_sim [OF rd]] show "\<exists>k\<ge>mc_fresh m. mstep\<^sup>*\<^sup>* m (after m f (x\<lparr>fr_code := Run (end_body r)\<rparr>) k l e' es)" by simp
  qed
next
  case (AwaitTask c b k)
  show ?case
  proof (rule simI)
    fix e l r e' m f x st es
    assume d: "direct (AwaitTask c b k) (fr_ctx x) e = Some (l, r, e')" and rd: "ready f x (AwaitTask c b k) st e es m"
    from d obtain l1 r1 e1 l2 where c: "direct b (if c = None then fr_ctx x else c) e = Some (l1, r1, e1)" "l = l1 @ l2"
      "direct (k r1) (fr_ctx x) e1 = Some (l2, r, e')"
      by (auto split: option.splits prod.splits if_splits)
    from call_sim [OF AwaitTask(1) rd c(1)] obtain n where "n \<ge> mc_fresh m" "mstep\<^sup>*\<^sup>* m (after m f (x\<lparr>fr_code := Run (k r1)\<rparr>) n l1 e1 es)" by blast
    from sim_continue [OF AwaitTask(2) rd this(2,1) direct_events [OF c(1)] c(3)]
    show "\<exists>k\<ge>mc_fresh m. mstep\<^sup>*\<^sup>* m (after m f (x\<lparr>fr_code := Run (end_body r)\<rparr>) k l e' es)" by (simp add: c(2))
  qed
next
  case (AwaitSig s k)
  show ?case
  proof (rule simI)
    fix e l r e' m f x st es
    assume d: "direct (AwaitSig s k) (fr_ctx x) e = Some (l, r, e')" and rd: "ready f x (AwaitSig s k) st e es m"
    from d obtain b e1 where c: "wait_sig s (fr_ctx x) e = Some (b, e1)" "direct (k b) (fr_ctx x) e1 = Some (l, r, e')"
      by (auto split: option.splits prod.splits)
    from sim_continue [OF AwaitSig rd sig_sim [OF rd c(1)] order_refl wait_sig_suffix [OF c(1)] c(2)]
    show "\<exists>k\<ge>mc_fresh m. mstep\<^sup>*\<^sup>* m (after m f (x\<lparr>fr_code := Run (end_body r)\<rparr>) k l e' es)" by simp
  qed
next
  case (YieldTask b k)
  show ?case
  proof (rule simI)
    fix e l r e' m f x st es
    assume d: "direct (YieldTask b k) (fr_ctx x) e = Some (l, r, e')" and rd: "ready f x (YieldTask b k) st e es m"
    from d obtain l1 r1 e1 l2 where c: "direct b (map_option new_child_context (fr_ctx x)) (e\<lparr>en_events := []\<rparr>) = Some (l1, r1, e1)" "l = l1 @ l2"
      "direct k (fr_ctx x) (e1\<lparr>en_events := en_events e\<rparr>) = Some (l2, r, e')"
      by (auto split: option.splits prod.splits)
    from yield_sim [OF YieldTask(1) rd c(1)] obtain n where "n \<ge> mc_fresh m"
      "mstep\<^sup>*\<^sup>* m (after m f (x\<lparr>fr_code := Run k\<rparr>) n l1 (e1\<lparr>en_events := en_events e\<rparr>) es)" by blast
    from sim_continue [OF YieldTask(2) rd this(2,1) _ c(3)]
    show "\<exists>k\<ge>mc_fresh m. mstep\<^sup>*\<^sup>* m (after m f (x\<lparr>fr_code := Run (end_body r)\<rparr>) k l e' es)" by (simp add: c(2))
  qed
qed

text \<open>The machine is deterministic, so what it reaches it must reach.\<close>

lemma mstep_deterministic: "mstep m m1 \<Longrightarrow> mstep m m2 \<Longrightarrow> m1 = m2"
  by (auto elim!: mstepE)

lemma msteps_linear: "mstep\<^sup>*\<^sup>* m a \<Longrightarrow> mstep\<^sup>*\<^sup>* m b \<Longrightarrow> mstep\<^sup>*\<^sup>* a b \<or> mstep\<^sup>*\<^sup>* b a"
proof (induction rule: rtranclp_induct)
  case (step a a')
  then show ?case using mstep_deterministic by (metis converse_rtranclpE rtranclp.rtrancl_into_rtrancl)
qed simp

text \<open>C3. Blocking on a task computes what the direct program computes: whenever direct evaluation of the body
  with the events at hand gives effects and an outcome, the machine that \<^verbatim>\<open>block\<close> starts reaches the state in which
  the semaphore was released once; there the result read from the task is that outcome, the effects happened
  in that order with the contexts of the evaluation, no frame other than the task's and the shell's exists,
  and no coroutine runs or waits.  Every run of the machine passes through this state, so none of them
  uses a frame that does not exist before.\<close>

theorem block_computes:
  assumes "direct b (Some (case c of None \<Rightarrow> dflt | Some x \<Rightarrow> x)) \<lparr>en_fired = [], en_stops = [], en_events = es\<rparr> = Some (l, r, e')"
  shows "\<exists>m. mstep\<^sup>*\<^sup>* (block_start b c dflt es) m \<and> mc_sem m = 1 \<and> mc_stack m = [] \<and> mc_waits m = [] \<and> mc_log m = l \<and>
    mc_events m = en_events e' \<and> fst (block_end m) = Some r \<and> mc_frames (snd (block_end m)) = Map.empty \<and>
    (\<forall>m'. mstep\<^sup>*\<^sup>* (block_start b c dflt es) m' \<longrightarrow> mstep\<^sup>*\<^sup>* m' m \<or> mstep\<^sup>*\<^sup>* m m')"
proof -
  define m0 where "m0 = block_start b c dflt es"
  define x where "x = next_of 1 None (new_frame KTask b (Some (case c of None \<Rightarrow> dflt | Some x \<Rightarrow> x)))"
  have x: "fr_ctx x = Some (case c of None \<Rightarrow> dflt | Some x \<Rightarrow> x)" "fr_code x = Run b" "fr_next x = Some 1" "fr_kind x = KTask"
    by (simp_all add: x_def next_of_def new_frame_def)
  have m0: "mc_frames m0 = [0 \<mapsto> x, 1 \<mapsto> shell_frame]" "mc_stack m0 = [0]" "mc_waits m0 = []" "mc_sem m0 = 0" "mc_log m0 = []"
    by (simp_all add: m0_def block_start_def x_def)
  have "ready 0 x b [] \<lparr>en_fired = [], en_stops = [], en_events = es\<rparr> [] m0"
    using x m0 by (auto simp: ready_def agrees_def m0_def block_start_def)
  from simD [OF sim_all assms [folded x(1)] this] obtain k where
    s: "mstep\<^sup>*\<^sup>* m0 (after m0 0 (x\<lparr>fr_code := Run (end_body r)\<rparr>) k l e' [])" by blast
  define m1 where "m1 = after m0 0 (x\<lparr>fr_code := Run (end_body r)\<rparr>) k l e' []"
  define m2 where "m2 = m1\<lparr>mc_frames := [0 \<mapsto> x\<lparr>fr_code := Final, fr_result := Some r\<rparr>, 1 \<mapsto> shell_frame], mc_stack := [1]\<rparr>"
  define m3 where "m3 = m2\<lparr>mc_frames := (mc_frames m2)(1 \<mapsto> shell_frame\<lparr>fr_code := Final\<rparr>), mc_stack := [], mc_sem := 1\<rparr>"
  have "run_frame 0 [] m1 = Some m2" using x m0(1)
    by (cases r) (auto simp: m1_def m2_def run_frame_def finish_def intro!: machine.equality)
  then have s1: "mstep m1 m2" by (intro mstep.run [of _ 0 "[]"]) (simp_all add: m1_def m0)
  have "run_frame 1 [] m2 = Some m3" using m0(4) by (simp add: m3_def m2_def m1_def run_frame_def shell_frame_def)
  then have s2: "mstep m2 m3" by (intro mstep.run [of _ 1 "[]"]) (simp_all add: m2_def)
  have "mstep\<^sup>*\<^sup>* m0 m3" using s s1 s2 unfolding m1_def [symmetric] by auto
  then show ?thesis using m0 msteps_linear [of m0] unfolding m0_def [symmetric]
    by (intro exI [of _ m3]) (auto simp: m3_def m2_def m1_def block_end_def destroy_def)
qed

theorem block_computes_witness:
  "\<exists>m. mstep\<^sup>*\<^sup>* (block_start (AwaitTask None (AwaitSig 3 (\<lambda>ok. if ok then Raise (7::nat) else Ret 0))
         (\<lambda>r. case r of Exc v \<Rightarrow> Emit v (Ret 1) | Val v \<Rightarrow> Ret v)) None \<lparr>cc_exec = 0, cc_reserved = None, cc_stop = 0\<rparr> [Fire 3]) m \<and>
     mc_sem m = 1 \<and> map snd (mc_log m) = [7] \<and> fst (block_end m) = Some (Val 1)"
proof -
  let ?b = "AwaitTask None (AwaitSig 3 (\<lambda>ok. if ok then Raise (7::nat) else Ret 0)) (\<lambda>r. case r of Exc v \<Rightarrow> Emit v (Ret 1) | Val v \<Rightarrow> Ret v)"
  let ?c = "\<lparr>cc_exec = 0, cc_reserved = None, cc_stop = 0\<rparr> :: unit coro_ctx"
  have "direct ?b (Some (case None of None \<Rightarrow> ?c | Some x \<Rightarrow> x)) \<lparr>en_fired = [], en_stops = [], en_events = [Fire 3]\<rparr> =
    Some ([(Some ?c, 7)], Val 1, \<lparr>en_fired = [], en_stops = [], en_events = []\<rparr>)"
    by (simp add: wait_sig_def ctx_stopped_def)
  from block_computes [OF this] show ?thesis by auto
qed

text \<open>A detached task does the same and leaves no frame behind; its outcome is dropped.\<close>

lemma detach_computes:
  assumes "direct b (Some c) \<lparr>en_fired = [], en_stops = [], en_events = es\<rparr> = Some (l, r, e')"
  shows "\<exists>m. mstep\<^sup>*\<^sup>* (detach_start b c es) m \<and> mc_frames m = Map.empty \<and> mc_stack m = [] \<and> mc_waits m = [] \<and> mc_log m = l"
proof -
  define m0 where "m0 = detach_start b c es"
  let ?k = "\<lambda>r. case r of Val v \<Rightarrow> Ret v | Exc e \<Rightarrow> Raise e"
  define x where "x = new_frame KDetach (AwaitTask None b ?k) (Some c)"
  have x: "fr_ctx x = Some c" "fr_code x = Run (AwaitTask None b ?k)" "fr_kind x = KDetach" by (simp_all add: x_def new_frame_def)
  have m0: "mc_frames m0 = [0 \<mapsto> x]" "mc_stack m0 = [0]" "mc_waits m0 = []" "mc_log m0 = []" by (simp_all add: m0_def detach_start_def x_def)
  have "direct (AwaitTask None b ?k) (fr_ctx x) \<lparr>en_fired = [], en_stops = [], en_events = es\<rparr> = Some (l, r, e')"
    using assms x by (cases r) auto
  moreover have "ready 0 x (AwaitTask None b ?k) [] \<lparr>en_fired = [], en_stops = [], en_events = es\<rparr> [] m0"
    using x m0 by (auto simp: ready_def agrees_def m0_def detach_start_def)
  ultimately obtain k where s: "mstep\<^sup>*\<^sup>* m0 (after m0 0 (x\<lparr>fr_code := Run (end_body r)\<rparr>) k l e' [])" using simD [OF sim_all] by blast
  let ?m1 = "after m0 0 (x\<lparr>fr_code := Run (end_body r)\<rparr>) k l e' []"
  have "run_frame 0 [] ?m1 = Some (destroy 0 ?m1\<lparr>mc_stack := []\<rparr>)" using x by (cases r) (simp_all add: run_frame_def finish_def)
  then have "mstep ?m1 (destroy 0 ?m1\<lparr>mc_stack := []\<rparr>)" by (intro mstep.run [of _ 0 "[]"]) (simp_all add: m0)
  with s have "mstep\<^sup>*\<^sup>* m0 (destroy 0 ?m1\<lparr>mc_stack := []\<rparr>)" by auto
  then show ?thesis using m0 unfolding m0_def [symmetric]
    by (intro exI [of _ "destroy 0 ?m1\<lparr>mc_stack := []\<rparr>"]) (auto simp: destroy_def)
qed

text \<open>In a cancelled domain no await of a signal suspends, and all of them give false.\<close>

lemma cancelled_awaits:
  assumes "ctx_stopped c (en_stops e)"
  shows "\<exists>e'. wait_sig s c e = Some (False, e') \<and> en_stops e' = en_stops e \<and> en_events e' = en_events e"
  using assms by (simp add: wait_sig_def)

text \<open>Transforms added with \<^verbatim>\<open>then\<close> apply in the order they were added, and not at all to an exception.\<close>

lemma then_order: "then_resume (fold then_add fs []) (Val v) = Val (fold (\<lambda>f. f) fs v)" "then_resume ts (Exc x) = Exc x"
proof -
  have "then_apply (fold then_add fs ts) v = fold (\<lambda>f. f) fs (then_apply ts v)" for ts
    by (induction fs arbitrary: ts) (simp_all add: then_add_def)
  then show "then_resume (fold then_add fs []) (Val v) = Val (fold (\<lambda>f. f) fs v)" "then_resume ts (Exc x) = Exc x"
    by (simp_all add: then_resume_def)
qed

end
