(* ===== verification/Coro_Then.thy ===== *)
theory Coro_Then
  imports Coro_Task
begin

text \<open>
  Continuations on tasks without a result (\<^verbatim>\<open>_apply_void\<close> of \<^verbatim>\<open>include/xsl/coro/core/then.h\<close>), whose functions may themselves
  return nothing, and the guard that keeps the arguments of a coroutine alive (\<^verbatim>\<open>include/xsl/coro/guard.h\<close>).  The
  lemmas show when the continuations run in the order in which they were added, that one that returns nothing is
  skipped when another follows, that guarded arguments are destroyed after the task has ended, and which context a task
  runs with.
\<close>

section \<open>Continuations on tasks without a result\<close>

text \<open>A function given to \<^verbatim>\<open>then\<close>: whether its return type is void, and what it does with an argument, if it takes one:
  its effects and the value it returns.\<close>

record 'v transform =
  tf_void :: bool
  tf_run :: "'v option \<Rightarrow> 'v list \<times> 'v option"

text \<open>\<^verbatim>\<open>_apply_void\<close> on the functions, the one added last first.  The type of the inner expression decides; when it is void the
  inner expression is not evaluated.\<close>

fun apply_void :: "'v transform list \<Rightarrow> 'v list \<times> 'v option" where
  "apply_void [] = ([], None)"
| "apply_void [f] = tf_run f None"
| "apply_void (f # g # ts) =
     (if tf_void g then tf_run f None
      else (let (l, v) = apply_void (g # ts); (l2, r) = tf_run f v in (l @ l2, r)))"

text \<open>The functions in the order in which they were added, each applied to what the one before returned.\<close>

fun in_order :: "'v transform list \<Rightarrow> 'v option \<Rightarrow> 'v list \<times> 'v option" where
  "in_order [] v = ([], v)"
| "in_order (f # fs) v = (let (l, r) = tf_run f v; (l2, r2) = in_order fs r in (l @ l2, r2))"

lemma in_order_snoc:
  "in_order (fs @ [f]) v = (let (l, r) = in_order fs v; (l2, r2) = tf_run f r in (l @ l2, r2))"
  by (induction fs arbitrary: v) (simp_all add: Let_def case_prod_beta)

text \<open>The continuations run in order when all but the last one added return a value.\<close>

lemma apply_void_in_order:
  assumes "ts \<noteq> []" "\<not> list_ex tf_void (tl ts)"
  shows "apply_void ts = in_order (rev ts) None"
  using assms
proof (induction ts rule: apply_void.induct)
  case (3 f g ts)
  then have n: "\<not> tf_void g" "\<not> list_ex tf_void (tl (g # ts))" by simp_all
  have "apply_void (f # g # ts) = (let (l, v) = apply_void (g # ts); (l2, r) = tf_run f v in (l @ l2, r))" using n(1) by simp
  also have "\<dots> = (let (l, v) = in_order (rev (g # ts)) None; (l2, r) = tf_run f v in (l @ l2, r))" using "3.IH" n by simp
  also have "\<dots> = in_order (rev (f # g # ts)) None" using in_order_snoc [of "rev (g # ts)" f None] by simp
  finally show ?case .
qed (simp_all add: case_prod_beta)

text \<open>A continuation that returns nothing never runs when another one is added to it, and neither does anything before it.\<close>

lemma void_then_skipped: "tf_void g \<Longrightarrow> apply_void (f # g # ts) = tf_run f None"
  by simp

lemma void_then_loses_effect:
  "apply_void [\<lparr>tf_void = False, tf_run = \<lambda>_. ([], Some 2)\<rparr>, \<lparr>tf_void = True, tf_run = \<lambda>_. ([1 :: nat], None)\<rparr>] = ([], Some 2)"
  "in_order (rev [\<lparr>tf_void = False, tf_run = \<lambda>_. ([], Some 2)\<rparr>, \<lparr>tf_void = True, tf_run = \<lambda>_. ([1 :: nat], None)\<rparr>]) None = ([1], Some 2)"
  by simp_all

section \<open>Guarded arguments\<close>

text \<open>Awaiting an \<^verbatim>\<open>ArgGuard\<close>: the task is made from the stored arguments, which move into the awaiter and are destroyed with it
  when the await is over; \<open>gone\<close> is the effect of their destruction.\<close>

definition arg_guard :: "('a \<Rightarrow> 'v body) \<Rightarrow> ('a \<Rightarrow> 'v) \<Rightarrow> 'a \<Rightarrow> ('v outcome \<Rightarrow> 'v body) \<Rightarrow> 'v body" where
  "arg_guard gen gone args k = AwaitTask None (gen args) (\<lambda>r. Emit (gone args) (k r))"

text \<open>The arguments are destroyed after everything the task did, and before anything that follows; the result is the task's.\<close>

lemma arg_guard_outlives:
  assumes "direct (gen args) c e = Some (l, r, e1)" "direct (k r) c e1 = Some (l2, r2, e2)"
  shows "direct (arg_guard gen gone args k) c e = Some (l @ (c, gone args) # l2, r2, e2)"
  using assms by (simp add: arg_guard_def)

section \<open>The context of a task\<close>

text \<open>A task before it is started (\<^verbatim>\<open>include/xsl/coro/core/task.h\<close>): its body and the context in its promise.\<close>

record 'v task =
  tk_body :: "'v body"
  tk_ctx :: "unit coro_ctx option"

definition has_ctx :: "'v task \<Rightarrow> bool" where
  "has_ctx t \<longleftrightarrow> tk_ctx t \<noteq> None"

text \<open>\<^verbatim>\<open>by\<close> with a context that \<open>owners\<close> handles share once it is stored: a debug build aborts unless there is one.\<close>

definition task_by :: "bool \<Rightarrow> nat \<Rightarrow> unit coro_ctx \<Rightarrow> 'v task \<Rightarrow> 'v task option" where
  "task_by debug owners c t = (if debug \<and> owners \<noteq> 1 then None else Some (t\<lparr>tk_ctx := Some c\<rparr>))"

text \<open>\<^verbatim>\<open>Task::block\<close> falls back to a context of its own; \<^verbatim>\<open>Task::detach\<close> gives the context to the frame that awaits the task.\<close>

definition task_block :: "unit coro_ctx \<Rightarrow> event list \<Rightarrow> 'v task \<Rightarrow> 'v machine option" where
  "task_block fresh es t =
     map_option (\<lambda>t1. block_start (tk_body t1) (tk_ctx t1) fresh es) (if has_ctx t then Some t else task_by True 1 fresh t)"

definition task_detach :: "bool \<Rightarrow> nat \<Rightarrow> unit coro_ctx \<Rightarrow> event list \<Rightarrow> 'v task \<Rightarrow> 'v machine option" where
  "task_detach debug owners c es t =
     (if debug \<and> owners \<noteq> 1 then None
      else Some ((detach_start (tk_body t) c es)\<lparr>mc_frames :=
        [0 \<mapsto> new_frame KDetach (AwaitTask (tk_ctx t) (tk_body t) (\<lambda>r. case r of Val v \<Rightarrow> Ret v | Exc e \<Rightarrow> Raise e)) (Some c)]\<rparr>))"

text \<open>A task with a context attached is blocked on with that one, and the last one attached counts.\<close>

lemma block_by:
  assumes "task_by debug n c1 t = Some t1" "task_by debug k c2 t1 = Some t2"
  shows "task_block fresh es t2 = Some (block_start (tk_body t) (Some c2) fresh es)"
  using assms by (auto simp: task_by_def task_block_def has_ctx_def split: if_splits)

text \<open>Blocking on a task without a context never aborts, and is blocking with a fresh context attached.\<close>

lemma block_default:
  "tk_ctx t = None \<Longrightarrow> task_block fresh es t = Some (block_start (tk_body t) (Some fresh) fresh es)"
  by (simp add: task_block_def has_ctx_def task_by_def)

text \<open>A detached task that has a context of its own runs in it, one without runs in the context of \<^verbatim>\<open>detach\<close>.\<close>

lemma detach_context:
  assumes "task_detach debug n c es t = Some m0" "run_frame 0 [] m0 = Some m"
  shows "\<exists>x. mc_frames m 1 = Some x \<and> fr_code x = Run (tk_body t) \<and> fr_ctx x = Some (case tk_ctx t of None \<Rightarrow> c | Some y \<Rightarrow> y)"
  using assms
  by (auto simp: task_detach_def detach_start_def run_frame_def new_frame_def await_task_def alloc_def next_of_def set_code_def Let_def
      split: option.split if_splits)

end
