(* ===== verification/Io_Context.thy ===== *)
theory Io_Context
  imports Coro_Signal "HOL-Library.Word"
begin

text \<open>
  The event loop: \<^verbatim>\<open>IOContext\<close> and its event masks (\<^verbatim>\<open>include/xsl/sys/io/context/epoll.h\<close>,
  \<^verbatim>\<open>src/sys/io/context/epoll.cpp\<close>), the keyed signal storage (\<^verbatim>\<open>include/xsl/coro/pub_sub.h\<close>) and the device
  wrapper that connects them (\<^verbatim>\<open>DefaultEpollWrapper\<close>, \<^verbatim>\<open>init_async_device\<close> in \<^verbatim>\<open>include/xsl/asio/io.h\<close>).
  A device owns one signal per event key; the coroutines that read and write await these signals.  The
  handler table maps file descriptors to devices; the kernel's interest list is kept beside it and the
  results of \<^verbatim>\<open>epoll_pwait\<close> are an argument.  Signals are the \<^verbatim>\<open>MPSCSignal\<close> of theory \<^verbatim>\<open>Coro_Signal\<close>, each call
  run to completion; a call returns the handles it resumes.  Some coroutines run in the cancellation domain of the
  poller (\<^verbatim>\<open>asio_ctx\<close>): a stop request releases the signals they wait for, through the callback that
  \<^verbatim>\<open>AwaiterWrapper\<close> (\<^verbatim>\<open>include/xsl/coro/core/task.h\<close>) has registered.  The theorems show which signals an event
  releases and that a shutdown resumes everybody; a run shows that until then a hang-up strands a reader.
\<close>

unbundle bit_operations_syntax

section \<open>Event masks\<close>

type_synonym events = "32 word"

definition EV_NONE :: events where "EV_NONE = 0"
definition EV_IN :: events where "EV_IN = 0x001"
definition EV_PRI :: events where "EV_PRI = 0x002"
definition EV_OUT :: events where "EV_OUT = 0x004"
definition EV_ERR :: events where "EV_ERR = 0x008"
definition EV_HUP :: events where "EV_HUP = 0x010"
definition EV_ET :: events where "EV_ET = 0x80000000"

definition ev_or :: "events \<Rightarrow> events \<Rightarrow> events" where "ev_or a b = a OR b"
definition ev_and :: "events \<Rightarrow> events \<Rightarrow> events" where "ev_and a b = a AND b"
definition ev_compl :: "events \<Rightarrow> events" where "ev_compl a = NOT a"
definition ev_empty :: "events \<Rightarrow> bool" where "ev_empty a \<longleftrightarrow> a = EV_NONE"

datatype hint = HintNone | HintModify | HintDelete

fun hint_text :: "hint \<Rightarrow> string" where
  "hint_text HintNone = ''NONE''"
| "hint_text HintModify = ''MODIFY''"
| "hint_text HintDelete = ''DELETE''"

definition poll_check :: "events \<Rightarrow> hint" where
  "poll_check ev = (if ev_empty ev \<or> \<not> ev_empty (ev_and ev EV_HUP) then HintDelete else HintNone)"

section \<open>Keyed signals\<close>

text \<open>\<^verbatim>\<open>StaticExactPubSubStorage\<close>: the keys with their signals.\<close>

type_synonym 'h pub_sub = "(events \<times> 'h signal) list"

definition pub_sub_new :: "events list \<Rightarrow> 'h pub_sub" where
  "pub_sub_new ks = map (\<lambda>k. (k, signal_new)) ks"

fun woken :: "'h sig_out \<Rightarrow> 'h list" where
  "woken (Woke (Some h)) = [h]"
| "woken _ = []"

text \<open>\<^verbatim>\<open>for_each\<close> with a function that changes the signal and resumes handles.\<close>

fun ps_for_each :: "(events \<Rightarrow> 'h signal \<Rightarrow> 'h list \<times> 'h signal) \<Rightarrow> 'h pub_sub \<Rightarrow> 'h list \<times> 'h pub_sub" where
  "ps_for_each f [] = ([], [])"
| "ps_for_each f ((k, s) # ps) =
     (let (w, s') = f k s; (ws, ps') = ps_for_each f ps in (w @ ws, (k, s') # ps'))"

definition release_signal :: "'h signal \<Rightarrow> 'h list \<times> 'h signal" where
  "release_signal s = (let (r, s') = ms_release s in (woken r, s'))"

definition stop_signal :: "'h signal \<Rightarrow> 'h list \<times> 'h signal" where
  "stop_signal s = (let (r, s') = ms_stop s in (woken r, s'))"

text \<open>\<^verbatim>\<open>publish(pred)\<close>: whether a key matched, the handles resumed and the storage.\<close>

definition publish :: "(events \<Rightarrow> bool) \<Rightarrow> 'h pub_sub \<Rightarrow> bool \<times> 'h list \<times> 'h pub_sub" where
  "publish pred ps =
     (let (ws, ps') = ps_for_each (\<lambda>k s. if pred k then release_signal s else ([], s)) ps
      in (\<exists>k\<in>fst ` set ps. pred k, ws, ps'))"

text \<open>\<^verbatim>\<open>publish<key>\<close>: the first signal with the key.\<close>

fun publish_key :: "events \<Rightarrow> 'h pub_sub \<Rightarrow> bool \<times> 'h list \<times> 'h pub_sub" where
  "publish_key key [] = (False, [], [])"
| "publish_key key ((k, s) # ps) =
     (if k = key then (let (w, s') = release_signal s in (True, w, (k, s') # ps))
      else (let (b, ws, ps') = publish_key key ps in (b, ws, (k, s) # ps')))"

definition ps_stop :: "'h pub_sub \<Rightarrow> 'h list \<times> 'h pub_sub" where
  "ps_stop ps = ps_for_each (\<lambda>k s. stop_signal s) ps"

section \<open>Devices and the context\<close>

record 'h device =
  dv_raw :: nat
  dv_signals :: "'h pub_sub"
  dv_bound :: bool

text \<open>\<open>ic_domain\<close> tells which coroutines run in a context bound to this poller; the callbacks of those that are suspended
  are found through \<open>ic_names\<close>, the devices that were set up.\<close>

record 'h io_sys =
  ic_domain :: "'h \<Rightarrow> bool"
  ic_names :: "nat list"
  ic_open :: bool
  ic_stopped :: bool
  ic_cancelled :: bool
  ic_handlers :: "(nat \<times> nat) list"
  ic_interest :: "nat \<Rightarrow> events option"
  ic_devices :: "nat \<Rightarrow> 'h device option"

definition io_context_new :: "'h io_sys" where
  "io_context_new = \<lparr>ic_domain = (\<lambda>_. True), ic_names = [], ic_open = True, ic_stopped = False, ic_cancelled = False, ic_handlers = [],
     ic_interest = Map.empty, ic_devices = Map.empty\<rparr>"

definition set_signals :: "nat \<Rightarrow> 'h pub_sub \<Rightarrow> 'h io_sys \<Rightarrow> 'h io_sys" where
  "set_signals d ps c = c\<lparr>ic_devices := (ic_devices c)(d := map_option (\<lambda>x. x\<lparr>dv_signals := ps\<rparr>) (ic_devices c d))\<rparr>"

text \<open>\<^verbatim>\<open>insert_or_assign\<close> and \<^verbatim>\<open>erase\<close> on the handler table.\<close>

definition table_put :: "nat \<Rightarrow> nat \<Rightarrow> (nat \<times> nat) list \<Rightarrow> (nat \<times> nat) list" where
  "table_put fd d t = (fd, d) # filter (\<lambda>e. fst e \<noteq> fd) t"

definition table_erase :: "nat \<Rightarrow> (nat \<times> nat) list \<Rightarrow> (nat \<times> nat) list" where
  "table_erase fd t = filter (\<lambda>e. fst e \<noteq> fd) t"

text \<open>\<^verbatim>\<open>IOContext::add\<close>: \<^verbatim>\<open>EPOLL_CTL_ADD\<close> fails on a closed context and on a descriptor in the interest list.\<close>

datatype io_err = EBADF | EEXIST

definition ic_add :: "nat \<Rightarrow> events \<Rightarrow> nat \<Rightarrow> 'h io_sys \<Rightarrow> io_err option \<times> 'h io_sys" where
  "ic_add fd ev d c =
     (if \<not> ic_open c then (Some EBADF, c)
      else if ic_interest c fd \<noteq> None then (Some EEXIST, c)
      else (None, c\<lparr>ic_interest := (ic_interest c)(fd \<mapsto> ev), ic_handlers := table_put fd d (ic_handlers c)\<rparr>))"

definition ic_remove :: "nat \<Rightarrow> 'h io_sys \<Rightarrow> 'h io_sys" where
  "ic_remove fd c = c\<lparr>ic_interest := (ic_interest c)(fd := None), ic_handlers := table_erase fd (ic_handlers c)\<rparr>"

text \<open>A function on some devices in turn; it returns the handles it resumes.\<close>

fun each_device :: "('h device \<Rightarrow> 'h list \<times> 'h device) \<Rightarrow> nat list \<Rightarrow> 'h io_sys \<Rightarrow> 'h list \<times> 'h io_sys" where
  "each_device f [] c = ([], c)"
| "each_device f (d # ds) c =
     (let (w, c1) = (case ic_devices c d of
            None \<Rightarrow> ([], c)
          | Some x \<Rightarrow> (let (w, x') = f x in (w, c\<lparr>ic_devices := (ic_devices c)(d \<mapsto> x')\<rparr>)));
          (ws, c2) = each_device f ds c1
      in (w @ ws, c2))"

text \<open>The callbacks of a stop request: the signals at which a coroutine of the domain is suspended are released.\<close>

definition waits_in :: "('h \<Rightarrow> bool) \<Rightarrow> 'h signal \<Rightarrow> bool" where
  "waits_in mine s \<longleftrightarrow> state s = WAITING \<and> (case handle s of None \<Rightarrow> False | Some h \<Rightarrow> mine h)"

definition release_domain :: "('h \<Rightarrow> bool) \<Rightarrow> 'h device \<Rightarrow> 'h list \<times> 'h device" where
  "release_domain mine x =
     (let (ws, ps) = ps_for_each (\<lambda>k s. if waits_in mine s then release_signal s else ([], s)) (dv_signals x)
      in (ws, x\<lparr>dv_signals := ps\<rparr>))"

definition cancel_contexts :: "'h io_sys \<Rightarrow> 'h list \<times> 'h io_sys" where
  "cancel_contexts c = each_device (release_domain (ic_domain c)) (ic_names c) (c\<lparr>ic_cancelled := True\<rparr>)"

text \<open>\<^verbatim>\<open>DefaultEpollWrapper\<close>: events are published to the keys they contain; nothing or a hang-up deletes.\<close>

definition epoll_handle :: "events \<Rightarrow> 'h device \<Rightarrow> hint \<times> 'h list \<times> 'h device" where
  "epoll_handle ev d =
     (if ev_empty ev \<or> \<not> ev_empty (ev_and ev EV_HUP) then (HintDelete, [], d)
      else (let (_, ws, ps) = publish (\<lambda>e. \<not> ev_empty (ev_and ev e)) (dv_signals d) in (HintNone, ws, d\<lparr>dv_signals := ps\<rparr>)))"

definition shutdown_notify :: "'h device \<Rightarrow> 'h list \<times> 'h device" where
  "shutdown_notify d = (let (ws, ps) = ps_stop (dv_signals d) in (ws, d\<lparr>dv_signals := ps\<rparr>))"

definition dv_stopped :: "'h device \<Rightarrow> 'h io_sys \<Rightarrow> bool" where
  "dv_stopped d c \<longleftrightarrow> dv_bound d \<and> ic_stopped c"

definition deregister :: "nat \<Rightarrow> 'h io_sys \<Rightarrow> 'h io_sys" where
  "deregister d c =
     (case ic_devices c d of
        None \<Rightarrow> c
      | Some x \<Rightarrow>
          if \<not> dv_bound x then c
          else (ic_remove (dv_raw x) c)\<lparr>ic_devices := (ic_devices c)(d \<mapsto> x\<lparr>dv_bound := False\<rparr>)\<rparr>)"

definition interest_of :: "events list \<Rightarrow> events" where
  "interest_of ks = fold (\<lambda>k e. ev_or e k) ks EV_ET"

text \<open>\<^verbatim>\<open>init_async_device\<close>: new signals, bound to the context, then registered.\<close>

definition init_async_device :: "nat \<Rightarrow> nat \<Rightarrow> events list \<Rightarrow> 'h io_sys \<Rightarrow> io_err option \<times> 'h io_sys" where
  "init_async_device d fd ks c =
     (let x = \<lparr>dv_raw = fd, dv_signals = pub_sub_new ks, dv_bound = True\<rparr>
      in ic_add fd (interest_of ks) d (c\<lparr>ic_names := d # ic_names c, ic_devices := (ic_devices c)(d \<mapsto> x)\<rparr>))"

text \<open>\<^verbatim>\<open>PollForCoro\<close> with a test of the events, and \<^verbatim>\<open>add_to_context\<close>, which registers a device without binding it.\<close>

definition poll_for_coro :: "(events \<Rightarrow> hint) \<Rightarrow> events \<Rightarrow> 'h device \<Rightarrow> hint \<times> 'h list \<times> 'h device" where
  "poll_for_coro check ev d =
     (if check ev = HintDelete then (HintDelete, [], d)
      else (let (_, ws, ps) = publish (\<lambda>e. \<not> ev_empty (ev_and ev e)) (dv_signals d) in (HintNone, ws, d\<lparr>dv_signals := ps\<rparr>)))"

definition add_to_context :: "nat \<Rightarrow> 'h io_sys \<Rightarrow> io_err option \<times> 'h io_sys" where
  "add_to_context d c =
     (case ic_devices c d of
        None \<Rightarrow> (None, c)
      | Some x \<Rightarrow> ic_add (dv_raw x) (interest_of (map fst (dv_signals x))) d c)"

section \<open>The loop\<close>

text \<open>The body of \<^verbatim>\<open>run\<close> for one event, for the events of one \<^verbatim>\<open>epoll_pwait\<close>, and the loop over a list of results.\<close>

definition poll_one :: "nat \<times> events \<Rightarrow> 'h io_sys \<Rightarrow> 'h list \<times> 'h io_sys" where
  "poll_one ev c =
     (case map_of (ic_handlers c) (fst ev) of
        None \<Rightarrow> ([], c)
      | Some d \<Rightarrow>
          (case ic_devices c d of
             None \<Rightarrow> ([], c)
           | Some x \<Rightarrow>
               (case epoll_handle (snd ev) x of
                  (hint, ws, x') \<Rightarrow>
                    (let c' = c\<lparr>ic_devices := (ic_devices c)(d \<mapsto> x')\<rparr>
                     in (ws, if hint = HintDelete then ic_remove (fst ev) c' else c')))))"

fun poll_batch :: "(nat \<times> events) list \<Rightarrow> 'h io_sys \<Rightarrow> 'h list \<times> 'h io_sys" where
  "poll_batch [] c = ([], c)"
| "poll_batch (e # es) c = (let (w, c1) = poll_one e c; (ws, c2) = poll_batch es c1 in (w @ ws, c2))"

fun ic_run :: "(nat \<times> events) list option list \<Rightarrow> 'h io_sys \<Rightarrow> 'h list \<times> 'h io_sys" where
  "ic_run [] c = ([], c)"
| "ic_run (b # bs) c =
     (if \<not> ic_open c then ([], c)
      else (case b of
              None \<Rightarrow> ic_run bs c
            | Some es \<Rightarrow> (let (w, c1) = poll_batch es c; (ws, c2) = ic_run bs c1 in (w @ ws, c2))))"

definition notify_all :: "(nat \<times> nat) list \<Rightarrow> 'h io_sys \<Rightarrow> 'h list \<times> 'h io_sys" where
  "notify_all t c = each_device shutdown_notify (map snd t) c"

text \<open>\<^verbatim>\<open>shutdown\<close>: the stop request, then the handlers of the table.\<close>

definition ic_shutdown :: "'h io_sys \<Rightarrow> 'h list \<times> 'h io_sys" where
  "ic_shutdown c =
     (if \<not> ic_open c then ([], c)
      else (let (ws, c1) = cancel_contexts (c\<lparr>ic_stopped := True\<rparr>); (ws', c2) = notify_all (ic_handlers c) c1
            in (ws @ ws', c2\<lparr>ic_handlers := [], ic_interest := Map.empty, ic_open := False\<rparr>)))"

text \<open>A coroutine awaits the signal of a key of its device.  After a stop request a coroutine of the domain does not suspend
  and gets false.\<close>

definition cancelled_await :: "'h signal \<Rightarrow> 'h sig_out \<times> 'h signal" where
  "cancelled_await s = (Returned False, snd (ms_await_ready s))"

fun ps_await :: "bool \<Rightarrow> events \<Rightarrow> 'h \<Rightarrow> 'h pub_sub \<Rightarrow> 'h sig_out \<times> 'h pub_sub" where
  "ps_await stop key h [] = (Quiet, [])"
| "ps_await stop key h ((k, s) # ps) =
     (if k = key then (let (r, s') = (if stop then cancelled_await s else ms_exec s (Await h)) in (r, (k, s') # ps))
      else (let (r, ps') = ps_await stop key h ps in (r, (k, s) # ps')))"

definition dv_await :: "nat \<Rightarrow> events \<Rightarrow> 'h \<Rightarrow> 'h io_sys \<Rightarrow> 'h sig_out \<times> 'h io_sys" where
  "dv_await d key h c =
     (case ic_devices c d of
        None \<Rightarrow> (Quiet, c)
      | Some x \<Rightarrow>
          (let (r, ps) = ps_await (ic_cancelled c \<and> ic_domain c h) key h (dv_signals x) in (r, set_signals d ps c)))"

section \<open>Runs\<close>

text \<open>Devices are set up, awaited, polled and deregistered, the contexts of the domain are cancelled, and the poller is shut
  down, in any order; a device whose registration failed is dropped by its creator.\<close>

datatype 'h io_op = Init nat nat "events list" | Wait nat events 'h | Poll "(nat \<times> events) list" | Dereg nat | Cancel | Shutdown

fun io_exec :: "'h io_op \<Rightarrow> 'h io_sys \<Rightarrow> 'h io_sys" where
  "io_exec (Init d fd ks) c =
     (if ic_devices c d \<noteq> None then c
      else case init_async_device d fd ks c of (None, c') \<Rightarrow> c' | (Some _, _) \<Rightarrow> c)"
| "io_exec (Wait d k h) c = snd (dv_await d k h c)"
| "io_exec (Poll es) c = (if ic_open c then snd (poll_batch es c) else c)"
| "io_exec (Dereg d) c = deregister d c"
| "io_exec Cancel c = snd (cancel_contexts c)"
| "io_exec Shutdown c = snd (ic_shutdown c)"

text \<open>The coroutine that waits at a signal of a device.\<close>

definition waits_at :: "'h \<Rightarrow> nat \<Rightarrow> 'h io_sys \<Rightarrow> bool" where
  "waits_at h d c \<longleftrightarrow>
     (case ic_devices c d of None \<Rightarrow> False | Some x \<Rightarrow> list_ex (\<lambda>(k, s). state s = WAITING \<and> handle s = Some h) (dv_signals x))"

section \<open>What an event does\<close>

text \<open>With the default test the two handlers of the library do the same.\<close>

lemma poll_for_coro_default: "poll_for_coro poll_check = epoll_handle"
  by (simp add: fun_eq_iff poll_for_coro_def epoll_handle_def poll_check_def)

lemma ps_for_each_map:
  "ps_for_each f ps = (concat (map (\<lambda>e. fst (f (fst e) (snd e))) ps), map (\<lambda>e. (fst e, snd (f (fst e) (snd e)))) ps)"
  by (induction f ps rule: ps_for_each.induct) (auto split: prod.splits)

text \<open>An event of a registered descriptor releases exactly the signals whose key it contains and nothing else changes.\<close>

lemma poll_one_exact:
  assumes "map_of (ic_handlers c) fd = Some d" "ic_devices c d = Some x" "ev \<noteq> 0" "ev AND EV_HUP = 0"
  shows "poll_one (fd, ev) c =
    (concat (map (\<lambda>e. if ev AND fst e \<noteq> 0 then fst (release_signal (snd e)) else []) (dv_signals x)),
     c\<lparr>ic_devices := (ic_devices c)(d \<mapsto> x\<lparr>dv_signals :=
        map (\<lambda>e. (fst e, if ev AND fst e \<noteq> 0 then snd (release_signal (snd e)) else snd e)) (dv_signals x)\<rparr>)\<rparr>)"
proof -
  let ?f = "\<lambda>k s. if ev AND k \<noteq> 0 then release_signal s else ([], s)"
  have "publish (\<lambda>e. \<not> ev_empty (ev_and ev e)) (dv_signals x) =
    ((\<exists>k\<in>fst ` set (dv_signals x). ev AND k \<noteq> 0),
     concat (map (\<lambda>e. fst (?f (fst e) (snd e))) (dv_signals x)), map (\<lambda>e. (fst e, snd (?f (fst e) (snd e)))) (dv_signals x))"
    by (simp add: publish_def ev_empty_def ev_and_def EV_NONE_def ps_for_each_map)
  then show ?thesis
    using assms by (simp add: poll_one_def epoll_handle_def ev_empty_def ev_and_def EV_NONE_def if_distrib [of fst] if_distrib [of snd]
        cong: if_cong)
qed

section \<open>Shutdown\<close>

lemma shutdown_notify_eq:
  "shutdown_notify x = (concat (map (\<lambda>e. fst (stop_signal (snd e))) (dv_signals x)),
     x\<lparr>dv_signals := map (\<lambda>e. (fst e, snd (stop_signal (snd e)))) (dv_signals x)\<rparr>)"
  by (simp add: shutdown_notify_def ps_stop_def ps_for_each_map)

lemma release_domain_eq:
  "release_domain mine x = (concat (map (\<lambda>e. if waits_in mine (snd e) then fst (release_signal (snd e)) else []) (dv_signals x)),
     x\<lparr>dv_signals := map (\<lambda>e. (fst e, if waits_in mine (snd e) then snd (release_signal (snd e)) else snd e)) (dv_signals x)\<rparr>)"
  by (simp add: release_domain_def ps_for_each_map if_distrib [of fst] if_distrib [of snd] cong: if_cong)

lemma stop_signal_eq:
  "fst (stop_signal s) = (if state s = WAITING then (case handle s of None \<Rightarrow> [] | Some h \<Rightarrow> [h]) else [])"
  "snd (stop_signal s) = s\<lparr>state := STOPPED\<rparr>"
  by (cases "state s"; simp add: stop_signal_def ms_stop_def exchange_def Let_def split: option.split)+

lemma release_signal_eq:
  "fst (release_signal s) = (if state s = WAITING then (case handle s of None \<Rightarrow> [] | Some h \<Rightarrow> [h]) else [])"
  "state (snd (release_signal s)) \<noteq> WAITING"
  by (cases "state s"; simp add: release_signal_def ms_release_def exchange_def Let_def split: option.split)+

lemma release_waiting_idem:
  "waits_in mine s \<Longrightarrow> \<not> waits_in mine (snd (release_signal s))"
  by (simp add: waits_in_def release_signal_eq)

text \<open>Going over devices with a function that has no effect the second time.\<close>

lemma each_device_spec:
  assumes idem: "\<And>x. snd (f (snd (f x))) = snd (f x)"
  shows "ic_devices (snd (each_device f ds c)) d =
     (if d \<in> set ds then map_option (\<lambda>x. snd (f x)) (ic_devices c d) else ic_devices c d)"
proof (induction ds arbitrary: c)
  case (Cons d0 ds)
  define c1 where "c1 = (case ic_devices c d0 of None \<Rightarrow> c | Some x \<Rightarrow> c\<lparr>ic_devices := (ic_devices c)(d0 \<mapsto> snd (f x))\<rparr>)"
  have n: "snd (each_device f (d0 # ds) c) = snd (each_device f ds c1)"
    by (auto simp: c1_def Let_def case_prod_beta split: option.split)
  have c1: "ic_devices c1 d = (if d = d0 then map_option (\<lambda>x. snd (f x)) (ic_devices c d) else ic_devices c d)"
    by (auto simp: c1_def split: option.split)
  show ?case unfolding n using Cons.IH [of c1] c1 by (auto simp: option.map_comp comp_def idem)
qed simp

lemma each_device_frame [simp]:
  "ic_open (snd (each_device f ds c)) = ic_open c" "ic_domain (snd (each_device f ds c)) = ic_domain c"
  "ic_cancelled (snd (each_device f ds c)) = ic_cancelled c" "ic_handlers (snd (each_device f ds c)) = ic_handlers c"
  "ic_names (snd (each_device f ds c)) = ic_names c" "ic_interest (snd (each_device f ds c)) = ic_interest c"
  "ic_stopped (snd (each_device f ds c)) = ic_stopped c"
  by (induction ds arbitrary: c) (simp_all add: Let_def case_prod_beta split: option.splits)

lemma each_device_wakes:
  "d \<in> set ds \<Longrightarrow> ic_devices c d = Some x \<Longrightarrow> set (fst (f x)) \<subseteq> set (fst (each_device f ds c))"
proof (induction ds arbitrary: c)
  case (Cons d0 ds)
  show ?case
  proof (cases "d0 = d")
    case True
    then show ?thesis using Cons.prems by (auto simp: Let_def case_prod_beta)
  next
    case False
    define c1 where "c1 = (case ic_devices c d0 of None \<Rightarrow> c | Some x \<Rightarrow> c\<lparr>ic_devices := (ic_devices c)(d0 \<mapsto> snd (f x))\<rparr>)"
    have "ic_devices c1 d = Some x" using False Cons.prems(2) by (auto simp: c1_def split: option.split)
    then have "set (fst (f x)) \<subseteq> set (fst (each_device f ds c1))" using Cons.IH Cons.prems(1) False by auto
    then show ?thesis by (auto simp: c1_def Let_def case_prod_beta split: option.splits)
  qed
qed simp

lemma notify_idem: "snd (shutdown_notify (snd (shutdown_notify x))) = snd (shutdown_notify x)"
  by (simp add: shutdown_notify_eq stop_signal_eq)

lemma release_idem: "snd (release_domain mine (snd (release_domain mine x))) = snd (release_domain mine x)"
  by (auto simp: release_domain_eq release_waiting_idem)

section \<open>What every run keeps\<close>

text \<open>The names of all devices are known, and once the domain is cancelled none of its coroutines is suspended.\<close>

definition nobody_waits :: "'h io_sys \<Rightarrow> bool" where
  "nobody_waits c \<longleftrightarrow> (\<forall>d x. ic_devices c d = Some x \<longrightarrow> list_all (\<lambda>(k, s). \<not> waits_in (ic_domain c) s) (dv_signals x))"

definition run_inv :: "'h io_sys \<Rightarrow> bool" where
  "run_inv c \<longleftrightarrow> (\<forall>d. ic_devices c d \<noteq> None \<longrightarrow> d \<in> set (ic_names c)) \<and> (ic_cancelled c \<longrightarrow> nobody_waits c)"

lemma run_inv_new: "run_inv (io_context_new\<lparr>ic_domain := mine\<rparr>)"
  by (simp add: run_inv_def io_context_new_def nobody_waits_def)

lemma run_inv_update:
  assumes "run_inv c" "ic_domain c' = ic_domain c" "ic_cancelled c' = ic_cancelled c" "ic_names c' = ic_names c"
    and "ic_devices c' = (ic_devices c)(d \<mapsto> x)" "ic_devices c d \<noteq> None \<or> d \<in> set (ic_names c')"
    and "ic_cancelled c \<Longrightarrow> list_all (\<lambda>(k, s). \<not> waits_in (ic_domain c) s) (dv_signals x)"
  shows "run_inv c'"
  using assms unfolding run_inv_def nobody_waits_def by (auto split: if_splits)

lemma init_run_inv: "run_inv c \<Longrightarrow> run_inv (io_exec (Init d fd ks) c)"
proof -
  assume c: "run_inv c"
  have "list_all (\<lambda>(k, s). \<not> waits_in mine s) (pub_sub_new ks)" for mine :: "'a \<Rightarrow> bool"
    by (simp add: pub_sub_new_def list_all_iff waits_in_def signal_new_def)
  then show ?thesis using c
    by (auto simp: init_async_device_def ic_add_def Let_def run_inv_def nobody_waits_def split: if_splits)
qed

lemma await_keeps_quiet:
  assumes "list_all (\<lambda>(k, s). \<not> waits_in mine s) ps"
  shows "list_all (\<lambda>(k, s). \<not> waits_in mine s) (snd (ps_await (mine h) key h ps))"
proof -
  have stop: "\<not> waits_in mine (snd (ms_await_ready s))" if "\<not> waits_in mine s" for s
    using that by (auto simp: waits_in_def ms_await_ready_def)
  have go: "\<not> waits_in mine (snd (ms_exec s (Await h)))" if "\<not> waits_in mine s" "\<not> mine h" for s
    using that
    by (cases "state s") (auto simp: waits_in_def ms_exec_def co_await_def ms_await_ready_def ms_await_suspend_def exchange_def Let_def
        split: if_splits option.splits)
  show ?thesis using assms
    by (induction ps) (auto simp: stop go cancelled_await_def Let_def case_prod_beta)
qed

lemma await_run_inv: "run_inv c \<Longrightarrow> run_inv (io_exec (Wait d k h) c)"
proof (cases "ic_devices c d")
  case (Some x)
  assume c: "run_inv c"
  show ?thesis
  proof (rule run_inv_update [OF c])
    let ?ps = "snd (ps_await (ic_cancelled c \<and> ic_domain c h) k h (dv_signals x))"
    show "ic_devices (io_exec (Wait d k h) c) = (ic_devices c)(d \<mapsto> x\<lparr>dv_signals := ?ps\<rparr>)"
      using Some by (simp add: dv_await_def set_signals_def Let_def case_prod_beta)
    show "list_all (\<lambda>(k, s). \<not> waits_in (ic_domain c) s) (dv_signals (x\<lparr>dv_signals := ?ps\<rparr>))" if "ic_cancelled c"
      using await_keeps_quiet [of "ic_domain c" "dv_signals x" h k] c Some that by (simp add: run_inv_def nobody_waits_def)
  qed (use Some in \<open>simp_all add: dv_await_def set_signals_def Let_def case_prod_beta\<close>)
qed (simp add: dv_await_def)

lemma poll_one_run_inv: "run_inv c \<Longrightarrow> run_inv (snd (poll_one e c))"
proof -
  assume c: "run_inv c"
  show ?thesis
  proof (cases "map_of (ic_handlers c) (fst e)")
    case (Some d)
    show ?thesis
    proof (cases "ic_devices c d")
      case (Some x)
      let ?x = "snd (snd (epoll_handle (snd e) x))"
      have q: "list_all (\<lambda>(k, s). \<not> waits_in mine s) (dv_signals ?x)" if "list_all (\<lambda>(k, s). \<not> waits_in mine s) (dv_signals x)" for mine
        using that by (auto simp: epoll_handle_def publish_def ps_for_each_map list_all_iff waits_in_def release_signal_eq Let_def)
      show ?thesis
        by (rule run_inv_update [OF c, of _ d ?x])
          (use Some \<open>map_of (ic_handlers c) (fst e) = Some d\<close> c q in
            \<open>auto simp: poll_one_def ic_remove_def run_inv_def nobody_waits_def Let_def case_prod_beta\<close>)
    qed (use Some c in \<open>simp add: poll_one_def\<close>)
  qed (use c in \<open>simp add: poll_one_def\<close>)
qed

lemma poll_run_inv: "run_inv c \<Longrightarrow> run_inv (snd (poll_batch es c))"
  by (induction es arbitrary: c) (auto simp: Let_def case_prod_beta poll_one_run_inv)

lemma deregister_run_inv: "run_inv c \<Longrightarrow> run_inv (deregister d c)"
  by (cases "ic_devices c d") (auto simp: deregister_def ic_remove_def run_inv_def nobody_waits_def)

lemma cancel_devices:
  assumes "run_inv c"
  shows "ic_devices (snd (cancel_contexts c)) d = map_option (\<lambda>x. snd (release_domain (ic_domain c) x)) (ic_devices c d)"
  using each_device_spec [of "release_domain (ic_domain c)" "ic_names c" "c\<lparr>ic_cancelled := True\<rparr>" d, OF release_idem] assms
  by (cases "ic_devices c d") (auto simp: cancel_contexts_def run_inv_def)

lemma cancel_frame [simp]:
  "ic_domain (snd (cancel_contexts c)) = ic_domain c" "ic_cancelled (snd (cancel_contexts c))"
  "ic_names (snd (cancel_contexts c)) = ic_names c" "ic_open (snd (cancel_contexts c)) = ic_open c"
  "ic_handlers (snd (cancel_contexts c)) = ic_handlers c" "ic_interest (snd (cancel_contexts c)) = ic_interest c"
  by (simp_all add: cancel_contexts_def)

lemma release_quiet: "list_all (\<lambda>(k, s). \<not> waits_in mine s) (dv_signals (snd (release_domain mine x)))"
  by (auto simp: release_domain_eq list_all_iff release_waiting_idem)

lemma cancel_run_inv: "run_inv c \<Longrightarrow> run_inv (snd (cancel_contexts c))"
proof -
  assume c: "run_inv c"
  have "ic_devices (snd (cancel_contexts c)) d \<noteq> None \<Longrightarrow> d \<in> set (ic_names c)" for d
    using c by (auto simp: cancel_devices [OF c] run_inv_def)
  moreover have "nobody_waits (snd (cancel_contexts c))"
    using release_quiet by (auto simp: nobody_waits_def cancel_devices [OF c])
  ultimately show ?thesis by (simp add: run_inv_def)
qed

lemma notify_devices:
  "ic_devices (snd (notify_all t c)) d =
     (if d \<in> snd ` set t then map_option (\<lambda>x. snd (shutdown_notify x)) (ic_devices c d) else ic_devices c d)"
  using each_device_spec [of shutdown_notify "map snd t" c d, OF notify_idem] by (simp add: notify_all_def)

lemma notify_frame [simp]:
  "ic_domain (snd (notify_all t c)) = ic_domain c" "ic_cancelled (snd (notify_all t c)) = ic_cancelled c"
  "ic_names (snd (notify_all t c)) = ic_names c" "ic_open (snd (notify_all t c)) = ic_open c"
  by (simp_all add: notify_all_def)

lemma notify_quiet: "list_all (\<lambda>(k, s). \<not> waits_in mine s) (dv_signals (snd (shutdown_notify x)))"
  by (auto simp: shutdown_notify_eq stop_signal_eq list_all_iff waits_in_def)

lemma run_inv_stopped [simp]: "run_inv (c\<lparr>ic_stopped := b\<rparr>) = run_inv c"
  by (simp add: run_inv_def nobody_waits_def)

lemma shutdown_eq:
  "ic_open c \<Longrightarrow> snd (ic_shutdown c) =
     (snd (notify_all (ic_handlers c) (snd (cancel_contexts (c\<lparr>ic_stopped := True\<rparr>)))))\<lparr>ic_handlers := [], ic_interest := Map.empty, ic_open := False\<rparr>"
  by (simp add: ic_shutdown_def Let_def case_prod_beta)

lemma shutdown_run_inv: "run_inv c \<Longrightarrow> run_inv (snd (ic_shutdown c))"
proof (cases "ic_open c")
  case True
  assume c: "run_inv c"
  let ?c = "c\<lparr>ic_stopped := True\<rparr>"
  have k: "run_inv (snd (cancel_contexts ?c))" using c by (intro cancel_run_inv) simp
  then have "nobody_waits (snd (notify_all (ic_handlers c) (snd (cancel_contexts ?c))))"
    using notify_quiet by (auto simp: nobody_waits_def notify_devices run_inv_def split: if_splits)
  moreover have "ic_devices (snd (notify_all (ic_handlers c) (snd (cancel_contexts ?c)))) d \<noteq> None \<Longrightarrow> d \<in> set (ic_names c)" for d
    using k by (auto simp: notify_devices run_inv_def split: if_splits)
  ultimately show ?thesis unfolding shutdown_eq [OF True] by (simp add: run_inv_def nobody_waits_def)
qed (simp add: ic_shutdown_def)

lemma io_exec_run_inv: "run_inv c \<Longrightarrow> run_inv (io_exec p c)"
  by (cases p) (simp_all del: io_exec.simps(1,2) add: init_run_inv await_run_inv poll_run_inv deregister_run_inv cancel_run_inv shutdown_run_inv)

lemma io_runs_inv: "run_inv c \<Longrightarrow> run_inv (fold io_exec ops c)"
  by (induction ops arbitrary: c) (auto intro: io_exec_run_inv)

section \<open>Nobody is left behind\<close>

lemma waits_at_Some: "waits_at h d c \<longleftrightarrow> (\<exists>x k s. ic_devices c d = Some x \<and> (k, s) \<in> set (dv_signals x) \<and> state s = WAITING \<and> handle s = Some h)"
  by (auto simp: waits_at_def list_ex_iff split: option.split)

text \<open>A shutdown resumes the coroutines of the domain through their callbacks, and everybody else who waits at a device of
  the table through the handlers.\<close>

lemma shutdown_resumes:
  assumes c: "run_inv c" and o: "ic_open c" and w: "waits_at h d c" and who: "ic_domain c h \<or> d \<in> snd ` set (ic_handlers c)"
  shows "h \<in> set (fst (ic_shutdown c))"
proof -
  let ?c = "c\<lparr>ic_stopped := True\<rparr>"
  obtain x k s where x: "ic_devices c d = Some x" "(k, s) \<in> set (dv_signals x)" "state s = WAITING" "handle s = Some h"
    using w by (auto simp: waits_at_Some)
  have f: "fst (ic_shutdown c) = fst (cancel_contexts ?c) @ fst (notify_all (ic_handlers c) (snd (cancel_contexts ?c)))"
    using o by (simp add: ic_shutdown_def Let_def case_prod_beta)
  show ?thesis
  proof (cases "ic_domain c h")
    case True
    then have "h \<in> set (fst (release_domain (ic_domain c) x))" using x(2-4) by (force simp: release_domain_eq waits_in_def release_signal_eq)
    moreover have "d \<in> set (ic_names c)" using c x(1) by (auto simp: run_inv_def)
    ultimately show ?thesis
      using each_device_wakes [of d "ic_names c" "?c\<lparr>ic_cancelled := True\<rparr>" x "release_domain (ic_domain c)"] x(1)
      by (auto simp: f cancel_contexts_def)
  next
    case False
    let ?x = "snd (release_domain (ic_domain c) x)"
    have "(k, s) \<in> set (dv_signals ?x)" using False x by (force simp: release_domain_eq waits_in_def)
    then have "h \<in> set (fst (shutdown_notify ?x))" using x(3,4) by (force simp: shutdown_notify_eq stop_signal_eq)
    moreover have "ic_devices (snd (cancel_contexts ?c)) d = Some ?x" using cancel_devices [of ?c d] c x(1) by simp
    ultimately show ?thesis
      using each_device_wakes [of d "map snd (ic_handlers c)" "snd (cancel_contexts ?c)" ?x shutdown_notify] who False
      by (auto simp: f notify_all_def)
  qed
qed

lemma domain_quiet:
  assumes "run_inv c" "ic_cancelled c" "ic_domain c h"
  shows "\<not> waits_at h d c" "fst (dv_await d k h c) \<in> {Quiet, Returned False}"
proof -
  show "\<not> waits_at h d c" using assms by (fastforce simp: waits_at_Some run_inv_def nobody_waits_def list_all_iff waits_in_def)
  have "fst (ps_await True k h ps) \<in> {Quiet, Returned False}" for ps
    by (induction ps) (auto simp: cancelled_await_def Let_def case_prod_beta split: if_splits)
  then show "fst (dv_await d k h c) \<in> {Quiet, Returned False}"
    using assms(2,3) by (simp add: dv_await_def Let_def case_prod_beta split: option.split)
qed

lemma cancelled_stays: "ic_cancelled c \<Longrightarrow> ic_cancelled (io_exec p c) \<and> ic_domain (io_exec p c) = ic_domain c"
proof -
  have poll: "ic_cancelled (snd (poll_batch es c)) = ic_cancelled c \<and> ic_domain (snd (poll_batch es c)) = ic_domain c" for es and c :: "'a io_sys"
    by (induction es arbitrary: c) (auto simp: Let_def case_prod_beta poll_one_def ic_remove_def split: option.split)
  show "ic_cancelled c \<Longrightarrow> ic_cancelled (io_exec p c) \<and> ic_domain (io_exec p c) = ic_domain c"
    using poll by (cases p) (auto simp: init_async_device_def ic_add_def Let_def dv_await_def set_signals_def case_prod_beta deregister_def ic_remove_def
        ic_shutdown_def split: option.splits)
qed

lemma runs_cancelled: "ic_cancelled c \<Longrightarrow> ic_cancelled (fold io_exec ops c) \<and> ic_domain (fold io_exec ops c) = ic_domain c"
  by (induction ops arbitrary: c) (auto simp: cancelled_stays)

lemma io_exec_domain: "ic_domain (io_exec p c) = ic_domain c"
proof -
  have poll: "ic_domain (snd (poll_batch es c)) = ic_domain c" for es and c :: "'a io_sys"
    by (induction es arbitrary: c) (auto simp: Let_def case_prod_beta poll_one_def ic_remove_def split: option.split)
  show ?thesis
    using poll by (cases p) (auto simp: init_async_device_def ic_add_def Let_def dv_await_def set_signals_def case_prod_beta deregister_def ic_remove_def
        ic_shutdown_def split: option.splits)
qed

lemma runs_domain: "ic_domain (fold io_exec ops c) = ic_domain c"
  by (induction ops arbitrary: c) (auto simp: io_exec_domain)



text \<open>A hang-up removes the handler without waking anybody: the reader stays suspended until the poller is shut down, and
  longer when its context does not belong to the poller.\<close>

lemma hangup_strands_reader:
  "let ops = [Init 0 5 [EV_IN, EV_OUT], Wait 0 EV_IN (1::nat), Poll [(5, EV_IN OR EV_HUP)]]
   in waits_at 1 0 (fold io_exec ops io_context_new) \<and>
      waits_at 1 0 (snd (ic_shutdown (fold io_exec ops (io_context_new\<lparr>ic_domain := \<lambda>_. False\<rparr>))))"
  by code_simp

end
