(* ===== verification/Sys_Sockaddr.thy ===== *)
theory Sys_Sockaddr
  imports Net_Prelude
begin

text \<open>
  Socket addresses and their text (\<^verbatim>\<open>include/xsl/sys/net/sockaddr.h\<close>, \<^verbatim>\<open>src/sys/net/sockaddr.cpp\<close>).  A storage is
  its family and the bytes behind it, laid out as \<^verbatim>\<open>sockaddr_in\<close> and \<^verbatim>\<open>sockaddr_in6\<close> have them; storage the code
  does not initialise is an argument.  The texts are written into a buffer of fixed size: every write is
  checked against it.  \<^verbatim>\<open>inet_ntop\<close> and \<^verbatim>\<open>inet_pton\<close> are parameters.  The theorems show that no write leaves the
  buffer and that an address survives printing and parsing; counterexamples show what \<^verbatim>\<open>operator==\<close> and a
  failed \<^verbatim>\<open>make_sockaddr\<close> do with bytes that were never written.
\<close>

section \<open>Layout\<close>

type_synonym byte = "8 word"

definition AF_INET :: nat where "AF_INET = 2"
definition AF_INET6 :: nat where "AF_INET6 = 10"
definition INET_ADDRSTRLEN :: nat where "INET_ADDRSTRLEN = 16"
definition INET6_ADDRSTRLEN :: nat where "INET6_ADDRSTRLEN = 46"

record storage =
  ss_family :: nat
  ss_data :: "byte list"

record sockaddr =
  sa_addr :: storage
  sa_len :: nat

text \<open>The fields behind the family: the port in network order, then \<^verbatim>\<open>sin_addr\<close>, or \<^verbatim>\<open>sin6_flowinfo\<close> and \<^verbatim>\<open>sin6_addr\<close>.
  The lengths are those of the structures, family included.\<close>

definition sin_size :: nat where "sin_size = 16"
definition sin6_size :: nat where "sin6_size = 28"

definition sin_addr :: "storage \<Rightarrow> byte list" where
  "sin_addr st = sub (ss_data st) 2 4"

definition sin6_addr :: "storage \<Rightarrow> byte list" where
  "sin6_addr st = sub (ss_data st) 6 16"

definition htons :: "16 word \<Rightarrow> byte list" where
  "htons p = [ucast (drop_bit 8 p), ucast p]"

definition ntohs :: "byte list \<Rightarrow> 16 word" where
  "ntohs bs = (case bs of a # b # _ \<Rightarrow> push_bit 8 (ucast a) OR ucast b | _ \<Rightarrow> 0)"

definition sin_port :: "storage \<Rightarrow> 16 word" where
  "sin_port st = ntohs (sub (ss_data st) 0 2)"

text \<open>\<^verbatim>\<open>errc{errno}\<close>: a zero is success.\<close>

definition errno_ec :: "nat \<Rightarrow> ec" where
  "errno_ec e = (if e = 0 then ok else Some (Errno e))"

text \<open>\<^verbatim>\<open>inet_ntop(family, addr, buffer, size)\<close> gives an errno or the text; \<^verbatim>\<open>inet_pton(family, text)\<close> returns 1
  with the bytes, 0 for a text that is no address, or -1 with an errno.\<close>

datatype pton_result = PtonOk "byte list" | PtonBad | PtonErr nat

type_synonym ntop = "nat \<Rightarrow> byte list \<Rightarrow> nat \<Rightarrow> nat + string"
type_synonym pton = "nat \<Rightarrow> string \<Rightarrow> pton_result"

section \<open>Texts\<close>

text \<open>The overloads with a separate port: the text, and the port when there is one.\<close>

definition inet4_n2p :: "ntop \<Rightarrow> storage \<Rightarrow> ec \<times> string \<times> 16 word option" where
  "inet4_n2p ntop st =
     (case ntop AF_INET (sin_addr st) INET_ADDRSTRLEN of
        Inr t \<Rightarrow> (ok, t, Some (sin_port st))
      | Inl e \<Rightarrow> (errno_ec e, [], None))"

definition inet6_n2p :: "ntop \<Rightarrow> storage \<Rightarrow> ec \<times> string \<times> 16 word option" where
  "inet6_n2p ntop st =
     (case ntop AF_INET6 (sin6_addr st) INET6_ADDRSTRLEN of
        Inr t \<Rightarrow> (ok, t, Some (sin_port st))
      | Inl e \<Rightarrow> (errno_ec e, [], None))"

definition inet_n2p :: "ntop \<Rightarrow> storage \<Rightarrow> string \<Rightarrow> ec \<times> string \<times> 16 word option" where
  "inet_n2p ntop st ip =
     (if ss_family st = AF_INET then inet4_n2p ntop st
      else if ss_family st = AF_INET6 then inet6_n2p ntop st
      else (Some address_family_not_supported, ip, None))"

text \<open>The overloads that print into a buffer.  A write outside it is \<^term>\<open>None\<close>.\<close>

definition put :: "nat \<Rightarrow> string \<Rightarrow> string \<Rightarrow> string option" where
  "put off s buf = (if off + length s \<le> length buf then Some (blit buf off s) else None)"

text \<open>\<^verbatim>\<open>std::to_chars(buf + first, buf + last, n)\<close>: the end, or no place.\<close>

definition to_chars :: "nat \<Rightarrow> nat \<Rightarrow> nat \<Rightarrow> string \<Rightarrow> ((errc + nat) \<times> string) option" where
  "to_chars first lim n buf =
     (if first + length (dec_digits n) \<le> lim
      then map_option (\<lambda>b. (Inr (first + length (dec_digits n)), b)) (put first (dec_digits n) buf)
      else Some (Inl value_too_large, buf))"

definition strlen :: "string \<Rightarrow> nat" where
  "strlen s = length (takeWhile (\<lambda>c. c \<noteq> CHR 0x00) s)"

definition inet4_text :: "ntop \<Rightarrow> storage \<Rightarrow> string \<Rightarrow> (ec \<times> string) option" where
  "inet4_text ntop st buf =
     (case ntop AF_INET (sin_addr st) INET_ADDRSTRLEN of
        Inl e \<Rightarrow> Some (errno_ec e, [])
      | Inr t \<Rightarrow>
          Option.bind (put 0 (t @ [CHR 0x00]) buf) (\<lambda>b1.
            let len = strlen b1 in
            Option.bind (put len '':'' b1) (\<lambda>b2.
              Option.bind (to_chars (len + 1) (INET_ADDRSTRLEN + 6) (unat (sin_port st)) b2) (\<lambda>(r, b3).
                Some (case r of Inr e \<Rightarrow> (ok, take e b3) | Inl c \<Rightarrow> (Some c, []))))))"

definition inet6_text :: "ntop \<Rightarrow> storage \<Rightarrow> string \<Rightarrow> (ec \<times> string) option" where
  "inet6_text ntop st buf =
     (case ntop AF_INET6 (sin6_addr st) INET6_ADDRSTRLEN of
        Inl e \<Rightarrow> Some (errno_ec e, [])
      | Inr t \<Rightarrow>
          Option.bind (put 1 (t @ [CHR 0x00]) buf) (\<lambda>b1.
            Option.bind (put 0 ''['' b1) (\<lambda>b2.
              let len = strlen (drop 1 b2) + 1 in
              Option.bind (put len '']'' b2) (\<lambda>b3.
                Option.bind (put (len + 1) '':'' b3) (\<lambda>b4.
                  Option.bind (to_chars (len + 2) (INET6_ADDRSTRLEN + 7) (unat (sin_port st)) b4) (\<lambda>(r, b5).
                    Some (case r of Inr e \<Rightarrow> (ok, take e b5) | Inl c \<Rightarrow> (Some c, []))))))))"

text \<open>\<^verbatim>\<open>inet_n2p(storage, addr)\<close>; \<open>fill\<close> gives the fresh characters of \<^verbatim>\<open>resize_and_overwrite\<close>, whose contents are
  not specified.\<close>

definition inet_text :: "ntop \<Rightarrow> (nat \<Rightarrow> string) \<Rightarrow> storage \<Rightarrow> string \<Rightarrow> (ec \<times> string) option" where
  "inet_text ntop fill st addr =
     (if ss_family st = AF_INET then inet4_text ntop st (fill (INET_ADDRSTRLEN + 6))
      else if ss_family st = AF_INET6 then inet6_text ntop st (fill (INET6_ADDRSTRLEN + 8))
      else Some (Some address_family_not_supported, addr))"

text \<open>The overload that returns the text.\<close>

definition inet_text_expected :: "ntop \<Rightarrow> (nat \<Rightarrow> string) \<Rightarrow> storage \<Rightarrow> (errc + string) option" where
  "inet_text_expected ntop fill st =
     map_option (\<lambda>(e, s). case e of None \<Rightarrow> Inr s | Some c \<Rightarrow> Inl c) (inet_text ntop fill st [])"

section \<open>Addresses\<close>

text \<open>\<^verbatim>\<open>SockAddr::operator==\<close> compares the bytes of the whole structure.\<close>

definition sockaddr_eq :: "sockaddr \<Rightarrow> sockaddr \<Rightarrow> bool" where
  "sockaddr_eq a b \<longleftrightarrow>
     ss_family (sa_addr a) = ss_family (sa_addr b) \<and> sa_len a = sa_len b \<and>
     take (sa_len a - 2) (ss_data (sa_addr a)) = take (sa_len a - 2) (ss_data (sa_addr b))"

definition fill_in :: "byte list \<Rightarrow> 16 word \<Rightarrow> sockaddr \<Rightarrow> sockaddr" where
  "fill_in a port s =
     \<lparr>sa_addr = \<lparr>ss_family = AF_INET, ss_data = blit (blit (ss_data (sa_addr s)) 2 a) 0 (htons port)\<rparr>, sa_len = sin_size\<rparr>"

definition fill_in6 :: "byte list \<Rightarrow> 16 word \<Rightarrow> sockaddr \<Rightarrow> sockaddr" where
  "fill_in6 a port s =
     \<lparr>sa_addr = \<lparr>ss_family = AF_INET6, ss_data = blit (blit (ss_data (sa_addr s)) 6 a) 0 (htons port)\<rparr>, sa_len = sin6_size\<rparr>"

text \<open>The errno after a call that returned 0 or -1: only the latter sets it.\<close>

definition errno_after :: "pton_result \<Rightarrow> nat \<Rightarrow> nat" where
  "errno_after r errno = (case r of PtonErr e \<Rightarrow> e | _ \<Rightarrow> errno)"

text \<open>\<^verbatim>\<open>make_sockaddr\<close> for IPv4, for IPv6 and for traits without a family; \<open>junk\<close> is the uninitialised object,
  \<open>errno\<close> the value before the call.\<close>

definition expected :: "ec \<Rightarrow> 'a \<Rightarrow> errc + 'a" where
  "expected e a = (case e of None \<Rightarrow> Inr a | Some c \<Rightarrow> Inl c)"

definition make_sockaddr4 :: "pton \<Rightarrow> sockaddr \<Rightarrow> nat \<Rightarrow> string \<Rightarrow> 16 word \<Rightarrow> errc + sockaddr" where
  "make_sockaddr4 pton junk errno ip port =
     (case pton AF_INET ip of
        PtonOk a \<Rightarrow> expected ok (fill_in a port junk)
      | r \<Rightarrow> expected (errno_ec (errno_after r errno)) junk)"

definition make_sockaddr6 :: "pton \<Rightarrow> sockaddr \<Rightarrow> nat \<Rightarrow> string \<Rightarrow> 16 word \<Rightarrow> errc + sockaddr" where
  "make_sockaddr6 pton junk errno ip port =
     (case pton AF_INET6 ip of
        PtonOk a \<Rightarrow> expected ok (fill_in6 a port junk)
      | r \<Rightarrow> expected (errno_ec (errno_after r errno)) junk)"

definition make_sockaddr :: "pton \<Rightarrow> sockaddr \<Rightarrow> nat \<Rightarrow> string \<Rightarrow> 16 word \<Rightarrow> errc + sockaddr" where
  "make_sockaddr pton junk errno ip port =
     (case pton AF_INET6 ip of
        PtonOk a \<Rightarrow> expected ok (fill_in6 a port junk)
      | r6 \<Rightarrow>
          (case pton AF_INET ip of
             PtonOk a \<Rightarrow> expected ok (fill_in a port junk)
           | r4 \<Rightarrow> expected (errno_ec (errno_after r4 (errno_after r6 errno))) junk))"

text \<open>The overloads with a port as text.  \<^verbatim>\<open>std::atoi\<close>: white space, a sign, digits; a value outside \<^verbatim>\<open>int\<close> is
  undefined.\<close>

definition atoi :: "string \<Rightarrow> int option" where
  "atoi s =
     (let t = dropWhile (\<lambda>c. c \<in> set [SP, CHR 0x09, LF, CHR 0x0B, CHR 0x0C, CR]) s;
          neg = (t \<noteq> [] \<and> t ! 0 = CHR ''-'');
          u = (if t \<noteq> [] \<and> (t ! 0 = CHR ''-'' \<or> t ! 0 = CHR ''+'') then tl t else t);
          v = int (digits_value (takeWhile is_digit u));
          w = (if neg then - v else v)
      in if - 2147483648 \<le> w \<and> w \<le> 2147483647 then Some w else None)"

definition make_sockaddr_port :: "pton \<Rightarrow> sockaddr \<Rightarrow> nat \<Rightarrow> string \<Rightarrow> string \<Rightarrow> (errc + sockaddr) option" where
  "make_sockaddr_port pton junk errno ip port =
     map_option (\<lambda>v. make_sockaddr pton junk errno ip (word_of_int v)) (atoi port)"

text \<open>A string view is memory, an offset and a length; \<^verbatim>\<open>data()\<close> read as a C string ends at the first zero of the
  memory, not at the end of the view.\<close>

record view =
  vw_mem :: string
  vw_off :: nat
  vw_len :: nat

definition view_text :: "view \<Rightarrow> string" where
  "view_text v = sub (vw_mem v) (vw_off v) (vw_len v)"

definition view_data :: "view \<Rightarrow> string" where
  "view_data v = takeWhile (\<lambda>c. c \<noteq> CHR 0x00) (drop (vw_off v) (vw_mem v))"

definition make_sockaddr_view :: "pton \<Rightarrow> sockaddr \<Rightarrow> nat \<Rightarrow> view \<Rightarrow> view \<Rightarrow> (errc + sockaddr) option" where
  "make_sockaddr_view pton junk errno ip port = make_sockaddr_port pton junk errno (view_data ip) (view_data port)"

definition make_sockaddr_view_cport :: "pton \<Rightarrow> sockaddr \<Rightarrow> nat \<Rightarrow> view \<Rightarrow> string \<Rightarrow> (errc + sockaddr) option" where
  "make_sockaddr_view_cport pton junk errno ip port = make_sockaddr_port pton junk errno (view_data ip) port"

definition make_sockaddr_view_num :: "pton \<Rightarrow> sockaddr \<Rightarrow> nat \<Rightarrow> view \<Rightarrow> 16 word \<Rightarrow> errc + sockaddr" where
  "make_sockaddr_view_num pton junk errno ip port = make_sockaddr pton junk errno (view_data ip) port"

text \<open>Members of \<^verbatim>\<open>SockAddr\<close>: the family is that of the traits when they have one.\<close>

definition sockaddr_family :: "nat option \<Rightarrow> sockaddr \<Rightarrow> nat" where
  "sockaddr_family static s = (case static of Some f \<Rightarrow> f | None \<Rightarrow> ss_family (sa_addr s))"

definition sockaddr_parse :: "ntop \<Rightarrow> sockaddr \<Rightarrow> string \<Rightarrow> ec \<times> string \<times> 16 word option" where
  "sockaddr_parse ntop s ip = inet_n2p ntop (sa_addr s) ip"

definition sockaddr_to_string :: "ntop \<Rightarrow> (nat \<Rightarrow> string) \<Rightarrow> sockaddr \<Rightarrow> string \<Rightarrow> (ec \<times> string) option" where
  "sockaddr_to_string ntop fill s addr = inet_text ntop fill (sa_addr s) addr"

section \<open>What the system library promises\<close>

text \<open>\<^verbatim>\<open>inet_ntop\<close> writes a text that fits with its terminating zero; \<^verbatim>\<open>inet_pton\<close> reads it back.\<close>

definition ntop_fits :: "ntop \<Rightarrow> bool" where
  "ntop_fits ntop \<longleftrightarrow> (\<forall>f a n t. ntop f a n = Inr t \<longrightarrow> length t < n \<and> CHR 0x00 \<notin> set t)"

definition pton_reads :: "ntop \<Rightarrow> pton \<Rightarrow> bool" where
  "pton_reads ntop pton \<longleftrightarrow>
     (\<forall>f a n t. ntop f a n = Inr t \<longrightarrow> pton f t = PtonOk a \<and> (f = AF_INET \<longrightarrow> (\<forall>b. pton AF_INET6 t \<noteq> PtonOk b)))"

text \<open>Printing every byte in decimal, with points or colons in between, satisfies this.\<close>

fun join :: "char \<Rightarrow> string list \<Rightarrow> string" where
  "join c [] = []"
| "join c [s] = s"
| "join c (s # ss) = s @ c # join c ss"

fun split_at :: "char \<Rightarrow> string \<Rightarrow> string list" where
  "split_at c [] = [[]]"
| "split_at c (x # xs) = (if x = c then [] # split_at c xs else (case split_at c xs of s # ss \<Rightarrow> (x # s) # ss | [] \<Rightarrow> [[x]]))"

definition plain_sep :: "nat \<Rightarrow> char" where
  "plain_sep f = (if f = AF_INET then CHR ''.'' else CHR '':'')"

definition plain_len :: "nat \<Rightarrow> nat" where
  "plain_len f = (if f = AF_INET then 4 else 16)"

definition plain_text :: "nat \<Rightarrow> byte list \<Rightarrow> string" where
  "plain_text f a = join (plain_sep f) (map (\<lambda>b. dec_digits (unat b)) a)"

definition plain_ntop :: ntop where
  "plain_ntop f a n =
     (if (f = AF_INET \<or> f = AF_INET6) \<and> length a = plain_len f \<and> length (plain_text f a) < n then Inr (plain_text f a) else Inl 28)"

definition plain_pton :: pton where
  "plain_pton f t =
     (let ps = split_at (plain_sep f) t
      in if length ps = plain_len f \<and> list_all (\<lambda>p. p \<noteq> [] \<and> list_all is_digit p \<and> digits_value p < 256) ps
         then PtonOk (map (\<lambda>p. word_of_nat (digits_value p)) ps) else PtonBad)"

definition port_text :: "storage \<Rightarrow> string \<Rightarrow> 16 word \<Rightarrow> string" where
  "port_text st t p =
     (if ss_family st = AF_INET then t @ '':'' @ dec_digits (unat p) else ''['' @ t @ '']:'' @ dec_digits (unat p))"

section \<open>The sample printer and parser\<close>

lemma split_at_plain: "c \<notin> set s \<Longrightarrow> split_at c s = [s]"
  by (induction s) auto

lemma split_at_sep: "c \<notin> set s \<Longrightarrow> split_at c (s @ c # r) = s # split_at c r"
  by (induction s) auto

lemma split_at_join: "ss \<noteq> [] \<Longrightarrow> \<forall>s\<in>set ss. c \<notin> set s \<Longrightarrow> split_at c (join c ss) = ss"
  by (induction c ss rule: join.induct) (simp_all add: split_at_plain split_at_sep)

lemma set_join: "set (join c ss) \<subseteq> insert c (\<Union> (set ` set ss))"
  by (induction c ss rule: join.induct) auto

lemma digit_not: "is_digit c \<Longrightarrow> c \<noteq> CHR 0x00 \<and> c \<noteq> CHR ''.'' \<and> c \<noteq> CHR '':''"
  by (auto simp: is_digit_def)

lemma dec_digits_not: "c \<in> set (dec_digits n) \<Longrightarrow> c \<noteq> CHR 0x00 \<and> c \<noteq> CHR ''.'' \<and> c \<noteq> CHR '':''"
  using dec_digits_digit [of n] digit_not by (simp add: list_all_iff)

lemma plain_text_chars: "c \<in> set (plain_text f a) \<Longrightarrow> c = plain_sep f \<or> is_digit c"
  using set_join [of "plain_sep f" "map (\<lambda>b. dec_digits (unat b)) a"] dec_digits_digit
  by (fastforce simp: plain_text_def list_all_iff)

lemma plain_fits: "ntop_fits plain_ntop"
proof -
  have "CHR 0x00 \<notin> set (plain_text f a)" for f a
    using plain_text_chars [of "CHR 0x00" f a] digit_not [of "CHR 0x00"] by (auto simp: plain_sep_def split: if_splits)
  then show ?thesis by (simp add: ntop_fits_def plain_ntop_def)
qed

lemma plain_split: "a \<noteq> [] \<Longrightarrow> split_at (plain_sep f) (plain_text f a) = map (\<lambda>b. dec_digits (unat b)) a"
  unfolding plain_text_def by (rule split_at_join) (auto simp: plain_sep_def dest: dec_digits_not split: if_splits)

lemma plain_reads: "pton_reads plain_ntop plain_pton"
proof -
  have r: "plain_pton f (plain_text f a) = PtonOk a" if "length a = plain_len f" for f a
  proof -
    have "a \<noteq> []" using that by (auto simp: plain_len_def split: if_splits)
    moreover have "unat b < 256" for b :: byte using unsigned_less [of b, where ?'a = nat] by simp
    ultimately show ?thesis using that dec_digits_digit
      by (simp add: plain_pton_def plain_split Let_def list_all_iff dec_digits_value comp_def)
  qed
  have "CHR '':'' \<notin> set (plain_text AF_INET a)" for a
    using plain_text_chars [of "CHR '':''" AF_INET a] digit_not by (auto simp: plain_sep_def)
  then have "split_at (plain_sep AF_INET6) (plain_text AF_INET a) = [plain_text AF_INET a]" for a
    by (simp add: plain_sep_def AF_INET_def AF_INET6_def split_at_plain)
  then have "plain_pton AF_INET6 (plain_text AF_INET a) \<noteq> PtonOk b" for a b
    by (simp add: plain_pton_def Let_def plain_len_def AF_INET_def AF_INET6_def)
  with r show ?thesis by (auto simp: pton_reads_def plain_ntop_def split: if_splits)
qed

section \<open>The texts\<close>

lemma put_append: "length s \<le> length r \<Longrightarrow> put (length p) s (p @ r) = Some (p @ s @ drop (length s) r)"
  by (simp add: put_def blit_def)

lemma strlen_append [simp]: "CHR 0x00 \<notin> set t \<Longrightarrow> strlen (t @ CHR 0x00 # r) = length t"
proof -
  assume "CHR 0x00 \<notin> set t"
  then have "\<forall>x\<in>set t. x \<noteq> CHR 0x00" by auto
  then show ?thesis by (simp add: strlen_def takeWhile_append2)
qed

lemma port_digits: "length (dec_digits (unat (p :: 16 word))) \<le> 5"
proof -
  have "unat p < 2 ^ 16" using unsigned_less [of p, where ?'a = nat] by simp
  then have "unat p < 10 ^ Suc 4" by simp
  from dec_digits_length [OF this] show ?thesis by simp
qed

lemma inet4_text_spec:
  assumes "ntop AF_INET (sin_addr st) INET_ADDRSTRLEN = Inr t" "length t < INET_ADDRSTRLEN" "CHR 0x00 \<notin> set t"
    and "length buf = INET_ADDRSTRLEN + 6"
  shows "inet4_text ntop st buf = Some (ok, t @ '':'' @ dec_digits (unat (sin_port st)))"
proof -
  let ?d = "dec_digits (unat (sin_port st))"
  let ?r = "drop (Suc (length t)) buf"
  have l: "length buf = 22" "length t < 16" "length ?r = 21 - length t" "length ?d \<le> 5" using assms(2,4) port_digits
    by (auto simp: INET_ADDRSTRLEN_def)
  have "put 0 (t @ [CHR 0x00]) buf = Some (t @ CHR 0x00 # ?r)" using l by (simp add: put_def blit_def)
  moreover have "put (length t) '':'' (t @ CHR 0x00 # ?r) = Some ((t @ '':'') @ ?r)" by (simp add: put_append)
  moreover have "put (length t + 1) ?d ((t @ '':'') @ ?r) = Some ((t @ '':'') @ ?d @ drop (length ?d) ?r)"
    using put_append [of ?d ?r "t @ '':''"] l by simp
  ultimately show ?thesis using assms(1,3) l
    by (simp add: inet4_text_def Let_def to_chars_def INET_ADDRSTRLEN_def)
qed

lemma inet6_text_spec:
  assumes "ntop AF_INET6 (sin6_addr st) INET6_ADDRSTRLEN = Inr t" "length t < INET6_ADDRSTRLEN" "CHR 0x00 \<notin> set t"
    and "length buf = INET6_ADDRSTRLEN + 8"
  shows "inet6_text ntop st buf = Some (ok, ''['' @ t @ '']:'' @ dec_digits (unat (sin_port st)))"
proof -
  let ?d = "dec_digits (unat (sin_port st))"
  let ?r = "drop (Suc (Suc (length t))) buf"
  have l: "length buf = 54" "length t < 46" "length ?r = 52 - length t" "length ?d \<le> 5" using assms(2,4) port_digits
    by (auto simp: INET6_ADDRSTRLEN_def)
  then have r: "?r = buf ! Suc (Suc (length t)) # drop 1 ?r" by (simp add: Cons_nth_drop_Suc)
  obtain x xs where b: "buf = x # xs" using l(1) by (cases buf) auto
  have "put 1 (t @ [CHR 0x00]) buf = Some (x # t @ CHR 0x00 # ?r)" using l b by (simp add: put_def blit_def)
  moreover have "put 0 ''['' (x # t @ CHR 0x00 # ?r) = Some (''['' @ t @ CHR 0x00 # ?r)" by (simp add: put_def blit_def)
  moreover have "put (length t + 1) '']'' (''['' @ t @ CHR 0x00 # ?r) = Some ((''['' @ t @ '']'') @ ?r)"
    using put_append [of "'']''" "CHR 0x00 # ?r" "''['' @ t"] by simp
  moreover have "put (length t + 1 + 1) '':'' ((''['' @ t @ '']'') @ ?r) = Some ((''['' @ t @ '']:'') @ drop 1 ?r)"
    using put_append [of "'':''" ?r "''['' @ t @ '']''"] l by simp
  moreover have "put (length t + 1 + 2) ?d ((''['' @ t @ '']:'') @ drop 1 ?r) = Some ((''['' @ t @ '']:'') @ ?d @ drop (length ?d) (drop 1 ?r))"
    using put_append [of ?d "drop 1 ?r" "''['' @ t @ '']:''"] l by simp
  ultimately show ?thesis using assms(1,3) l
    by (simp add: inet6_text_def Let_def to_chars_def INET6_ADDRSTRLEN_def)
qed

text \<open>C33. Printing an address never leaves its buffer: for every storage, with characters of a fresh buffer of the
  requested size, no write is out of bounds and the port always fits, and the text printed is the one the
  overload with a separate port gives, followed by the port and with brackets for IPv6; its length is at
  most 21 or 53.  An error of the system function or an unsupported family is passed on.\<close>

theorem sockaddr_text_fits:
  assumes "ntop_fits ntop" "\<forall>n. length (fill n) = n"
  shows "inet_text ntop fill st addr =
      Some (case inet_n2p ntop st addr of (None, t, Some p) \<Rightarrow> (ok, port_text st t p) | (e, s, _) \<Rightarrow> (e, s)) \<and>
    (\<forall>s. inet_text ntop fill st [] = Some (ok, s) \<longrightarrow> length s \<le> (if ss_family st = AF_INET then 21 else 53))"
proof (cases "ss_family st = AF_INET")
  case True
  show ?thesis
  proof (cases "ntop AF_INET (sin_addr st) INET_ADDRSTRLEN")
    case (Inr t)
    then have t: "length t < INET_ADDRSTRLEN" "CHR 0x00 \<notin> set t" using assms(1) by (auto simp: ntop_fits_def)
    note s = inet4_text_spec [of ntop st t "fill (INET_ADDRSTRLEN + 6)", OF Inr t]
    show ?thesis using s assms(2) True Inr t(1) port_digits [of "sin_port st"]
      by (simp add: inet_text_def inet_n2p_def inet4_n2p_def port_text_def INET_ADDRSTRLEN_def)
  qed (use True in \<open>auto simp: inet_text_def inet_n2p_def inet4_n2p_def inet4_text_def errno_ec_def\<close>)
next
  case f: False
  show ?thesis
  proof (cases "ss_family st = AF_INET6")
    case True
    show ?thesis
    proof (cases "ntop AF_INET6 (sin6_addr st) INET6_ADDRSTRLEN")
      case (Inr t)
      then have t: "length t < INET6_ADDRSTRLEN" "CHR 0x00 \<notin> set t" using assms(1) by (auto simp: ntop_fits_def)
      note s = inet6_text_spec [of ntop st t "fill (INET6_ADDRSTRLEN + 8)", OF Inr t]
      show ?thesis using s assms(2) f True Inr t(1) port_digits [of "sin_port st"]
        by (simp add: inet_text_def inet_n2p_def inet6_n2p_def port_text_def INET6_ADDRSTRLEN_def)
    qed (use f True in \<open>auto simp: inet_text_def inet_n2p_def inet6_n2p_def inet6_text_def errno_ec_def\<close>)
  qed (use f in \<open>simp add: inet_text_def inet_n2p_def\<close>)
qed

theorem sockaddr_text_fits_witness:
  "inet_text plain_ntop (\<lambda>n. replicate n CHR ''x'') \<lparr>ss_family = AF_INET, ss_data = [0, 80, 127, 0, 0, 1]\<rparr> [] = Some (ok, ''127.0.0.1:80'')"
proof -
  let ?st = "\<lparr>ss_family = AF_INET, ss_data = [0, 80, 127, 0, 0, 1]\<rparr>"
  have "\<forall>n. length ((\<lambda>n. replicate n CHR ''x'') n) = n" by simp
  note f = sockaddr_text_fits [OF plain_fits this, of ?st "[]", THEN conjunct1]
  have "(case inet_n2p plain_ntop ?st [] of (None, t, Some p) \<Rightarrow> (ok, port_text ?st t p) | (e, s, _) \<Rightarrow> (e, s)) = (ok, ''127.0.0.1:80'')"
    by code_simp
  with f show ?thesis by simp
qed

section \<open>The round trip\<close>

lemma ntohs_htons: "ntohs (htons p) = p"
  unfolding ntohs_def htons_def by (auto intro!: bit_word_eqI simp: bit_simps)

lemma length_htons [simp]: "length (htons p) = 2"
  by (simp add: htons_def)

lemma fill_in_reads:
  assumes "length a = 4" "length (ss_data (sa_addr s)) = 126"
  shows "sin_addr (sa_addr (fill_in a p s)) = a" "sin_port (sa_addr (fill_in a p s)) = p" "ss_family (sa_addr (fill_in a p s)) = AF_INET"
proof -
  let ?b = "blit (ss_data (sa_addr s)) 2 a"
  have "sub (blit ?b 0 (htons p)) 0 2 = htons p" using assms sub_blit_same [of 0 "htons p" ?b] by simp
  moreover have "sub (blit ?b 0 (htons p)) 2 4 = a"
    using assms sub_blit_after [of 0 "htons p" 2 ?b 4] sub_blit_same [of 2 a "ss_data (sa_addr s)"] by simp
  ultimately show "sin_addr (sa_addr (fill_in a p s)) = a" "sin_port (sa_addr (fill_in a p s)) = p"
    "ss_family (sa_addr (fill_in a p s)) = AF_INET"
    by (simp_all add: fill_in_def sin_addr_def sin_port_def ntohs_htons)
qed

lemma fill_in6_reads:
  assumes "length a = 16" "length (ss_data (sa_addr s)) = 126"
  shows "sin6_addr (sa_addr (fill_in6 a p s)) = a" "sin_port (sa_addr (fill_in6 a p s)) = p" "ss_family (sa_addr (fill_in6 a p s)) = AF_INET6"
proof -
  let ?b = "blit (ss_data (sa_addr s)) 6 a"
  have "sub (blit ?b 0 (htons p)) 0 2 = htons p" using assms sub_blit_same [of 0 "htons p" ?b] by simp
  moreover have "sub (blit ?b 0 (htons p)) 6 16 = a"
    using assms sub_blit_after [of 0 "htons p" 6 ?b 16] sub_blit_same [of 6 a "ss_data (sa_addr s)"] by simp
  ultimately show "sin6_addr (sa_addr (fill_in6 a p s)) = a" "sin_port (sa_addr (fill_in6 a p s)) = p"
    "ss_family (sa_addr (fill_in6 a p s)) = AF_INET6"
    by (simp_all add: fill_in6_def sin6_addr_def sin_port_def ntohs_htons)
qed

lemmas n2p_defs = inet_n2p_def inet4_n2p_def inet6_n2p_def

text \<open>An address survives printing and parsing: when a storage prints as a text and a port, making an
  address of this text and port, whatever the object held before and whatever \<^verbatim>\<open>errno\<close> was, gives an address of
  the same family that prints as the same text and port.\<close>

lemma sockaddr_round_trip:
  assumes "pton_reads ntop pton" "length (ss_data st) = 126" "length (ss_data (sa_addr junk)) = 126"
    and "inet_n2p ntop st ip = (ok, t, Some p)"
  shows "\<exists>a. make_sockaddr pton junk errno t p = Inr a \<and> ss_family (sa_addr a) = ss_family st \<and>
    inet_n2p ntop (sa_addr a) ip' = (ok, t, Some p)"
proof (cases "ss_family st = AF_INET")
  case True
  have n: "ntop AF_INET (sin_addr st) INET_ADDRSTRLEN = Inr t"
    using assms(4) True by (auto simp: n2p_defs split: sum.splits)
  then have r: "pton AF_INET t = PtonOk (sin_addr st)" "\<forall>b. pton AF_INET6 t \<noteq> PtonOk b" using assms(1) by (auto simp: pton_reads_def)
  have "length (sin_addr st) = 4" using assms(2) by (simp add: sin_addr_def)
  note f = fill_in_reads [OF this assms(3), of p]
  have "make_sockaddr pton junk errno t p = Inr (fill_in (sin_addr st) p junk)"
    using r by (auto simp: make_sockaddr_def expected_def split: pton_result.splits)
  then show ?thesis using f n True by (simp add: n2p_defs)
next
  case False
  then have s: "ss_family st = AF_INET6" "ntop AF_INET6 (sin6_addr st) INET6_ADDRSTRLEN = Inr t"
    using assms(4) by (auto simp: n2p_defs split: sum.splits if_splits)
  then have r: "pton AF_INET6 t = PtonOk (sin6_addr st)" using assms(1) by (auto simp: pton_reads_def)
  have "length (sin6_addr st) = 16" using assms(2) by (simp add: sin6_addr_def)
  note f = fill_in6_reads [OF this assms(3), of p]
  have "make_sockaddr pton junk errno t p = Inr (fill_in6 (sin6_addr st) p junk)"
    using r by (simp add: make_sockaddr_def expected_def)
  then show ?thesis using f s by (simp add: n2p_defs AF_INET_def AF_INET6_def)
qed

lemma sockaddr_round_trip_witness:
  "\<exists>a. make_sockaddr plain_pton \<lparr>sa_addr = \<lparr>ss_family = 0, ss_data = replicate 126 170\<rparr>, sa_len = 0\<rparr> 0 ''10.0.0.7'' 80 = Inr a \<and>
     inet_n2p plain_ntop (sa_addr a) [] = (ok, ''10.0.0.7'', Some 80)"
proof -
  let ?st = "\<lparr>ss_family = AF_INET, ss_data = [0, 80, 10, 0, 0, 7] @ replicate 120 0\<rparr>"
  let ?j = "\<lparr>sa_addr = \<lparr>ss_family = 0, ss_data = replicate 126 170\<rparr>, sa_len = 0\<rparr>"
  have "inet_n2p plain_ntop ?st [] = (ok, ''10.0.0.7'', Some 80)" by code_simp
  then show ?thesis using sockaddr_round_trip [OF plain_reads, of ?st ?j "[]" "''10.0.0.7''" 80 0 "[]"] by auto
qed

section \<open>Bytes that were never written\<close>

text \<open>Two addresses made of the same text and port differ when the memory they were made in differs: the
  comparison covers \<^verbatim>\<open>sin_zero\<close>, which \<^verbatim>\<open>make_sockaddr\<close> does not set.\<close>

lemma eq_sees_padding:
  "let mk = (\<lambda>b. make_sockaddr4 plain_pton \<lparr>sa_addr = \<lparr>ss_family = 0, ss_data = replicate 126 b\<rparr>, sa_len = 0\<rparr> 0 ''10.0.0.7'' 80)
   in case (mk 0, mk 1) of (Inr a, Inr b) \<Rightarrow> \<not> sockaddr_eq a b | _ \<Rightarrow> False"
  by code_simp

text \<open>A text that is no address leaves \<^verbatim>\<open>errno\<close> as it was: when that is zero, the uninitialised object is
  returned as a success.\<close>

lemma bad_text_succeeds:
  assumes "pton AF_INET ip = PtonBad" "pton AF_INET6 ip = PtonBad"
  shows "make_sockaddr4 pton junk 0 ip p = Inr junk" "make_sockaddr6 pton junk 0 ip p = Inr junk" "make_sockaddr pton junk 0 ip p = Inr junk"
  using assms by (simp_all add: make_sockaddr4_def make_sockaddr6_def make_sockaddr_def errno_after_def errno_ec_def expected_def)

text \<open>A port is taken modulo 65536, and text that is no number is port 0.\<close>

lemma port_wraps:
  "make_sockaddr_port pton junk errno ip ''65616'' = make_sockaddr_port pton junk errno ip ''80''"
  "make_sockaddr_port pton junk errno ip ''http'' = Some (make_sockaddr pton junk errno ip 0)"
proof -
  have a: "atoi ''65616'' = Some 65616" by (simp add: atoi_def Let_def is_digit_def digits_value_def)
  have b: "atoi ''80'' = Some 80" "atoi ''http'' = Some 0" by code_simp+
  have "make_sockaddr pton junk errno ip (word_of_int 65616) = make_sockaddr pton junk errno ip (word_of_int 80)"
    by (rule arg_cong [of _ _ "make_sockaddr pton junk errno ip"]) simp
  then show "make_sockaddr_port pton junk errno ip ''65616'' = make_sockaddr_port pton junk errno ip ''80''"
    by (simp only: make_sockaddr_port_def a b option.map)
  show "make_sockaddr_port pton junk errno ip ''http'' = Some (make_sockaddr pton junk errno ip 0)"
    by (simp add: make_sockaddr_port_def b)
qed

text \<open>A view into a longer text is read to the end of that text.\<close>

lemma view_reads_on:
  "let v = \<lparr>vw_mem = ''10.0.0.12:80'' @ [CHR 0x00], vw_off = 0, vw_len = 9\<rparr>
   in view_text v = ''10.0.0.12'' \<and> view_data v = ''10.0.0.12:80''"
  by code_simp

end
