(* ===== verification/Net_Connect.thy ===== *)
theory Net_Connect
  imports Net_Prelude
begin

text \<open>
  Connecting and accepting: the result helpers and macros (\<^verbatim>\<open>include/xsl/error.h\<close>), owners of file descriptors and
  \<^verbatim>\<open>filter_interrupt\<close> (\<^verbatim>\<open>include/xsl/sys/raw.h\<close>), the accept loop, \<^verbatim>\<open>async_connect\<close> and \<^verbatim>\<open>ca2_impl\<close> (\<^verbatim>\<open>include/xsl/asio/net/socket.h\<close>),
  \<^verbatim>\<open>gai_connect\<close> and \<^verbatim>\<open>gai_bind\<close> (\<^verbatim>\<open>include/xsl/sys/net/utils.h\<close>), the server loop of \<^verbatim>\<open>HttpServer\<close>
  (\<^verbatim>\<open>include/xsl/asio/http/server.h\<close>) and \<^verbatim>\<open>splice\<close> (\<^verbatim>\<open>include/xsl/asio/pipe.h\<close>).  What the system calls return, whether
  the poller was stopped and what an await of a signal gives are scripts; a loop whose script runs out has
  not returned.  Error codes are the numbers behind \<^verbatim>\<open>std::errc\<close>, where 0 is success.
\<close>

section \<open>Results\<close>

type_synonym code = nat

definition EINTR :: code where "EINTR = 4"
definition EAGAIN :: code where "EAGAIN = 11"
definition ECONNABORTED :: code where "ECONNABORTED = 103"
definition ENOTCONN :: code where "ENOTCONN = 107"
definition EINPROGRESS :: code where "EINPROGRESS = 115"
definition ECANCELED :: code where "ECANCELED = 125"
definition ENOMSG :: code where "ENOMSG = 42"

text \<open>\<^verbatim>\<open>ENSEC\<close> on a truth value, an \<^verbatim>\<open>errc\<close> and an \<^verbatim>\<open>Expected\<close>: \<^term>\<open>None\<close> goes on, \<^term>\<open>Some c\<close> returns the error \<open>c\<close>.  A false
  value is reported with the current \<^verbatim>\<open>errno\<close>.\<close>

definition ensec_bool :: "code \<Rightarrow> bool \<Rightarrow> code option" where
  "ensec_bool errno b = (if b then None else Some errno)"

definition ensec_ec :: "code \<Rightarrow> code option" where
  "ensec_ec e = (if e \<noteq> 0 then Some e else None)"

definition ensec_exp :: "code + 'a \<Rightarrow> code option" where
  "ensec_exp r = (case r of Inl e \<Rightarrow> Some e | Inr _ \<Rightarrow> None)"

section \<open>File descriptors\<close>

text \<open>\<^verbatim>\<open>RawOwner\<close>: owners by number, the descriptors they hold and the descriptors closed so far.\<close>

record owners =
  ow_fd :: "nat \<Rightarrow> nat option"
  ow_closed :: "nat list"

definition owner_move :: "nat \<Rightarrow> nat \<Rightarrow> owners \<Rightarrow> owners" where
  "owner_move to src w = w\<lparr>ow_fd := (ow_fd w)(src := None, to := ow_fd w src)\<rparr>"

definition owner_destroy :: "nat \<Rightarrow> owners \<Rightarrow> owners" where
  "owner_destroy x w =
     (case ow_fd w x of None \<Rightarrow> w | Some fd \<Rightarrow> \<lparr>ow_fd = (ow_fd w)(x := None), ow_closed = ow_closed w @ [fd]\<rparr>)"

text \<open>\<^verbatim>\<open>filter_interrupt\<close> on the results of the calls, each a return value with the errno it leaves.\<close>

fun filter_interrupt :: "(int \<times> code) list \<Rightarrow> ((int \<times> code) \<times> (int \<times> code) list) option" where
  "filter_interrupt [] = None"
| "filter_interrupt (r # rs) = (if fst r = -1 \<and> snd r = EINTR then filter_interrupt rs else Some (r, rs))"

section \<open>Accepting\<close>

text \<open>One pass of the accept loop: the result of \<^verbatim>\<open>accept4\<close>, whether the poller was stopped, what the await of the signal
  gave, and the \<^verbatim>\<open>errno\<close> of the thread after it, which is whatever ran there last while the coroutine was suspended.\<close>

record acc_round =
  ar_result :: "code + nat"
  ar_stopped :: bool
  ar_signal :: bool
  ar_errno :: code

fun accept :: "acc_round list \<Rightarrow> ((code + nat) \<times> acc_round list) option" where
  "accept [] = None"
| "accept (r # rs) =
     (case ar_result r of
        Inr fd \<Rightarrow> Some (Inr fd, rs)
      | Inl e \<Rightarrow>
          if e = EAGAIN then
            if ar_stopped r then Some (Inl ECANCELED, rs)
            else (case ensec_bool (ar_errno r) (ar_signal r) of Some c \<Rightarrow> Some (Inl c, rs) | None \<Rightarrow> accept rs)
          else Some (Inl e, rs))"

text \<open>\<^verbatim>\<open>accept_async\<close>: the socket accepted is registered with the poller, which may fail.\<close>

definition accept_async :: "(nat \<Rightarrow> code) \<Rightarrow> acc_round list \<Rightarrow> ((code + nat) \<times> acc_round list) option" where
  "accept_async register rs =
     map_option (\<lambda>(r, rest). (case r of Inl e \<Rightarrow> Inl e
        | Inr fd \<Rightarrow> (case ensec_ec (register fd) of Some c \<Rightarrow> Inl c | None \<Rightarrow> Inr fd), rest)) (accept rs)"

lemma accept_shorter: "accept rs = Some (r, rest) \<Longrightarrow> length rest < length rs"
  by (induction rs) (auto split: sum.splits option.splits if_splits)

text \<open>\<^verbatim>\<open>HttpServer::serve_connection\<close>: every socket accepted is handed to a connection task; an error that is not
  temporary, or any error after the poller was stopped, ends the loop.  \<open>stopped\<close> is the state of the poller
  after the rounds left.  The result is the sockets served and the error, if the loop ended.\<close>

definition temporary :: "code \<Rightarrow> bool" where
  "temporary e \<longleftrightarrow> e = EAGAIN \<or> e = ECONNABORTED"

function serve_loop :: "(nat \<Rightarrow> code) \<Rightarrow> (acc_round list \<Rightarrow> bool) \<Rightarrow> acc_round list \<Rightarrow> nat list \<times> code option" where
  "serve_loop register stopped rs =
     (case accept_async register rs of
        None \<Rightarrow> ([], None)
      | Some (Inr fd, rest) \<Rightarrow> (let (fds, e) = serve_loop register stopped rest in (fd # fds, e))
      | Some (Inl e, rest) \<Rightarrow> if stopped rest \<or> \<not> temporary e then ([], Some e) else serve_loop register stopped rest)"
  by pat_completeness auto
termination
  by (relation "measure (\<lambda>(_, _, rs). length rs)") (auto simp: accept_async_def dest: accept_shorter)

declare serve_loop.simps [simp del]

text \<open>\<^verbatim>\<open>tcp::Server::read\<close>: as many sockets as there are places; the number accepted and the error.\<close>

fun server_read :: "nat \<Rightarrow> acc_round list \<Rightarrow> (nat list \<times> code option) option" where
  "server_read 0 rs = Some ([], None)"
| "server_read (Suc n) rs =
     (case accept rs of
        None \<Rightarrow> None
      | Some (Inl e, rest) \<Rightarrow> Some ([], Some e)
      | Some (Inr fd, rest) \<Rightarrow> map_option (\<lambda>(fds, e). (fd # fds, e)) (server_read n rest))"

section \<open>Connecting\<close>

text \<open>What an attempt to connect meets: the results of \<^verbatim>\<open>connect\<close>, of the registration, the write signal, and of
  \<^verbatim>\<open>getsockopt\<close> (its errno, or the pending error of the socket).\<close>

record attempt =
  at_connect :: "(int \<times> code) list"
  at_register :: code
  at_writable :: bool
  at_pending :: "code + code"

text \<open>The result of \<^verbatim>\<open>async_connect\<close>, and whether the device was initialised.\<close>

definition async_connect :: "attempt \<Rightarrow> ((code + unit) \<times> bool) option" where
  "async_connect a =
     map_option (\<lambda>((ret, errno), _).
       if ret \<noteq> 0 then
         if errno \<noteq> EINPROGRESS then (Inl errno, False)
         else (case ensec_ec (at_register a) of
                 Some c \<Rightarrow> (Inl c, False)
               | None \<Rightarrow>
                   if \<not> at_writable a then (Inl ENOTCONN, True)
                   else (case at_pending a of
                           Inl e \<Rightarrow> (if e \<noteq> 0 then (Inl e, True) else (Inr (), True))
                         | Inr opt \<Rightarrow> (if opt \<noteq> 0 then (Inl opt, True) else (Inr (), True))))
       else (Inl 0, False))
     (filter_interrupt (at_connect a))"

text \<open>One address of \<^verbatim>\<open>ca2_impl\<close>: no socket, an address that cannot be printed, or an attempt.\<close>

datatype address = NoSocket | NoText code | Try attempt

text \<open>The end of a coroutine without \<^verbatim>\<open>co_return\<close> is undefined: \<open>FlowsOff\<close>.\<close>

datatype conn_out = ConnErr code | FlowsOff

fun ca2_loop :: "code \<Rightarrow> address list \<Rightarrow> conn_out option" where
  "ca2_loop ec [] = Some (case ensec_ec ec of Some c \<Rightarrow> ConnErr c | None \<Rightarrow> FlowsOff)"
| "ca2_loop ec (NoSocket # as) = ca2_loop ec as"
| "ca2_loop ec (NoText c # as) = Some (ConnErr c)"
| "ca2_loop ec (Try a # as) =
     (case async_connect a of
        None \<Rightarrow> None
      | Some (Inr _, _) \<Rightarrow> ca2_loop 0 []
      | Some (Inl e, _) \<Rightarrow> ca2_loop e as)"

definition ca2_impl :: "address list \<Rightarrow> conn_out option" where
  "ca2_impl as = ca2_loop 0 as"

text \<open>\<^verbatim>\<open>gai_connect\<close>: one socket, tried with every address; the error is the last return value of \<^verbatim>\<open>connect\<close>.\<close>

fun gai_connect_loop :: "int \<Rightarrow> (int \<times> code) list list \<Rightarrow> (int + unit) option" where
  "gai_connect_loop ec [] = Some (Inl ec)"
| "gai_connect_loop ec (cs # as) =
     (case filter_interrupt cs of
        None \<Rightarrow> None
      | Some ((ret, _), _) \<Rightarrow> if ret = 0 then Some (Inr ()) else gai_connect_loop ret as)"

definition gai_connect :: "code option \<Rightarrow> (int \<times> code) list list \<Rightarrow> (int + unit) option" where
  "gai_connect sock as =
     (case sock of Some errno \<Rightarrow> Some (Inl (int errno)) | None \<Rightarrow> gai_connect_loop 0 as)"

text \<open>\<^verbatim>\<open>gai_bind\<close>: a socket per address; what becomes of each is the code of \<^verbatim>\<open>socket\<close>, \<^verbatim>\<open>setsockopt\<close> and \<^verbatim>\<open>bind\<close>.\<close>

datatype bind_try = SocketFails | OptFails | BindFails code | Bound nat

fun gai_bind :: "code \<Rightarrow> bind_try list \<Rightarrow> code + nat" where
  "gai_bind ec [] = Inl ec"
| "gai_bind ec (SocketFails # as) = gai_bind ec as"
| "gai_bind ec (OptFails # as) = gai_bind ec as"
| "gai_bind ec (BindFails e # as) = gai_bind e as"
| "gai_bind ec (Bound fd # as) = Inr fd"

section \<open>Splicing\<close>

text \<open>One call of \<^verbatim>\<open>splice\<close>: bytes moved, end, would block (with what the read signal gives), or an error.\<close>

datatype splice_out = Moved nat | Drained | Blocks bool | SpliceErr code

text \<open>The error returned, if any, and the bytes moved.\<close>

fun splice_loop :: "nat \<Rightarrow> splice_out list \<Rightarrow> (code option \<times> nat) option" where
  "splice_loop off [] = None"
| "splice_loop off (Moved n # rs) =
     (if n > 0 then splice_loop (off + n) rs else if off \<noteq> 0 then Some (None, off) else Some (Some ENOMSG, off))"
| "splice_loop off (Drained # rs) = (if off \<noteq> 0 then Some (None, off) else Some (Some ENOMSG, off))"
| "splice_loop off (Blocks sig # rs) =
     (if off \<noteq> 0 then Some (None, off) else if \<not> sig then Some (Some ENOTCONN, off) else splice_loop off rs)"
| "splice_loop off (SpliceErr e # rs) = Some (Some e, off)"

definition splice :: "splice_out list \<Rightarrow> (code option \<times> nat) option" where
  "splice rs = splice_loop 0 rs"

section \<open>What the loops do\<close>

text \<open>What a round comes to, in the numbers of Linux (11 for \<^verbatim>\<open>EAGAIN\<close> and \<^verbatim>\<open>EWOULDBLOCK\<close>, 103 for \<^verbatim>\<open>ECONNABORTED\<close>, 125 for
  \<^verbatim>\<open>ECANCELED\<close>): nothing when it waited and is to try again, an error, or a socket.\<close>

definition round_result :: "acc_round \<Rightarrow> (code + nat) option" where
  "round_result r =
     (if ar_result r \<noteq> Inl 11 then Some (ar_result r)
      else if ar_stopped r then Some (Inl 125)
      else if ar_signal r then None
      else Some (Inl (ar_errno r)))"

text \<open>What a server is to do with a round: serve a socket, go on, or end.\<close>

datatype duty = Serve nat | GoOn | Finish code

definition duty_on_error :: "bool \<Rightarrow> code \<Rightarrow> duty" where
  "duty_on_error stopped e = (if \<not> stopped \<and> e \<in> {11, 103} then GoOn else Finish e)"

definition duty_of :: "(nat \<Rightarrow> code) \<Rightarrow> bool \<Rightarrow> acc_round \<Rightarrow> duty" where
  "duty_of register stopped r =
     (case round_result r of
        None \<Rightarrow> GoOn
      | Some (Inl e) \<Rightarrow> duty_on_error stopped e
      | Some (Inr fd) \<Rightarrow> if register fd = 0 then Serve fd else duty_on_error stopped (register fd))"

fun serve_spec :: "(nat \<Rightarrow> code) \<Rightarrow> (acc_round list \<Rightarrow> bool) \<Rightarrow> acc_round list \<Rightarrow> nat list \<times> code option" where
  "serve_spec register stopped [] = ([], None)"
| "serve_spec register stopped (r # rs) =
     (case duty_of register (stopped rs) r of
        Serve fd \<Rightarrow> (let (fds, e) = serve_spec register stopped rs in (fd # fds, e))
      | GoOn \<Rightarrow> serve_spec register stopped rs
      | Finish e \<Rightarrow> ([], Some e))"

lemma accept_Cons: "accept (r # rs) = (case round_result r of None \<Rightarrow> accept rs | Some x \<Rightarrow> Some (x, rs))"
  by (auto simp: round_result_def ensec_bool_def EAGAIN_def ECANCELED_def split: sum.splits)

lemma accept_async_Cons:
  "accept_async register (r # rs) =
     (case round_result r of None \<Rightarrow> accept_async register rs
      | Some x \<Rightarrow> Some (case x of Inl e \<Rightarrow> Inl e | Inr fd \<Rightarrow> (if register fd = 0 then Inr fd else Inl (register fd)), rs))"
  unfolding accept_async_def accept_Cons by (auto simp: ensec_ec_def split: sum.split option.split)

lemma temporary_codes: "temporary e \<longleftrightarrow> e \<in> {11, 103}"
  by (auto simp: temporary_def EAGAIN_def ECONNABORTED_def)

lemma serve_loop_spec: "serve_loop register stopped rs = serve_spec register stopped rs"
proof (induction rs)
  case Nil
  show ?case by (subst serve_loop.simps) (simp add: accept_async_def)
next
  case (Cons r rs)
  show ?case
  proof (cases "round_result r")
    case None
    have "serve_loop register stopped (r # rs) = serve_loop register stopped rs"
      by (subst (1 2) serve_loop.simps) (simp only: accept_async_Cons None option.case)
    then show ?thesis using Cons None by (simp add: duty_of_def)
  next
    case (Some x)
    then show ?thesis using Cons
      by (subst serve_loop.simps) (auto simp: accept_async_Cons duty_of_def duty_on_error_def temporary_codes split: sum.splits)
  qed
qed

text \<open>C9. The server serves every connection it accepts: for every sequence of results of \<^verbatim>\<open>accept4\<close>, signals, stops,
  values of \<^verbatim>\<open>errno\<close> after an await and registrations, the loops of the server, of \<^verbatim>\<open>accept\<close> and of the registration
  together do what each round demands: a round that waits and is woken is skipped, an accepted and registered socket is
  served exactly once and in order, the errors 11 (would block, try again) and 103 (connection aborted) are ignored
  while the poller runs, and the loop ends with the first other error or the first error when the poller is stopped.
  The error of an await that gives false is the \<^verbatim>\<open>errno\<close> then found.\<close>

theorem serve_refines_rounds: "serve_loop register stopped rs = serve_spec register stopped rs"
  by (rule serve_loop_spec)

section \<open>Observations\<close>

text \<open>After a cancellation of the coroutine context without a shutdown, every await of the accept loop gives false
  at once.  While \<^verbatim>\<open>errno\<close> still is that of \<^verbatim>\<open>accept4\<close>, a temporary error, the server goes round for ever without
  waiting; any other value, also 0, ends it.\<close>

lemma cancelled_server_spins:
  "serve_loop register (\<lambda>_. False)
     (replicate n \<lparr>ar_result = Inl EAGAIN, ar_stopped = False, ar_signal = False, ar_errno = EAGAIN\<rparr>) = ([], None)"
  unfolding serve_loop_spec
  by (induction n) (simp_all add: duty_of_def duty_on_error_def round_result_def EAGAIN_def)

lemma cancelled_server_ends:
  "c \<notin> {11, 103} \<Longrightarrow> serve_loop register stopped
     (\<lparr>ar_result = Inl EAGAIN, ar_stopped = False, ar_signal = False, ar_errno = c\<rparr> # rs) = ([], Some c)"
  unfolding serve_loop_spec by (simp add: duty_of_def duty_on_error_def round_result_def EAGAIN_def)

text \<open>A connection that is established at once is reported as the error 0 and its socket closed.\<close>

lemma immediate_connect_fails:
  assumes "filter_interrupt (at_connect a) = Some ((0, e), rs)"
  shows "async_connect a = Some (Inl 0, False)" "ca2_impl [Try a] = Some FlowsOff" "ca2_impl (Try a # as) = ca2_impl as"
  using assms by (simp_all add: async_connect_def ca2_impl_def ensec_ec_def)

text \<open>A successful attempt ends the loop, and the coroutine then flows off its end.\<close>

lemma ca2_success_flows_off: "async_connect a = Some (Inr (), d) \<Longrightarrow> ca2_impl (Try a # as) = Some FlowsOff"
  by (simp add: ca2_impl_def ensec_ec_def)

text \<open>The errors of the blocking helpers lose the cause.\<close>

lemma gai_connect_error: "e \<noteq> EINTR \<Longrightarrow> gai_connect None [[(-1, e)]] = Some (Inl (-1))"
  by (simp add: gai_connect_def)

lemma gai_bind_error: "gai_bind 0 (replicate n SocketFails) = Inl 0"
  by (induction n) simp_all

text \<open>Moving an owner onto one that holds a descriptor loses that descriptor: nobody holds it and it is not closed.\<close>

lemma move_leaks:
  assumes "to \<noteq> src" "ow_fd w to = Some fd" "\<forall>x. x \<noteq> to \<longrightarrow> ow_fd w x \<noteq> Some fd" "fd \<notin> set (ow_closed w)"
  shows "\<forall>x. ow_fd (owner_move to src w) x \<noteq> Some fd" "fd \<notin> set (ow_closed (owner_move to src w))"
  using assms by (auto simp: owner_move_def)

text \<open>\<^verbatim>\<open>filter_interrupt\<close> drops exactly the interrupted calls in front.\<close>

lemma filter_interrupt_spec:
  "filter_interrupt rs = (case dropWhile (\<lambda>r. fst r = -1 \<and> snd r = EINTR) rs of [] \<Rightarrow> None | r # rest \<Rightarrow> Some (r, rest))"
  by (induction rs) auto

text \<open>A splice reports success only after it moved something.\<close>

lemma splice_success_moves: "splice rs = Some (None, n) \<Longrightarrow> 0 < n"
proof -
  have "splice_loop off rs = Some (None, n) \<Longrightarrow> 0 < n" for off
    by (induction off rs rule: splice_loop.induct) (auto split: if_splits)
  then show "splice rs = Some (None, n) \<Longrightarrow> 0 < n" by (simp add: splice_def)
qed

lemma server_read_bound: "server_read n rs = Some (fds, e) \<Longrightarrow> length fds \<le> n \<and> (e = None \<longrightarrow> length fds = n)"
  by (induction n rs arbitrary: fds e rule: server_read.induct) (fastforce split: option.splits sum.splits prod.splits)+

end
