(* ===== verification/Dns_Proto.thy ===== *)
theory Dns_Proto
  imports Net_Prelude
begin

text \<open>
  The fixed-size parts of DNS messages: the raw serializers of \<^verbatim>\<open>include/xsl/ser.h\<close> and the
  codes, the header, the question and the resource record of
  \<^verbatim>\<open>include/xsl/net/dns/proto/{def,header,question,rr}.h\<close>.  Memory is a list of bytes and
  a pointer an index into it; a mutable \<^verbatim>\<open>std::span<byte>&\<close> is the memory with the index of
  the span's first byte.  The host is little-endian, so \<^verbatim>\<open>htons\<close> and \<^verbatim>\<open>htonl\<close> swap bytes.
  The theorems show that the header, the question and the resource record survive the round
  trip through the wire format and that the in-place setters change exactly their field.
\<close>

section \<open>Raw serialization\<close>

type_synonym byte = "8 word"

text \<open>The object representation of 16 and 32 bit integers, and reading it back.\<close>

definition raw16 :: "16 word \<Rightarrow> byte list" where
  "raw16 w = [ucast w, ucast (drop_bit 8 w)]"

definition raw32 :: "32 word \<Rightarrow> byte list" where
  "raw32 w = [ucast w, ucast (drop_bit 8 w), ucast (drop_bit 16 w), ucast (drop_bit 24 w)]"

definition load16 :: "byte list \<Rightarrow> nat \<Rightarrow> 16 word" where
  "load16 buf off = ucast (buf ! off) OR push_bit 8 (ucast (buf ! (off + 1)))"

definition load32 :: "byte list \<Rightarrow> nat \<Rightarrow> 32 word" where
  "load32 buf off = ucast (buf ! off) OR push_bit 8 (ucast (buf ! (off + 1)))
     OR push_bit 16 (ucast (buf ! (off + 2))) OR push_bit 24 (ucast (buf ! (off + 3)))"

definition htons :: "16 word \<Rightarrow> 16 word" where
  "htons w = load16 (rev (raw16 w)) 0"

definition htonl :: "32 word \<Rightarrow> 32 word" where
  "htonl w = load32 (rev (raw32 w)) 0"

abbreviation ntohs :: "16 word \<Rightarrow> 16 word" where "ntohs \<equiv> htons"
abbreviation ntohl :: "32 word \<Rightarrow> 32 word" where "ntohl \<equiv> htonl"

text \<open>\<^verbatim>\<open>serialize\<close>, \<^verbatim>\<open>serialize_all\<close> and \<^verbatim>\<open>serialized\<close> on values given by their object
  representations; they return the bytes written or the advanced span.\<close>

definition serialize :: "byte list \<Rightarrow> nat \<Rightarrow> byte list \<Rightarrow> byte list \<times> nat" where
  "serialize buf p raw = (blit buf p raw, length raw)"

fun serialize_all :: "byte list \<Rightarrow> nat \<Rightarrow> byte list list \<Rightarrow> byte list \<times> nat" where
  "serialize_all buf p [] = (buf, 0)"
| "serialize_all buf p (v # vs) =
     (let (buf1, n) = serialize buf p v; (buf2, m) = serialize_all buf1 (p + n) vs in (buf2, n + m))"

definition serialized :: "byte list \<times> nat \<Rightarrow> byte list list \<Rightarrow> byte list \<times> nat" where
  "serialized span vs =
     (let (buf, n) = serialize_all (fst span) (snd span) vs in (buf, snd span + n))"

text \<open>\<^verbatim>\<open>reserved\<close> returns the address of a hole of \<open>n\<close> bytes and advances the span.\<close>

definition reserved :: "byte list \<times> nat \<Rightarrow> nat \<Rightarrow> nat \<times> (byte list \<times> nat)" where
  "reserved span n = (snd span, (fst span, snd span + n))"

subsection \<open>Reading back what was written\<close>

lemma length_raw [simp]: "length (raw16 w) = 2" "length (raw32 x) = 4"
  by (simp_all add: raw16_def raw32_def)

lemma bit_byte_ge: "8 \<le> n \<Longrightarrow> \<not> bit (b :: byte) n"
  using bit_imp_le_length [of b n] by auto

lemma low_byte16: "ucast ((ucast (b :: byte) :: 16 word) OR push_bit 8 (ucast (c :: byte))) = b"
  by (rule bit_word_eqI) (auto simp: bit_simps)

lemma high_byte16:
  "ucast (drop_bit 8 ((ucast (b :: byte) :: 16 word) OR push_bit 8 (ucast (c :: byte)))) = c"
  by (rule bit_word_eqI) (auto simp: bit_simps bit_byte_ge)

lemma bytes32:
  fixes b c d e :: byte
  defines "w \<equiv> (ucast b :: 32 word) OR push_bit 8 (ucast c) OR push_bit 16 (ucast d) OR push_bit 24 (ucast e)"
  shows "ucast w = b" "ucast (drop_bit 8 w) = c" "ucast (drop_bit 16 w) = d" "ucast (drop_bit 24 w) = e"
  unfolding w_def by (rule bit_word_eqI; auto simp: bit_simps bit_byte_ge)+

lemma sub_two: "p + 2 \<le> length buf \<Longrightarrow> sub buf p 2 = [buf ! p, buf ! (p + 1)]"
  by (auto simp: sub_def list_eq_iff_nth_eq less_Suc_eq numeral_2_eq_2)

lemma sub_four:
  "p + 4 \<le> length buf \<Longrightarrow> sub buf p 4 = [buf ! p, buf ! (p + 1), buf ! (p + 2), buf ! (p + 3)]"
  by (auto simp: sub_def list_eq_iff_nth_eq less_Suc_eq numeral_eq_Suc)

lemma raw16_load: "p + 2 \<le> length buf \<Longrightarrow> raw16 (load16 buf p) = sub buf p 2"
  unfolding raw16_def load16_def low_byte16 high_byte16 by (simp add: sub_two)

lemma raw32_load: "p + 4 \<le> length buf \<Longrightarrow> raw32 (load32 buf p) = sub buf p 4"
  unfolding raw32_def load32_def bytes32 by (simp add: sub_four)

lemma load16_raw [simp]: "load16 (raw16 w) 0 = w"
  unfolding load16_def raw16_def by (rule bit_word_eqI) (auto simp: bit_simps)

lemma load32_raw [simp]: "load32 (raw32 w) 0 = w"
proof (rule bit_word_eqI)
  fix n assume "n < LENGTH(32)"
  then consider "n < 8" | "8 \<le> n" "n < 16" | "16 \<le> n" "n < 24" | "24 \<le> n" "n < 32" by force
  then show "bit (load32 (raw32 w) 0) n = bit w n"
    by cases (simp_all add: load32_def raw32_def bit_simps numeral_3_eq_3 bit_byte_ge, auto)
qed

lemma raw16_htons: "raw16 (htons w) = rev (raw16 w)"
  using raw16_load [of 0 "rev (raw16 w)"] by (simp add: htons_def sub_def)

lemma raw32_htonl: "raw32 (htonl w) = rev (raw32 w)"
  using raw32_load [of 0 "rev (raw32 w)"] by (simp add: htonl_def sub_def)

lemma htons_htons [simp]: "htons (htons w) = w"
  unfolding htons_def [of "htons w"] raw16_htons by simp

lemma htonl_htonl [simp]: "htonl (htonl w) = w"
  unfolding htonl_def [of "htonl w"] raw32_htonl by simp

lemma serialize_all_blit:
  "p + length (concat vs) \<le> length buf \<Longrightarrow>
   serialize_all buf p vs = (blit buf p (concat vs), length (concat vs))"
proof (induction vs arbitrary: buf p)
  case (Cons v vs)
  have "serialize_all (blit buf p v) (p + length v) vs
      = (blit (blit buf p v) (p + length v) (concat vs), length (concat vs))"
    using Cons.prems by (intro Cons.IH) simp
  moreover have "blit (blit buf p v) (p + length v) (concat vs) = blit buf p (concat (v # vs))"
    using Cons.prems by (simp add: blit_def ac_simps)
  ultimately show ?case by (simp add: serialize_def)
qed simp

lemma serialized_blit:
  "p + length (concat vs) \<le> length buf \<Longrightarrow>
   serialized (buf, p) vs = (blit buf p (concat vs), p + length (concat vs))"
  by (simp add: serialized_def serialize_all_blit)

lemma load16_blit:
  "\<lbrakk>p + length bs \<le> length buf; k + 2 \<le> length bs\<rbrakk> \<Longrightarrow> load16 (blit buf p bs) (p + k) = load16 bs k"
  by (simp add: load16_def nth_blit)

lemma load32_blit:
  "\<lbrakk>p + length bs \<le> length buf; k + 4 \<le> length bs\<rbrakk> \<Longrightarrow> load32 (blit buf p bs) (p + k) = load32 bs k"
  by (simp add: load32_def nth_blit)

lemma load16_outside:
  "\<lbrakk>p + length bs \<le> length buf; q + 2 \<le> length buf; q + 2 \<le> p \<or> p + length bs \<le> q\<rbrakk>
    \<Longrightarrow> load16 (blit buf p bs) q = load16 buf q"
  by (auto simp: load16_def nth_blit)

lemma load32_outside:
  "\<lbrakk>p + length bs \<le> length buf; q + 4 \<le> length buf; q + 4 \<le> p \<or> p + length bs \<le> q\<rbrakk>
    \<Longrightarrow> load32 (blit buf p bs) q = load32 buf q"
  by (auto simp: load32_def nth_blit)

lemma load16_append1 [simp]: "length bs = k \<Longrightarrow> load16 (bs @ raw16 w @ r) k = w"
  using load16_raw [of w] by (simp add: load16_def nth_append raw16_def)

lemma load32_append1 [simp]: "length bs = k \<Longrightarrow> load32 (bs @ raw32 w @ r) k = w"
  using load32_raw [of w] by (simp add: load32_def nth_append raw32_def)

lemma load16_written:
  "\<lbrakk>p + length (raw16 w) \<le> length buf\<rbrakk> \<Longrightarrow> load16 (blit buf p (raw16 w)) p = w"
  using load16_blit [of p "raw16 w" buf 0] by simp

lemma load32_written:
  "\<lbrakk>p + length (raw32 w) \<le> length buf\<rbrakk> \<Longrightarrow> load32 (blit buf p (raw32 w)) p = w"
  using load32_blit [of p "raw32 w" buf 0] by simp

section \<open>Codes\<close>

definition MAX_SIZE_DNS_UDP :: nat where "MAX_SIZE_DNS_UDP = 512"

definition RCODE_STR :: "string list" where
  "RCODE_STR = [''No Error'', ''Format Error'', ''Server Failure'', ''Name Error'', ''Not Implemented'', ''Refused'']"

text \<open>\<^verbatim>\<open>RCode\<close>: a byte with named values; the four bits of the flags word may hold values
  that have no name.\<close>

type_synonym RCode = byte

abbreviation (input) NO_ERROR :: RCode where "NO_ERROR \<equiv> 0"
abbreviation (input) FORMAT_ERROR :: RCode where "FORMAT_ERROR \<equiv> 1"
abbreviation (input) SERVER_FAILURE :: RCode where "SERVER_FAILURE \<equiv> 2"
abbreviation (input) NAME_ERROR :: RCode where "NAME_ERROR \<equiv> 3"
abbreviation (input) NOT_IMPLEMENTED :: RCode where "NOT_IMPLEMENTED \<equiv> 4"
abbreviation (input) REFUSED :: RCode where "REFUSED \<equiv> 5"

definition rcode_from_u16 :: "16 word \<Rightarrow> RCode" where
  "rcode_from_u16 u = ucast u"

definition rcode_to_errc :: "RCode \<Rightarrow> ec" where
  "rcode_to_errc c =
     (if c = NO_ERROR then ok
      else if c = FORMAT_ERROR then Some invalid_argument
      else if c = SERVER_FAILURE then Some io_error
      else if c = NAME_ERROR then Some no_such_file_or_directory
      else if c = NOT_IMPLEMENTED then Some function_not_supported
      else if c = REFUSED then Some operation_not_permitted
      else Some protocol_error)"

text \<open>\<^verbatim>\<open>RCODE_STR[_code]\<close>; \<^term>\<open>None\<close> is the read past the table's six entries.\<close>

definition rcode_to_string_view :: "RCode \<Rightarrow> string option" where
  "rcode_to_string_view c = (if unat c < length RCODE_STR then Some (RCODE_STR ! unat c) else None)"

definition TYPE_STR :: "string list" where
  "TYPE_STR = [''A'', ''NS'', ''MD'', ''MF'', ''CNAME'', ''SOA'', ''MB'', ''MG'', ''MR'', ''NULL'',
     ''WKS'', ''PTR'', ''HINFO'', ''MINFO'', ''MX'', ''TXT'', ''AXFR'', ''MAILB'', ''MAILA'', ''ANY'']"

definition MAX_CONSECUTIVE_TYPE_INDEX :: nat where "MAX_CONSECUTIVE_TYPE_INDEX = 16"

type_synonym dns_type = "16 word"

text \<open>The enumerators of \<^verbatim>\<open>Type\<close> with the number each stands for.\<close>

definition type_enum :: "(string \<times> nat) list" where
  "type_enum = [(''A'', 1), (''NS'', 2), (''MD'', 3), (''MF'', 4), (''CNAME'', 5), (''SOA'', 6), (''MB'', 7),
     (''MG'', 8), (''MR'', 9), (''NULL'', 10), (''WKS'', 11), (''PTR'', 12), (''HINFO'', 13), (''MINFO'', 14),
     (''MX'', 15), (''TXT'', 16), (''AXFR'', 252), (''MAILB'', 253), (''MAILA'', 254), (''ANY'', 255)]"

definition type_to_string_view :: "dns_type \<Rightarrow> string" where
  "type_to_string_view t =
     (let n = unat t in
      if n < 1 then ''Unknown''
      else if n < MAX_CONSECUTIVE_TYPE_INDEX then TYPE_STR ! (n - 1)
      else if n < 252 then ''Unknown''
      else if n < 256 then TYPE_STR ! (n - 252 + MAX_CONSECUTIVE_TYPE_INDEX)
      else ''Unknown'')"

definition type_from_bytes :: "byte list \<Rightarrow> nat \<Rightarrow> dns_type" where
  "type_from_bytes buf p = ntohs (load16 buf p)"

definition type_serialized :: "dns_type \<Rightarrow> byte list \<times> nat \<Rightarrow> byte list \<times> nat" where
  "type_serialized t span = serialized span [raw16 (htons t)]"

definition type_serialize :: "dns_type \<Rightarrow> byte list \<Rightarrow> nat \<Rightarrow> byte list \<times> nat" where
  "type_serialize t buf p = serialize buf p (raw16 (htons t))"

definition type_deserialize :: "byte list \<Rightarrow> nat \<Rightarrow> dns_type \<times> nat" where
  "type_deserialize buf p = (ntohs (load16 buf p), 2)"

definition CLASS_STR :: "string list" where
  "CLASS_STR = [''IN'', ''CS'', ''CH'', ''HS'', ''ANY'']"

definition MAX_CONSECUTIVE_CLASS_INDEX :: nat where "MAX_CONSECUTIVE_CLASS_INDEX = 4"

type_synonym dns_class = "16 word"

definition class_enum :: "(string \<times> nat) list" where
  "class_enum = [(''IN'', 1), (''CS'', 2), (''CH'', 3), (''HS'', 4), (''ANY'', 255)]"

definition class_to_string_view :: "dns_class \<Rightarrow> string" where
  "class_to_string_view c =
     (let n = unat c in
      if n < 1 then ''Unknown''
      else if n < MAX_CONSECUTIVE_CLASS_INDEX then CLASS_STR ! (n - 1)
      else if n < 255 then ''Unknown''
      else CLASS_STR ! MAX_CONSECUTIVE_CLASS_INDEX)"

definition class_from_bytes :: "byte list \<Rightarrow> nat \<Rightarrow> dns_class" where
  "class_from_bytes buf p = ntohs (load16 buf p)"

definition class_serialized :: "dns_class \<Rightarrow> byte list \<times> nat \<Rightarrow> byte list \<times> nat" where
  "class_serialized c span = serialized span [raw16 (htons c)]"

definition class_serialize :: "dns_class \<Rightarrow> byte list \<Rightarrow> nat \<Rightarrow> byte list \<times> nat" where
  "class_serialize c buf p = serialize buf p (raw16 (htons c))"

definition class_deserialize :: "byte list \<Rightarrow> nat \<Rightarrow> dns_class \<times> nat" where
  "class_deserialize buf p = (ntohs (load16 buf p), 2)"

text \<open>Every enumerator prints as its name, except the last of each consecutive range: \<^verbatim>\<open>TXT\<close> and
  \<^verbatim>\<open>HS\<close> fall into the \<^verbatim>\<open>Unknown\<close> branch because the comparison excludes the bound.\<close>

lemma type_names:
  "filter (\<lambda>(s, n). type_to_string_view (of_nat n) \<noteq> s) type_enum = [(''TXT'', 16)]"
  by (simp add: type_enum_def type_to_string_view_def TYPE_STR_def MAX_CONSECUTIVE_TYPE_INDEX_def)

lemma class_names:
  "filter (\<lambda>(s, n). class_to_string_view (of_nat n) \<noteq> s) class_enum = [(''HS'', 4)]"
  by (simp add: class_enum_def class_to_string_view_def CLASS_STR_def MAX_CONSECUTIVE_CLASS_INDEX_def)

lemma class_above_any: "255 \<le> unat c \<Longrightarrow> class_to_string_view c = ''ANY''"
  by (simp add: class_to_string_view_def CLASS_STR_def MAX_CONSECUTIVE_CLASS_INDEX_def Let_def)

lemma rcode_unnamed: "rcode_to_string_view c = None \<longleftrightarrow> 6 \<le> unat c"
  by (auto simp: rcode_to_string_view_def RCODE_STR_def)

section \<open>The header\<close>

text \<open>The bit fields of \<^verbatim>\<open>Flags\<close>.\<close>

record Flags =
  qr :: "1 word"
  opcode :: "4 word"
  aa :: "1 word"
  tc :: "1 word"
  rd :: "1 word"
  ra :: "1 word"
  zb :: "1 word"
  ad :: "1 word"
  cd :: "1 word"
  rcode_bits :: "4 word"

definition flags_of_u16 :: "16 word \<Rightarrow> Flags" where
  "flags_of_u16 u = \<lparr>
     qr = ucast (drop_bit 15 u AND 1), opcode = ucast (drop_bit 11 u AND 15),
     aa = ucast (drop_bit 10 u AND 1), tc = ucast (drop_bit 9 u AND 1), rd = ucast (drop_bit 8 u AND 1),
     ra = ucast (drop_bit 7 u AND 1), zb = ucast (drop_bit 6 u AND 1), ad = ucast (drop_bit 5 u AND 1),
     cd = ucast (drop_bit 4 u AND 1), rcode_bits = ucast (u AND 15)\<rparr>"

definition flags_to_u16 :: "Flags \<Rightarrow> 16 word" where
  "flags_to_u16 f =
     push_bit 15 (ucast (qr f)) OR push_bit 11 (ucast (opcode f)) OR push_bit 10 (ucast (aa f))
     OR push_bit 9 (ucast (tc f)) OR push_bit 8 (ucast (rd f)) OR push_bit 7 (ucast (ra f))
     OR push_bit 6 (ucast (zb f)) OR push_bit 5 (ucast (ad f)) OR push_bit 4 (ucast (cd f))
     OR ucast (rcode_bits f)"

definition flags_rcode :: "Flags \<Rightarrow> RCode" where
  "flags_rcode f = rcode_from_u16 (ucast (rcode_bits f))"

definition flags_deserialize :: "byte list \<Rightarrow> nat \<Rightarrow> Flags \<times> nat" where
  "flags_deserialize buf p = (flags_of_u16 (ntohs (load16 buf p)), 2)"

record Header =
  hdr_id :: "16 word"
  flags :: Flags
  qdcount :: "16 word"
  ancount :: "16 word"
  nscount :: "16 word"
  arcount :: "16 word"

definition header_raws :: "Header \<Rightarrow> byte list list" where
  "header_raws h = [raw16 (hdr_id h), raw16 (htons (flags_to_u16 (flags h))), raw16 (htons (qdcount h)),
     raw16 (htons (ancount h)), raw16 (htons (nscount h)), raw16 (htons (arcount h))]"

definition header_rcode :: "Header \<Rightarrow> RCode" where
  "header_rcode h = flags_rcode (flags h)"

definition header_serialized :: "Header \<Rightarrow> byte list \<times> nat \<Rightarrow> byte list \<times> nat" where
  "header_serialized h span = serialized span (header_raws h)"

definition header_serialize :: "Header \<Rightarrow> byte list \<Rightarrow> nat \<Rightarrow> byte list \<times> nat" where
  "header_serialize h buf p = serialize_all buf p (header_raws h)"

text \<open>Both deserializers read the transaction id as it lies in memory and swap the other fields.\<close>

definition header_deserialize :: "byte list \<Rightarrow> nat \<Rightarrow> Header \<times> nat" where
  "header_deserialize buf p =
     (\<lparr>hdr_id = load16 buf p, flags = flags_of_u16 (ntohs (load16 buf (p + 2))),
       qdcount = ntohs (load16 buf (p + 4)), ancount = ntohs (load16 buf (p + 6)),
       nscount = ntohs (load16 buf (p + 8)), arcount = ntohs (load16 buf (p + 10))\<rparr>, 12)"

definition header_deserialized :: "byte list \<times> nat \<Rightarrow> Header \<times> (byte list \<times> nat)" where
  "header_deserialized span =
     (let (buf, p) = span;
          i = load16 buf p;
          (f, n) = flags_deserialize buf (p + 2);
          q = p + 2 + n
      in (\<lparr>hdr_id = i, flags = f, qdcount = ntohs (load16 buf q), ancount = ntohs (load16 buf (q + 2)),
           nscount = ntohs (load16 buf (q + 4)), arcount = ntohs (load16 buf (q + 6))\<rparr>, (buf, q + 8)))"

text \<open>\<^verbatim>\<open>HeaderView\<close>: in-place access to a header at address \<open>p\<close>.\<close>

definition view_qdcount :: "byte list \<Rightarrow> nat \<Rightarrow> 16 word" where
  "view_qdcount buf p = ntohs (load16 buf (p + 4))"

definition view_ancount :: "16 word \<Rightarrow> byte list \<Rightarrow> nat \<Rightarrow> byte list" where
  "view_ancount c buf p = fst (serialize buf (p + 6) (raw16 (htons c)))"

definition view_arcount :: "16 word \<Rightarrow> byte list \<Rightarrow> nat \<Rightarrow> byte list" where
  "view_arcount c buf p = fst (serialize buf (p + 10) (raw16 (htons c)))"

definition view_response :: "byte list \<Rightarrow> nat \<Rightarrow> byte list" where
  "view_response buf p =
     (let (f, _) = flags_deserialize buf (p + 2)
      in fst (serialize buf (p + 2) (raw16 (htons (flags_to_u16 (f\<lparr>qr := 1\<rparr>))))))"

definition view_basic_response :: "byte list \<Rightarrow> nat \<Rightarrow> byte list" where
  "view_basic_response buf p =
     (let (f, _) = flags_deserialize buf (p + 2)
      in fst (serialize buf (p + 2) (raw16 (htons (flags_to_u16 (f\<lparr>qr := 1, ra := 1, ad := 0\<rparr>))))))"

subsection \<open>The flag word\<close>

lemma mask_numerals: "(1 :: 16 word) = mask 1" "(15 :: 16 word) = mask 4"
  by (simp_all add: mask_eq_exp_minus_1)

lemma bit_field_ge: "1 \<le> n \<Longrightarrow> \<not> bit (b :: 1 word) n" "4 \<le> n \<Longrightarrow> \<not> bit (d :: 4 word) n"
  using bit_imp_le_length [of b n] bit_imp_le_length [of d n] by auto

text \<open>Where each field lies in the word, written and read.\<close>

lemma bit_put1: "bit (push_bit k (ucast (b :: 1 word)) :: 16 word) n \<longleftrightarrow> n = k \<and> k < 16 \<and> bit b 0"
  by (cases "n = k") (auto simp: bit_push_bit_iff bit_ucast_iff bit_field_ge)

lemma bit_put4: "bit (push_bit 11 (ucast (d :: 4 word)) :: 16 word) n \<longleftrightarrow> 11 \<le> n \<and> n < 15 \<and> bit d (n - 11)"
  by (cases "4 \<le> n - 11") (auto simp: bit_push_bit_iff bit_ucast_iff bit_field_ge)

lemma bit_put0: "bit (ucast (d :: 4 word) :: 16 word) n \<longleftrightarrow> n < 4 \<and> bit d n"
  by (cases "4 \<le> n") (auto simp: bit_ucast_iff bit_field_ge)

lemma bit_get1: "bit (ucast ((drop_bit k u :: 16 word) AND 1) :: 1 word) n \<longleftrightarrow> n = 0 \<and> bit u k"
  unfolding mask_numerals(1)
  by (auto simp: bit_ucast_iff bit_and_iff bit_drop_bit_eq bit_mask_iff)

lemma bit_get4:
  "bit (ucast ((u :: 16 word) AND 15) :: 4 word) n \<longleftrightarrow> n < 4 \<and> bit u n"
  unfolding mask_numerals(2) by (auto simp: bit_ucast_iff bit_and_iff bit_mask_iff)

lemmas flag_bits = bit_put1 bit_put4 bit_put0 bit_get1 bit_get4

lemma flags_of_to [simp]: "flags_of_u16 (flags_to_u16 f) = f"
proof (rule Flags.equality)
  let ?g = "flags_of_u16 (flags_to_u16 f)"
  show "qr ?g = qr f" "opcode ?g = opcode f" "aa ?g = aa f" "tc ?g = tc f" "rd ?g = rd f" "ra ?g = ra f"
    "zb ?g = zb f" "ad ?g = ad f" "cd ?g = cd f" "rcode_bits ?g = rcode_bits f"
    by (rule bit_word_eqI,
        simp only: flags_of_u16_def flags_to_u16_def Flags.simps flag_bits bit_drop_bit_eq comp_apply bit_or_iff,
        force)+
qed simp

lemma flags_to_of [simp]: "flags_to_u16 (flags_of_u16 u) = u"
proof (rule bit_word_eqI)
  fix n assume "n < LENGTH(16)"
  then consider "n = 15" | "11 \<le> n" "n < 15" | "n = 10" | "n = 9" | "n = 8" | "n = 7" | "n = 6" | "n = 5"
    | "n = 4" | "n < 4" by force
  then show "bit (flags_to_u16 (flags_of_u16 u)) n = bit u n"
    by cases (simp_all only: flags_of_u16_def flags_to_u16_def Flags.simps flag_bits bit_drop_bit_eq comp_apply
        bit_or_iff, auto)
qed

subsection \<open>Round trips\<close>

lemma length_header_raws [simp]: "length (concat (header_raws h)) = 12"
  by (simp add: header_raws_def)

lemma header_loads:
  "load16 (concat (header_raws h)) 0 = hdr_id h"
  "load16 (concat (header_raws h)) 2 = htons (flags_to_u16 (flags h))"
  "load16 (concat (header_raws h)) 4 = htons (qdcount h)"
  "load16 (concat (header_raws h)) 6 = htons (ancount h)"
  "load16 (concat (header_raws h)) 8 = htons (nscount h)"
  "load16 (concat (header_raws h)) 10 = htons (arcount h)"
  using load16_append1 [of "[]" 0] load16_append1 [of "raw16 a" 2 for a]
    load16_append1 [of "raw16 a @ raw16 b" 4 for a b] load16_append1 [of "raw16 a @ raw16 b @ raw16 c" 6 for a b c]
    load16_append1 [of "raw16 a @ raw16 b @ raw16 c @ raw16 d" 8 for a b c d]
    load16_append1 [of "raw16 a @ raw16 b @ raw16 c @ raw16 d @ raw16 e" 10 _ "[]" for a b c d e]
  by (simp_all add: header_raws_def)

lemma header_deserialize_blit:
  assumes "p + 12 \<le> length buf"
  shows "header_deserialize (blit buf p (concat (header_raws h))) p = (h, 12)"
proof -
  have "load16 (blit buf p (concat (header_raws h))) (p + k) = load16 (concat (header_raws h)) k"
    if "k + 2 \<le> 12" for k
    using assms that by (intro load16_blit) simp_all
  from this [of 0] this [of 2] this [of 4] this [of 6] this [of 8] this [of 10]
  show ?thesis by (simp add: header_deserialize_def header_loads)
qed

lemma header_deserialized_eq:
  "header_deserialized (buf, p) = (fst (header_deserialize buf p), (buf, p + 12))"
  by (simp add: header_deserialized_def header_deserialize_def flags_deserialize_def numeral_eq_Suc)

lemma concat_loads: "p + 12 \<le> length buf \<Longrightarrow>
    sub buf p 2 @ sub buf (p + 2) 2 @ sub buf (p + 4) 2 @ sub buf (p + 6) 2 @ sub buf (p + 8) 2 @ sub buf (p + 10) 2
    = sub buf p 12"
  by (auto simp: sub_def list_eq_iff_nth_eq nth_append less_Suc_eq numeral_eq_Suc)

lemma header_raws_deserialize:
  assumes "p + 12 \<le> length buf"
  shows "concat (header_raws (fst (header_deserialize buf p))) = sub buf p 12"
  using assms concat_loads [OF assms] by (simp add: header_raws_def header_deserialize_def raw16_load)

text \<open>Headers round trip both ways: what either serializer writes reads back as the same header, twelve
  bytes long, with nothing outside them changed; and serializing what was read from any twelve bytes
  reproduces them.\<close>

lemma dns_header_round_trip:
  assumes "p + 12 \<le> length buf"
  shows "\<exists>buf'. header_serialize h buf p = (buf', 12) \<and> header_serialized h (buf, p) = (buf', p + 12)
     \<and> header_deserialize buf' p = (h, 12) \<and> header_deserialized (buf', p) = (h, (buf', p + 12))
     \<and> take p buf' = take p buf \<and> drop (p + 12) buf' = drop (p + 12) buf
     \<and> fst (header_serialize (fst (header_deserialize buf p)) buf p) = buf"
proof -
  let ?b = "blit buf p (concat (header_raws h))"
  have "header_serialize h buf p = (?b, 12)" "header_serialized h (buf, p) = (?b, p + 12)"
    using assms by (simp_all add: header_serialize_def header_serialized_def serialize_all_blit serialized_blit)
  moreover have "take p ?b = take p buf" "drop (p + 12) ?b = drop (p + 12) buf"
    using assms by (simp_all add: blit_def)
  moreover have "fst (header_serialize (fst (header_deserialize buf p)) buf p) = blit buf p (sub buf p 12)"
    using assms by (simp add: header_serialize_def serialize_all_blit header_raws_deserialize)
  moreover have "blit buf p (sub buf p 12) = buf"
    using assms by (simp add: blit_def sub_def) (metis append_take_drop_id drop_drop add.commute)
  ultimately show ?thesis using header_deserialize_blit [OF assms, of h] by (simp add: header_deserialized_eq)
qed

lemma dns_header_round_trip_witness:
  "\<exists>buf'. header_serialize (fst (header_deserialize [1,2,3,4,5,6,7,8,9,10,11,12] 0)) (replicate 13 0) 1 = (buf', 12)
     \<and> buf' = [0,1,2,3,4,5,6,7,8,9,10,11,12]"
proof -
  let ?h = "fst (header_deserialize [1,2,3,4,5,6,7,8,9,10,11,12] 0)"
  have "header_serialize ?h (replicate 13 0) 1 = (blit (replicate 13 0) 1 (sub [1,2,3,4,5,6,7,8,9,10,11,12] 0 12), 12)"
    using header_raws_deserialize [of 0 "[1,2,3,4,5,6,7,8,9,10,11,12]"]
    by (simp add: header_serialize_def serialize_all_blit)
  then show ?thesis
    using dns_header_round_trip [of 1 "replicate 13 0" ?h] by (simp add: blit_def sub_def numeral_eq_Suc)
qed

text \<open>The in-place view of a header changes exactly what it announces: \<^verbatim>\<open>basic_response\<close> turns a query
  into a response with recursion available and no authenticated data, \<^verbatim>\<open>response\<close> only sets the response
  bit, the count setters only set their count; every other field, and the rest of the message, is kept.\<close>

lemma dns_header_view:
  assumes "p + 12 \<le> length buf" and "header_deserialize buf p = (h, n)"
  shows "header_deserialize (view_basic_response buf p) p = (h\<lparr>flags := (flags h)\<lparr>qr := 1, ra := 1, ad := 0\<rparr>\<rparr>, n)
     \<and> header_deserialize (view_response buf p) p = (h\<lparr>flags := (flags h)\<lparr>qr := 1\<rparr>\<rparr>, n)
     \<and> header_deserialize (view_ancount c buf p) p = (h\<lparr>ancount := c\<rparr>, n)
     \<and> header_deserialize (view_arcount c buf p) p = (h\<lparr>arcount := c\<rparr>, n)
     \<and> view_qdcount buf p = qdcount h
     \<and> drop (p + 12) (view_basic_response buf p) = drop (p + 12) buf"
proof -
  have l: "load16 (blit buf (p + k) (raw16 w)) (p + j) = (if j = k then w else load16 buf (p + j))"
    if "k + 2 \<le> 12" "j + 2 \<le> 12" "j = k \<or> j + 2 \<le> k \<or> k + 2 \<le> j" for k j w
    using that assms(1) load16_written [of "p + k" w buf] load16_outside [of "p + k" "raw16 w" buf "p + j"] by auto
  have l0: "load16 (blit buf (p + k) (raw16 w)) p = load16 buf p" if "2 \<le> k" "k + 2 \<le> 12" for k w
    using that l [of k 0 w] by simp
  have h: "h = fst (header_deserialize buf p)" "n = 12" using assms(2) by (simp_all add: header_deserialize_def)
  have "drop (p + 12) (view_basic_response buf p) = drop (p + 12) buf"
    using assms(1) by (simp add: view_basic_response_def flags_deserialize_def serialize_def blit_def add.commute)
  then show ?thesis
    by (simp add: h view_basic_response_def view_response_def view_ancount_def view_arcount_def view_qdcount_def
        flags_deserialize_def serialize_def header_deserialize_def l l0 del: add_2_eq_Suc')
qed

lemma dns_header_view_witness:
  "header_deserialize (view_ancount 7 (replicate 12 0) 0) 0 = ((fst (header_deserialize (replicate 12 0) 0))\<lparr>ancount := 7\<rparr>, 12)"
  using dns_header_view [of 0 "replicate 12 0" "fst (header_deserialize (replicate 12 0) 0)" 12 7]
  by (simp add: header_deserialize_def)

section \<open>Questions and resource records\<close>

record Question =
  qtype :: dns_type
  qclass :: dns_class

definition question_serialized :: "Question \<Rightarrow> byte list \<times> nat \<Rightarrow> byte list \<times> nat" where
  "question_serialized q span = class_serialized (qclass q) (type_serialized (qtype q) span)"

definition question_serialize :: "Question \<Rightarrow> byte list \<Rightarrow> nat \<Rightarrow> byte list \<times> nat" where
  "question_serialize q buf p =
     (let (buf1, n) = type_serialize (qtype q) buf p; (buf2, m) = class_serialize (qclass q) buf1 (p + 2)
      in (buf2, n + m))"

definition question_deserialize :: "byte list \<Rightarrow> nat \<Rightarrow> Question \<times> nat" where
  "question_deserialize buf p =
     (let (t, n) = type_deserialize buf p; (c, m) = class_deserialize buf (p + n)
      in (\<lparr>qtype = t, qclass = c\<rparr>, n + m))"

definition RR_HEADER_SIZE :: nat where "RR_HEADER_SIZE = 10"
definition RR_TYPE_OFFSET :: nat where "RR_TYPE_OFFSET = 0"
definition RR_CLASS_OFFSET :: nat where "RR_CLASS_OFFSET = 2"
definition RR_TTL_OFFSET :: nat where "RR_TTL_OFFSET = 4"
definition RR_RDLENGTH_OFFSET :: nat where "RR_RDLENGTH_OFFSET = 8"
definition RR_RDATA_OFFSET :: nat where "RR_RDATA_OFFSET = 10"

lemmas rr_offsets = RR_HEADER_SIZE_def RR_TYPE_OFFSET_def RR_CLASS_OFFSET_def RR_TTL_OFFSET_def
  RR_RDLENGTH_OFFSET_def RR_RDATA_OFFSET_def

text \<open>\<^verbatim>\<open>RR\<close> owns the bytes of the record after its name; the record of a truncated message is the
  null pointer, here \<^term>\<open>None\<close>.\<close>

type_synonym rr_data = "byte list"

definition rr_from_bytes :: "byte list \<Rightarrow> rr_data option \<times> byte list" where
  "rr_from_bytes src =
     (let rest_length = RR_HEADER_SIZE + unat (ntohs (load16 src RR_RDLENGTH_OFFSET)) in
      if rest_length > length src then (None, src)
      else (Some (take rest_length src), drop rest_length src))"

definition rr_is_valid :: "rr_data option \<Rightarrow> bool" where
  "rr_is_valid r = (r \<noteq> None)"

definition rr_new :: "16 word \<Rightarrow> rr_data" where
  "rr_new rdlength =
     fst (serialize (replicate (RR_HEADER_SIZE + unat rdlength) 0) RR_RDLENGTH_OFFSET (raw16 (htons rdlength)))"

definition rr_type :: "rr_data \<Rightarrow> dns_type" where
  "rr_type d = type_from_bytes d RR_TYPE_OFFSET"

definition rr_set_type :: "dns_type \<Rightarrow> rr_data \<Rightarrow> rr_data" where
  "rr_set_type t d = fst (type_serialize t d RR_TYPE_OFFSET)"

definition rr_class :: "rr_data \<Rightarrow> dns_class" where
  "rr_class d = class_from_bytes d RR_CLASS_OFFSET"

definition rr_set_class :: "dns_class \<Rightarrow> rr_data \<Rightarrow> rr_data" where
  "rr_set_class c d = fst (class_serialize c d RR_CLASS_OFFSET)"

definition rr_ttl :: "rr_data \<Rightarrow> 32 word" where
  "rr_ttl d = ntohl (load32 d RR_TTL_OFFSET)"

definition rr_set_ttl :: "32 word \<Rightarrow> rr_data \<Rightarrow> rr_data" where
  "rr_set_ttl t d = fst (serialize d RR_TTL_OFFSET (raw32 (htonl t)))"

definition rr_rdlength :: "rr_data \<Rightarrow> 16 word" where
  "rr_rdlength d = ntohs (load16 d RR_RDLENGTH_OFFSET)"

definition rr_rdata :: "rr_data \<Rightarrow> byte list" where
  "rr_rdata d = sub d RR_RDATA_OFFSET (unat (rr_rdlength d))"

definition rr_set_rdata :: "byte list \<Rightarrow> rr_data \<Rightarrow> rr_data" where
  "rr_set_rdata bs d = blit d RR_RDATA_OFFSET bs"

definition rr_size :: "rr_data \<Rightarrow> nat" where
  "rr_size d = RR_HEADER_SIZE + unat (rr_rdlength d)"

text \<open>\<^verbatim>\<open>RRView\<close> reads a record in place; constructed from a span it consumes the record.\<close>

record RRView =
  rv_mem :: "byte list"
  rv_at :: nat

definition rrview_type :: "RRView \<Rightarrow> dns_type" where
  "rrview_type v = type_from_bytes (rv_mem v) (rv_at v + RR_TYPE_OFFSET)"

definition rrview_class :: "RRView \<Rightarrow> dns_class" where
  "rrview_class v = class_from_bytes (rv_mem v) (rv_at v + RR_CLASS_OFFSET)"

definition rrview_ttl :: "RRView \<Rightarrow> 32 word" where
  "rrview_ttl v = ntohl (load32 (rv_mem v) (rv_at v + RR_TTL_OFFSET))"

definition rrview_rdlength :: "RRView \<Rightarrow> 16 word" where
  "rrview_rdlength v = ntohs (load16 (rv_mem v) (rv_at v + RR_RDLENGTH_OFFSET))"

definition rrview_rdata :: "RRView \<Rightarrow> nat" where
  "rrview_rdata v = rv_at v + RR_RDATA_OFFSET"

definition rrview_size :: "RRView \<Rightarrow> nat" where
  "rrview_size v = RR_HEADER_SIZE + unat (rrview_rdlength v)"

definition rrview_of_span :: "byte list \<times> nat \<Rightarrow> RRView \<times> (byte list \<times> nat)" where
  "rrview_of_span span =
     (let v = \<lparr>rv_mem = fst span, rv_at = snd span\<rparr> in (v, (fst span, snd span + rrview_size v)))"

text \<open>\<^verbatim>\<open>RRSerializer\<close> appends the fields to a span.\<close>

definition rrs_type :: "dns_type \<Rightarrow> byte list \<times> nat \<Rightarrow> byte list \<times> nat" where
  "rrs_type t span = type_serialized t span"

definition rrs_class :: "dns_class \<Rightarrow> byte list \<times> nat \<Rightarrow> byte list \<times> nat" where
  "rrs_class c span = class_serialized c span"

definition rrs_ttl :: "32 word \<Rightarrow> byte list \<times> nat \<Rightarrow> byte list \<times> nat" where
  "rrs_ttl t span = serialized span [raw32 (htonl t)]"

definition rrs_rdata :: "byte list \<Rightarrow> byte list \<times> nat \<Rightarrow> byte list \<times> nat" where
  "rrs_rdata bs span =
     (let (buf, p) = serialized span [raw16 (htons (of_nat (length bs)))]
      in (blit buf p bs, p + length bs))"

subsection \<open>The wire form of a record\<close>

definition rr_wire :: "dns_type \<Rightarrow> dns_class \<Rightarrow> 32 word \<Rightarrow> byte list \<Rightarrow> byte list" where
  "rr_wire t c l bs = raw16 (htons t) @ raw16 (htons c) @ raw32 (htonl l) @ raw16 (htons (of_nat (length bs))) @ bs"

lemma length_rr_wire [simp]: "length (rr_wire t c l bs) = 10 + length bs"
  by (simp add: rr_wire_def)

lemma rr_wire_loads:
  "load16 (rr_wire t c l bs @ r) 0 = htons t"
  "load16 (rr_wire t c l bs @ r) 2 = htons c"
  "load32 (rr_wire t c l bs @ r) 4 = htonl l"
  "load16 (rr_wire t c l bs @ r) 8 = htons (of_nat (length bs))"
  using load16_append1 [of "[]" 0] load16_append1 [of "raw16 a" 2 for a]
    load32_append1 [of "raw16 a @ raw16 b" 4 for a b] load16_append1 [of "raw16 a @ raw16 b @ raw32 d" 8 for a b d]
  by (simp_all add: rr_wire_def)

lemma blit_append: "p + length a + length b \<le> length buf \<Longrightarrow> blit (blit buf p a) (p + length a) b = blit buf p (a @ b)"
  by (simp add: blit_def ac_simps)

lemma rrs_chain:
  assumes "p + 10 + length bs \<le> length buf"
  shows "rrs_rdata bs (rrs_ttl l (rrs_class c (rrs_type t (buf, p)))) = (blit buf p (rr_wire t c l bs), p + 10 + length bs)"
proof -
  let ?t = "raw16 (htons t)" and ?c = "raw16 (htons c)" and ?l = "raw32 (htonl l)"
    and ?n = "raw16 (htons (of_nat (length bs)))"
  have "blit (blit (blit (blit (blit buf p ?t) (p + 2) ?c) (p + 4) ?l) (p + 8) ?n) (p + 10) bs = blit buf p (rr_wire t c l bs)"
    using assms blit_append [of p ?t ?c buf] blit_append [of p "?t @ ?c" ?l buf]
      blit_append [of p "?t @ ?c @ ?l" ?n buf] blit_append [of p "?t @ ?c @ ?l @ ?n" bs buf]
    by (simp add: rr_wire_def)
  then show ?thesis
    using assms by (simp add: rrs_rdata_def rrs_ttl_def rrs_class_def rrs_type_def type_serialized_def
        class_serialized_def serialized_blit add.assoc del: add_2_eq_Suc')
qed

lemma rr_setters:
  assumes "length bs < 65536"
  shows "rr_set_rdata bs (rr_set_ttl l (rr_set_class c (rr_set_type t (rr_new (of_nat (length bs)))))) = rr_wire t c l bs"
proof -
  have n: "unat (of_nat (length bs) :: 16 word) = length bs" using assms by (simp add: unat_of_nat)
  show ?thesis
    by (auto simp: list_eq_iff_nth_eq rr_set_rdata_def rr_set_ttl_def rr_set_class_def rr_set_type_def rr_new_def n
        type_serialize_def class_serialize_def serialize_def rr_offsets nth_blit rr_wire_def nth_append)
qed

text \<open>Resource records round trip: a record whose fields are set one by one has the bytes the serializer
  appends to a message, \<^verbatim>\<open>from_bytes\<close> cuts exactly these bytes off the rest of the message, and the
  accessors of the owned record and of the in-place view return the fields that were put in.\<close>

lemma dns_rr_round_trip:
  assumes "length bs < 65536" "p + 10 + length bs \<le> length buf"
  shows "\<exists>d buf'. rr_set_rdata bs (rr_set_ttl l (rr_set_class c (rr_set_type t (rr_new (of_nat (length bs)))))) = d
     \<and> rrs_rdata bs (rrs_ttl l (rrs_class c (rrs_type t (buf, p)))) = (buf', p + 10 + length bs)
     \<and> rr_from_bytes (drop p buf') = (Some d, drop (p + 10 + length bs) buf)
     \<and> rr_type d = t \<and> rr_class d = c \<and> rr_ttl d = l \<and> rr_rdata d = bs \<and> rr_size d = length d
     \<and> (case rrview_of_span (buf', p) of (v, rest) \<Rightarrow>
          rest = (buf', p + 10 + length bs) \<and> rrview_type v = t \<and> rrview_class v = c \<and> rrview_ttl v = l
          \<and> sub buf' (rrview_rdata v) (unat (rrview_rdlength v)) = bs)"
proof -
  let ?d = "rr_wire t c l bs" and ?b = "blit buf p (rr_wire t c l bs)"
  have n: "unat (of_nat (length bs) :: 16 word) = length bs" using assms(1) by (simp add: unat_of_nat)
  note L = rr_wire_loads [of t c l bs "[]", unfolded append_Nil2]
  have f: "load16 ?b (p + 0) = htons t" "load16 ?b (p + 2) = htons c" "load32 ?b (p + 4) = htonl l"
    "load16 ?b (p + 8) = htons (of_nat (length bs))"
    by (subst load16_blit load32_blit; use assms in \<open>simp add: L\<close>)+
  have d: "drop p ?b = ?d @ drop (p + 10 + length bs) buf" using assms(2) by (simp add: blit_def ac_simps)
  have r: "sub ?b (p + 10) (length bs) = bs" "sub ?d 10 (length bs) = bs"
    using assms(2) by (simp_all add: blit_def sub_def rr_wire_def)
  have "rr_from_bytes (drop p ?b) = (Some ?d, drop (p + 10 + length bs) buf)"
    unfolding d rr_from_bytes_def by (simp add: rr_offsets rr_wire_loads n)
  moreover have "rr_type ?d = t" "rr_class ?d = c" "rr_ttl ?d = l" "rr_rdata ?d = bs" "rr_size ?d = length ?d"
    using r by (simp_all add: rr_type_def rr_class_def rr_ttl_def rr_rdata_def rr_size_def rr_rdlength_def
        type_from_bytes_def class_from_bytes_def rr_offsets L [unfolded One_nat_def] n)
  ultimately show ?thesis
    using rr_setters [OF assms(1)] rrs_chain [OF assms(2)] f [unfolded add_0_right] r
    by (simp add: rrview_of_span_def rrview_type_def rrview_class_def rrview_ttl_def rrview_rdata_def rrview_size_def
        rrview_rdlength_def type_from_bytes_def class_from_bytes_def rr_offsets n)
qed

lemma dns_rr_round_trip_witness:
  "\<exists>d. rr_set_rdata [7, 8, 9, 10] (rr_set_ttl 60 (rr_set_class 1 (rr_set_type 1 (rr_new 4)))) = d
     \<and> rr_type d = 1 \<and> rr_ttl d = 60 \<and> rr_rdata d = [7, 8, 9, 10]"
  using dns_rr_round_trip [of "[7, 8, 9, 10]" 0 "replicate 14 0" 60 1 1] by (auto simp: Let_def)

text \<open>A message that ends inside the record yields no record and leaves the span where it was.\<close>

lemma rr_truncated:
  "length src < RR_HEADER_SIZE + unat (ntohs (load16 src RR_RDLENGTH_OFFSET)) \<longleftrightarrow> rr_from_bytes src = (None, src)"
  by (auto simp: rr_from_bytes_def Let_def)

lemma question_round_trip:
  assumes "p + 4 \<le> length buf"
  shows "\<exists>buf'. question_serialize q buf p = (buf', 4) \<and> question_serialized q (buf, p) = (buf', p + 4)
     \<and> question_deserialize buf' p = (q, 4)"
proof -
  let ?bs = "raw16 (htons (qtype q)) @ raw16 (htons (qclass q))"
  have "load16 (blit buf p ?bs) (p + 0) = htons (qtype q)" "load16 (blit buf p ?bs) (p + 2) = htons (qclass q)"
    using load16_append1 [of "[]" 0 "htons (qtype q)"] load16_append1 [of "raw16 (htons (qtype q))" 2 "htons (qclass q)" "[]"]
    by (subst load16_blit; use assms in simp)+
  then show ?thesis
    using assms blit_append [of p "raw16 (htons (qtype q))" "raw16 (htons (qclass q))" buf]
    by (simp add: question_serialize_def question_serialized_def question_deserialize_def type_serialize_def
        class_serialize_def serialize_def type_serialized_def class_serialized_def serialized_blit
        type_deserialize_def class_deserialize_def)
qed

end
