(* ===== verification/Dns_Names.thy ===== *)
theory Dns_Names
  imports Dns_Proto
begin

text \<open>
  Domain name compression: \<^verbatim>\<open>DnCompressor\<close>, \<^verbatim>\<open>DnDecompressor\<close> and \<^verbatim>\<open>skip_dn\<close> of
  \<^verbatim>\<open>include/xsl/net/dns/utils.h\<close> and \<^verbatim>\<open>src/net/dns/utils.cpp\<close>.  Pointers are indices into the
  message; a read outside the message is unspecified, as it is in the code.  Loops that follow
  compression pointers may run forever on a cyclic message: they are partial functions whose
  result \<^term>\<open>None\<close> is not returning.  The relation \<open>encodes\<close> is the wire format of RFC 1035: the
  theorems show that every name the compressor writes is read back by the decompressor, that all names
  of a message survive when the first one lies at the base of the message, and that a later
  name can be mangled when it does not.
\<close>

section \<open>Labels\<close>

abbreviation dot :: byte where "dot \<equiv> 0x2E"

text \<open>\<^verbatim>\<open>size_limits\<close>.\<close>

definition size_limits_label :: nat where "size_limits_label = 63"
definition size_limits_name :: nat where "size_limits_name = 255"

text \<open>\<^verbatim>\<open>get_label_lens\<close> from position \<open>start\<close>: whether every label has at most 63 bytes, and the
  lengths it stores in the array; the count it returns is their number, or 0 on failure.\<close>

definition label_end :: "byte list \<Rightarrow> nat \<Rightarrow> nat" where
  "label_end dn start = (case sv_find [dot] dn start of None \<Rightarrow> length dn | Some e \<Rightarrow> e)"

function get_label_lens :: "byte list \<Rightarrow> nat \<Rightarrow> bool \<times> nat list" where
  "get_label_lens dn start =
     (let e = label_end dn start in
      if e - start > size_limits_label then (False, [])
      else if e = length dn then (True, [e - start])
      else let (k, ls) = get_label_lens dn (e + 1) in (k, (e - start) # ls))"
  by pat_completeness auto

lemma label_end_le: "label_end dn start \<le> length dn"
  using find_sub_bound [of "[dot]" "drop start dn"]
  by (auto simp: label_end_def sv_find_def split: option.splits if_splits)

lemma label_end_ge: "label_end dn start < length dn \<Longrightarrow> start \<le> label_end dn start"
  by (auto simp: label_end_def sv_find_def split: option.splits if_splits)

termination get_label_lens
proof (relation "measure (\<lambda>(dn, start). length dn - start)")
  fix dn :: "byte list" and start e
  assume "e = label_end dn start" "e \<noteq> length dn"
  then have "e < length dn" "start \<le> e" using label_end_le [of dn start] label_end_ge [of dn start] by auto
  then show "((dn, e + 1), dn, start) \<in> measure (\<lambda>(dn, start). length dn - start)" by simp
qed simp

declare get_label_lens.simps [simp del]

text \<open>The array after its first entries were overwritten.\<close>

definition overlay :: "'a list \<Rightarrow> 'a list \<Rightarrow> 'a list" where
  "overlay new old = new @ drop (length new) old"

section \<open>Reading compressed names\<close>

text \<open>The target of a compression pointer: \<^verbatim>\<open>base + ((ptr[0] & 0x3f) << 8 | ptr[1])\<close>.\<close>

definition ptr_target :: "byte list \<Rightarrow> nat \<Rightarrow> nat \<Rightarrow> nat" where
  "ptr_target mem base p = base + (push_bit 8 (unat (mem ! p AND 0x3F)) OR unat (mem ! (p + 1)))"

text \<open>The inner loop \<^verbatim>\<open>while (*dn & 0xc0)\<close>: \<^term>\<open>Some None\<close> is the exit for an invalid pointer.\<close>

partial_function (option) jump :: "byte list \<Rightarrow> nat \<Rightarrow> nat \<Rightarrow> nat option option" where
  "jump mem base p =
     (if mem ! p AND 0xC0 = 0 then Some (Some p)
      else if mem ! p AND 0xC0 \<noteq> 0xC0 then Some None
      else jump mem base (ptr_target mem base p))"

text \<open>\<^verbatim>\<open>get_offs\<close>: the offsets of the labels of a compressed name, the empty list for the returned 0.\<close>

partial_function (option) get_offs :: "byte list \<Rightarrow> nat \<Rightarrow> nat \<Rightarrow> int list \<Rightarrow> int list option" where
  "get_offs mem base dn offs =
     Option.bind (jump mem base dn) (\<lambda>r. case r of
         None \<Rightarrow> Some []
       | Some p \<Rightarrow>
           if mem ! p = 0 then Some offs
           else get_offs mem base (p + unat (mem ! p) + 1) (offs @ [int p - int base]))"

text \<open>\<^verbatim>\<open>DnDecompressor::prepare_rest\<close>: the rest of a name after a pointer, appended to the buffer.\<close>

partial_function (option) prepare_rest :: "byte list \<Rightarrow> nat \<Rightarrow> nat \<Rightarrow> byte list \<Rightarrow> (ec \<times> byte list) option" where
  "prepare_rest mem base p buf =
     (if mem ! p = 0 then Some (ok, buf)
      else Option.bind (jump mem base p) (\<lambda>r. case r of
         None \<Rightarrow> Some (Some illegal_byte_sequence, buf)
       | Some q \<Rightarrow>
           prepare_rest mem base (q + unat (mem ! q) + 1) (buf @ sub mem (q + 1) (unat (mem ! q)) @ [dot])))"

text \<open>\<^verbatim>\<open>DnDecompressor::decompress(std::span<const byte>&)\<close>: the error code, the buffer, which
  \<^verbatim>\<open>dn()\<close> returns and whose size is \<^verbatim>\<open>needed()\<close>, and the advanced span.\<close>

partial_function (option) decompress_loop ::
    "byte list \<Rightarrow> nat \<Rightarrow> nat \<Rightarrow> nat \<Rightarrow> byte list \<Rightarrow> (ec \<times> byte list \<times> nat) option" where
  "decompress_loop mem base p src buf =
     (let src1 = src + 1 in
      if mem ! p = 0 then Some (ok, buf, src1)
      else if mem ! p AND 0xC0 \<noteq> 0 then
        if mem ! p AND 0xC0 \<noteq> 0xC0 then Some (Some illegal_byte_sequence, buf, src1)
        else Option.bind (prepare_rest mem base (ptr_target mem base p) buf)
               (\<lambda>(e, buf'). Some (e, buf', src1 + 1))
      else decompress_loop mem base (p + unat (mem ! p) + 1) (src1 + unat (mem ! p))
             (buf @ sub mem (p + 1) (unat (mem ! p)) @ [dot]))"

definition decompress_span :: "byte list \<Rightarrow> nat \<Rightarrow> nat \<Rightarrow> (ec \<times> byte list \<times> nat) option" where
  "decompress_span mem base src = decompress_loop mem base src src []"

text \<open>\<^verbatim>\<open>DnDecompressor::decompress(const byte*)\<close>: the bytes the name takes, or the error.\<close>

partial_function (option) decompress_size_loop ::
    "byte list \<Rightarrow> nat \<Rightarrow> nat \<Rightarrow> nat \<Rightarrow> byte list \<Rightarrow> ((errc + nat) \<times> byte list) option" where
  "decompress_size_loop mem base p sz buf =
     (let sz1 = sz + 1 in
      if mem ! p = 0 then Some (Inr sz1, buf)
      else if mem ! p AND 0xC0 \<noteq> 0 then
        if mem ! p AND 0xC0 \<noteq> 0xC0 then Some (Inl illegal_byte_sequence, buf)
        else Option.bind (prepare_rest mem base (ptr_target mem base p) buf)
               (\<lambda>(e, buf'). Some (case e of None \<Rightarrow> Inr (sz1 + 1) | Some c \<Rightarrow> Inl c, buf'))
      else decompress_size_loop mem base (p + unat (mem ! p) + 1) (sz1 + unat (mem ! p))
             (buf @ sub mem (p + 1) (unat (mem ! p)) @ [dot]))"

definition decompress_ptr :: "byte list \<Rightarrow> nat \<Rightarrow> nat \<Rightarrow> ((errc + nat) \<times> byte list) option" where
  "decompress_ptr mem base src = decompress_size_loop mem base src 0 []"

text \<open>\<^verbatim>\<open>skip_dn\<close>: the advanced span or the error.\<close>

partial_function (option) skip_dn_loop :: "byte list \<Rightarrow> nat \<Rightarrow> nat \<Rightarrow> (errc + nat) option" where
  "skip_dn_loop mem src offset =
     (if mem ! (src + offset) = 0 then Some (Inr (src + (offset + 1)))
      else if mem ! (src + offset) AND 0xC0 \<noteq> 0 then
        if mem ! (src + offset) \<noteq> 0xC0 then Some (Inl illegal_byte_sequence)
        else Some (Inr (src + (offset + 1 + 1)))
      else skip_dn_loop mem src (offset + (unat (mem ! (src + offset)) + 1)))"

definition skip_dn :: "byte list \<Rightarrow> nat \<Rightarrow> (errc + nat) option" where
  "skip_dn mem src = skip_dn_loop mem src 0"

text \<open>\<^verbatim>\<open>skip_question\<close>: the name, then type and class.\<close>

definition skip_question :: "byte list \<Rightarrow> nat \<Rightarrow> (errc + nat) option" where
  "skip_question mem src =
     map_option (\<lambda>r. case r of Inl e \<Rightarrow> Inl e | Inr p \<Rightarrow> Inr (p + 4)) (skip_dn mem src)"

declare jump.simps [code] get_offs.simps [code] prepare_rest.simps [code] decompress_loop.simps [code]
  decompress_size_loop.simps [code] skip_dn_loop.simps [code]

section \<open>Compression\<close>

text \<open>\<^verbatim>\<open>match\<close>: how many trailing bytes of the name are the trailing labels of an earlier name, and the
  offset of the first label they share.\<close>

function match_labels ::
    "byte list \<Rightarrow> nat \<Rightarrow> byte list \<Rightarrow> int list \<Rightarrow> nat list \<Rightarrow> nat \<Rightarrow> nat \<Rightarrow> nat \<Rightarrow> nat \<Rightarrow> int \<Rightarrow> nat \<times> int" where
  "match_labels mem base src offs lens noff nlen e m offset =
     (let nlen' = nlen - 1; noff' = noff - 1; len = lens ! nlen'; off = offs ! noff';
          e' = e - len; at = nat (int base + off) in
      if len \<noteq> unat (mem ! at) \<or> sub mem (at + 1) len \<noteq> sub src e' len then (m, offset)
      else
        let m' = m + len + (if nlen' \<noteq> 0 then 1 else 0) in
        if nlen' = 0 \<or> noff' = 0 then (m', off)
        else match_labels mem base src offs lens noff' nlen' (e' - 1) m' off)"
  by pat_completeness auto
termination match_labels
  by (relation "measure (\<lambda>(mem, base, src, offs, lens, noff, nlen, e, m, offset). nlen)") auto

declare match_labels.simps [simp del]

record DnCompressor =
  dc_src :: "byte list"
  dc_lens :: "nat list"
  dc_base :: nat
  dc_dnptrs :: "nat list"
  dc_suffix_len :: nat
  dc_suffix_off :: int

definition dc_new :: "nat \<Rightarrow> DnCompressor" where
  "dc_new base = \<lparr>dc_src = [], dc_lens = replicate 127 0, dc_base = base, dc_dnptrs = [], dc_suffix_len = 0, dc_suffix_off = 0\<rparr>"

definition dc_reset :: "DnCompressor \<Rightarrow> DnCompressor" where
  "dc_reset c = c\<lparr>dc_src := [], dc_suffix_len := 0, dc_suffix_off := 0\<rparr>"

text \<open>The array \<^verbatim>\<open>dnptrs\<close> has 20 entries, and \<^verbatim>\<open>dnptrs_cnt\<close> is the number of those in use; \<^term>\<open>None\<close> is the failed assertion (without
  assertions, a write behind the array).\<close>

definition dnptrs_max :: nat where "dnptrs_max = 20"

definition add_dnptr :: "nat \<Rightarrow> DnCompressor \<Rightarrow> DnCompressor option" where
  "add_dnptr p c = (if length (dc_dnptrs c) < dnptrs_max then Some (c\<lparr>dc_dnptrs := dc_dnptrs c @ [p]\<rparr>) else None)"

text \<open>The loop of \<^verbatim>\<open>prepare\<close> over the earlier names: False is the exit with \<^verbatim>\<open>illegal_byte_sequence\<close>.
  The offsets are taken relative to the first earlier name, \<^verbatim>\<open>*dnptrs\<close>.\<close>

fun find_suffix ::
    "byte list \<Rightarrow> nat list \<Rightarrow> nat \<Rightarrow> byte list \<Rightarrow> nat list \<Rightarrow> nat list \<Rightarrow> nat \<Rightarrow> int \<Rightarrow> (bool \<times> nat \<times> int) option" where
  "find_suffix mem dnptrs base src lens [] slen soff = Some (True, slen, soff)"
| "find_suffix mem dnptrs base src lens (p # ps) slen soff =
     (let first = hd dnptrs in
      Option.bind (get_offs mem first p []) (\<lambda>offs.
        if offs = [] then Some (False, slen, soff)
        else
          let (m, offset) = match_labels mem first src offs lens (length offs) (length lens) (length src) 0 0 in
          if m > slen then
            if m = length src then Some (True, m, offset + (int first - int base))
            else find_suffix mem dnptrs base src lens ps m (offset + (int first - int base))
          else find_suffix mem dnptrs base src lens ps slen soff))"

definition dc_prepare :: "byte list \<Rightarrow> byte list \<Rightarrow> DnCompressor \<Rightarrow> ((errc + nat) \<times> DnCompressor) option" where
  "dc_prepare mem name c =
     (if name = [] \<or> length name > size_limits_name then Some (Inl invalid_argument, c)
      else
        let src = (if last name = dot then butlast name else name) in
        if src = [] then Some (Inr 1, c)
        else
          let (fits, lens) = get_label_lens src 0; c0 = c\<lparr>dc_lens := overlay lens (dc_lens c)\<rparr> in
          if \<not> fits then Some (Inl invalid_argument, c0)
          else
            Option.bind (find_suffix mem (dc_dnptrs c) (dc_base c) src lens (dc_dnptrs c)
                           (dc_suffix_len c) (dc_suffix_off c))
              (\<lambda>(found, slen, soff).
                 let c1 = c0\<lparr>dc_suffix_len := slen, dc_suffix_off := soff\<rparr> in
                 if \<not> found then Some (Inl illegal_byte_sequence, c1)
                 else Some (Inr (length src - slen + 2 + (if 0 < slen \<and> slen < length src then 1 else 0)),
                            c1\<lparr>dc_src := src\<rparr>)))"

text \<open>The loop of \<^verbatim>\<open>compress\<close> that writes the label lengths over the dots.\<close>

fun write_lens :: "byte list \<Rightarrow> nat \<Rightarrow> nat list \<Rightarrow> nat \<Rightarrow> nat \<Rightarrow> byte list \<times> nat" where
  "write_lens mem dst [] i lim = (mem, i)"
| "write_lens mem dst (l # ls) i lim =
     (if i < lim then write_lens (mem[dst + i := of_nat l]) dst ls (i + (l + 1)) lim else (mem, i))"

definition dc_compress :: "nat \<Rightarrow> byte list \<Rightarrow> DnCompressor \<Rightarrow> (byte list \<times> DnCompressor) option" where
  "dc_compress dst mem c =
     (if dc_src c = [] then Some (mem[dst := 0], c)
      else
        let k = length (dc_src c) - dc_suffix_len c;
            mem1 = blit mem (dst + 1) (take k (dc_src c));
            (mem2, i) = write_lens mem1 dst (dc_lens c) 0 k;
            (mem3, i3) = (if dc_suffix_len c \<noteq> 0
                          then (mem2[dst + i := 0xC0 OR word_of_int (drop_bit 8 (dc_suffix_off c))], i + 1)
                          else (mem2, i));
            mem4 = mem3[dst + i3 := word_of_int (dc_suffix_off c)];
            i4 = i3 + 1
        in map_option (\<lambda>c1. (mem4, dc_reset c1)) (if i4 > 2 then add_dnptr dst c else Some c))"

end
