(* ===== verification/Dns_Names_Correct.thy ===== *)
theory Dns_Names_Correct
  imports Dns_Names
begin

text \<open>
  Correctness of domain name compression.  The relation \<open>encodes\<close> gives the labels that lie
  at an address of a message, following compression pointers; the reading operations are shown to
  compute it, the compressor is shown to write it, and both together give the round trips.
\<close>

section \<open>The wire format\<close>

definition label_at :: "byte list \<Rightarrow> nat \<Rightarrow> byte list \<Rightarrow> bool" where
  "label_at mem a l \<longleftrightarrow> 0 < length l \<and> length l \<le> 63 \<and> a + length l < length mem
     \<and> mem ! a = of_nat (length l) \<and> sub mem (a + 1) (length l) = l"

text \<open>\<open>encodes mem base ptrs a ls n\<close>: at address \<open>a\<close> lie \<open>n\<close> bytes that stand for the labels \<open>ls\<close>;
  pointers are relative to \<open>base\<close> and occur only when \<open>ptrs\<close> holds.\<close>

inductive encodes :: "byte list \<Rightarrow> nat \<Rightarrow> bool \<Rightarrow> nat \<Rightarrow> byte list list \<Rightarrow> nat \<Rightarrow> bool"
  for mem base ptrs where
  root: "a < length mem \<Longrightarrow> mem ! a = 0 \<Longrightarrow> encodes mem base ptrs a [] (Suc 0)"
| label: "label_at mem a l \<Longrightarrow> encodes mem base ptrs (Suc (a + length l)) ls n \<Longrightarrow>
    encodes mem base ptrs a (l # ls) (Suc (length l + n))"
| pointer: "ptrs \<Longrightarrow> a + 1 < length mem \<Longrightarrow> mem ! a AND 0xC0 = 0xC0 \<Longrightarrow>
    encodes mem base ptrs (ptr_target mem base a) ls n \<Longrightarrow> ls \<noteq> [] \<Longrightarrow> encodes mem base ptrs a ls 2"

inductive_cases encodes_NilE: "encodes mem base ptrs a [] n"

text \<open>The text of a name as the decompressor prints it, and as the compressor takes it.\<close>

definition dotted :: "byte list list \<Rightarrow> byte list" where
  "dotted ls = concat (map (\<lambda>l. l @ [dot]) ls)"

fun join :: "byte list list \<Rightarrow> byte list" where
  "join [] = []"
| "join [l] = l"
| "join (l # l2 # ls) = l @ dot # join (l2 # ls)"

definition enc :: "byte list list \<Rightarrow> byte list" where
  "enc ls = concat (map (\<lambda>l. of_nat (length l) # l) ls)"

definition label_ok :: "byte list \<Rightarrow> bool" where
  "label_ok l \<longleftrightarrow> 0 < length l \<and> length l \<le> 63 \<and> dot \<notin> set l"

definition name_ok :: "byte list list \<Rightarrow> bool" where
  "name_ok ls \<longleftrightarrow> list_all label_ok ls \<and> length (join ls) \<le> 254"

subsection \<open>Label bytes and pointer bytes\<close>

lemma small_byte: "w < 64 \<Longrightarrow> (w :: byte) AND 0xC0 = 0" "w < 64 \<Longrightarrow> (w :: byte) AND 0x3F = w"
proof -
  assume "w < 64"
  then have "take_bit 6 w = w" 
    by (simp add: word_unat_eq_iff unsigned_take_bit_eq take_bit_nat_eq_self_iff word_less_nat_alt)
  then show *: "w AND 0x3F = w" by (simp add: take_bit_eq_mask mask_eq_exp_minus_1)
  have "w AND 0xC0 = w AND (0x3F AND 0xC0)" by (simp only: * and.assoc [symmetric])
  then show "w AND 0xC0 = 0" by simp
qed

lemma label_byte:
  "label_at mem a l \<Longrightarrow> unat (mem ! a) = length l \<and> mem ! a AND 0xC0 = 0 \<and> mem ! a \<noteq> 0"
proof -
  assume "label_at mem a l"
  then have *: "mem ! a = of_nat (length l)" "0 < length l" "length l \<le> 63" by (simp_all add: label_at_def)
  then have u: "unat (mem ! a) = length l" by (simp add: unat_of_nat)
  with * have "mem ! a < 64" by (simp add: word_less_nat_alt)
  with u *(2) show ?thesis using small_byte(1) by auto
qed

lemma pointer_bytes:
  fixes off :: nat
  assumes "off < 0x4000"
  defines "hi \<equiv> 0xC0 OR word_of_int (drop_bit 8 (int off)) :: byte" and "lo \<equiv> word_of_int (int off) :: byte"
  shows "hi AND 0xC0 = 0xC0" "push_bit 8 (unat (hi AND 0x3F)) OR unat lo = off"
proof -
  let ?w = "of_nat (off div 256) :: byte"
  have "drop_bit 8 (int off) = int (off div 256)" by (simp add: drop_bit_eq_div zdiv_int)
  then have h: "hi = 0xC0 OR ?w" by (simp add: hi_def)
  show "hi AND 0xC0 = 0xC0" unfolding h by (simp add: and.commute bit.conj_disj_distrib)
  have d: "off div 256 < 64" using assms(1) by simp
  then have u: "unat ?w = off div 256" by (simp add: unat_of_nat)
  with d have "?w < 64" by (simp add: word_less_nat_alt)
  then have "hi AND 0x3F = ?w" unfolding h by (simp add: bit.conj_disj_distrib2 small_byte)
  moreover have "unat lo = off mod 256" by (simp add: lo_def unat_of_nat)
  ultimately have "push_bit 8 (unat (hi AND 0x3F)) OR unat lo = push_bit 8 (off div 256) OR off mod 256"
    using u by simp
  also have "\<dots> = push_bit 8 (drop_bit 8 off) OR take_bit 8 off"
    by (simp add: drop_bit_eq_div take_bit_eq_mod)
  also have "\<dots> = off" by (rule bit_eqI) (auto simp: bit_simps)
  finally show "push_bit 8 (unat (hi AND 0x3F)) OR unat lo = off" .
qed

subsection \<open>Growing messages\<close>

lemma label_at_append: "label_at mem a l \<Longrightarrow> label_at (mem @ r) a l"
  by (auto simp: label_at_def nth_append sub_def)

lemma ptr_target_append: "a + 1 < length mem \<Longrightarrow> ptr_target (mem @ r) base a = ptr_target mem base a"
  by (simp add: ptr_target_def nth_append)

lemma encodes_append: "encodes mem base ptrs a ls n \<Longrightarrow> encodes (mem @ r) base ptrs a ls n"
proof (induction rule: encodes.induct)
  case (pointer a ls n)
  then show ?case
    by (intro encodes.pointer) (simp_all add: nth_append ptr_target_append)
qed (auto intro!: encodes.root encodes.label label_at_append simp: nth_append)

lemma encodes_take: "encodes (take d mem) base ptrs a ls n \<Longrightarrow> encodes mem base ptrs a ls n"
  using encodes_append [of "take d mem" base ptrs a ls n "drop d mem"] by simp

lemma encodes_bound: "encodes mem base ptrs a ls n \<Longrightarrow> a < length mem"
  by (induction rule: encodes.induct) (auto simp: label_at_def)

lemma encodes_flat: "encodes mem base p a ls n \<Longrightarrow> \<not> p \<Longrightarrow> encodes mem base' ptrs a ls n"
  by (induction rule: encodes.induct) (auto intro: encodes.intros)

lemma encodes_weaken: "encodes mem base p a ls n \<Longrightarrow> p \<longrightarrow> base = base' \<Longrightarrow> encodes mem base' True a ls n"
  by (induction rule: encodes.induct) (auto intro: encodes.intros)

section \<open>Reading\<close>

lemma jump_here: "mem ! p AND 0xC0 = 0 \<Longrightarrow> jump mem base p = Some (Some p)"
  by (simp add: jump.simps)

lemma jump_pointer: "mem ! p AND 0xC0 = 0xC0 \<Longrightarrow> jump mem base p = jump mem base (ptr_target mem base p)"
  by (subst jump.simps) simp

lemma encodes_nonzero: "encodes mem base ptrs a ls n \<Longrightarrow> ls \<noteq> [] \<Longrightarrow> mem ! a \<noteq> 0"
  by (erule encodes.cases) (auto dest: label_byte)

lemma prepare_rest_encodes:
  "encodes mem base ptrs a ls n \<Longrightarrow> prepare_rest mem base a buf = Some (ok, buf @ dotted ls)"
proof (induction arbitrary: buf rule: encodes.induct)
  case (root a)
  then show ?case by (simp add: prepare_rest.simps dotted_def)
next
  case (label a l ls n)
  then show ?case using label_byte [OF label.hyps(1)]
    by (subst prepare_rest.simps) (simp add: jump_here label_at_def dotted_def)
next
  case (pointer a ls n)
  have "mem ! ptr_target mem base a \<noteq> 0" using pointer.hyps(4,5) by (rule encodes_nonzero)
  then have "prepare_rest mem base a buf = prepare_rest mem base (ptr_target mem base a) buf"
    using pointer.hyps(3) by (subst (1 2) prepare_rest.simps) (auto simp: jump_pointer)
  then show ?case by (simp add: pointer.IH)
qed

lemma decompress_loop_encodes:
  "encodes mem base ptrs a ls n \<Longrightarrow>
   decompress_loop mem base a src buf = Some (ok, buf @ dotted ls, src + n)"
proof (induction arbitrary: src buf rule: encodes.induct)
  case (root a)
  then show ?case by (simp add: decompress_loop.simps dotted_def)
next
  case (label a l ls n)
  then show ?case using label_byte [OF label.hyps(1)]
    by (subst decompress_loop.simps) (simp add: Let_def label_at_def dotted_def)
next
  case (pointer a ls n)
  then show ?case
    by (subst decompress_loop.simps) (auto simp: Let_def prepare_rest_encodes)
qed

lemma decompress_size_encodes:
  "encodes mem base ptrs a ls n \<Longrightarrow>
   decompress_size_loop mem base a sz buf = Some (Inr (sz + n), buf @ dotted ls)"
proof (induction arbitrary: sz buf rule: encodes.induct)
  case (root a)
  then show ?case by (simp add: decompress_size_loop.simps dotted_def)
next
  case (label a l ls n)
  then show ?case using label_byte [OF label.hyps(1)]
    by (subst decompress_size_loop.simps) (simp add: Let_def label_at_def dotted_def)
next
  case (pointer a ls n)
  then show ?case
    by (subst decompress_size_loop.simps) (auto simp: Let_def prepare_rest_encodes)
qed

text \<open>\<^verbatim>\<open>skip_dn\<close> skips names without pointers.\<close>

lemma skip_dn_encodes:
  "encodes mem base False (src + off) ls n \<Longrightarrow> skip_dn_loop mem src off = Some (Inr (src + off + n))"
proof (induction "src + off" ls n arbitrary: off rule: encodes.induct)
  case root
  then show ?case by (simp add: skip_dn_loop.simps)
next
  case (label l ls n)
  then show ?case using label_byte [OF label.hyps(1)] label.hyps(3) [of "off + (length l + 1)"]
    by (subst skip_dn_loop.simps) (simp add: add.assoc)
qed simp

section \<open>Finding an earlier suffix\<close>

text \<open>The offsets of the labels of a name, each with the labels that follow.\<close>

fun places :: "byte list \<Rightarrow> nat \<Rightarrow> bool \<Rightarrow> int list \<Rightarrow> byte list list \<Rightarrow> bool" where
  "places mem base ptrs [] [] \<longleftrightarrow> True"
| "places mem base ptrs (x # xs) (l # ls) \<longleftrightarrow>
     (\<exists>a n. x = int a - int base \<and> base \<le> a \<and> label_at mem a l \<and> encodes mem base ptrs a (l # ls) n)
     \<and> places mem base ptrs xs ls"
| "places mem base ptrs _ _ \<longleftrightarrow> False"

lemma get_offs_encodes:
  "encodes mem base ptrs a ls n \<Longrightarrow> base \<le> a \<Longrightarrow>
   \<exists>xs. (\<forall>offs. get_offs (mem @ r) base a offs = Some (offs @ xs)) \<and> places mem base ptrs xs ls"
proof (induction rule: encodes.induct)
  case (root a)
  then have "\<forall>offs. get_offs (mem @ r) base a offs = Some (offs @ [])"
    by (simp add: get_offs.simps jump_here nth_append)
  then show ?case using places.simps(1) by blast
next
  case (label a l ls n)
  then obtain xs where xs: "\<forall>offs. get_offs (mem @ r) base (Suc (a + length l)) offs = Some (offs @ xs)"
    "places mem base ptrs xs ls" by auto
  have "get_offs (mem @ r) base a offs = Some (offs @ (int a - int base) # xs)" for offs
    using label_byte [OF label_at_append [OF label.hyps(1)], of r] xs(1) by (subst get_offs.simps) (simp add: jump_here)
  moreover have "places mem base ptrs ((int a - int base) # xs) (l # ls)"
    using label xs(2) encodes.label [OF label.hyps(1,2)] by auto
  ultimately show ?case by blast
next
  case (pointer a ls n)
  have "get_offs (mem @ r) base a = get_offs (mem @ r) base (ptr_target mem base a)"
    by (rule ext) (use pointer.hyps(2,3) in
        \<open>subst (1 2) get_offs.simps, simp add: jump_pointer nth_append ptr_target_append\<close>)
  moreover have "base \<le> ptr_target mem base a" by (simp add: ptr_target_def)
  ultimately show ?case using pointer.IH by simp
qed

lemma places_length: "places mem base ptrs xs ls \<Longrightarrow> length xs = length ls"
  by (induction mem base ptrs xs ls rule: places.induct) auto

lemma places_nth:
  "places mem base ptrs xs ls \<Longrightarrow> i < length ls \<Longrightarrow>
   \<exists>a n. xs ! i = int a - int base \<and> base \<le> a \<and> label_at mem a (ls ! i) \<and> encodes mem base ptrs a (drop i ls) n"
proof (induction mem base ptrs xs ls arbitrary: i rule: places.induct)
  case (2 mem base ptrs x xs l ls)
  then show ?case by (cases i) auto
qed auto

subsection \<open>The text of a name\<close>

lemma join_snoc: "join (ls @ [l]) = (if ls = [] then [] else join ls @ [dot]) @ l"
  by (induction ls rule: join.induct) auto

lemma join_Cons: "join (l # ls) = l @ (if ls = [] then [] else dot # join ls)"
  by (cases ls) auto

lemma join_append: "P \<noteq> [] \<Longrightarrow> Q \<noteq> [] \<Longrightarrow> join (P @ Q) = join P @ dot # join Q"
  by (induction P rule: join.induct) (auto simp: join_Cons)

lemma join_take: "\<exists>r. join L = join (take n L) @ r"
proof (cases "take n L = [] \<or> drop n L = []")
  case True
  then show ?thesis by auto
next
  case False
  then show ?thesis using join_append [of "take n L" "drop n L"] by auto
qed

lemma take_join_take: "take (length (join (take n L))) (join L) = join (take n L)"
  using join_take [of L n] by auto

lemma length_join_take: "length (join (take n L)) \<le> length (join L)"
  using join_take [of L n] by (metis length_append le_add1)

lemma join_take_Suc:
  "j < length L \<Longrightarrow> join (take (Suc j) L) = (if j = 0 then [] else join (take j L) @ [dot]) @ L ! j"
  by (cases "j = 0") (auto simp: take_Suc_conv_app_nth join_snoc)

lemma sub_join:
  assumes "j < length L"
  shows "sub (join L) (length (join (take (Suc j) L)) - length (L ! j)) (length (L ! j)) = L ! j"
proof -
  obtain r where "join L = join (take (Suc j) L) @ r" using join_take by blast
  then show ?thesis using assms by (auto simp: join_take_Suc sub_def)
qed

lemma list_all_nth_ok: "list_all P L \<Longrightarrow> j < length L \<Longrightarrow> P (L ! j)"
  by (simp add: list_all_length)

text \<open>The loop of \<^verbatim>\<open>match\<close>: the labels before \<open>nlen\<close> and \<open>noff\<close> are still to be compared, those after agree.\<close>

lemma match_labels_spec:
  assumes "places mem base ptrs xs ls" "list_all label_ok L" "drop nlen L = drop noff ls"
    and "0 < nlen" "nlen \<le> length L" "0 < noff" "noff \<le> length ls"
    and "e = length (join (take nlen L))" "m = length (join L) - e" "nlen < length L \<longrightarrow> offset = xs ! noff"
  shows "\<exists>n j. match_labels (mem @ r) base (join L) xs (map length L) noff nlen e m offset
             = (length (join L) - length (join (take n L)), if n < length L then xs ! j else offset)
           \<and> n \<le> nlen \<and> j \<le> length ls \<and> drop n L = drop j ls"
  using assms(3-10)
proof (induction nlen arbitrary: noff e m offset)
  case (Suc i)
  obtain j where j: "noff = Suc j" using Suc.prems by (cases noff) auto
  have i: "i < length L" and jl: "j < length ls" using Suc.prems j by auto
  obtain a n where a: "xs ! j = int a - int base" "base \<le> a" "label_at mem a (ls ! j)"
    using places_nth [OF assms(1) jl] by blast
  have at: "nat (int base + xs ! j) = a" using a by simp
  have sb: "sub (join L) (e - length (L ! i)) (length (L ! i)) = L ! i" using sub_join [OF i] Suc.prems by simp
  have lb: "unat ((mem @ r) ! a) = length (ls ! j)" "sub (mem @ r) (a + 1) (length (ls ! j)) = ls ! j"
    using label_at_append [OF a(3), of r] label_byte [OF label_at_append [OF a(3), of r]] by (simp_all add: label_at_def)
  have eq: "length (L ! i) = unat ((mem @ r) ! a) \<and> sub (mem @ r) (a + 1) (length (L ! i)) = L ! i \<longleftrightarrow> L ! i = ls ! j"
    using lb by metis
  then have cond: "(length (L ! i) \<noteq> unat ((mem @ r) ! a) \<or>
      sub (mem @ r) (a + 1) (length (L ! i)) \<noteq> sub (join L) (e - length (L ! i)) (length (L ! i))) \<longleftrightarrow> L ! i \<noteq> ls ! j"
    unfolding sb by blast
  have unf: "match_labels (mem @ r) base (join L) xs (map length L) noff (Suc i) e m offset =
     (if L ! i \<noteq> ls ! j then (m, offset)
      else let m' = m + length (L ! i) + (if i \<noteq> 0 then 1 else 0) in
           if i = 0 \<or> j = 0 then (m', xs ! j)
           else match_labels (mem @ r) base (join L) xs (map length L) j i (e - length (L ! i) - 1) m' (xs ! j))"
    by (subst match_labels.simps) (simp only: Let_def j diff_Suc_1 at cond nth_map [OF i])
  show ?case
  proof (cases "L ! i = ls ! j")
    case False
    then have "match_labels (mem @ r) base (join L) xs (map length L) noff (Suc i) e m offset
        = (length (join L) - length (join (take (Suc i) L)), if Suc i < length L then xs ! noff else offset)"
      unfolding unf using Suc.prems by simp
    then show ?thesis using Suc.prems by blast
  next
    case True
    have d: "drop i L = drop j ls"
      using Suc.prems(1) True i jl by (simp add: j Cons_nth_drop_Suc [symmetric])
    have le: "e \<le> length (join L)" using Suc.prems(6) length_join_take by simp
    have e': "i \<noteq> 0 \<Longrightarrow> e - length (L ! i) - 1 = length (join (take i L))"
      and e1: "e = (if i = 0 then 0 else length (join (take i L)) + 1) + length (L ! i)"
      using Suc.prems(6) i by (auto simp: join_take_Suc)
    then have m': "m + length (L ! i) + (if i \<noteq> 0 then 1 else 0) = length (join L) - length (join (take i L))"
      using Suc.prems(7) le by (cases "i = 0") auto
    show ?thesis
    proof (cases "i = 0 \<or> j = 0")
      case stop: True
      then have "match_labels (mem @ r) base (join L) xs (map length L) noff (Suc i) e m offset
        = (length (join L) - length (join (take i L)), if i < length L then xs ! j else offset)"
        unfolding unf Let_def using True m' i by simp
      then show ?thesis using d jl by (intro exI [of _ i] exI [of _ j]) simp
    next
      case False
      obtain n' j' where *: "match_labels (mem @ r) base (join L) xs (map length L) j i (length (join (take i L)))
            (length (join L) - length (join (take i L))) (xs ! j)
          = (length (join L) - length (join (take n' L)), if n' < length L then xs ! j' else xs ! j)"
        "n' \<le> i" "j' \<le> length ls" "drop n' L = drop j' ls"
        using Suc.IH [OF d _ _ _ _ refl refl, of "xs ! j"] False i jl by auto
      have "match_labels (mem @ r) base (join L) xs (map length L) noff (Suc i) e m offset
          = (length (join L) - length (join (take n' L)), if n' < length L then xs ! j' else offset)"
        unfolding unf Let_def using True False m' e' * i by simp
      then show ?thesis using * le_SucI by blast
    qed
  qed
qed simp

subsection \<open>Label lengths\<close>

lemma label_end_join:
  assumes "dot \<notin> set l" "r = [] \<or> hd r = dot"
  shows "label_end (pre @ l @ r) (length pre) = length pre + length l"
proof (cases r)
  case Nil
  have "find_idx (\<lambda>x. x = dot) l = None" using assms(1) by (auto simp: find_idx_None)
  then show ?thesis by (simp add: label_end_def sv_find_def find_sub_char Nil)
next
  case (Cons x xs)
  have "find_idx (\<lambda>x. x = dot) l = None" using assms(1) by (auto simp: find_idx_None)
  then show ?thesis using assms(2) by (simp add: label_end_def sv_find_def find_sub_char find_idx_append Cons)
qed

lemma get_label_lens_join:
  "\<lbrakk>list_all label_ok L; L \<noteq> []; dn = pre @ join L\<rbrakk> \<Longrightarrow>
   get_label_lens dn (length pre) = (True, map length L)"
proof (induction L arbitrary: pre rule: join.induct)
  case (2 l)
  then show ?case using label_end_join [of l "[]" pre]
    by (subst get_label_lens.simps) (simp add: label_ok_def size_limits_label_def Let_def)
next
  case (3 l l2 ls)
  have "get_label_lens dn (length (pre @ l @ [dot])) = (True, map length (l2 # ls))"
    by (rule "3.IH") (use "3.prems" in auto)
  then show ?case using label_end_join [of l "dot # join (l2 # ls)" pre] "3.prems"
    by (subst get_label_lens.simps) (simp add: label_ok_def size_limits_label_def Let_def)
qed simp

section \<open>Compression\<close>

text \<open>The earlier names a compressor may refer to: they lie below \<open>d\<close>, and either the first of them lies
  at the base of the message or none of them contains a pointer.\<close>

definition known :: "byte list \<Rightarrow> nat \<Rightarrow> nat list \<Rightarrow> bool" where
  "known msg base ps \<longleftrightarrow> list_all (\<lambda>p. base \<le> hd ps \<and> hd ps \<le> p \<and>
     (\<exists>ls n. ls \<noteq> [] \<and> encodes msg (hd ps) (hd ps = base) p ls n)) ps"

text \<open>What \<^verbatim>\<open>prepare\<close> looks for: a suffix of the name, from label \<open>n\<close> on, lies at offset \<open>soff\<close>.\<close>

definition suffix_at :: "byte list \<Rightarrow> nat \<Rightarrow> byte list list \<Rightarrow> nat \<Rightarrow> nat \<Rightarrow> int \<Rightarrow> bool" where
  "suffix_at msg base L n slen soff \<longleftrightarrow> slen = length (join L) - length (join (take n L)) \<and>
     (if n < length L then \<exists>off k. soff = int off \<and> encodes msg base True (base + off) (drop n L) k
      else n = length L \<and> soff = 0)"

lemma find_suffix_spec:
  assumes "list_all label_ok L" "L \<noteq> []" "known msg base ps" "set qs \<subseteq> set ps"
    and "\<exists>n. suffix_at msg base L n slen soff"
  shows "\<exists>n slen' soff'. find_suffix (msg @ r) ps base (join L) (map length L) qs slen soff = Some (True, slen', soff')
     \<and> suffix_at msg base L n slen' soff'"
  using assms(4,5)
proof (induction qs arbitrary: slen soff)
  case Nil
  then show ?case by auto
next
  case (Cons p qs)
  let ?f = "hd ps"
  have "base \<le> ?f \<and> ?f \<le> p \<and> (\<exists>ls n. ls \<noteq> [] \<and> encodes msg ?f (?f = base) p ls n)"
    using assms(3) Cons.prems(1) by (auto simp: known_def list_all_iff)
  then obtain ls n where ls: "base \<le> ?f" "?f \<le> p" "ls \<noteq> []" "encodes msg ?f (?f = base) p ls n" by blast
  then obtain xs where xs: "get_offs (msg @ r) ?f p [] = Some xs" "places msg ?f (?f = base) xs ls"
    using get_offs_encodes by fastforce
  have len: "length xs = length ls" using places_length [OF xs(2)] .
  obtain k j where m: "match_labels (msg @ r) ?f (join L) xs (map length L) (length xs) (length L) (length (join L)) 0 0
      = (length (join L) - length (join (take k L)), if k < length L then xs ! j else 0)"
    "k \<le> length L" "j \<le> length ls" "drop k L = drop j ls"
    using match_labels_spec [OF xs(2) assms(1), of "length L" "length ls" "length (join L)" 0 0 r] assms(2) ls(3) len by auto
  have s: "suffix_at msg base L k (length (join L) - length (join (take k L))) (xs ! j + (int ?f - int base))"
    if "k < length L"
  proof -
    have "j < length ls" using m(4) that by (metis drop_eq_Nil not_le)
    then obtain a n where a: "xs ! j = int a - int ?f" "?f \<le> a" "encodes msg ?f (?f = base) a (drop k L) n"
      using places_nth [OF xs(2)] m(4) by metis
    have e: "xs ! j + (int ?f - int base) = int (a - base)" "base + (a - base) = a" using a ls(1) by auto
    have "encodes msg base True (base + (a - base)) (drop k L) n" unfolding e(2) using a(3) by (rule encodes_weaken) simp
    then show ?thesis unfolding e(1) suffix_at_def using that by auto
  qed
  have fs: "find_suffix (msg @ r) ps base (join L) (map length L) (p # qs) slen soff =
     (if slen < length (join L) - length (join (take k L)) then
        if length (join L) - length (join (take k L)) = length (join L)
        then Some (True, length (join L) - length (join (take k L)), xs ! j + (int ?f - int base))
        else find_suffix (msg @ r) ps base (join L) (map length L) qs (length (join L) - length (join (take k L)))
               (xs ! j + (int ?f - int base))
      else find_suffix (msg @ r) ps base (join L) (map length L) qs slen soff)"
    using xs(1) m(1) len ls(3) by (auto simp: Let_def)
  have "set qs \<subseteq> set ps" using Cons.prems(1) by auto
  note IH = Cons.IH [OF this]
  show ?case
  proof (cases "slen < length (join L) - length (join (take k L))")
    case True
    then have "k < length L" by (cases "k = length L") (use m(2) in auto)
    note sk = s [OF this]
    show ?thesis
      unfolding fs using True sk IH [OF exI, OF sk] by (cases "length (join L) - length (join (take k L)) = length (join L)") auto
  next
    case False
    then show ?thesis using fs IH [OF Cons.prems(2)] by (simp del: find_suffix.simps)
  qed
qed

subsection \<open>Writing\<close>

lemma enc_simps [simp]: "enc [] = []" "enc (l # ls) = of_nat (length l) # l @ enc ls"
  by (simp_all add: enc_def)

lemma length_enc: "P \<noteq> [] \<Longrightarrow> length (enc P) = length (join P) + 1"
  by (induction P rule: join.induct) auto

lemma write_lens_spec:
  "\<lbrakk>list_all label_ok P; P \<noteq> []; length pre = dst + i\<rbrakk> \<Longrightarrow>
   write_lens (pre @ x # join P @ post) dst (map length P @ st) i (i + length (join P))
     = (pre @ enc P @ post, i + length (enc P))"
proof (induction P arbitrary: pre x i)
  case (Cons l P)
  have stop: "write_lens m dst st (i + (length l + 1)) (i + length l) = (m, i + (length l + 1))" for m
    by (cases st) auto
  show ?case
  proof (cases "P = []")
    case True
    with Cons.prems stop show ?thesis by (simp add: label_ok_def list_update_append)
  next
    case False
    have "write_lens ((pre @ of_nat (length l) # l) @ dot # join P @ post) dst (map length P @ st)
        (i + (length l + 1)) ((i + (length l + 1)) + length (join P))
      = ((pre @ of_nat (length l) # l) @ enc P @ post, (i + (length l + 1)) + length (enc P))"
      by (rule Cons.IH) (use Cons.prems False in auto)
    with Cons.prems False show ?thesis by (simp add: join_Cons label_ok_def list_update_append add.assoc)
  qed
qed simp

lemma write_name:
  assumes "list_all label_ok P" "dst + length (enc P) \<le> length mem"
  shows "write_lens (blit mem (dst + 1) (join P)) dst (map length P @ st) 0 (length (join P))
     = (blit mem dst (enc P), length (enc P))"
proof (cases "P = []")
  case True
  then show ?thesis by (cases st) auto
next
  case False
  have l: "length (enc P) = length (join P) + 1" using False by (rule length_enc)
  have "blit mem (dst + 1) (join P) = take dst mem @ mem ! dst # join P @ drop (dst + length (enc P)) mem"
    using assms(2) l by (simp add: blit_def take_Suc_conv_app_nth add.assoc)
  then show ?thesis
    using write_lens_spec [OF assms(1) False, of "take dst mem" dst 0] assms(2) l by (simp add: blit_def)
qed

lemma blit_snoc:
  "p + length bs < length mem \<Longrightarrow> (blit mem p bs)[p + length bs := b] = blit mem p (bs @ [b])"
  by (simp add: blit_def list_update_append Cons_nth_drop_Suc [symmetric])

text \<open>The bytes of a name whose labels from the \<open>n\<close>-th on are already in the message.\<close>

definition name_bytes :: "byte list list \<Rightarrow> nat \<Rightarrow> int \<Rightarrow> byte list" where
  "name_bytes L n soff = enc (take n L) @
     (if n < length L then [0xC0 OR word_of_int (drop_bit 8 soff), word_of_int soff] else [0])"

definition prepared :: "DnCompressor \<Rightarrow> byte list list \<Rightarrow> nat \<Rightarrow> nat \<Rightarrow> int \<Rightarrow> DnCompressor" where
  "prepared c L n slen soff = c\<lparr>dc_lens := overlay (map length L) (dc_lens c), dc_suffix_len := slen,
     dc_suffix_off := soff, dc_src := join L\<rparr>"

lemma join_ok_pos: "list_all label_ok L \<Longrightarrow> L \<noteq> [] \<Longrightarrow> 0 < length (join L)"
  by (cases L) (auto simp: join_Cons label_ok_def)

lemma join_take_less: "list_all label_ok L \<Longrightarrow> n < length L \<Longrightarrow> length (join (take n L)) < length (join L)"
proof -
  assume a: "list_all label_ok L" "n < length L"
  then have p: "0 < length (L ! n)" by (simp add: list_all_length label_ok_def)
  have "length (join (take n L)) < length (join (take (Suc n) L))"
    using a(2) p by (cases "n = 0") (auto simp: join_take_Suc)
  also have "\<dots> \<le> length (join L)" by (rule length_join_take)
  finally show ?thesis .
qed

lemma dc_compress_spec:
  assumes "list_all label_ok L" "L \<noteq> []" "suffix_at msg base L n slen soff"
    and "dst + length (name_bytes L n soff) \<le> length mem"
  shows "dc_compress dst mem (prepared c L n slen soff) =
     map_option (\<lambda>c1. (blit mem dst (name_bytes L n soff), dc_reset c1))
       (if length (name_bytes L n soff) > 2 then add_dnptr dst (prepared c L n slen soff) else Some (prepared c L n slen soff))"
proof -
  let ?P = "take n L" and ?k = "length (join (take n L))"
  have nl: "n \<le> length L" using assms(3) by (auto simp: suffix_at_def split: if_splits)
  have okP: "list_all label_ok ?P" using assms(1) by (auto simp: list_all_iff dest: in_set_takeD)
  have k: "length (join L) - slen = ?k" "take ?k (join L) = join ?P"
    using assms(3) length_join_take [of n L] by (simp_all add: suffix_at_def take_join_take)
  have sl: "slen \<noteq> 0 \<longleftrightarrow> n < length L"
    using assms(3) join_take_less [OF assms(1), of n] nl
    by (cases "n < length L") (auto simp: suffix_at_def simp del: length_greater_0_conv)
  have so: "\<not> n < length L \<Longrightarrow> soff = 0" using assms(3) by (auto simp: suffix_at_def)
  have sp: "dst + length (enc ?P) \<le> length mem" using assms(4) by (simp add: name_bytes_def)
  obtain st where "overlay (map length L) (dc_lens c) = map length ?P @ st"
    by (metis append.assoc append_take_drop_id overlay_def take_map)
  then have w: "write_lens (blit mem (dst + 1) (join ?P)) dst (overlay (map length L) (dc_lens c)) 0 ?k
      = (blit mem dst (enc ?P), length (enc ?P))"
    using write_name [OF okP sp] by simp
  have src: "join L \<noteq> []" using join_ok_pos [OF assms(1,2)] by auto
  show ?thesis
  proof (cases "n < length L")
    case True
    let ?h = "0xC0 OR word_of_int (drop_bit 8 soff) :: byte"
    have "(blit mem dst (enc ?P))[dst + length (enc ?P) := ?h] = blit mem dst (enc ?P @ [?h])"
      using assms(4) True by (intro blit_snoc) (simp add: name_bytes_def)
    moreover have "(blit mem dst (enc ?P @ [?h]))[dst + length (enc ?P @ [?h]) := word_of_int soff]
        = blit mem dst ((enc ?P @ [?h]) @ [word_of_int soff])"
      using assms(4) True by (intro blit_snoc) (simp add: name_bytes_def)
    ultimately show ?thesis
      using True sl src k w by (simp add: dc_compress_def prepared_def Let_def name_bytes_def)
  next
    case False
    have "(blit mem dst (enc ?P))[dst + length (enc ?P) := 0] = blit mem dst (enc ?P @ [0])"
      using assms(4) False by (intro blit_snoc) (simp add: name_bytes_def)
    then show ?thesis
      using False sl src k w so by (simp add: dc_compress_def prepared_def Let_def name_bytes_def)
  qed
qed

section \<open>Round trips\<close>

lemma encodes_enc:
  "\<lbrakk>list_all label_ok P; encodes (pre @ enc P @ r) base ptrs (length pre + length (enc P)) ls n\<rbrakk> \<Longrightarrow>
   encodes (pre @ enc P @ r) base ptrs (length pre) (P @ ls) (length (enc P) + n)"
proof (induction P arbitrary: pre)
  case (Cons l P)
  have "encodes ((pre @ of_nat (length l) # l) @ enc P @ r) base ptrs (length (pre @ of_nat (length l) # l)) (P @ ls)
      (length (enc P) + n)"
    by (rule Cons.IH) (use Cons.prems in \<open>simp_all add: add.assoc\<close>)
  moreover have "label_at (pre @ enc (l # P) @ r) (length pre) l"
    using Cons.prems(1) by (simp add: label_at_def label_ok_def sub_def nth_append)
  ultimately show ?case
    using encodes.label [of "pre @ enc (l # P) @ r" "length pre" l base ptrs "P @ ls" "length (enc P) + n"]
    by (simp add: add.assoc)
qed simp

text \<open>What \<^verbatim>\<open>name_bytes\<close> adds to a message stands for the whole name.\<close>

lemma encodes_name_bytes:
  assumes "list_all label_ok L" "suffix_at msg base L n slen soff" "length msg \<le> base + 0x4000"
  shows "encodes (msg @ name_bytes L n soff) base (n < length L) (length msg) L (length (name_bytes L n soff))"
proof -
  let ?P = "take n L" and ?m = "msg @ name_bytes L n soff"
  have okP: "list_all label_ok ?P" using assms(1) by (auto simp: list_all_iff dest: in_set_takeD)
  show ?thesis
  proof (cases "n < length L")
    case True
    then obtain off k where off: "soff = int off" "encodes msg base True (base + off) (drop n L) k"
      using assms(2) by (auto simp: suffix_at_def)
    have "base + off < length msg" using off(2) by (rule encodes_bound)
    then have lt: "off < 0x4000" using assms(3) by simp
    let ?h = "0xC0 OR word_of_int (drop_bit 8 soff) :: byte" and ?a = "length msg + length (enc ?P)"
    have nb: "name_bytes L n soff = enc ?P @ [?h, word_of_int soff]" using True by (simp add: name_bytes_def)
    have at: "?m ! ?a = ?h" "?m ! Suc ?a = word_of_int soff" by (simp_all add: nb nth_append)
    have "ptr_target ?m base ?a = base + off" "?m ! ?a AND 0xC0 = 0xC0"
      using pointer_bytes [OF lt] at by (simp_all add: ptr_target_def off(1))
    then have "encodes ?m base True ?a (drop n L) 2"
      using encodes_append [OF off(2), of "name_bytes L n soff"] True by (intro encodes.pointer) (simp_all add: nb)
    then show ?thesis
      using encodes_enc [OF okP, of msg "[?h, word_of_int soff]" base True "drop n L" 2] True by (simp add: nb)
  next
    case False
    then have L: "take n L = L" using assms(2) by (simp add: suffix_at_def split: if_splits)
    then have nb: "name_bytes L n soff = enc L @ [0]" using False by (simp add: name_bytes_def)
    have "encodes ?m base False (length msg + length (enc L)) [] (Suc 0)"
      by (rule encodes.root) (simp_all add: nb nth_append)
    then show ?thesis using encodes_enc [of L msg "[0]" base False "[]" "Suc 0"] assms(1) False by (simp add: nb)
  qed
qed

text \<open>The compressor between two names, over a message whose first \<open>d\<close> bytes are written.\<close>

definition comp_inv :: "byte list \<Rightarrow> nat \<Rightarrow> DnCompressor \<Rightarrow> bool" where
  "comp_inv mem d c \<longleftrightarrow> dc_src c = [] \<and> dc_suffix_len c = 0 \<and> dc_suffix_off c = 0
     \<and> dc_base c \<le> d \<and> d \<le> length mem \<and> known (take d mem) (dc_base c) (dc_dnptrs c)"

lemma dc_prepare_spec:
  assumes "comp_inv mem d c" "name_ok L" "L \<noteq> []" "name = join L @ (if trailing then [dot] else [])"
  shows "\<exists>n slen soff. suffix_at (take d mem) (dc_base c) L n slen soff
     \<and> dc_prepare mem name c = Some (Inr (length (name_bytes L n soff)), prepared c L n slen soff)"
proof -
  have ok: "list_all label_ok L" "length (join L) \<le> 254" using assms(2) by (simp_all add: name_ok_def)
  have pos: "0 < length (join L)" using join_ok_pos ok(1) assms(3) by blast
  have "last (join L) = last (last L)" "last L \<noteq> []" "dot \<notin> set (last L)"
  proof -
    have "label_ok (last L)" using ok(1) assms(3) by (simp add: list_all_iff)
    then show *: "last L \<noteq> []" "dot \<notin> set (last L)" by (auto simp: label_ok_def)
    show "last (join L) = last (last L)"
      using join_snoc [of "butlast L" "last L"] assms(3) *(1) by (simp add: last_append)
  qed
  then have "last (join L) \<noteq> dot" using last_in_set by metis
  then have src: "(if last name = dot then butlast name else name) = join L" "name \<noteq> []" "length name \<le> size_limits_name"
    using assms(4) pos ok(2) by (auto simp: size_limits_name_def)
  have gl: "get_label_lens (join L) 0 = (True, map length L)"
    using get_label_lens_join [OF ok(1) assms(3), of "join L" "[]"] by simp
  have "suffix_at (take d mem) (dc_base c) L (length L) 0 0" by (simp add: suffix_at_def)
  then obtain n slen soff where s: "find_suffix mem (dc_dnptrs c) (dc_base c) (join L) (map length L) (dc_dnptrs c) 0 0
      = Some (True, slen, soff)" "suffix_at (take d mem) (dc_base c) L n slen soff"
    using find_suffix_spec [OF ok(1) assms(3), of "take d mem" "dc_base c" "dc_dnptrs c" "dc_dnptrs c" 0 0 "drop d mem"]
      assms(1) by (auto simp: comp_inv_def)
  have nl: "n \<le> length L" using s(2) by (auto simp: suffix_at_def split: if_splits)
  have "length (join L) - slen + 2 + (if 0 < slen \<and> slen < length (join L) then 1 else 0) = length (name_bytes L n soff)"
  proof -
    have sl: "slen = length (join L) - length (join (take n L))" using s(2) by (simp add: suffix_at_def)
    consider "n = 0" | "0 < n" "n < length L" | "n = length L" using nl by linarith
    then show ?thesis
    proof cases
      case 2
      then have "take n L \<noteq> []" by auto
      moreover have "0 < length (join (take n L))"
        using ok(1) \<open>take n L \<noteq> []\<close> by (intro join_ok_pos) (auto simp: list_all_iff dest: in_set_takeD)
      ultimately show ?thesis
        using 2 sl join_take_less [OF ok(1) 2(2)] length_enc [of "take n L"]
        by (simp add: name_bytes_def del: length_greater_0_conv)
    qed (use sl assms(3) length_enc [of L] pos in \<open>auto simp: name_bytes_def\<close>)
  qed
  then have "dc_prepare mem name c = Some (Inr (length (name_bytes L n soff)), prepared c L n slen soff)"
    using src s(1) gl pos assms(1) by (auto simp: dc_prepare_def Let_def comp_inv_def prepared_def)
  with s(2) show ?thesis by blast
qed

lemma dotted_join: "L \<noteq> [] \<Longrightarrow> dotted L = join L @ [dot]"
  by (induction L rule: join.induct) (auto simp: dotted_def)

text \<open>One name: the caller prepares it, writes it at \<open>d\<close> and advances by the returned size.\<close>

definition put_name :: "byte list \<Rightarrow> (byte list \<times> nat \<times> DnCompressor) \<Rightarrow> (byte list \<times> nat \<times> DnCompressor) option" where
  "put_name name st =
     (case st of (mem, d, c) \<Rightarrow>
       (case dc_prepare mem name c of
          Some (Inr k, c1) \<Rightarrow> map_option (\<lambda>(mem', c2). (mem', d + k, c2)) (dc_compress d mem c1)
        | _ \<Rightarrow> None))"

lemma put_name_spec:
  assumes "comp_inv mem d c" "name_ok L" "L \<noteq> []" "name = join L @ (if trailing then [dot] else [])"
    and "d + length (join L) + 2 \<le> length mem" "length mem \<le> dc_base c + 0x4000" "length (dc_dnptrs c) < 20"
  shows "\<exists>n slen soff c1 c2. let bs = name_bytes L n soff in
     suffix_at (take d mem) (dc_base c) L n slen soff \<and> length bs \<le> length (join L) + 2
     \<and> dc_prepare mem name c = Some (Inr (length bs), c1) \<and> dc_compress d mem c1 = Some (blit mem d bs, c2)
     \<and> encodes (take d mem @ bs) (dc_base c) (n < length L) d L (length bs)
     \<and> dc_src c2 = [] \<and> dc_suffix_len c2 = 0 \<and> dc_suffix_off c2 = 0 \<and> dc_base c2 = dc_base c
     \<and> dc_dnptrs c2 = dc_dnptrs c @ (if length bs > 2 then [d] else [])"
proof -
  have ok: "list_all label_ok L" using assms(2) by (simp add: name_ok_def)
  obtain n slen soff where s: "suffix_at (take d mem) (dc_base c) L n slen soff"
    "dc_prepare mem name c = Some (Inr (length (name_bytes L n soff)), prepared c L n slen soff)"
    using dc_prepare_spec [OF assms(1-4)] by blast
  have le: "length (name_bytes L n soff) \<le> length (join L) + 2"
  proof -
    have nl: "n \<le> length L" using s(1) by (auto simp: suffix_at_def split: if_splits)
    consider "n = 0" | "0 < n" "n < length L" | "n = length L" using nl by linarith
    then show ?thesis
    proof cases
      case 2
      then have "take n L \<noteq> []" by auto
      then show ?thesis
        using 2 length_enc [of "take n L"] join_take_less [OF ok 2(2)] by (simp add: name_bytes_def)
    qed (use assms(3) length_enc [of L] in \<open>auto simp: name_bytes_def\<close>)
  qed
  have d: "d \<le> length mem" using assms(1) by (simp add: comp_inv_def)
  have "encodes (take d mem @ name_bytes L n soff) (dc_base c) (n < length L) d L (length (name_bytes L n soff))"
    using encodes_name_bytes [OF ok s(1)] assms(6) d by simp
  then show ?thesis
    using s le dc_compress_spec [OF ok assms(3) s(1), of d mem c] assms(5,7)
    by (intro exI [of _ n] exI [of _ slen] exI [of _ soff])
      (auto simp: Let_def dc_reset_def add_dnptr_def dnptrs_max_def prepared_def)
qed

text \<open>C24. Compressed names round trip: let a name of labels of at most 63 bytes and at most 254 bytes of text be prepared
  and compressed into a message of at most \<open>0x4000\<close> bytes behind at most 19 earlier names that are intact, of which either the first
  one lies at the base of the message or none contains a pointer (the condition is needed, see
  \<open>dns_pointer_base_bug\<close>).  Then it takes exactly the bytes that were announced, leaves the rest of the message alone,
  and both decompressors read back the name, ended by a dot, and advance by the same number of bytes.\<close>

theorem dns_name_round_trip:
  assumes "comp_inv mem d c" "name_ok L" "L \<noteq> []" "name = join L @ (if trailing then [dot] else [])"
    and "d + length (join L) + 2 \<le> length mem" "length mem \<le> dc_base c + 0x4000" "length (dc_dnptrs c) < 20"
  shows "\<exists>k c1 mem' c2. dc_prepare mem name c = Some (Inr k, c1) \<and> dc_compress d mem c1 = Some (mem', c2)
     \<and> take d mem' = take d mem \<and> drop (d + k) mem' = drop (d + k) mem
     \<and> decompress_span mem' (dc_base c) d = Some (ok, join L @ [dot], d + k)
     \<and> decompress_ptr mem' (dc_base c) d = Some (Inr k, join L @ [dot])"
proof -
  obtain n slen soff c1 c2 where st: "let bs = name_bytes L n soff in
     suffix_at (take d mem) (dc_base c) L n slen soff \<and> length bs \<le> length (join L) + 2
     \<and> dc_prepare mem name c = Some (Inr (length bs), c1) \<and> dc_compress d mem c1 = Some (blit mem d bs, c2)
     \<and> encodes (take d mem @ bs) (dc_base c) (n < length L) d L (length bs)"
    using put_name_spec [OF assms] unfolding Let_def by blast
  let ?bs = "name_bytes L n soff"
  have b: "blit mem d ?bs = (take d mem @ ?bs) @ drop (d + length ?bs) mem" by (simp add: blit_def)
  have "encodes (blit mem d ?bs) (dc_base c) (n < length L) d L (length ?bs)"
    unfolding b using st by - (rule encodes_append, simp add: Let_def)
  then have "decompress_span (blit mem d ?bs) (dc_base c) d = Some (ok, join L @ [dot], d + length ?bs)"
    "decompress_ptr (blit mem d ?bs) (dc_base c) d = Some (Inr (length ?bs), join L @ [dot])"
    using decompress_loop_encodes decompress_size_encodes dotted_join [OF assms(3)]
    by (simp_all add: decompress_span_def decompress_ptr_def)
  moreover have "take d (blit mem d ?bs) = take d mem" "drop (d + length ?bs) (blit mem d ?bs) = drop (d + length ?bs) mem"
    using assms(1) st assms(5) by (simp_all add: Let_def blit_def comp_inv_def)
  ultimately show ?thesis using st unfolding Let_def by blast
qed

lemma comp_inv_new: "base \<le> d \<Longrightarrow> d \<le> length mem \<Longrightarrow> comp_inv mem d (dc_new base)"
  by (simp add: comp_inv_def dc_new_def known_def)

text \<open>A name behind \<^verbatim>\<open>a.b\<close>, whose suffix it shares: \<^verbatim>\<open>c.b\<close> takes four bytes, the last two of them a pointer to offset 2.\<close>

theorem dns_name_round_trip_witness:
  "let m = [1, 0x61, 1, 0x62, 0] @ replicate 20 0; c = (dc_new 0)\<lparr>dc_dnptrs := [0]\<rparr> in
   \<exists>c1 mem' c2. dc_prepare m [0x63, dot, 0x62] c = Some (Inr 4, c1) \<and> dc_compress 5 m c1 = Some (mem', c2)
     \<and> take 9 mem' = [1, 0x61, 1, 0x62, 0, 1, 0x63, 0xC0, 2] \<and> decompress_span mem' 0 5 = Some (ok, [0x63, dot, 0x62, dot], 9)"
proof -
  define m :: "byte list" where "m = [1, 0x61, 1, 0x62, 0] @ replicate 20 0"
  define c where "c = (dc_new 0)\<lparr>dc_dnptrs := [0]\<rparr>"
  let ?t = "[1, 0x61, 1, 0x62, 0] :: byte list"
  have e: "encodes ?t 0 True 4 [] (Suc 0)" by (rule encodes.root) simp_all
  then have "encodes ?t 0 True 2 [[0x62]] 3"
    using encodes.label [of ?t 2 "[0x62]" 0 True "[]" "Suc 0"] by (simp add: label_at_def sub_def eval_nat_numeral)
  then have "encodes ?t 0 True 0 [[0x61], [0x62]] 5"
    using encodes.label [of ?t 0 "[0x61]" 0 True "[[0x62]]" 3] by (simp add: label_at_def sub_def eval_nat_numeral)
  then have i: "comp_inv m 5 c" by (auto simp: comp_inv_def known_def m_def c_def dc_new_def)
  have n: "name_ok [[0x63], [0x62]]" by (simp add: name_ok_def label_ok_def)
  have p: "dc_base c = 0" "length (dc_dnptrs c) < 20" "length m = 25" by (simp_all add: c_def dc_new_def m_def)
  obtain k c1 mem' c2 where r: "dc_prepare m [0x63, dot, 0x62] c = Some (Inr k, c1)" "dc_compress 5 m c1 = Some (mem', c2)"
    "decompress_span mem' 0 5 = Some (ok, [0x63, dot, 0x62, dot], 5 + k)"
    using dns_name_round_trip [OF i n _ _ _ _ p(2), of "[0x63, dot, 0x62]" False] p by auto
  have "case dc_prepare m [0x63, dot, 0x62] c of
      Some (Inr k, c1) \<Rightarrow> k = 4 \<and> map_option (\<lambda>x. take 9 (fst x)) (dc_compress 5 m c1) = Some [1, 0x61, 1, 0x62, 0, 1, 0x63, 0xC0, 2]
    | _ \<Rightarrow> False"
    unfolding m_def c_def by code_simp
  then have "k = 4" "take 9 mem' = [1, 0x61, 1, 0x62, 0, 1, 0x63, 0xC0, 2]" using r by simp_all
  with r show ?thesis unfolding Let_def m_def [symmetric] c_def [symmetric] by simp
qed

text \<open>A message has room for 20 names that are not pointers alone: the next one fails the assertion.\<close>

lemma compressor_full:
  assumes "length (dc_dnptrs c) = 20" "list_all label_ok L" "L \<noteq> []" "suffix_at msg base L n slen soff"
    and "dst + length (name_bytes L n soff) \<le> length mem" "length (name_bytes L n soff) > 2"
  shows "dc_compress dst mem (prepared c L n slen soff) = None"
  using dc_compress_spec [OF assms(2-5), of c] assms(1,6) by (simp add: add_dnptr_def dnptrs_max_def prepared_def)

subsection \<open>All the names of a message\<close>

text \<open>A name as the caller writes it: the labels, and a dot at the end if they are none or it is asked for.\<close>

definition name_text :: "byte list list \<Rightarrow> bool \<Rightarrow> byte list" where
  "name_text L trailing = join L @ (if L = [] \<or> trailing then [dot] else [])"

fun put_names :: "byte list list \<Rightarrow> (byte list \<times> nat \<times> DnCompressor) \<Rightarrow> (nat list \<times> byte list \<times> nat) option" where
  "put_names [] (mem, d, c) = Some ([], mem, d)"
| "put_names (nm # nms) (mem, d, c) =
     Option.bind (put_name nm (mem, d, c)) (\<lambda>st.
       map_option (\<lambda>(ds, mem', e). (d # ds, mem', e)) (put_names nms st))"

definition anchored :: "byte list \<Rightarrow> nat \<Rightarrow> DnCompressor \<Rightarrow> bool" where
  "anchored mem d c \<longleftrightarrow> comp_inv mem d c \<and> (dc_dnptrs c = [] \<and> d = dc_base c \<or> dc_dnptrs c \<noteq> [] \<and> hd (dc_dnptrs c) = dc_base c)"

lemma known_grow:
  assumes "known msg base ps" "ps \<noteq> [] \<longrightarrow> hd ps = base" "ps = [] \<longrightarrow> d = base" "base \<le> d"
    and "encodes (msg @ bs) base ptrs d L k" "L \<noteq> []"
  shows "known (msg @ bs) base (ps @ [d])"
proof -
  have hd: "hd (ps @ [d]) = base" using assms(2,3) by (cases ps) auto
  have "encodes (msg @ bs) base True d L k" using assms(5) by (rule encodes_weaken) simp
  then have "\<exists>ls n. ls \<noteq> [] \<and> encodes (msg @ bs) base True d ls n" using assms(6) by blast
  moreover have "base \<le> p \<and> (\<exists>ls n. ls \<noteq> [] \<and> encodes (msg @ bs) base True p ls n)" if "p \<in> set ps" for p
  proof -
    have "ps \<noteq> []" using that by auto
    then have "base \<le> p" "\<exists>ls n. ls \<noteq> [] \<and> encodes msg base True p ls n"
      using assms(1,2) that by (auto simp: known_def list_all_iff)
    then show ?thesis using encodes_append by blast
  qed
  ultimately show ?thesis using assms(4) unfolding known_def hd by (simp add: list_all_iff)
qed

lemma known_append: "known msg base ps \<Longrightarrow> known (msg @ bs) base ps"
  unfolding known_def by (erule list.pred_mono_strong) (use encodes_append in blast)

lemma put_name_anchored:
  assumes "anchored mem d c" "name_ok L" "dc_dnptrs c = [] \<longrightarrow> L \<noteq> []"
    and "d + length (join L) + 2 \<le> length mem" "length mem \<le> dc_base c + 0x4000" "length (dc_dnptrs c) < 20"
  shows "\<exists>mem' k c'. put_name (name_text L t) (mem, d, c) = Some (mem', d + k, c') \<and> anchored mem' (d + k) c'
     \<and> dc_base c' = dc_base c \<and> dc_dnptrs c' \<noteq> [] \<and> length (dc_dnptrs c') \<le> Suc (length (dc_dnptrs c)) \<and> length mem' = length mem \<and> take d mem' = take d mem
     \<and> k \<le> length (join L) + 2 \<and> (\<exists>ptrs. encodes (take (d + k) mem') (dc_base c) ptrs d L k)"
proof (cases "L = []")
  case True
  have inv: "comp_inv mem d c" "dc_dnptrs c \<noteq> []" "hd (dc_dnptrs c) = dc_base c"
    using assms(1,3) True by (auto simp: anchored_def)
  have p: "put_name (name_text L t) (mem, d, c) = Some (mem[d := 0], d + 1, c)"
    using inv(1) by (simp add: put_name_def name_text_def True dc_prepare_def size_limits_name_def dc_compress_def comp_inv_def Let_def)
  have d: "d < length mem" using assms(4) by simp
  have tk: "take (d + 1) (mem[d := 0]) = take d mem @ [0]" using d by (simp add: take_Suc_conv_app_nth)
  have "encodes (take d mem @ [0]) (dc_base c) False d [] (Suc 0)" by (rule encodes.root) (use d in \<open>simp_all add: nth_append\<close>)
  moreover have "comp_inv (mem[d := 0]) (d + 1) c"
    using inv(1) d known_append by (simp add: comp_inv_def tk del: add_Suc_right One_nat_def) 
  ultimately show ?thesis
    using p inv tk True by (intro exI [of _ "mem[d := 0]"] exI [of _ "1::nat"] exI [of _ c]) (auto simp: anchored_def)
next
  case False
  have inv: "comp_inv mem d c" using assms(1) by (simp add: anchored_def)
  obtain n slen soff c1 c2 where st: "let bs = name_bytes L n soff in
     suffix_at (take d mem) (dc_base c) L n slen soff \<and> length bs \<le> length (join L) + 2
     \<and> dc_prepare mem (name_text L t) c = Some (Inr (length bs), c1) \<and> dc_compress d mem c1 = Some (blit mem d bs, c2)
     \<and> encodes (take d mem @ bs) (dc_base c) (n < length L) d L (length bs)
     \<and> dc_src c2 = [] \<and> dc_suffix_len c2 = 0 \<and> dc_suffix_off c2 = 0 \<and> dc_base c2 = dc_base c
     \<and> dc_dnptrs c2 = dc_dnptrs c @ (if length bs > 2 then [d] else [])"
    using put_name_spec [OF inv assms(2) False _ assms(4-6), of "name_text L t" t] False
    unfolding Let_def name_text_def by auto
  define bs where "bs = name_bytes L n soff"
  note st = st [unfolded Let_def, folded bs_def]
  have tk: "take (d + length bs) (blit mem d bs) = take d mem @ bs" "take d (blit mem d bs) = take d mem"
    "length (blit mem d bs) = length mem"
    using st assms(4) inv by (simp_all add: blit_def comp_inv_def)
  have a: "dc_dnptrs c \<noteq> [] \<longrightarrow> hd (dc_dnptrs c) = dc_base c" "dc_dnptrs c = [] \<longrightarrow> d = dc_base c"
    using assms(1) by (auto simp: anchored_def)
  have big: "length bs > 2" if "dc_dnptrs c = []"
  proof (rule ccontr)
    assume "\<not> length bs > 2"
    have n: "n < length L"
    proof (rule ccontr)
      assume "\<not> n < length L"
      then have "bs = enc L @ [0]" using st by (simp add: bs_def name_bytes_def suffix_at_def)
      moreover have "length (enc L) \<ge> 2"
        using assms(2) False length_enc [OF False] join_ok_pos [of L] by (simp add: name_ok_def Suc_le_eq)
      ultimately show False using \<open>\<not> length bs > 2\<close> by simp
    qed
    then obtain off k where "encodes (take d mem) (dc_base c) True (dc_base c + off) (drop n L) k"
      using st by (auto simp: suffix_at_def)
    then have "dc_base c + off < d" using encodes_bound inv by (fastforce simp: comp_inv_def)
    then show False using a(2) that by simp
  qed
  have "known (take d mem @ bs) (dc_base c) (dc_dnptrs c2)"
  proof (cases "length bs > 2")
    case True
    have "known (take d mem) (dc_base c) (dc_dnptrs c)" "dc_base c \<le> d"
      "encodes (take d mem @ bs) (dc_base c) (n < length L) d L (length bs)"
      using inv st by (simp_all add: comp_inv_def)
    from known_grow [OF this(1) a this(2,3) False] show ?thesis using st True by simp
  next
    case False
    then show ?thesis using st known_append inv by (simp add: comp_inv_def)
  qed
  then have "anchored (blit mem d bs) (d + length bs) c2" "dc_dnptrs c2 \<noteq> []" "length (dc_dnptrs c2) \<le> Suc (length (dc_dnptrs c))"
    using st tk inv a big assms(4) by (auto simp: anchored_def comp_inv_def hd_append split: if_splits)
  then show ?thesis
    using st tk by (intro exI [of _ "blit mem d bs"] exI [of _ "length bs"] exI [of _ c2]) (auto simp: put_name_def)
qed

lemma put_names_anchored:
  "\<lbrakk>anchored mem d c; list_all (\<lambda>(L, t). name_ok L) Ls; dc_dnptrs c = [] \<longrightarrow> Ls = [] \<or> fst (hd Ls) \<noteq> [];
    d + sum_list (map (\<lambda>(L, t). length (join L) + 2) Ls) \<le> length mem; length mem \<le> dc_base c + 0x4000; length (dc_dnptrs c) + length Ls \<le> 20\<rbrakk> \<Longrightarrow>
   \<exists>ds mem' e. put_names (map (\<lambda>(L, t). name_text L t) Ls) (mem, d, c) = Some (ds, mem', e)
     \<and> take d mem' = take d mem \<and> length ds = length Ls \<and> hd (ds @ [e]) = d
     \<and> map (decompress_span mem' (dc_base c)) ds = map2 (\<lambda>(L, t) e. Some (ok, dotted L, e)) Ls (tl (ds @ [e]))"
proof (induction Ls arbitrary: mem d c)
  case (Cons N Ls)
  obtain L t where N: "N = (L, t)" by (cases N)
  obtain m1 k c1 where p: "put_name (name_text L t) (mem, d, c) = Some (m1, d + k, c1)" "anchored m1 (d + k) c1"
    "dc_base c1 = dc_base c" "dc_dnptrs c1 \<noteq> []" "length (dc_dnptrs c1) \<le> Suc (length (dc_dnptrs c))" "length m1 = length mem" "take d m1 = take d mem"
    "k \<le> length (join L) + 2" "\<exists>ptrs. encodes (take (d + k) m1) (dc_base c) ptrs d L k"
    using put_name_anchored [of mem d c L t] Cons.prems N by auto
  obtain ds m2 e where q: "put_names (map (\<lambda>(L, t). name_text L t) Ls) (m1, d + k, c1) = Some (ds, m2, e)"
    "take (d + k) m2 = take (d + k) m1" "length ds = length Ls" "hd (ds @ [e]) = d + k"
    "map (decompress_span m2 (dc_base c)) ds = map2 (\<lambda>(L, t) e. Some (ok, dotted L, e)) Ls (tl (ds @ [e]))"
    using Cons.IH [of m1 "d + k" c1] Cons.prems p N by auto
  have "\<exists>ptrs. encodes m2 (dc_base c) ptrs d L k" using p(9) q(2) encodes_take by metis
  then have "decompress_span m2 (dc_base c) d = Some (ok, dotted L, d + k)"
    using decompress_loop_encodes by (fastforce simp: decompress_span_def)
  moreover have "ds @ [e] = (d + k) # tl (ds @ [e])" using q(4) by (cases ds) auto
  then have "map2 (\<lambda>(L, t) e. Some (ok, dotted L, e)) (N # Ls) (ds @ [e])
      = Some (ok, dotted L, d + k) # map2 (\<lambda>(L, t) e. Some (ok, dotted L, e)) Ls (tl (ds @ [e]))"
    unfolding N by (metis (no_types, lifting) list.simps(9) zip_Cons_Cons case_prod_conv)
  moreover have "take d m2 = take d mem"
    using q(2) p(7) by (metis min.absorb1 le_add1 take_take)
  ultimately show ?case using p(1) q N
    by (intro exI [of _ "d # ds"] exI [of _ m2] exI [of _ e]) (simp add: add.assoc del: zip_Cons_Cons)
qed simp

text \<open>C25. All names of a message survive compression: when the first name lies at the base the compressor was
  given, every name of the sequence, written one after the other with whatever earlier suffixes are
  shared, decompresses from the finished message to its own labels and ends where the next one begins.\<close>

theorem dns_message_names:
  assumes "list_all (\<lambda>(L, t). name_ok L) Ls" "Ls \<noteq> []" "fst (hd Ls) \<noteq> []" "length Ls \<le> 20"
    and "base + sum_list (map (\<lambda>(L, t). length (join L) + 2) Ls) \<le> length mem" "length mem \<le> base + 0x4000"
  shows "\<exists>ds mem' e. put_names (map (\<lambda>(L, t). name_text L t) Ls) (mem, base, dc_new base) = Some (ds, mem', e)
     \<and> length ds = length Ls
     \<and> map (decompress_span mem' base) ds = map2 (\<lambda>(L, t) e. Some (ok, dotted L, e)) Ls (tl (ds @ [e]))"
proof -
  have b: "dc_base (dc_new base) = base" "dc_dnptrs (dc_new base) = []" by (simp_all add: dc_new_def)
  have "anchored mem base (dc_new base)"
    using assms(5) comp_inv_new [of base base mem] b by (simp add: anchored_def)
  from put_names_anchored [OF this assms(1), unfolded b] assms(3-6) show ?thesis by fastforce
qed

theorem dns_message_names_witness:
  "\<exists>ds mem' e. put_names [[0x61, dot, 0x62], [0x63, dot, 0x62, dot]] (replicate 20 0, 0, dc_new 0) = Some (ds, mem', e)
     \<and> map (decompress_span mem' 0) ds = map2 (\<lambda>(L, t) e. Some (ok, dotted L, e))
          [([[0x61], [0x62]], False), ([[0x63], [0x62]], True)] (tl (ds @ [e]))"
proof -
  have "list_all (\<lambda>(L, t). name_ok L) [([[0x61], [0x62]], False), ([[0x63], [0x62]], True)]"
    by (simp add: name_ok_def label_ok_def)
  from dns_message_names [OF this, of 0 "replicate 20 0"] show ?thesis by (fastforce simp: name_text_def)
qed

subsection \<open>When the first name does not lie at the base\<close>

text \<open>A message with a 12 byte header: \<^verbatim>\<open>www.google.com\<close> at 12 with its type and class, \<^verbatim>\<open>mail.google.com\<close>
  at 32 pointing into it.  The walk over the second name resolves its pointer 16 against the first
  name instead of the base, lands on the zero byte after it, and takes \<^verbatim>\<open>mail\<close> for a whole name: the
  name \<^verbatim>\<open>x.mail\<close> is then compressed to one that reads as \<^verbatim>\<open>x.mail.google.com.\<close>\<close>

definition hello_message :: "byte list" where
  "hello_message = replicate 12 0 @ [3, 119, 119, 119, 6, 103, 111, 111, 103, 108, 101, 3, 99, 111, 109, 0, 0, 1, 0, 1,
     4, 109, 97, 105, 108, 0xC0, 16, 0, 1, 0, 1] @ replicate 8 0"

definition hello_compressor :: DnCompressor where
  "hello_compressor = (dc_new 0)\<lparr>dc_dnptrs := [12, 32]\<rparr>"

lemma dns_pointer_base_bug:
  "decompress_span hello_message 0 32 = Some (ok, [109, 97, 105, 108, dot, 103, 111, 111, 103, 108, 101, dot, 99, 111, 109, dot], 39)
   \<and> (case dc_prepare hello_message [120, dot, 109, 97, 105, 108] hello_compressor of
        Some (Inr k, c1) \<Rightarrow> (case dc_compress 43 hello_message c1 of None \<Rightarrow> False | Some (mem', c2) \<Rightarrow> k = 4 \<and>
          decompress_span mem' 0 43 = Some (ok, [120, dot, 109, 97, 105, 108, dot, 103, 111, 111, 103, 108, 101, dot, 99, 111, 109, dot], 47))
      | _ \<Rightarrow> False)"
  by code_simp

text \<open>A pointer that is its own target is never left: the decompressor does not return on it.\<close>

lemma jump_self:
  assumes "mem ! p AND 0xC0 = 0xC0" "ptr_target mem base p = p"
  shows "jump mem base p = None"
proof (rule ccontr)
  assume "jump mem base p \<noteq> None"
  then obtain y where "jump mem base p = Some y" by auto
  then have "\<not> (mem ! p AND 0xC0 = 0xC0 \<and> ptr_target mem base p = p)"
    by (rule jump.raw_induct [where P = "\<lambda>mem base p y. \<not> (mem ! p AND 0xC0 = 0xC0 \<and> ptr_target mem base p = p)", rotated])
      (force split: if_splits)
  with assms show False by simp
qed

lemma decompress_self_pointer:
  assumes "mem ! p AND 0xC0 = 0xC0" "ptr_target mem base p = p"
  shows "decompress_span mem base p = None"
proof -
  have "mem ! p \<noteq> 0" using assms(1) by auto
  then have "prepare_rest mem base p [] = None" using assms by (subst prepare_rest.simps) (simp add: jump_self)
  then show ?thesis
    using assms \<open>mem ! p \<noteq> 0\<close> by (simp add: decompress_span_def decompress_loop.simps Let_def)
qed

text \<open>\<^verbatim>\<open>skip_dn\<close> takes a pointer only when its high byte is exactly \<^verbatim>\<open>0xc0\<close>: a pointer to an offset of 256 or
  more, which the decompressor follows, is rejected.\<close>

lemma skip_dn_far_pointer:
  "skip_dn [0xC1, 0] 0 = Some (Inl illegal_byte_sequence)
   \<and> (\<exists>mem. take 2 mem = [0xC1, 0] \<and> decompress_span mem 0 0 = Some (ok, [0x61, dot], 2))"
proof
  show "skip_dn [0xC1, 0] 0 = Some (Inl illegal_byte_sequence)" by code_simp
  let ?m = "[0xC1, 0] @ replicate 254 0 @ [1, 0x61, 0] :: byte list"
  have l: "label_at ?m 256 [0x61]" "?m ! 258 = 0" by (simp_all add: label_at_def sub_def nth_append)
  have "encodes ?m 0 True 256 [[0x61]] (Suc (Suc (Suc 0)))"
    using encodes.label [OF l(1), of 0 True "[]" "Suc 0"] encodes.root [of 258 ?m 0 True] l(2) by simp
  moreover have "ptr_target ?m 0 0 = 256" by (simp add: ptr_target_def)
  ultimately have "encodes ?m 0 True 0 [[0x61]] 2" by (intro encodes.pointer) simp_all
  from decompress_loop_encodes [OF this, of 0 "[]"]
  show "\<exists>mem. take 2 mem = [0xC1, 0] \<and> decompress_span mem 0 0 = Some (ok, [0x61, dot], 2)"
    by (intro exI [of _ ?m]) (simp add: decompress_span_def dotted_def)
qed

end
