(* ===== verification/Http_Head.thy ===== *)
theory Http_Head
  imports Net_Prelude
begin

text \<open>
  The header block parser \<^verbatim>\<open>MessageRestView::parse\<close> (\<^verbatim>\<open>include/xsl/net/http/msg.h\<close>). The views it
  stores are spans of the parsed window, an offset and a length; \<open>rest_parse\<close> returns the insertions
  in the order the code makes them. \<open>rest_scan\<close> says the same line by line over contents, and
  \<open>spec_rest\<close> is what a whole stream of bytes means.
\<close>

type_synonym span = "nat \<times> nat"

abbreviation CRLF :: string where
  "CRLF \<equiv> [CR, LF]"

abbreviation COLON :: char where
  "COLON \<equiv> CHR '':''"

definition span_of :: "string \<Rightarrow> span \<Rightarrow> string" where
  "span_of view s = sub view (fst s) (snd s)"

section \<open>The parser\<close>

text \<open>\<^verbatim>\<open>view.find(pat, vstart)\<close> where \<^verbatim>\<open>vstart\<close> may be \<^verbatim>\<open>npos\<close>.\<close>

definition sv_find_from :: "string \<Rightarrow> string \<Rightarrow> nat option \<Rightarrow> nat option" where
  "sv_find_from pat s pos = (case pos of None \<Rightarrow> None | Some p \<Rightarrow> sv_find pat s p)"

lemma sv_find_bounds:
  "sv_find pat s pos = Some e \<Longrightarrow> pos \<le> e \<and> e + length pat \<le> length s"
  by (auto simp: sv_find_def split: if_splits dest: find_sub_bound)

lemma sv_find_first_not_of_bounds:
  "sv_find_first_not_of cs s pos = Some e \<Longrightarrow> pos \<le> e \<and> e < length s"
  by (auto simp: sv_find_first_not_of_def find_idx_Some split: if_splits)

lemma sv_find_from_bounds:
  "sv_find_from pat s p = Some e \<Longrightarrow> \<exists>q. p = Some q \<and> q \<le> e \<and> e + length pat \<le> length s"
  by (auto simp: sv_find_from_def dest: sv_find_bounds split: option.splits)

function rest_parse :: "string \<Rightarrow> nat \<Rightarrow> (span \<times> span) list \<Rightarrow> nat \<times> ec \<times> (span \<times> span) list" where
  "rest_parse view pos hs =
     (if pos < length view then
        (case sv_find CRLF view pos of
           None \<Rightarrow> (pos, Some resource_unavailable_try_again, hs)
         | Some e \<Rightarrow>
             if e = pos then (pos + 2, ok, hs)
             else (case sv_find [COLON] view pos of
                     None \<Rightarrow> (pos, Some illegal_byte_sequence, hs)
                   | Some colon \<Rightarrow>
                       if colon > e then (pos, Some illegal_byte_sequence, hs)
                       else let vstart = sv_find_first_not_of [SP] view (colon + 1)
                            in (case sv_find_from CRLF view vstart of
                                  None \<Rightarrow> (pos, Some resource_unavailable_try_again, hs)
                                | Some vend \<Rightarrow>
                                    rest_parse view (vend + 2)
                                      (hs @ [((pos, colon - pos), (the vstart, vend - the vstart))]))))
      else (pos, Some resource_unavailable_try_again, hs))"
  by pat_completeness auto

termination
  by (relation "measure (\<lambda>(view, pos, hs). length view - pos)")
    (auto dest!: sv_find_bounds sv_find_first_not_of_bounds sv_find_from_bounds)

declare rest_parse.simps [simp del]

section \<open>Line by line\<close>

definition hdr_key :: "string \<Rightarrow> string" where
  "hdr_key l = takeWhile (\<lambda>c. c \<noteq> COLON) l"

definition hdr_val :: "string \<Rightarrow> string" where
  "hdr_val l = dropWhile (\<lambda>c. c = SP) (tl (dropWhile (\<lambda>c. c \<noteq> COLON) l))"

lemma find_CRLF_drop: "find_sub CRLF d = Some e \<Longrightarrow> length (drop (e + 2) d) < length d"
  by (auto dest: find_sub_bound)

function rest_scan :: "string \<Rightarrow> nat \<times> ec \<times> (string \<times> string) list" where
  "rest_scan d =
     (case find_sub CRLF d of
        None \<Rightarrow> (0, Some resource_unavailable_try_again, [])
      | Some e \<Rightarrow>
          if e = 0 then (2, ok, [])
          else if COLON \<notin> set (take e d) then (0, Some illegal_byte_sequence, [])
          else let (n, er, hs) = rest_scan (drop (e + 2) d)
               in (e + 2 + n, er, (hdr_key (take e d), hdr_val (take e d)) # hs))"
  by pat_completeness auto

termination
  by (relation "measure length") (auto dest: find_CRLF_drop)

declare rest_scan.simps [simp del]

text \<open>What one header line of the window contributes: the colon search stays on the line, the value ends
  at the line end, so the search for its end cannot fail.\<close>

lemma header_line_views:
  assumes e: "find_sub CRLF d = Some e" and c: "find_idx (\<lambda>x. x = COLON) d = Some c" and le: "c \<le> e"
  shows "\<exists>v. find_idx (\<lambda>x. x \<notin> set [SP]) (drop (c + 1) d) = Some v \<and> c + 1 + v \<le> e \<and>
             find_sub CRLF (drop (c + 1 + v) d) = Some (e - (c + 1 + v)) \<and>
             hdr_key (take e d) = take c d \<and> hdr_val (take e d) = sub d (c + 1 + v) (e - (c + 1 + v))"
proof -
  define l where "l = take e d"
  have len: "length l = e" using find_sub_bound [OF e] by (simp add: l_def)
  have d: "d = l @ CR # LF # drop (e + 2) d"
    using find_sub_split [OF e] by (simp add: l_def)
  then have "d ! e = CR" using len by (metis nth_append_length)
  with c le have ce: "c < e" by (auto simp: find_idx_Some le_less)
  define t where "t = drop (c + 1) l"
  have lc: "l ! c = COLON" "\<forall>j<c. l ! j \<noteq> COLON"
    using c ce by (auto simp: find_idx_Some l_def)
  then have key: "takeWhile (\<lambda>x. x \<noteq> COLON) l = take c l"
    using ce len by (intro takeWhile_eq_take_P_nth) auto
  have l: "l = take c l @ COLON # t"
    using id_take_nth_drop [of c l] lc ce len by (simp add: t_def)
  have rest: "drop (c + 1) d = t @ CR # LF # drop (e + 2) d"
    using ce len by (subst d) (simp add: t_def)
  let ?v = "length (takeWhile (\<lambda>x. x = SP) t)"
  have v: "find_idx (\<lambda>x. x \<notin> set [SP]) (drop (c + 1) d) = Some ?v"
    unfolding rest using length_takeWhile_le [of "\<lambda>x. x = SP" t]
    by (auto simp: find_idx_takeWhile Let_def takeWhile_append takeWhile_eq_all_conv [THEN iffD2])
  have tl: "length t = e - (c + 1)" using len by (simp add: t_def)
  have vt: "?v \<le> length t" by (rule length_takeWhile_le)
  note vt = vt tl
  have val: "hdr_val l = drop ?v t"
    using lc ce len key by (simp add: hdr_val_def dropWhile_eq_drop t_def drop_Suc tl_drop)
  have "sub d (c + 1 + ?v) (e - (c + 1 + ?v)) = take (e - (c + 1 + ?v)) (drop ?v (drop (c + 1) d))"
    by (simp add: sub_def add.commute)
  also have "\<dots> = drop ?v t" unfolding rest using vt by simp
  finally show ?thesis
    using v vt ce key val find_sub_drop [OF e, of "c + 1 + ?v"]
    by (intro exI [of _ ?v]) (auto simp: l_def hdr_key_def)
qed

lemma find_CRLF_nth: "find_sub CRLF d = Some e \<Longrightarrow> d ! e = CR \<and> e < length d"
  using find_sub_split [of CRLF d e] find_sub_bound [of CRLF d e]
  by (metis append_Cons nth_append_length length_take min.absorb2 add_leD1 le_add1 less_le_trans
      add_less_cancel_left length_Cons list.size(3) less_add_same_cancel1 zero_less_Suc)

lemma colon_on_line:
  assumes "find_sub CRLF d = Some e"
  shows "COLON \<in> set (take e d) \<longleftrightarrow> (\<exists>c. find_idx (\<lambda>x. x = COLON) d = Some c \<and> c \<le> e)"
proof -
  have e: "d ! e = CR" "e < length d" using find_CRLF_nth [OF assms] by auto
  show ?thesis
  proof
    assume "COLON \<in> set (take e d)"
    then obtain k where k: "k < e" "d ! k = COLON" using e(2) by (auto simp: in_set_conv_nth)
    then have "find_idx (\<lambda>x. x = COLON) d \<noteq> None" using e(2) by (auto simp: find_idx_None in_set_conv_nth intro!: exI [of _ k])
    then obtain c where c: "find_idx (\<lambda>x. x = COLON) d = Some c" by blast
    with k have "\<not> k < c" by (auto simp: find_idx_Some)
    with k have "c \<le> e" by simp
    with c show "\<exists>c. find_idx (\<lambda>x. x = COLON) d = Some c \<and> c \<le> e" by blast
  next
    assume "\<exists>c. find_idx (\<lambda>x. x = COLON) d = Some c \<and> c \<le> e"
    then obtain c where c: "c < length d" "d ! c = COLON" "c \<le> e" by (auto simp: find_idx_Some)
    with e have "c < e" by (cases "c = e") auto
    with c show "COLON \<in> set (take e d)" by (auto simp: in_set_conv_nth intro!: exI [of _ c])
  qed
qed

definition span_ok :: "string \<Rightarrow> span \<times> span \<Rightarrow> bool" where
  "span_ok view h \<longleftrightarrow> fst (fst h) + snd (fst h) \<le> length view \<and> fst (snd h) + snd (snd h) \<le> length view"

abbreviation spans_of :: "string \<Rightarrow> (span \<times> span) list \<Rightarrow> (string \<times> string) list" where
  "spans_of view sps \<equiv> map (map_prod (span_of view) (span_of view)) sps"

lemma rest_parse_header:
  assumes pos: "pos \<le> length view" and e: "find_sub CRLF (drop pos view) = Some e" "e \<noteq> 0"
    and colon: "COLON \<in> set (take e (drop pos view))"
  shows "\<exists>sp. rest_parse view pos acc = rest_parse view (pos + (e + 2)) (acc @ [sp]) \<and> span_ok view sp \<and>
     map_prod (span_of view) (span_of view) sp
       = (hdr_key (take e (drop pos view)), hdr_val (take e (drop pos view)))"
proof -
  let ?d = "drop pos view"
  obtain c where c: "find_idx (\<lambda>x. x = COLON) ?d = Some c" "c \<le> e"
    using colon colon_on_line [OF e(1)] by blast
  obtain v where v: "find_idx (\<lambda>x. x \<notin> set [SP]) (drop (c + 1) ?d) = Some v" "c + 1 + v \<le> e"
    "find_sub CRLF (drop (c + 1 + v) ?d) = Some (e - (c + 1 + v))"
    "hdr_key (take e ?d) = take c ?d" "hdr_val (take e ?d) = sub ?d (c + 1 + v) (e - (c + 1 + v))"
    using header_line_views [OF e(1) c] by blast
  have b: "e + 2 \<le> length view - pos" using find_sub_bound [OF e(1)] by simp
  have 1: "sv_find CRLF view pos = Some (pos + e)" using e pos by (simp add: sv_find_def)
  have 2: "sv_find [COLON] view pos = Some (pos + c)" using c pos by (simp add: sv_find_def find_sub_char)
  have 3: "sv_find_first_not_of [SP] view (pos + c + 1) = Some (pos + c + 1 + v)"
    using v(1,2) b by (simp add: sv_find_first_not_of_def ac_simps)
  have 4: "sv_find_from CRLF view (Some (pos + c + 1 + v)) = Some (pos + e)"
    using v(2,3) b by (simp add: sv_find_from_def sv_find_def ac_simps)
  let ?sp = "((pos, c), (pos + c + 1 + v, e - (c + 1 + v)))"
  have "rest_parse view pos acc = rest_parse view (pos + e + 2) (acc @ [?sp])"
    using 1 2 3 4 c e(2) b v(2) pos by (subst rest_parse.simps) (auto simp: Let_def)
  moreover have "span_ok view ?sp" using b c(2) v(2) pos by (auto simp: span_ok_def)
  moreover have "map_prod (span_of view) (span_of view) ?sp = (hdr_key (take e ?d), hdr_val (take e ?d))"
    using v(4,5) by (simp add: span_of_def sub_def ac_simps)
  ultimately show ?thesis by (metis add.assoc)
qed

lemma rest_parse_scan:
  "pos \<le> length view \<Longrightarrow> rest_scan (drop pos view) = (n, er, hs) \<Longrightarrow>
     \<exists>sps. rest_parse view pos acc = (pos + n, er, acc @ sps) \<and> spans_of view sps = hs \<and>
           list_all (span_ok view) sps \<and> pos + n \<le> length view"
proof (induction "drop pos view" arbitrary: pos acc n er hs rule: rest_scan.induct)
  case 1
  let ?d = "drop pos view"
  note unf = rest_parse.simps [of view pos acc] rest_scan.simps [of ?d]
  show ?case
  proof (cases "find_sub CRLF ?d")
    case None
    then have "sv_find CRLF view pos = None" using 1 by (simp add: sv_find_def)
    with None 1 show ?thesis by (auto simp: unf)
  next
    case (Some e)
    have b: "e + 2 \<le> length view - pos" using find_sub_bound [OF Some] by simp
    have 2: "sv_find CRLF view pos = Some (pos + e)" using Some 1 by (simp add: sv_find_def)
    consider "e = 0" | "e \<noteq> 0" "COLON \<notin> set (take e ?d)" | "e \<noteq> 0" "COLON \<in> set (take e ?d)" by blast
    then show ?thesis
    proof cases
      case a: 1
      with Some 2 1 b show ?thesis by (auto simp: unf)
    next
      case a: 2
      have "case sv_find [COLON] view pos of None \<Rightarrow> True | Some c \<Rightarrow> c > pos + e"
        using a(2) colon_on_line [OF Some] 1(2)
        by (auto simp: sv_find_def find_sub_char not_le split: option.splits)
      with Some 2 1 b a show ?thesis by (auto simp: unf split: option.splits)
    next
      case a: 3
      obtain m hs' where sc: "rest_scan (drop (e + 2) ?d) = (m, er, hs')" "n = e + 2 + m"
        "hs = (hdr_key (take e ?d), hdr_val (take e ?d)) # hs'"
        using 1(3) Some a by (auto simp: unf(2) split: prod.splits)
      obtain sp where sp: "rest_parse view pos acc = rest_parse view (pos + (e + 2)) (acc @ [sp])"
        "span_ok view sp" "map_prod (span_of view) (span_of view) sp = (hdr_key (take e ?d), hdr_val (take e ?d))"
        using rest_parse_header [OF 1(2) Some a] by blast
      have dr: "drop (e + 2) ?d = drop (pos + (e + 2)) view" by (simp add: add.commute)
      have "\<not> COLON \<notin> set (take e ?d)" using a(2) by simp
      moreover have "pos + (e + 2) \<le> length view" using b 1(2) by simp
      moreover have "rest_scan (drop (pos + (e + 2)) view) = (m, er, hs')" using sc(1) dr by simp
      ultimately
      obtain sps where "rest_parse view (pos + (e + 2)) (acc @ [sp]) = (pos + (e + 2) + m, er, (acc @ [sp]) @ sps)"
        "spans_of view sps = hs'" "list_all (span_ok view) sps" "pos + (e + 2) + m \<le> length view"
        using 1(1) [OF Some a(1) _ dr, of m er hs' "acc @ [sp]"] by blast
      with sp sc show ?thesis by (intro exI [of _ "sp # sps"]) auto
    qed
  qed
qed

section \<open>The meaning of a whole stream\<close>

text \<open>
  A head is a first line and header lines, each ended by CRLF, then an empty line. A line that does
  not fit a buffer block together with its terminator is refused.
\<close>

definition HTTP_BUFFER_BLOCK_SIZE :: nat where
  "HTTP_BUFFER_BLOCK_SIZE = 4096"

datatype 'r head_result = Incomplete | Bad errc | Done 'r string

function spec_rest :: "string \<Rightarrow> (string \<times> string) list \<Rightarrow> (string \<times> string) list head_result" where
  "spec_rest bs acc =
     (case find_sub CRLF bs of
        None \<Rightarrow> if HTTP_BUFFER_BLOCK_SIZE \<le> length bs then Bad illegal_byte_sequence else Incomplete
      | Some e \<Rightarrow>
          if e = 0 then Done acc (drop 2 bs)
          else if HTTP_BUFFER_BLOCK_SIZE < e + 2 \<or> COLON \<notin> set (take e bs) then Bad illegal_byte_sequence
          else spec_rest (drop (e + 2) bs) (acc @ [(hdr_key (take e bs), hdr_val (take e bs))]))"
  by pat_completeness auto

termination
  by (relation "measure (\<lambda>(bs, acc). length bs)") (auto dest: find_CRLF_drop)

declare spec_rest.simps [simp del]

lemma scan_spec:
  assumes "rest_scan w = (n, er, hs)" "length w \<le> HTTP_BUFFER_BLOCK_SIZE"
  shows "n \<le> length w \<and>
     (case er of
        None \<Rightarrow> spec_rest (w @ t) acc = Done (acc @ hs) (drop n w @ t)
      | Some x \<Rightarrow>
          if x = resource_unavailable_try_again
          then spec_rest (w @ t) acc = spec_rest (drop n w @ t) (acc @ hs) \<and> find_sub CRLF (drop n w) = None
          else spec_rest (w @ t) acc = Bad x)"
  using assms
proof (induction w arbitrary: n er hs acc rule: rest_scan.induct)
  case (1 d)
  show ?case
  proof (cases "find_sub CRLF d")
    case None
    with 1(2) show ?thesis by (subst (asm) rest_scan.simps) auto
  next
    case (Some e)
    note app = find_sub_append [OF Some, of t]
    have b: "e + 2 \<le> length d" using find_sub_bound [OF Some] by simp
    consider "e = 0" | "e \<noteq> 0" "COLON \<notin> set (take e d)" | "e \<noteq> 0" "COLON \<in> set (take e d)" by blast
    then show ?thesis
    proof cases
      case a: 3
      obtain m hs' where sc: "rest_scan (drop (e + 2) d) = (m, er, hs')" "n = e + 2 + m"
        "hs = (hdr_key (take e d), hdr_val (take e d)) # hs'"
        using 1(2) Some a by (subst (asm) rest_scan.simps) (auto split: prod.splits)
      have st: "spec_rest (d @ t) acc =
          spec_rest (drop (e + 2) d @ t) (acc @ [(hdr_key (take e d), hdr_val (take e d))])"
        using app a b 1(3) by (subst spec_rest.simps) (simp del: add_2_eq_Suc')
      have "\<not> COLON \<notin> set (take e d)" "length (drop (e + 2) d) \<le> HTTP_BUFFER_BLOCK_SIZE"
        using a 1(3) by simp_all
      from 1(1) [OF Some a(1) this(1) sc(1) this(2),
          of "acc @ [(hdr_key (take e d), hdr_val (take e d))]"] b
      show ?thesis unfolding st sc(2,3) by (auto simp: add.commute split: option.splits if_splits)
    next
      case a: 1
      with 1(2) Some have "n = 2" "er = None" "hs = []" by (simp_all add: rest_scan.simps [of d])
      with a app b show ?thesis by (simp add: spec_rest.simps [of "d @ t"])
    next
      case a: 2
      with 1(2) Some have "n = 0" "er = Some illegal_byte_sequence" "hs = []"
        by (simp_all add: rest_scan.simps [of d])
      with a app b show ?thesis by (simp add: spec_rest.simps [of "d @ t"])
    qed
  qed
qed

section \<open>Printed headers\<close>

definition print_headers :: "(string \<times> string) list \<Rightarrow> string" where
  "print_headers hs = concat (map (\<lambda>(k, v). k @ '': '' @ v @ CRLF) hs)"

text \<open>A header that survives printing: no line break, no colon in the name, no leading space in the value,
  and short enough for a block.\<close>

definition header_ok :: "string \<times> string \<Rightarrow> bool" where
  "header_ok h \<longleftrightarrow> CR \<notin> set (fst h) \<union> set (snd h) \<and> COLON \<notin> set (fst h) \<and>
     (snd h = [] \<or> hd (snd h) \<noteq> SP) \<and> length (fst h) + length (snd h) + 4 \<le> HTTP_BUFFER_BLOCK_SIZE"

lemma find_CRLF_line: "CR \<notin> set ln \<Longrightarrow> find_sub CRLF (ln @ CRLF @ rest) = Some (length ln)"
  by (induction ln) auto

lemma hdr_key_line: "COLON \<notin> set k \<Longrightarrow> hdr_key (k @ COLON # v) = k"
  by (auto simp: hdr_key_def takeWhile_append)

lemma hdr_val_line:
  assumes "COLON \<notin> set k" "v = [] \<or> hd v \<noteq> SP"
  shows "hdr_val (k @ COLON # SP # v) = v"
proof -
  have "dropWhile (\<lambda>c. c \<noteq> COLON) (k @ COLON # SP # v) = COLON # SP # v"
    using assms(1) by (induction k) auto
  with assms(2) show ?thesis by (cases v) (auto simp: hdr_val_def)
qed

lemma spec_rest_print:
  "list_all header_ok hs \<Longrightarrow> spec_rest (print_headers hs @ CRLF @ rest) acc = Done (acc @ hs) rest"
proof (induction hs arbitrary: acc)
  case Nil
  then show ?case by (simp add: print_headers_def spec_rest.simps [of "CR # LF # rest"])
next
  case (Cons h hs)
  obtain k v where h: "h = (k, v)" by (cases h)
  define ln where "ln = k @ COLON # SP # v"
  let ?ln = ln and ?t = "print_headers hs @ CRLF @ rest"
  have hk: "CR \<notin> set ?ln" "COLON \<notin> set k" "v = [] \<or> hd v \<noteq> SP" "length ?ln + 2 \<le> HTTP_BUFFER_BLOCK_SIZE"
    using Cons.prems h by (auto simp: header_ok_def ln_def)
  have e: "print_headers (h # hs) @ CRLF @ rest = ?ln @ CRLF @ ?t" by (simp add: print_headers_def h ln_def)
  have f: "find_sub CRLF (?ln @ CRLF @ ?t) = Some (length ?ln)" by (rule find_CRLF_line [OF hk(1)])
  have "spec_rest (?ln @ CRLF @ ?t) acc = spec_rest ?t (acc @ [(hdr_key ?ln, hdr_val ?ln)])"
  proof -
    have "ln \<noteq> []" "COLON \<in> set ln" by (auto simp: ln_def)
    then show ?thesis using hk(4) f by (subst spec_rest.simps) simp
  qed
  also have "\<dots> = Done (acc @ h # hs) rest"
    using Cons.IH [of "acc @ [h]"] Cons.prems h hdr_key_line [OF hk(2)] hdr_val_line [OF hk(2,3)]
    by (simp add: ln_def)
  finally show ?case unfolding e .
qed

end
