(* ===== verification/Http_Message.thy ===== *)
theory Http_Message
  imports Http_Head
begin

text \<open>
  The head reader \<^verbatim>\<open>Message::read\<close> (\<^verbatim>\<open>include/xsl/asio/http/common.h\<close>). The read buffer is a list of
  blocks, the parse window a part of the active block, and the header map holds views into the
  blocks: block, offset and length. The parser of the first line, \<^verbatim>\<open>self.line\<close>, is an argument
  (requests and responses have different ones); the reader is a sequence of chunks and the error
  it reports once they are used up. The main lemma says that what \<^verbatim>\<open>read\<close> returns depends on the
  bytes only: not on how they are cut into chunks, where blocks end, or what was in the buffer.
\<close>

section \<open>State\<close>

type_synonym view = "nat \<times> span"

type_synonym 'l line_parser = "'l \<Rightarrow> string \<Rightarrow> nat \<times> ec \<times> 'l"

record 'l message =
  line :: 'l
  headers :: "(view \<times> view) list"
  content_part :: view
  buffer :: "string list"
  win_block :: nat
  win_begin :: nat
  win_end :: nat

text \<open>\<open>at_end\<close> is what a read yields after the last chunk; an end of stream (a read of size 0) is an
  empty chunk.\<close>

record reader =
  chunks :: "string list"
  at_end :: errc

definition new_block :: string where
  "new_block = replicate HTTP_BUFFER_BLOCK_SIZE (CHR 0x00)"

definition message_new :: "'l \<Rightarrow> 'l message" where
  "message_new l = \<lparr>line = l, headers = [], content_part = (0, (0, 0)), buffer = [new_block],
     win_block = 0, win_begin = 0, win_end = 0\<rparr>"

definition deref :: "string list \<Rightarrow> view \<Rightarrow> string" where
  "deref buf v = span_of (buf ! fst v) (snd v)"

section \<open>The header map\<close>

fun hdr_put :: "string list \<Rightarrow> view \<Rightarrow> view \<Rightarrow> (view \<times> view) list \<Rightarrow> (view \<times> view) list" where
  "hdr_put buf k v [] = [(k, v)]"
| "hdr_put buf k v ((k', v') # h) =
     (if deref buf k' = deref buf k then (k', v) # h else (k', v') # hdr_put buf k v h)"

definition hdr_find :: "string list \<Rightarrow> (view \<times> view) list \<Rightarrow> string \<Rightarrow> (view \<times> view) option" where
  "hdr_find buf h key = find (\<lambda>kv. deref buf (fst kv) = key) h"

definition has_header :: "'l message \<Rightarrow> string \<Rightarrow> bool" where
  "has_header m key \<longleftrightarrow> hdr_find (buffer m) (headers m) key \<noteq> None"

definition get_header :: "'l message \<Rightarrow> string \<Rightarrow> string option" where
  "get_header m key =
     (case hdr_find (buffer m) (headers m) key of None \<Rightarrow> None | Some kv \<Rightarrow> Some (deref (buffer m) (snd kv)))"

section \<open>Reading\<close>

definition entry_compact :: "'l message \<Rightarrow> 'l message" where
  "entry_compact m =
     (let leftover = win_end m - win_begin m;
          moved = (\<lambda>b. if leftover > 0 \<and> win_begin m \<noteq> 0 then blit b 0 (sub b (win_begin m) leftover) else b);
          m1 = (if win_block m \<noteq> 0
                then let buf = (buffer m)[win_block m := moved (buffer m ! win_block m)]
                     in m\<lparr>buffer := buf[0 := buf ! win_block m, win_block m := buf ! 0], win_block := 0\<rparr>
                else m\<lparr>buffer := (buffer m)[0 := moved (buffer m ! 0)]\<rparr>)
      in m1\<lparr>win_begin := 0, win_end := leftover\<rparr>)"

definition window :: "'l message \<Rightarrow> string" where
  "window m = sub (buffer m ! win_block m) (win_begin m) (win_end m - win_begin m)"

definition rotate_block :: "'l message \<Rightarrow> ec \<times> 'l message" where
  "rotate_block m =
     (let tail = win_end m - win_begin m
      in if tail = HTTP_BUFFER_BLOCK_SIZE then (Some illegal_byte_sequence, m)
         else let buf = (if win_block m + 1 = length (buffer m) then buffer m @ [new_block] else buffer m);
                  wb = win_block m + 1
              in (ok, m\<lparr>buffer := buf[wb := blit (buf ! wb) 0 (sub (buf ! (wb - 1)) (win_begin m) tail)],
                         win_block := wb, win_begin := 0, win_end := tail\<rparr>))"

definition reader_read :: "nat \<Rightarrow> reader \<Rightarrow> (errc + string) \<times> reader" where
  "reader_read n r =
     (case chunks r of
        [] \<Rightarrow> (Inl (at_end r), r)
      | c # cs \<Rightarrow> (Inr (take n c), r\<lparr>chunks := if length c \<le> n then cs else drop n c # cs\<rparr>))"

definition fill :: "'l message \<Rightarrow> reader \<Rightarrow> ec \<times> 'l message \<times> reader" where
  "fill m r =
     (let (ec, m1) = (if win_end m = HTTP_BUFFER_BLOCK_SIZE then rotate_block m else (ok, m))
      in if ec \<noteq> ok then (ec, m1, r)
         else (case reader_read (HTTP_BUFFER_BLOCK_SIZE - win_end m1) r of
                 (Inl e, r1) \<Rightarrow> (Some e, m1, r1)
               | (Inr bs, r1) \<Rightarrow>
                   (let m2 = m1\<lparr>buffer := (buffer m1)[win_block m1 := blit (buffer m1 ! win_block m1) (win_end m1) bs]\<rparr>
                    in if bs = [] then (Some not_connected, m2, r1)
                       else (ok, m2\<lparr>win_end := win_end m1 + length bs\<rparr>, r1))))"

lemma fill_measure:
  "fill m r = (ok, m', r') \<Longrightarrow> sum_list (map length (chunks r')) < sum_list (map length (chunks r))"
  by (auto simp: fill_def reader_read_def Let_def split: prod.splits if_splits list.splits sum.splits)

function read_line :: "'l line_parser \<Rightarrow> 'l message \<Rightarrow> reader \<Rightarrow> ec \<times> 'l message \<times> reader" where
  "read_line lparse m r =
     (let (len, ec, l) = lparse (line m) (window m); m1 = m\<lparr>line := l\<rparr>
      in if ec = ok then (ok, m1\<lparr>win_begin := win_begin m1 + len\<rparr>, r)
         else if ec \<noteq> Some resource_unavailable_try_again then (ec, m1, r)
         else let (ec2, m2, r2) = fill (m1\<lparr>win_begin := win_begin m1 + len\<rparr>) r
              in if ec2 \<noteq> ok then (ec2, m2, r2) else read_line lparse m2 r2)"
  by pat_completeness auto

termination
  by (relation "measure (\<lambda>(p, m, r). sum_list (map length (chunks r)))") (auto dest!: fill_measure [OF sym])

text \<open>\<^verbatim>\<open>self.rest.parse(window())\<close>: the spans of the window become views into the active block.\<close>

definition abs_view :: "'l message \<Rightarrow> span \<Rightarrow> view" where
  "abs_view m s = (win_block m, (win_begin m + fst s, snd s))"

definition put_headers :: "'l message \<Rightarrow> (span \<times> span) list \<Rightarrow> 'l message" where
  "put_headers m sps =
     m\<lparr>headers := fold (\<lambda>(k, v). hdr_put (buffer m) (abs_view m k) (abs_view m v)) sps (headers m)\<rparr>"

definition msg_rest_parse :: "'l message \<Rightarrow> nat \<times> ec \<times> 'l message" where
  "msg_rest_parse m =
     (let (len, ec, sps) = rest_parse (window m) 0 []; m1 = put_headers m sps
      in (len, ec, if ec = ok then m1\<lparr>content_part := abs_view m (len, length (window m) - len)\<rparr> else m1))"

function read_rest :: "'l message \<Rightarrow> reader \<Rightarrow> ec \<times> 'l message \<times> reader" where
  "read_rest m r =
     (let (len, ec, m1) = msg_rest_parse m
      in if ec = ok then (ok, m1\<lparr>win_begin := win_begin m1 + len\<rparr>, r)
         else if ec \<noteq> Some resource_unavailable_try_again then (ec, m1, r)
         else let (ec2, m2, r2) = fill (m1\<lparr>win_begin := win_begin m1 + len\<rparr>) r
              in if ec2 \<noteq> ok then (ec2, m2, r2) else read_rest m2 r2)"
  by pat_completeness auto

termination
  by (relation "measure (\<lambda>(m, r). sum_list (map length (chunks r)))") (auto dest!: fill_measure [OF sym])

declare read_line.simps [simp del] read_rest.simps [simp del]

definition read :: "'l line_parser \<Rightarrow> 'l message \<Rightarrow> reader \<Rightarrow> ec \<times> 'l message \<times> reader" where
  "read lparse m r =
     (let m0 = (entry_compact m)\<lparr>headers := []\<rparr>;
          (ec, m1, r1) = read_line lparse m0 r
      in if ec \<noteq> ok then (ec, m1, r1) else read_rest m1 r1)"

section \<open>Memory: what the reader keeps\<close>

definition msg_wf :: "'l message \<Rightarrow> bool" where
  "msg_wf m \<longleftrightarrow> win_block m < length (buffer m) \<and> (\<forall>b\<in>set (buffer m). length b = HTTP_BUFFER_BLOCK_SIZE) \<and>
     win_begin m \<le> win_end m \<and> win_end m \<le> HTTP_BUFFER_BLOCK_SIZE"

definition reader_ok :: "reader \<Rightarrow> bool" where
  "reader_ok r \<longleftrightarrow> [] \<notin> set (chunks r)"

text \<open>Views handed out during a read lie before the end of the filled data.\<close>

definition view_ok :: "'l message \<Rightarrow> view \<Rightarrow> bool" where
  "view_ok m v \<longleftrightarrow>
     (fst v < win_block m \<and> fst (snd v) + snd (snd v) \<le> HTTP_BUFFER_BLOCK_SIZE) \<or>
     (fst v = win_block m \<and> fst (snd v) + snd (snd v) \<le> win_end m)"

definition stable :: "'l message \<Rightarrow> 'l message \<Rightarrow> bool" where
  "stable m m' \<longleftrightarrow> (\<forall>v. view_ok m v \<longrightarrow> view_ok m' v \<and> deref (buffer m') v = deref (buffer m) v)"

lemma stable_refl [simp]: "stable m m"
  by (simp add: stable_def)

lemma stable_trans: "stable m1 m2 \<Longrightarrow> stable m2 m3 \<Longrightarrow> stable m1 m3"
  by (simp add: stable_def)

lemma length_new_block [simp]: "length new_block = HTTP_BUFFER_BLOCK_SIZE"
  by (simp add: new_block_def)

lemma HTTP_BUFFER_BLOCK_SIZE_pos [simp]: "0 < HTTP_BUFFER_BLOCK_SIZE"
  by (simp add: HTTP_BUFFER_BLOCK_SIZE_def)

lemma msg_wf_new [simp]: "msg_wf (message_new l)"
  by (simp add: msg_wf_def message_new_def)

lemma msg_wf_block: "msg_wf m \<Longrightarrow> i < length (buffer m) \<Longrightarrow> length (buffer m ! i) = HTTP_BUFFER_BLOCK_SIZE"
  by (simp add: msg_wf_def)

lemma length_window: "msg_wf m \<Longrightarrow> length (window m) = win_end m - win_begin m"
  by (auto simp: window_def msg_wf_block msg_wf_def)

lemma entry_compact_spec:
  assumes wf: "msg_wf m"
  shows "msg_wf (entry_compact m) \<and> window (entry_compact m) = window m \<and> line (entry_compact m) = line m"
proof -
  let ?b = "buffer m ! win_block m"
  let ?n = "win_end m - win_begin m"
  let ?s = "sub ?b (win_begin m) ?n"
  have len: "length ?b = HTTP_BUFFER_BLOCK_SIZE" "length ?s = ?n" "?n \<le> HTTP_BUFFER_BLOCK_SIZE"
    using wf by (auto simp: msg_wf_def msg_wf_block)
  define b' where "b' = (if ?n > 0 \<and> win_begin m \<noteq> 0 then blit ?b 0 ?s else ?b)"
  have lb': "length b' = HTTP_BUFFER_BLOCK_SIZE" using len by (simp add: b'_def)
  have sb': "sub b' 0 ?n = ?s"
    using len sub_blit_same [of 0 ?s ?b] by (auto simp: b'_def sub_def)
  show ?thesis
  proof (cases "win_block m = 0")
    case True
    then have e: "entry_compact m = m\<lparr>buffer := (buffer m)[0 := b'], win_begin := 0, win_end := ?n\<rparr>"
      by (simp add: entry_compact_def b'_def Let_def)
    show ?thesis using wf lb' sb' len True unfolding e
      by (auto simp: msg_wf_def window_def dest!: set_update_subset_insert [THEN subsetD])
  next
    case False
    then have e: "entry_compact m = m\<lparr>buffer := ((buffer m)[win_block m := b'])[0 := b', win_block m := buffer m ! 0],
        win_block := 0, win_begin := 0, win_end := ?n\<rparr>"
      using wf by (simp add: entry_compact_def b'_def Let_def msg_wf_def)
    have "0 < length (buffer m)" using wf by (auto simp: msg_wf_def)
    have "length (buffer m ! 0) = HTTP_BUFFER_BLOCK_SIZE" using wf by (intro msg_wf_block) (auto simp: msg_wf_def)
    with \<open>0 < length (buffer m)\<close> show ?thesis using wf lb' sb' len False unfolding e
      by (auto simp: msg_wf_def window_def dest!: set_update_subset_insert [THEN subsetD])
  qed
qed

lemma rotate_block_spec:
  assumes wf: "msg_wf m" and full: "win_end m = HTTP_BUFFER_BLOCK_SIZE"
    and r: "rotate_block m = (ec, m')"
  shows "if length (window m) = HTTP_BUFFER_BLOCK_SIZE then ec = Some illegal_byte_sequence
     else ec = ok \<and> msg_wf m' \<and> stable m m' \<and> window m' = window m \<and> line m' = line m \<and>
       headers m' = headers m \<and> win_end m' < HTTP_BUFFER_BLOCK_SIZE"
proof (cases "length (window m) = HTTP_BUFFER_BLOCK_SIZE")
  case True
  with r wf show ?thesis by (simp add: rotate_block_def length_window)
next
  case False
  let ?n = "win_end m - win_begin m"
  let ?w = "win_block m"
  let ?s = "sub (buffer m ! ?w) (win_begin m) ?n"
  define buf where "buf = (if ?w + 1 = length (buffer m) then buffer m @ [new_block] else buffer m)"
  have w: "?w + 1 < length buf" "\<forall>b\<in>set buf. length b = HTTP_BUFFER_BLOCK_SIZE"
    "\<And>i. i \<le> ?w \<Longrightarrow> buf ! i = buffer m ! i"
    using wf by (auto simp: buf_def msg_wf_def nth_append)
  have len: "length ?s = ?n" "?n < HTTP_BUFFER_BLOCK_SIZE" "length (buf ! (?w + 1)) = HTTP_BUFFER_BLOCK_SIZE"
    using wf False w by (auto simp: msg_wf_def msg_wf_block length_window window_def)
  have m': "ec = ok" "m' = m\<lparr>buffer := buf[?w + 1 := blit (buf ! (?w + 1)) 0 ?s],
      win_block := ?w + 1, win_begin := 0, win_end := ?n\<rparr>"
    using r False wf w(3) [of ?w] by (auto simp: rotate_block_def Let_def length_window buf_def)
  have "msg_wf m'" "window m' = window m"
    using w len sub_blit_same [of 0 ?s "buf ! (?w + 1)"] unfolding m'(2)
    by (auto simp: msg_wf_def window_def dest!: set_update_subset_insert [THEN subsetD])
  moreover have "stable m m'"
    using full w(3) unfolding m'(2) by (auto simp: stable_def view_ok_def deref_def)
  ultimately show ?thesis using False m' len by simp
qed

lemma fill_append_spec:
  assumes wf: "msg_wf m" and room: "win_end m + length bs \<le> HTTP_BUFFER_BLOCK_SIZE"
    and m': "m' = m\<lparr>buffer := (buffer m)[win_block m := blit (buffer m ! win_block m) (win_end m) bs],
                    win_end := win_end m + length bs\<rparr>"
  shows "msg_wf m' \<and> stable m m' \<and> window m' = window m @ bs"
proof -
  let ?b = "buffer m ! win_block m"
  have len: "length ?b = HTTP_BUFFER_BLOCK_SIZE" using wf by (simp add: msg_wf_block msg_wf_def)
  have ord: "win_begin m \<le> win_end m" "win_block m < length (buffer m)" using wf by (auto simp: msg_wf_def)
  have "window m' = window m @ bs"
    using len room ord unfolding m' window_def
    by (simp add: sub_def blit_def take_append drop_take)
  moreover have "msg_wf m'"
    using wf len room unfolding m' by (auto simp: msg_wf_def dest!: set_update_subset_insert [THEN subsetD])
  moreover have "stable m m'"
    using len room ord unfolding m'
    by (auto simp: stable_def view_ok_def deref_def span_of_def sub_blit_before nth_list_update)
  ultimately show ?thesis by blast
qed

lemma fill_spec:
  assumes wf: "msg_wf m" and ro: "reader_ok r" and f: "fill m r = (ec, m', r')"
  shows "if length (window m) = HTTP_BUFFER_BLOCK_SIZE then ec = Some illegal_byte_sequence
     else if chunks r = [] then ec = Some (at_end r)
     else ec = ok \<and> msg_wf m' \<and> stable m m' \<and> line m' = line m \<and> headers m' = headers m \<and>
       at_end r' = at_end r \<and> reader_ok r' \<and>
       (\<exists>bs. bs \<noteq> [] \<and> window m' = window m @ bs \<and> concat (chunks r) = bs @ concat (chunks r'))"
proof -
  obtain e1 m1 where r1: "(if win_end m = HTTP_BUFFER_BLOCK_SIZE then rotate_block m else (ok, m)) = (e1, m1)"
    by fastforce
  have len: "length (window m) = HTTP_BUFFER_BLOCK_SIZE \<Longrightarrow> win_end m = HTTP_BUFFER_BLOCK_SIZE"
    using wf by (auto simp: length_window [OF wf] msg_wf_def)
  show ?thesis
  proof (cases "length (window m) = HTTP_BUFFER_BLOCK_SIZE")
    case True
    with len r1 rotate_block_spec [OF wf, of e1 m1] have "e1 = Some illegal_byte_sequence" by simp
    with True f show ?thesis by (simp add: fill_def r1)
  next
    case False
    have rot: "e1 = ok" "msg_wf m1" "stable m m1" "window m1 = window m" "line m1 = line m"
      "headers m1 = headers m" "win_end m1 < HTTP_BUFFER_BLOCK_SIZE"
      using r1 rotate_block_spec [OF wf, of e1 m1] False wf by (auto simp: msg_wf_def split: if_splits)
    show ?thesis
    proof (cases "chunks r")
      case Nil
      with f False rot show ?thesis by (auto simp: fill_def r1 reader_read_def)
    next
      case (Cons c cs)
      let ?k = "HTTP_BUFFER_BLOCK_SIZE - win_end m1"
      have k: "0 < ?k" "c \<noteq> []" using rot ro Cons by (auto simp: reader_ok_def)
      then have tk: "take ?k c \<noteq> []" by simp
      let ?m2 = "m1\<lparr>buffer := (buffer m1)[win_block m1 := blit (buffer m1 ! win_block m1) (win_end m1) (take ?k c)],
                    win_end := win_end m1 + length (take ?k c)\<rparr>"
      have fm: "ec = ok" "m' = ?m2" "r' = r\<lparr>chunks := if length c \<le> ?k then cs else drop ?k c # cs\<rparr>"
        using f Cons tk rot(1) by (auto simp: fill_def r1 reader_read_def Let_def split: if_splits)
      have ap: "msg_wf m'" "stable m1 m'" "window m' = window m1 @ take ?k c"
        using fill_append_spec [OF rot(2), of "take ?k c" m'] fm(2) rot(7) by auto
      moreover have "concat (chunks r) = take ?k c @ concat (chunks r')"
        using Cons fm(3) by (simp del: take_all_iff)
      moreover have "reader_ok r'" using ro Cons fm(3) by (auto simp: reader_ok_def)
      ultimately show ?thesis
        using False Cons fm rot tk stable_trans [OF rot(3)] by auto
    qed
  qed
qed

section \<open>The first line\<close>

text \<open>
  What \<^verbatim>\<open>Message::read\<close> relies on in a line parser: without a line end it asks for more and changes
  nothing, otherwise it looks at the first line only, consumes it together with its terminator or
  fails for good.
\<close>

locale head_line =
  fixes lparse :: "'l line_parser"
  assumes need_more: "find_sub CRLF v = None \<Longrightarrow> lparse l v = (0, Some resource_unavailable_try_again, l)"
    and first_line: "find_sub CRLF v = Some e \<Longrightarrow> lparse l v = lparse l (take (e + 2) v)"
    and consumed: "find_sub CRLF v = Some e \<Longrightarrow> lparse l v = (n, ec, l') \<Longrightarrow>
        (ec = ok \<longrightarrow> n = e + 2) \<and> ec \<noteq> Some resource_unavailable_try_again"

definition spec_line :: "'l line_parser \<Rightarrow> 'l \<Rightarrow> string \<Rightarrow> 'l head_result" where
  "spec_line lparse l bs =
     (case find_sub CRLF bs of
        None \<Rightarrow> if HTTP_BUFFER_BLOCK_SIZE \<le> length bs then Bad illegal_byte_sequence else Incomplete
      | Some e \<Rightarrow>
          if HTTP_BUFFER_BLOCK_SIZE < e + 2 then Bad illegal_byte_sequence
          else (case lparse l (take (e + 2) bs) of
                  (_, None, l') \<Rightarrow> Done l' (drop (e + 2) bs)
                | (_, Some x, _) \<Rightarrow> Bad x))"

definition spec_head ::
  "'l line_parser \<Rightarrow> 'l \<Rightarrow> string \<Rightarrow> ('l \<times> (string \<times> string) list) head_result" where
  "spec_head lparse l bs =
     (case spec_line lparse l bs of
        Incomplete \<Rightarrow> Incomplete
      | Bad x \<Rightarrow> Bad x
      | Done l' bs' \<Rightarrow>
          (case spec_rest bs' [] of Incomplete \<Rightarrow> Incomplete | Bad x \<Rightarrow> Bad x
           | Done hs rest \<Rightarrow> Done (l', hs) rest))"

abbreviation pending :: "'l message \<Rightarrow> reader \<Rightarrow> string" where
  "pending m r \<equiv> window m @ concat (chunks r)"

lemma full_window_no_line:
  assumes "length w = HTTP_BUFFER_BLOCK_SIZE" "find_sub CRLF w = None" "find_sub CRLF (w @ t) = Some e"
  shows "HTTP_BUFFER_BLOCK_SIZE < e + 2"
  using find_sub_take [OF assms(3), of "HTTP_BUFFER_BLOCK_SIZE"] assms by fastforce

lemma msg_line_id [simp]: "m\<lparr>line := line m\<rparr> = m"
  by (cases m) simp

lemma msg_begin_id [simp]: "m\<lparr>win_begin := win_begin m\<rparr> = m"
  by (cases m) simp

lemma msg_advance:
  assumes "msg_wf m" "n \<le> length (window m)"
  shows "msg_wf (m\<lparr>win_begin := win_begin m + n\<rparr>)" "window (m\<lparr>win_begin := win_begin m + n\<rparr>) = drop n (window m)"
  using assms by (auto simp: msg_wf_def length_window) (auto simp: window_def sub_def drop_take add.commute)

lemma window_line [simp]: "window (m\<lparr>line := l\<rparr>) = window m"
  by (simp add: window_def)

lemma msg_wf_line [simp]: "msg_wf (m\<lparr>line := l\<rparr>) = msg_wf m"
  by (simp add: msg_wf_def)

context head_line
begin

lemma read_line_spec:
  "msg_wf m \<Longrightarrow> reader_ok r \<Longrightarrow> read_line lparse m r = (ec, m', r') \<Longrightarrow>
   (case spec_line lparse (line m) (pending m r) of
      Incomplete \<Rightarrow> ec = Some (at_end r)
    | Bad x \<Rightarrow> ec = Some x
    | Done l rest \<Rightarrow> ec = ok \<and> msg_wf m' \<and> reader_ok r' \<and> line m' = l \<and> headers m' = headers m \<and>
        at_end r' = at_end r \<and> pending m' r' = rest)"
proof (induction "sum_list (map length (chunks r))" arbitrary: m r rule: less_induct)
  case less
  note wf = less.prems(1) and ro = less.prems(2) and rd = less.prems(3)
  have wl: "length (window m) \<le> HTTP_BUFFER_BLOCK_SIZE" using wf by (auto simp: length_window msg_wf_def)
  show ?case
  proof (cases "find_sub CRLF (window m)")
    case (Some e)
    have e: "find_sub CRLF (pending m r) = Some e" "e + 2 \<le> length (window m)"
      using find_sub_append [OF Some] find_sub_bound [OF Some] by auto
    obtain n er l where lp: "lparse (line m) (window m) = (n, er, l)" using prod_cases3 by blast
    have tk: "lparse (line m) (take (e + 2) (pending m r)) = (n, er, l)"
      using first_line [OF Some, of "line m"] lp e by simp
    have er: "er = ok \<longrightarrow> n = e + 2" "er \<noteq> Some resource_unavailable_try_again"
      using consumed [OF Some lp] by auto
    show ?thesis
    proof (cases er)
      case None
      with rd lp er(1) have m': "ec = ok" "m' = (m\<lparr>line := l\<rparr>)\<lparr>win_begin := win_begin (m\<lparr>line := l\<rparr>) + (e + 2)\<rparr>" "r' = r"
        by (auto simp: read_line.simps [of _ m] Let_def)
      have "msg_wf m'" "window m' = drop (e + 2) (window m)"
        using msg_advance [of "m\<lparr>line := l\<rparr>" "e + 2"] wf e(2) unfolding m'(2) by auto
      with None m' e wl tk ro show ?thesis by (simp add: spec_line_def)
    next
      case (Some x)
      with rd lp er(2) have "ec = Some x" by (auto simp: read_line.simps [of _ m] Let_def)
      with Some e wl tk show ?thesis by (simp add: spec_line_def)
    qed
  next
    case None
    obtain e2 m2 r2 where f: "fill m r = (e2, m2, r2)" using prod_cases3 by blast
    have rl: "read_line lparse m r = (if e2 \<noteq> ok then (e2, m2, r2) else read_line lparse m2 r2)"
      using need_more [OF None, of "line m"] f by (subst read_line.simps) (simp add: Let_def)
    consider (full) "length (window m) = HTTP_BUFFER_BLOCK_SIZE"
      | (eos) "length (window m) \<noteq> HTTP_BUFFER_BLOCK_SIZE" "chunks r = []"
      | (more) "length (window m) \<noteq> HTTP_BUFFER_BLOCK_SIZE" "chunks r \<noteq> []" by blast
    then show ?thesis
    proof cases
      case full
      with fill_spec [OF wf ro f] rl rd have "ec = Some illegal_byte_sequence" by simp
      then show ?thesis using full_window_no_line [OF full None] full
        by (auto simp: spec_line_def split: option.split)
    next
      case eos
      with fill_spec [OF wf ro f] rl rd have "ec = Some (at_end r)" by simp
      with eos None wl show ?thesis by (simp add: spec_line_def)
    next
      case more
      with fill_spec [OF wf ro f] have "e2 = ok" by simp
      obtain bs where s: "msg_wf m2" "line m2 = line m" "headers m2 = headers m" "at_end r2 = at_end r" "reader_ok r2"
        "window m2 = window m @ bs" "concat (chunks r) = bs @ concat (chunks r2)"
        using fill_spec [OF wf ro f] more by auto
      have "read_line lparse m2 r2 = (ec, m', r')" using rl rd \<open>e2 = ok\<close> by simp
      from less.hyps [OF fill_measure [OF f [unfolded \<open>e2 = ok\<close>]] s(1,5) this]
      show ?thesis using s by (simp split: head_result.splits)
    qed
  qed
qed

end

section \<open>The header block\<close>

definition hdr_map :: "'l message \<Rightarrow> string \<rightharpoonup> string" where
  "hdr_map m = map_of (map (map_prod (deref (buffer m)) (deref (buffer m))) (headers m))"

lemma hdr_find_get: "get_header m key = hdr_map m key"
proof -
  have "map_option (\<lambda>kv. deref buf (snd kv)) (find (\<lambda>kv. deref buf (fst kv) = key) h)
          = map_of (map (map_prod (deref buf) (deref buf)) h) key" for buf h
    by (induction h) auto
  from this [of "buffer m" "headers m"] show ?thesis
    by (simp add: get_header_def hdr_find_def hdr_map_def map_option_case)
qed

lemma map_of_hdr_put:
  "map_of (map (map_prod (deref buf) (deref buf)) (hdr_put buf k v h)) =
     (map_of (map (map_prod (deref buf) (deref buf)) h))(deref buf k \<mapsto> deref buf v)"
  by (induction buf k v h rule: hdr_put.induct) (auto simp: fun_eq_iff)

definition hdrs_ok :: "'l message \<Rightarrow> bool" where
  "hdrs_ok m \<longleftrightarrow> (\<forall>(k, v)\<in>set (headers m). view_ok m k \<and> view_ok m v)"

lemma set_hdr_put: "set (hdr_put buf k v h) \<subseteq> insert (k, v) (set h) \<union> (\<lambda>(k', v'). (k', v)) ` set h"
  by (induction buf k v h rule: hdr_put.induct) auto

lemma hdr_map_stable:
  "stable m m' \<Longrightarrow> headers m' = headers m \<Longrightarrow> hdrs_ok m \<Longrightarrow> hdr_map m' = hdr_map m \<and> hdrs_ok m'"
  by (fastforce simp: stable_def hdrs_ok_def hdr_map_def intro!: arg_cong [where f = map_of] map_cong)

lemma abs_view_window:
  assumes "msg_wf m" "fst s + snd s \<le> length (window m)"
  shows "view_ok m (abs_view m s)" "deref (buffer m) (abs_view m s) = span_of (window m) s"
  using assms
  by (auto simp: view_ok_def abs_view_def length_window msg_wf_def deref_def span_of_def window_def sub_def
      drop_take min_absorb1 add.commute)

lemma view_ok_headers [simp]: "view_ok (m\<lparr>headers := h\<rparr>) v = view_ok m v"
  by (simp add: view_ok_def)

lemma window_headers [simp]: "window (m\<lparr>headers := h\<rparr>) = window m"
  by (simp add: window_def)

lemma msg_wf_headers [simp]: "msg_wf (m\<lparr>headers := h\<rparr>) = msg_wf m"
  by (simp add: msg_wf_def)

lemma put_headers_spec:
  "msg_wf m \<Longrightarrow> hdrs_ok m \<Longrightarrow> list_all (span_ok (window m)) sps \<Longrightarrow> hdr_map m = map_of (rev acc) \<Longrightarrow>
     hdrs_ok (put_headers m sps) \<and> hdr_map (put_headers m sps) = map_of (rev (acc @ spans_of (window m) sps))"
proof (induction sps arbitrary: m acc)
  case Nil
  then show ?case by (simp add: put_headers_def)
next
  case (Cons sp sps)
  obtain k v where sp: "sp = (k, v)" by (cases sp)
  let ?m = "m\<lparr>headers := hdr_put (buffer m) (abs_view m k) (abs_view m v) (headers m)\<rparr>"
  have kv: "fst k + snd k \<le> length (window m)" "fst v + snd v \<le> length (window m)"
    using Cons.prems(3) sp by (auto simp: span_ok_def)
  note K = abs_view_window [OF Cons.prems(1) kv(1)] and V = abs_view_window [OF Cons.prems(1) kv(2)]
  have "hdrs_ok ?m"
    using Cons.prems(2) K(1) V(1) set_hdr_put [of "buffer m" "abs_view m k" "abs_view m v" "headers m"]
    by (fastforce simp: hdrs_ok_def)
  moreover have "hdr_map ?m = map_of (rev (acc @ [(span_of (window m) k, span_of (window m) v)]))"
    using Cons.prems(4) K(2) V(2) by (simp add: hdr_map_def map_of_hdr_put)
  moreover have "put_headers m (sp # sps) = put_headers ?m sps"
    by (simp add: put_headers_def sp abs_view_def)
  ultimately show ?case
    using Cons.IH [of ?m "acc @ [(span_of (window m) k, span_of (window m) v)]"] Cons.prems sp by simp
qed

lemma put_headers_frame [simp]:
  "buffer (put_headers m sps) = buffer m" "win_block (put_headers m sps) = win_block m"
  "win_begin (put_headers m sps) = win_begin m" "win_end (put_headers m sps) = win_end m"
  "line (put_headers m sps) = line m" "window (put_headers m sps) = window m"
  "msg_wf (put_headers m sps) = msg_wf m"
  by (simp_all add: put_headers_def)

lemma spec_rest_no_line:
  assumes "find_sub CRLF w = None" "length w = HTTP_BUFFER_BLOCK_SIZE"
  shows "spec_rest (w @ t) acc = Bad illegal_byte_sequence"
  using full_window_no_line [OF assms(2,1), of t] assms
  by (subst spec_rest.simps) (auto simp: HTTP_BUFFER_BLOCK_SIZE_def split: option.split)

lemma msg_rest_parse_spec:
  assumes "msg_wf m" "hdrs_ok m" "hdr_map m = map_of (rev acc)" "msg_rest_parse m = (n, er, m1)"
  shows "\<exists>hs. rest_scan (window m) = (n, er, hs) \<and> hdrs_ok m1 \<and> hdr_map m1 = map_of (rev (acc @ hs)) \<and>
     msg_wf m1 \<and> window m1 = window m \<and> line m1 = line m \<and> win_begin m1 = win_begin m"
proof -
  obtain hs where sc: "rest_scan (window m) = (fst (rest_scan (window m)), fst (snd (rest_scan (window m))), hs)"
    by (metis prod.collapse)
  obtain sps where sps: "rest_parse (window m) 0 [] = (fst (rest_scan (window m)), fst (snd (rest_scan (window m))), sps)"
    "spans_of (window m) sps = hs" "list_all (span_ok (window m)) sps"
    using rest_parse_scan [of 0 "window m" _ _ hs "[]"] sc by auto
  have m1: "n = fst (rest_scan (window m))" "er = fst (snd (rest_scan (window m)))"
    "m1 = put_headers m sps \<or> (\<exists>c. m1 = (put_headers m sps)\<lparr>content_part := c\<rparr>)"
    using assms(4) sps(1)
    by (auto simp: msg_rest_parse_def Let_def simp del: split_paired_Ex split_paired_All split: if_splits)
  have "hdrs_ok (m\<lparr>content_part := c\<rparr>) = hdrs_ok m" "hdr_map (m\<lparr>content_part := c\<rparr>) = hdr_map m"
    "msg_wf (m\<lparr>content_part := c\<rparr>) = msg_wf m" "window (m\<lparr>content_part := c\<rparr>) = window m" for m :: "'a message" and c
    by (auto simp: hdrs_ok_def hdr_map_def msg_wf_def window_def view_ok_def)
  then show ?thesis
    using m1 sc put_headers_spec [OF assms(1,2) sps(3) assms(3)] sps(2) assms(1)
    by (intro exI [of _ hs]) auto
qed

lemma read_rest_spec:
  "msg_wf m \<Longrightarrow> reader_ok r \<Longrightarrow> hdrs_ok m \<Longrightarrow> hdr_map m = map_of (rev acc) \<Longrightarrow>
   read_rest m r = (ec, m', r') \<Longrightarrow>
   (case spec_rest (pending m r) acc of
      Incomplete \<Rightarrow> ec = Some (at_end r)
    | Bad x \<Rightarrow> ec = Some x
    | Done hs rest \<Rightarrow> ec = ok \<and> msg_wf m' \<and> reader_ok r' \<and> line m' = line m \<and>
        at_end r' = at_end r \<and> pending m' r' = rest \<and> hdr_map m' = map_of (rev hs) \<and> hdrs_ok m')"
proof (induction "sum_list (map length (chunks r))" arbitrary: m r acc rule: less_induct)
  case less
  note wf = less.prems(1) and ro = less.prems(2) and rd = less.prems(5)
  have wl: "length (window m) \<le> HTTP_BUFFER_BLOCK_SIZE" using wf by (auto simp: length_window msg_wf_def)
  obtain n er m1 where p: "msg_rest_parse m = (n, er, m1)" using prod_cases3 by blast
  obtain hs where sc: "rest_scan (window m) = (n, er, hs)" and m1: "hdrs_ok m1" "hdr_map m1 = map_of (rev (acc @ hs))"
    "msg_wf m1" "window m1 = window m" "line m1 = line m" "win_begin m1 = win_begin m"
    using msg_rest_parse_spec [OF wf less.prems(3,4) p] by blast
  note sp = scan_spec [OF sc wl, of "concat (chunks r)" acc]
  let ?m = "m1\<lparr>win_begin := win_begin m1 + n\<rparr>"
  have adv: "msg_wf ?m" "window ?m = drop n (window m)"
    using msg_advance [OF m1(3), of n] m1(4) sp by auto
  have h: "hdrs_ok ?m" "hdr_map ?m = map_of (rev (acc @ hs))"
    using m1(1,2) by (auto simp: hdrs_ok_def hdr_map_def view_ok_def)
  consider (ok) "er = None" | (again) "er = Some resource_unavailable_try_again"
    | (bad) x where "er = Some x" "x \<noteq> resource_unavailable_try_again" by blast
  then show ?case
  proof cases
    case ok
    with rd p have "ec = None" "m' = ?m" "r' = r" by (auto simp: read_rest.simps [of m r])
    with ok sp adv h m1(5) ro show ?thesis by simp
  next
    case bad
    with rd p have "ec = Some x" by (auto simp: read_rest.simps [of m r])
    with bad sp show ?thesis by simp
  next
    case again
    obtain e2 m2 r2 where f: "fill ?m r = (e2, m2, r2)" using prod_cases3 by blast
    have rl: "read_rest m r = (if e2 \<noteq> None then (e2, m2, r2) else read_rest m2 r2)"
      using p again f by (subst read_rest.simps) (simp add: Let_def)
    have st: "spec_rest (pending m r) acc = spec_rest (pending ?m r) (acc @ hs)" "find_sub CRLF (window ?m) = None"
      using sp again adv(2) by auto
    note fs = fill_spec [OF adv(1) ro f]
    consider (full) "length (window ?m) = HTTP_BUFFER_BLOCK_SIZE"
      | (eos) "length (window ?m) \<noteq> HTTP_BUFFER_BLOCK_SIZE" "chunks r = []"
      | (more) "length (window ?m) \<noteq> HTTP_BUFFER_BLOCK_SIZE" "chunks r \<noteq> []" by blast
    then show ?thesis
    proof cases
      case full
      with fs rl rd have "ec = Some illegal_byte_sequence" by simp
      with st spec_rest_no_line [OF st(2) full] show ?thesis by simp
    next
      case eos
      with fs rl rd have "ec = Some (at_end r)" by simp
      moreover have "length (window ?m) < HTTP_BUFFER_BLOCK_SIZE" using eos(1) adv wl by simp
      ultimately show ?thesis using st eos(2) by (simp add: spec_rest.simps [of "window ?m"])
    next
      case more
      with fs obtain bs where s: "e2 = None" "msg_wf m2" "stable ?m m2" "line m2 = line ?m" "headers m2 = headers ?m"
        "at_end r2 = at_end r" "reader_ok r2" "window m2 = window ?m @ bs" "concat (chunks r) = bs @ concat (chunks r2)"
        by auto
      have hm: "hdrs_ok m2" "hdr_map m2 = map_of (rev (acc @ hs))"
        using hdr_map_stable [OF s(3,5) h(1)] h(2) by auto
      have rd2: "read_rest m2 r2 = (ec, m', r')" using rl rd s(1) by simp
      have eq: "spec_rest (pending m r) acc = spec_rest (pending m2 r2) (acc @ hs)" "line m2 = line m"
        using s(4,8,9) st(1) m1(5) by auto
      show ?thesis
        using less.hyps [OF fill_measure [OF f [unfolded s(1)]] s(2,7) hm rd2] s(6)
        unfolding eq by (auto split: head_result.splits)
    qed
  qed
qed

section \<open>The whole head\<close>

context head_line
begin

lemma read_spec:
  assumes "msg_wf m" "reader_ok r" "read lparse m r = (ec, m', r')"
  shows "case spec_head lparse (line m) (pending m r) of
      Incomplete \<Rightarrow> ec = Some (at_end r)
    | Bad x \<Rightarrow> ec = Some x
    | Done (l, hs) rest \<Rightarrow> ec = ok \<and> msg_wf m' \<and> reader_ok r' \<and> line m' = l \<and> at_end r' = at_end r \<and>
        pending m' r' = rest \<and> get_header m' = map_of (rev hs) \<and> hdrs_ok m'"
proof -
  let ?m0 = "(entry_compact m)\<lparr>headers := []\<rparr>"
  obtain e1 m1 r1 where l: "read_line lparse ?m0 r = (e1, m1, r1)" using prod_cases3 by blast
  have m0: "msg_wf ?m0" "window ?m0 = window m" "line ?m0 = line m"
    using entry_compact_spec [OF assms(1)] by auto
  have rd: "(if e1 \<noteq> ok then (e1, m1, r1) else read_rest m1 r1) = (ec, m', r')"
    using assms(3) l by (simp add: read_def Let_def)
  note ls = read_line_spec [OF m0(1) assms(2) l, unfolded m0(2,3)]
  show ?thesis
  proof (cases "spec_line lparse (line m) (pending m r)")
    case (Done l' rest)
    have s: "e1 = ok" "msg_wf m1" "reader_ok r1" "line m1 = l'" "at_end r1 = at_end r" "pending m1 r1 = rest"
      and h: "hdrs_ok m1" "hdr_map m1 = map_of (rev [])"
      using ls Done by (auto simp: hdrs_ok_def hdr_map_def)
    from read_rest_spec [OF s(2,3) h, of ec m' r'] rd s Done show ?thesis
      by (auto simp: spec_head_def hdr_find_get fun_eq_iff split: head_result.splits)
  qed (use ls rd in \<open>auto simp: spec_head_def\<close>)
qed

lemma read_chunking:
  assumes "msg_wf m" "reader_ok r" "msg_wf n" "reader_ok q"
    and "line n = line m" "pending n q = pending m r" "at_end q = at_end r"
    and "read lparse m r = (ec, m', r')" "read lparse n q = (ec', n', q')"
  shows "ec' = ec \<and> (ec = ok \<longrightarrow> line n' = line m' \<and> get_header n' = get_header m' \<and> pending n' q' = pending m' r')"
  using read_spec [OF assms(1,2,8)] read_spec [OF assms(3,4,9)] assms(5-7)
  by (auto split: head_result.splits prod.splits)

end

text \<open>Reading one head after another on the same connection, as the server's request loop does.\<close>

fun read_heads :: "'l line_parser \<Rightarrow> nat \<Rightarrow> 'l message \<Rightarrow> reader \<Rightarrow> ('l \<times> (string \<rightharpoonup> string)) list \<times> ec" where
  "read_heads lparse 0 m r = ([], ok)"
| "read_heads lparse (Suc k) m r =
     (let (ec, m', r') = read lparse m r
      in if ec \<noteq> ok then ([], ec)
         else let (hs, ec') = read_heads lparse k m' r' in ((line m', get_header m') # hs, ec'))"

fun spec_heads :: "'l line_parser \<Rightarrow> nat \<Rightarrow> 'l \<Rightarrow> string \<Rightarrow> errc \<Rightarrow> ('l \<times> (string \<rightharpoonup> string)) list \<times> ec" where
  "spec_heads lparse 0 l bs eos = ([], ok)"
| "spec_heads lparse (Suc k) l bs eos =
     (case spec_head lparse l bs of
        Incomplete \<Rightarrow> ([], Some eos)
      | Bad x \<Rightarrow> ([], Some x)
      | Done (l', hs) rest \<Rightarrow>
          (let (xs, ec) = spec_heads lparse k l' rest eos in ((l', map_of (rev hs)) # xs, ec)))"

context head_line
begin

lemma read_heads_spec:
  "msg_wf m \<Longrightarrow> reader_ok r \<Longrightarrow> read_heads lparse k m r = spec_heads lparse k (line m) (pending m r) (at_end r)"
proof (induction k arbitrary: m r)
  case (Suc k)
  obtain ec m' r' where rd: "read lparse m r = (ec, m', r')" using prod_cases3 by blast
  from read_spec [OF Suc.prems rd] rd Suc.IH [of m' r'] show ?case
    by (auto split: head_result.splits prod.splits)
qed simp

end

end
