(* ===== verification/Async_Io.thy ===== *)
theory Async_Io
  imports Http_Message
begin

text \<open>
  The asynchronous socket operations of \<^verbatim>\<open>include/xsl/asio/io.h\<close> and the result type of
  \<^verbatim>\<open>include/xsl/io/def.h\<close>.  The operating system is a script: one entry for each system call, giving
  what the call returns, and for \<^verbatim>\<open>EAGAIN\<close> also what \<^verbatim>\<open>co_await sig\<close> yields before the call is
  repeated (True for readiness, False when the signal was stopped).  A script that ends leaves the
  coroutine suspended: the operation has no result yet, \<^term>\<open>None\<close>.  Bytes accepted by the system are
  appended to the wire.  The theorems show that the send loops deliver a prefix of the data and report
  its exact length, that vectored and plain sends agree, that a send finishes when the peer keeps
  reading, and that \<^verbatim>\<open>recv\<close> is the reader of the HTTP head parser.
\<close>

section \<open>Results and system calls\<close>

record result =
  res_size :: nat
  res_ec :: ec

abbreviation Res :: "nat \<Rightarrow> ec \<Rightarrow> result" where
  "Res n e \<equiv> \<lparr>res_size = n, res_ec = e\<rparr>"

text \<open>\<^verbatim>\<open>Result::operator bool\<close>.\<close>

definition res_ok :: "result \<Rightarrow> bool" where
  "res_ok r \<longleftrightarrow> res_ec r = ok"

datatype sys_out = Ret nat | Again bool | Fail nat

text \<open>The sending side of a device: the bytes accepted so far and the script.\<close>

record 'a tx =
  tx_wire :: "'a list"
  tx_script :: "sys_out list"

section \<open>Sending\<close>

text \<open>\<^verbatim>\<open>send(_raw, data, size, sig)\<close>: the system accepts at most what is offered.\<close>

fun send_loop :: "'a list \<Rightarrow> nat \<Rightarrow> 'a tx \<Rightarrow> sys_out list \<Rightarrow> (result \<times> 'a tx) option" where
  "send_loop data sent d [] = None"
| "send_loop data sent d (Ret k # s) =
     (let n = min k (length data - sent) in
      if n > 0 then
        let sent' = sent + n; d' = d\<lparr>tx_wire := tx_wire d @ sub data sent n, tx_script := s\<rparr> in
        if sent' < length data then send_loop data sent' d' s else Some (Res sent' ok, d')
      else Some (Res sent ok, d\<lparr>tx_script := s\<rparr>))"
| "send_loop data sent d (Again ready # s) =
     (if \<not> ready then Some (Res sent (Some not_connected), d\<lparr>tx_script := s\<rparr>)
      else if sent < length data then send_loop data sent (d\<lparr>tx_script := s\<rparr>) s
      else Some (Res sent ok, d\<lparr>tx_script := s\<rparr>))"
| "send_loop data sent d (Fail e # s) = Some (Res sent (Some (Errno e)), d\<lparr>tx_script := s\<rparr>)"

definition send :: "'a list \<Rightarrow> 'a tx \<Rightarrow> (result \<times> 'a tx) option" where
  "send data d = send_loop data 0 d (tx_script d)"

text \<open>\<^verbatim>\<open>send(_raw, std::span&, sig)\<close> and \<^verbatim>\<open>NetAsyncTx::write(span)\<close>: nothing sent is reported as
  \<^verbatim>\<open>not_connected\<close>.\<close>

definition send_span :: "'a list \<Rightarrow> 'a tx \<Rightarrow> (result \<times> 'a tx) option" where
  "send_span data d =
     map_option (\<lambda>(r, d'). (if res_size r = 0 then Res 0 (Some not_connected) else r, d')) (send data d)"

text \<open>\<^verbatim>\<open>sendv\<close>: the vector of what is left of the chunks, without empty pieces, and the loop that moves
  past the chunks a write has completed.\<close>

definition writev_max_chunks :: nat where "writev_max_chunks = 8"

definition iov :: "'a list list \<Rightarrow> nat \<Rightarrow> nat \<Rightarrow> 'a list list" where
  "iov cs idx offset =
     filter (\<lambda>c. c \<noteq> []) (map (\<lambda>i. drop (if i = idx then offset else 0) (cs ! i)) [idx..<length cs])"

function skip_chunks :: "'a list list \<Rightarrow> nat \<Rightarrow> nat \<Rightarrow> nat \<times> nat" where
  "skip_chunks cs idx offset =
     (if idx < length cs \<and> length (cs ! idx) \<le> offset
      then skip_chunks cs (idx + 1) (offset - length (cs ! idx))
      else (idx, offset))"
  by pat_completeness auto
termination skip_chunks
  by (relation "measure (\<lambda>(cs, idx, offset). length cs - idx)") auto

declare skip_chunks.simps [simp del]

fun sendv_loop :: "'a list list \<Rightarrow> nat \<Rightarrow> nat \<Rightarrow> nat \<Rightarrow> nat \<Rightarrow> 'a tx \<Rightarrow> sys_out list \<Rightarrow> (result \<times> 'a tx) option" where
  "sendv_loop cs all written idx offset d [] =
     (if iov cs idx offset = [] then Some (Res written ok, d) else None)"
| "sendv_loop cs all written idx offset d (x # s) =
     (if iov cs idx offset = [] then Some (Res written ok, d)
      else case x of
        Ret k \<Rightarrow>
          (let w = min k (length (concat (iov cs idx offset))) in
           if w > 0 then
             let (idx', offset') = skip_chunks cs idx (offset + w);
                 d' = d\<lparr>tx_wire := tx_wire d @ take w (concat (iov cs idx offset)), tx_script := s\<rparr> in
             if written + w < all then sendv_loop cs all (written + w) idx' offset' d' s
             else Some (Res (written + w) ok, d')
           else Some (Res written ok, d\<lparr>tx_script := s\<rparr>))
      | Again ready \<Rightarrow>
          (if \<not> ready then Some (Res written (Some not_connected), d\<lparr>tx_script := s\<rparr>)
           else if written < all then sendv_loop cs all written idx offset (d\<lparr>tx_script := s\<rparr>) s
           else Some (Res written ok, d\<lparr>tx_script := s\<rparr>))
      | Fail e \<Rightarrow> Some (Res written (Some (Errno e)), d\<lparr>tx_script := s\<rparr>))"

definition sendv :: "'a list list \<Rightarrow> 'a tx \<Rightarrow> (result \<times> 'a tx) option" where
  "sendv cs d =
     (if length cs > writev_max_chunks then Some (Res 0 (Some invalid_argument), d)
      else
        let all = sum_list (map length cs) in
        if all = 0 then Some (Res 0 ok, d) else sendv_loop cs all 0 0 0 d (tx_script d))"

text \<open>\<^verbatim>\<open>send_file\<close>: the file that was opened, or the error of \<^verbatim>\<open>open\<close>; \<^verbatim>\<open>sendfile\<close> moves the offset and
  returns 0 at the end of the file.\<close>

record file_hint =
  hint_offset :: nat
  hint_size :: nat

primrec send_file_loop :: "'a list \<Rightarrow> nat \<Rightarrow> nat \<Rightarrow> nat \<Rightarrow> 'a tx \<Rightarrow> sys_out list \<Rightarrow> (result \<times> 'a tx) option" where
  "send_file_loop file start fin offset d [] = None"
| "send_file_loop file start fin offset d (x # s) =
     (case x of
        Ret k \<Rightarrow>
          (let n = min k (min (fin - offset) (length file - offset)) in
           if n > 0 then
             let offset' = offset + n; d' = d\<lparr>tx_wire := tx_wire d @ sub file offset n, tx_script := s\<rparr> in
             if offset' \<noteq> fin then send_file_loop file start fin offset' d' s else Some (Res (offset' - start) ok, d')
           else if offset \<noteq> fin then Some (Res (offset - start) ok, d\<lparr>tx_script := s\<rparr>)
           else Some (Res (offset - start) (Some no_message), d\<lparr>tx_script := s\<rparr>))
      | Again ready \<Rightarrow>
          (if \<not> ready then Some (Res (offset - start) (Some not_connected), d\<lparr>tx_script := s\<rparr>)
           else if offset \<noteq> fin then send_file_loop file start fin offset (d\<lparr>tx_script := s\<rparr>) s
           else Some (Res (offset - start) ok, d\<lparr>tx_script := s\<rparr>))
      | Fail e \<Rightarrow> Some (Res (offset - start) (Some (Errno e)), d\<lparr>tx_script := s\<rparr>))"

definition send_file :: "nat + 'a list \<Rightarrow> file_hint \<Rightarrow> 'a tx \<Rightarrow> (result \<times> 'a tx) option" where
  "send_file opened h d =
     (case opened of
        Inl e \<Rightarrow> Some (Res 0 (Some (Errno e)), d)
      | Inr file \<Rightarrow>
          send_file_loop file (hint_offset h) (hint_size h + hint_offset h) (hint_offset h) d (tx_script d))"

text \<open>\<^verbatim>\<open>NetAsyncTx::sendto\<close>: the branch for 0 is never reached, the first test includes it.\<close>

fun sendto_loop :: "'a list \<Rightarrow> nat \<Rightarrow> 'a tx \<Rightarrow> sys_out list \<Rightarrow> (result \<times> 'a tx) option" where
  "sendto_loop buf pos d [] = None"
| "sendto_loop buf pos d (Ret k # s) =
     (let sz = min k (length buf - pos);
          d' = d\<lparr>tx_wire := tx_wire d @ sub buf pos sz, tx_script := s\<rparr> in
      if length buf - (pos + sz) > 0 then sendto_loop buf (pos + sz) d' s
      else Some (Res (pos + sz) ok, d'))"
| "sendto_loop buf pos d (Again ready # s) =
     (if \<not> ready then Some (Res pos (Some not_connected), d\<lparr>tx_script := s\<rparr>)
      else if length buf - pos > 0 then sendto_loop buf pos (d\<lparr>tx_script := s\<rparr>) s
      else Some (Res pos ok, d\<lparr>tx_script := s\<rparr>))"
| "sendto_loop buf pos d (Fail e # s) = Some (Res pos (Some (Errno e)), d\<lparr>tx_script := s\<rparr>)"

definition sendto :: "'a list \<Rightarrow> 'a tx \<Rightarrow> (result \<times> 'a tx) option" where
  "sendto buf d = sendto_loop buf 0 d (tx_script d)"

section \<open>Receiving\<close>

text \<open>The script of the receiving side: bytes that arrived, \<^verbatim>\<open>EAGAIN\<close> with the result of the wait, or an
  error.  A stream keeps the bytes that did not fit.\<close>

datatype rx_out = Got string | RAgain bool | RFail nat

fun imm_recv :: "nat \<Rightarrow> rx_out list \<Rightarrow> (result \<times> string \<times> rx_out list) option" where
  "imm_recv cap [] = None"
| "imm_recv cap (Got bs # s) =
     Some (Res (min cap (length bs)) ok, take cap bs, if length bs \<le> cap then s else Got (drop cap bs) # s)"
| "imm_recv cap (RAgain ready # s) =
     (if \<not> ready then Some (Res 0 (Some not_connected), [], s) else imm_recv cap s)"
| "imm_recv cap (RFail e # s) = Some (Res 0 (Some (Errno e)), [], s)"

text \<open>\<^verbatim>\<open>recv\<close>, of connection based devices: size 0 is reported as \<^verbatim>\<open>not_connected\<close>.\<close>

definition recv :: "nat \<Rightarrow> rx_out list \<Rightarrow> (result \<times> string \<times> rx_out list) option" where
  "recv cap s =
     map_option (\<lambda>(r, bs, s'). (if res_size r = 0 then Res 0 (Some not_connected) else r, bs, s')) (imm_recv cap s)"

text \<open>\<^verbatim>\<open>recv(span&)\<close> also drops the received bytes from the span it was given.\<close>

definition recv_span :: "nat \<Rightarrow> rx_out list \<Rightarrow> (result \<times> string \<times> rx_out list \<times> nat) option" where
  "recv_span cap s =
     map_option (\<lambda>(r, bs, s'). if res_size r = 0 then (Res 0 (Some not_connected), bs, s', cap)
                              else (r, bs, s', cap - res_size r)) (imm_recv cap s)"

text \<open>\<^verbatim>\<open>NetAsyncRx::read\<close>.\<close>

definition net_read :: "bool \<Rightarrow> nat \<Rightarrow> rx_out list \<Rightarrow> (result \<times> string \<times> rx_out list) option" where
  "net_read connection_based cap s = (if connection_based then recv cap s else imm_recv cap s)"

text \<open>\<^verbatim>\<open>recvfrom\<close>: datagrams, the rest of a longer one is lost.\<close>

fun recvfrom :: "nat \<Rightarrow> rx_out list \<Rightarrow> (result \<times> string \<times> rx_out list) option" where
  "recvfrom cap [] = None"
| "recvfrom cap (Got bs # s) = Some (Res (min cap (length bs)) ok, take cap bs, s)"
| "recvfrom cap (RAgain ready # s) =
     (if \<not> ready then Some (Res 0 (Some not_connected), [], s) else recvfrom cap s)"
| "recvfrom cap (RFail e # s) = Some (Res 0 (Some (Errno e)), [], s)"

text \<open>The members of \<^verbatim>\<open>NetAsyncRx\<close> and \<^verbatim>\<open>NetAsyncTx\<close> that take spans; a span of the caller shrinks to what is left of
  it, a span that is passed by value or is constant does not.\<close>

definition imm_recv_span :: "nat \<Rightarrow> rx_out list \<Rightarrow> (result \<times> string \<times> rx_out list \<times> nat) option" where
  "imm_recv_span cap s = map_option (\<lambda>(r, bs, s'). (r, bs, s', cap)) (imm_recv cap s)"

definition recv_const_span :: "nat \<Rightarrow> rx_out list \<Rightarrow> (result \<times> string \<times> rx_out list) option" where
  "recv_const_span cap s =
     map_option (\<lambda>(r, bs, s'). (if res_size r = 0 then Res 0 (Some not_connected) else r, bs, s')) (imm_recv cap s)"

definition net_read_span :: "bool \<Rightarrow> nat \<Rightarrow> rx_out list \<Rightarrow> (result \<times> string \<times> rx_out list \<times> nat) option" where
  "net_read_span connection_based cap s = (if connection_based then recv_span cap s else imm_recv_span cap s)"

definition recvfrom_span :: "nat \<Rightarrow> rx_out list \<Rightarrow> (result \<times> string \<times> rx_out list) option" where
  "recvfrom_span cap s = recvfrom cap s"

definition net_write :: "'a list \<Rightarrow> 'a tx \<Rightarrow> (result \<times> 'a tx) option" where
  "net_write data d = send data d"

definition net_write_span :: "'a list \<Rightarrow> 'a tx \<Rightarrow> (result \<times> 'a tx) option" where
  "net_write_span data d = send_span data d"

definition net_writev :: "'a list list \<Rightarrow> 'a tx \<Rightarrow> (result \<times> 'a tx) option" where
  "net_writev cs d = sendv cs d"

definition sendto_span :: "'a list \<Rightarrow> 'a tx \<Rightarrow> (result \<times> 'a tx) option" where
  "sendto_span data d = sendto data d"

definition write_file :: "nat + 'a list \<Rightarrow> file_hint \<Rightarrow> 'a tx \<Rightarrow> (result \<times> 'a tx) option" where
  "write_file opened h d = send_file opened h d"

section \<open>What is delivered\<close>

text \<open>The contract of an operation that writes bytes to a device: it delivers a prefix of them, reports its
  length, and reports success only for the whole when the device does not refuse progress.\<close>

locale byte_sink =
  fixes put :: "'a list \<Rightarrow> 'd \<Rightarrow> (result \<times> 'd) option"
    and delivered :: "'d \<Rightarrow> 'a list"
    and steady :: "'d \<Rightarrow> bool"
  assumes put_prefix: "put bs d = Some (r, d') \<Longrightarrow>
      res_size r \<le> length bs \<and> delivered d' = delivered d @ take (res_size r) bs"
    and put_steady: "put bs d = Some (r, d') \<Longrightarrow> steady d \<Longrightarrow>
      steady d' \<and> (res_ok r \<longrightarrow> res_size r = length bs)"
begin

text \<open>Two writes in a row, the second only after a successful first: what a message of head and body uses.\<close>

definition put2 :: "'a list \<Rightarrow> 'a list \<Rightarrow> 'd \<Rightarrow> (result \<times> 'd) option" where
  "put2 as bs d =
     Option.bind (put as d) (\<lambda>(r, d1).
       if \<not> res_ok r then Some (r, d1)
       else Option.bind (put bs d1) (\<lambda>(r2, d2). Some (r2\<lparr>res_size := res_size r2 + res_size r\<rparr>, d2)))"

lemma put2_prefix:
  assumes "put2 as bs d = Some (r, d')" "steady d"
  shows "res_size r \<le> length (as @ bs) \<and> delivered d' = delivered d @ take (res_size r) (as @ bs)
     \<and> steady d' \<and> (res_ok r \<longrightarrow> res_size r = length (as @ bs))"
proof -
  obtain r1 d1 where w: "put as d = Some (r1, d1)"
    using assms(1) by (auto simp: put2_def bind_eq_Some_conv)
  note p = put_prefix [OF w] and q = put_steady [OF w assms(2)]
  show ?thesis
  proof (cases "res_ok r1")
    case False
    then have "r = r1" "d' = d1" using assms(1) w by (simp_all add: put2_def)
    with p q False show ?thesis by auto
  next
    case True
    then obtain r2 where w2: "put bs d1 = Some (r2, d')" and r: "r = r2\<lparr>res_size := res_size r2 + res_size r1\<rparr>"
      using assms(1) w by (auto simp: put2_def bind_eq_Some_conv)
    have full: "res_size r1 = length as" "steady d1" using q True by auto
    note p2 = put_prefix [OF w2] and q2 = put_steady [OF w2 full(2)]
    have "take (res_size r) (as @ bs) = as @ take (res_size r2) bs" using full(1) by (simp add: r)
    then show ?thesis using p p2 q2 full by (auto simp: r res_ok_def)
  qed
qed

end

text \<open>A script in which no call returns 0.\<close>

definition steady_tx :: "'a tx \<Rightarrow> bool" where
  "steady_tx d \<longleftrightarrow> Ret 0 \<notin> set (tx_script d)"

lemma send_loop_delivers:
  assumes "send_loop data k d s = Some (r, d')" "k \<le> length data"
  shows "k \<le> res_size r \<and> res_size r \<le> length data \<and> tx_wire d' = tx_wire d @ sub data k (res_size r - k)
     \<and> set (tx_script d') \<subseteq> set s \<and> (Ret 0 \<notin> set s \<and> res_ok r \<longrightarrow> res_size r = length data)"
  using assms
proof (induction data k d s arbitrary: r d' rule: send_loop.induct)
  case (2 data k d m s)
  let ?n = "min m (length data - k)"
  show ?case
  proof (cases "?n > 0 \<and> k + ?n < length data")
    case True
    let ?d = "d\<lparr>tx_wire := tx_wire d @ sub data k ?n, tx_script := s\<rparr>"
    have "send_loop data (k + ?n) ?d s = Some (r, d')" using "2.prems"(1) True by (auto simp: Let_def)
    from "2.IH" [OF refl _ refl refl _ this] True "2.prems"(2)
    have IH: "k + ?n \<le> res_size r" "res_size r \<le> length data"
      "tx_wire d' = (tx_wire d @ sub data k ?n) @ sub data (k + ?n) (res_size r - (k + ?n))"
      "set (tx_script d') \<subseteq> set s" "Ret 0 \<notin> set s \<and> res_ok r \<longrightarrow> res_size r = length data"
      by auto
    have "sub data k ?n @ sub data (k + ?n) (res_size r - (k + ?n)) = sub data k (res_size r - k)"
      using IH(1) by (simp add: sub_append)
    then show ?thesis using IH by auto
  next
    case False
    then show ?thesis
      using "2.prems" by (auto simp: Let_def res_ok_def sub_def min_def split: if_splits)
  qed
next
  case (3 data k d ready s)
  show ?case
  proof (cases "ready \<and> k < length data")
    case True
    with "3.prems" have "send_loop data k (d\<lparr>tx_script := s\<rparr>) s = Some (r, d')" by simp
    from "3.IH" [OF _ _ this] True "3.prems" show ?thesis by auto
  next
    case False
    then show ?thesis using "3.prems" by (auto simp: res_ok_def sub_def split: if_splits)
  qed
qed (auto simp: res_ok_def sub_def)

interpretation socket: byte_sink send tx_wire steady_tx
proof
  fix bs :: "'a list" and d d' :: "'a tx" and r
  assume "send bs d = Some (r, d')"
  from send_loop_delivers [OF this [unfolded send_def]]
  have *: "res_size r \<le> length bs" "tx_wire d' = tx_wire d @ sub bs 0 (res_size r)"
    "set (tx_script d') \<subseteq> set (tx_script d)"
    "Ret 0 \<notin> set (tx_script d) \<and> res_ok r \<longrightarrow> res_size r = length bs" by auto
  then show "res_size r \<le> length bs \<and> tx_wire d' = tx_wire d @ take (res_size r) bs" by (simp add: sub_def)
  show "steady_tx d' \<and> (res_ok r \<longrightarrow> res_size r = length bs)" if "steady_tx d"
    using * that by (auto simp: steady_tx_def)
qed

text \<open>C29. A send delivers a prefix of the data and reports exactly its length, whatever partial writes, waits,
  stops and errors occur; when no call returns 0 it reports success only for the whole data.\<close>

theorem send_delivers_prefix:
  assumes "send data d = Some (r, d')"
  shows "res_size r \<le> length data \<and> tx_wire d' = tx_wire d @ take (res_size r) data
     \<and> (steady_tx d \<longrightarrow> res_ok r \<longrightarrow> res_size r = length data)"
  using socket.put_prefix [OF assms] socket.put_steady [OF assms] by blast

theorem send_delivers_prefix_witness:
  "\<exists>r d'. send [1, 2, 3::nat] \<lparr>tx_wire = [], tx_script = [Ret 2, Again True, Ret 5]\<rparr> = Some (r, d')
     \<and> tx_wire d' = [1, 2, 3] \<and> res_size r = 3"
proof -
  let ?d = "\<lparr>tx_wire = [], tx_script = [Ret 2, Again True, Ret 5]\<rparr> :: nat tx"
  obtain r d' where s: "send [1, 2, 3] ?d = Some (r, d')" and "res_ok r" "steady_tx ?d"
    by (simp add: send_def Let_def res_ok_def steady_tx_def)
  with send_delivers_prefix [OF s] show ?thesis by auto
qed

subsection \<open>Vectored sends\<close>

lemma skip_chunks_spec:
  "\<lbrakk>skip_chunks cs i k = (i', k'); i \<le> length cs\<rbrakk> \<Longrightarrow>
   i' \<le> length cs \<and> sum_list (map length (take i' cs)) + k' = sum_list (map length (take i cs)) + k
   \<and> (i' < length cs \<longrightarrow> k' < length (cs ! i'))"
proof (induction cs i k rule: skip_chunks.induct)
  case (1 cs i k)
  show ?case
  proof (cases "i < length cs \<and> length (cs ! i) \<le> k")
    case True
    then have "skip_chunks cs (i + 1) (k - length (cs ! i)) = (i', k')"
      using "1.prems" by (subst (asm) skip_chunks.simps) simp
    from "1.IH" [OF True this] True show ?thesis by (simp add: take_Suc_conv_app_nth)
  next
    case False
    then have "i' = i" "k' = k" using "1.prems"(1) by (subst (asm) skip_chunks.simps; auto)+
    then show ?thesis using False "1.prems" by auto
  qed
qed

lemma concat_filter_nonempty: "concat (filter (\<lambda>c. c \<noteq> []) cs) = concat cs"
  by (induction cs) auto

text \<open>The vector holds exactly the bytes not yet written.\<close>

lemma concat_iov:
  assumes "i \<le> length cs" "i < length cs \<longrightarrow> k \<le> length (cs ! i)" "i = length cs \<longrightarrow> k = 0"
  shows "concat (iov cs i k) = drop (sum_list (map length (take i cs)) + k) (concat cs)"
proof -
  have cut: "concat cs = concat (take i cs) @ concat (drop i cs)" by (metis append_take_drop_id concat_append)
  have len: "length (concat (take i cs)) = sum_list (map length (take i cs))" by (simp add: length_concat)
  show ?thesis
  proof (cases "i < length cs")
    case False
    then show ?thesis using assms cut len by (simp add: iov_def)
  next
    case True
    have "map (\<lambda>j. drop (if j = i then k else 0) (cs ! j)) [Suc i..<length cs] = drop (Suc i) cs"
      by (rule nth_equalityI) auto
    then have "concat (iov cs i k) = drop k (cs ! i) @ concat (drop (Suc i) cs)"
      using True by (simp add: iov_def concat_filter_nonempty upt_conv_Cons)
    also have "\<dots> = drop k (concat (drop i cs))" using True assms(2) by (simp add: Cons_nth_drop_Suc [symmetric])
    also have "\<dots> = drop (sum_list (map length (take i cs)) + k) (concat cs)" using len by (simp add: cut)
    finally show ?thesis .
  qed
qed

lemma sendv_loop_send:
  assumes "i \<le> length cs" "i < length cs \<longrightarrow> k \<le> length (cs ! i)" "i = length cs \<longrightarrow> k = 0"
    and "w = sum_list (map length (take i cs)) + k" "w < length (concat cs)" "all = length (concat cs)"
  shows "sendv_loop cs all w i k d s = send_loop (concat cs) w d s"
  using assms(1-5)
proof (induction s arbitrary: w i k d)
  case Nil
  have "concat (iov cs i k) \<noteq> []" using Nil.prems concat_iov [OF Nil.prems(1-3)] by simp
  then have "iov cs i k \<noteq> []" by auto
  then show ?case by simp
next
  case (Cons x s)
  have ci: "concat (iov cs i k) = drop w (concat cs)" using concat_iov [OF Cons.prems(1-3)] Cons.prems(4) by simp
  then have ne: "iov cs i k \<noteq> []" using Cons.prems(5) by auto
  have li: "length (concat (iov cs i k)) = length (concat cs) - w" by (simp add: ci)
  show ?case
  proof (cases x)
    case (Ret m)
    define n where "n = min m (length (concat cs) - w)"
    obtain i' k' where sk: "skip_chunks cs i (k + n) = (i', k')" by fastforce
    from skip_chunks_spec [OF sk Cons.prems(1)]
    have sp: "i' \<le> length cs" "sum_list (map length (take i' cs)) + k' = w + n" "i' < length cs \<longrightarrow> k' < length (cs ! i')"
      using Cons.prems(4) by auto
    have tk: "take n (concat (iov cs i k)) = sub (concat cs) w n" by (simp add: ci sub_def)
    have rec: "sendv_loop cs all (w + n) i' k' d' s = send_loop (concat cs) (w + n) d' s"
      if "w + n < length (concat cs)" for d'
    proof (rule Cons.IH)
      show "i' = length cs \<longrightarrow> k' = 0"
      proof
        assume "i' = length cs"
        then have "length (concat cs) + k' = w + n" using sp(2) by (simp add: length_concat)
        then show "k' = 0" using that by simp
      qed
    qed (use sp that in auto)
    have n: "min m (length (concat (iov cs i k))) = n" "min m (length (concat cs) - w) = n" by (simp_all add: li n_def)
    have "sendv_loop cs all w i k d (x # s) =
      (if n > 0 then
         let d' = d\<lparr>tx_wire := tx_wire d @ sub (concat cs) w n, tx_script := s\<rparr> in
         if w + n < length (concat cs) then sendv_loop cs all (w + n) i' k' d' s else Some (Res (w + n) ok, d')
       else Some (Res w ok, d\<lparr>tx_script := s\<rparr>))"
      using ne sk tk assms(6) by (simp only: Ret sendv_loop.simps n Let_def sys_out.case if_False prod.case)
    also have "\<dots> = send_loop (concat cs) w d (x # s)"
      using rec by (simp only: Ret send_loop.simps n Let_def split: if_split) blast
    finally show ?thesis .
  next
    case (Again b)
    then show ?thesis using ne Cons.IH [OF Cons.prems] Cons.prems(5) assms(6) by simp
  next
    case (Fail e)
    then show ?thesis using ne by simp
  qed
qed

lemma sendv_send:
  assumes "length cs \<le> writev_max_chunks" "concat cs \<noteq> []"
  shows "sendv cs d = send (concat cs) d"
proof -
  have len: "sum_list (map length cs) = length (concat cs)" by (simp add: length_concat)
  have "cs \<noteq> []" using assms(2) by auto
  then have "sendv_loop cs (length (concat cs)) 0 0 0 d (tx_script d) = send_loop (concat cs) 0 d (tx_script d)"
    using assms(2) by (intro sendv_loop_send) auto
  then show ?thesis using assms unfolding sendv_def send_def len by (auto simp: Let_def)
qed

text \<open>C30. A vectored send of up to eight chunks has exactly the outcome of a plain send of their
  concatenation: the same result, the same bytes on the wire, the same system calls.\<close>

theorem sendv_eq_send:
  assumes "length cs \<le> writev_max_chunks" "concat cs \<noteq> []"
  shows "sendv cs d = send (concat cs) d"
  using assms by (rule sendv_send)

theorem sendv_eq_send_witness:
  "sendv [[1, 2], [], [3::nat]] \<lparr>tx_wire = [], tx_script = [Ret 1, Again True, Ret 9]\<rparr>
     = send [1, 2, 3] \<lparr>tx_wire = [], tx_script = [Ret 1, Again True, Ret 9]\<rparr>"
  using sendv_eq_send [of "[[1, 2], [], [3::nat]]" "\<lparr>tx_wire = [], tx_script = [Ret 1, Again True, Ret 9]\<rparr>"]
  by (simp add: writev_max_chunks_def)

subsection \<open>Progress\<close>

text \<open>System calls that accept at least one byte.\<close>

fun accepts :: "sys_out \<Rightarrow> bool" where
  "accepts (Ret k) \<longleftrightarrow> 0 < k"
| "accepts _ \<longleftrightarrow> False"

lemma send_loop_returns:
  "length data - k \<le> length (filter accepts s) \<Longrightarrow> k < length data \<Longrightarrow> \<exists>r. send_loop data k d s = Some r"
proof (induction s arbitrary: k d)
  case (Cons x s)
  show ?case
  proof (cases x)
    case (Ret m)
    show ?thesis
    proof (cases "m = 0 \<or> length data \<le> k + m")
      case False
      then have "length data - (k + m) \<le> length (filter accepts s)"
        using Cons.prems Ret by auto
      then show ?thesis using False Ret Cons.IH by (auto simp: Let_def min_def)
    next
      case True
      then show ?thesis using Cons.prems Ret by (auto simp: Let_def min_def)
    qed
  next
    case (Again b)
    then show ?thesis using Cons by auto
  qed simp
qed simp

text \<open>A send finishes: if the system accepts at least one byte in as many calls as there are bytes to
  send, however many waits lie between them, the coroutine returns a result.\<close>

lemma send_returns:
  assumes "data \<noteq> []" "length data \<le> length (filter accepts (tx_script d))"
  shows "\<exists>r d'. send data d = Some (r, d')"
  using send_loop_returns [of data 0 "tx_script d" d] assms by (auto simp: send_def)

lemma send_returns_witness:
  "\<exists>r d'. send [7, 8::nat] \<lparr>tx_wire = [], tx_script = [Again True, Ret 1, Again True, Ret 1]\<rparr> = Some (r, d')"
  by (rule send_returns) simp_all

subsection \<open>Files and datagrams\<close>

lemma send_file_loop_delivers:
  assumes "send_file_loop file st fin k d s = Some (r, d')" "st \<le> k" "k \<le> fin" "k \<le> length file"
  shows "k \<le> st + res_size r \<and> st + res_size r \<le> min fin (length file)
     \<and> tx_wire d' = tx_wire d @ sub file k (st + res_size r - k)
     \<and> (Ret 0 \<notin> set s \<and> res_ok r \<longrightarrow> st + res_size r = min fin (length file))"
  using assms
proof (induction s arbitrary: k d)
  case (Cons x s)
  show ?case
  proof (cases x)
    case (Ret m)
    define n where "n = min m (min (fin - k) (length file - k))"
    show ?thesis
    proof (cases "n > 0 \<and> k + n \<noteq> fin")
      case True
      let ?d = "d\<lparr>tx_wire := tx_wire d @ sub file k n, tx_script := s\<rparr>"
      have "send_file_loop file st fin (k + n) ?d s = Some (r, d')"
        using Cons.prems(1) True unfolding n_def Ret by (simp add: Let_def)
      moreover have "st \<le> k + n" "k + n \<le> fin" "k + n \<le> length file" using Cons.prems by (auto simp: n_def)
      ultimately have IH: "k + n \<le> st + res_size r" "st + res_size r \<le> min fin (length file)"
        "tx_wire d' = (tx_wire d @ sub file k n) @ sub file (k + n) (st + res_size r - (k + n))"
        "Ret 0 \<notin> set s \<and> res_ok r \<longrightarrow> st + res_size r = min fin (length file)"
        using Cons.IH by fastforce+
      have "sub file k n @ sub file (k + n) (st + res_size r - (k + n)) = sub file k (st + res_size r - k)"
        using IH(1) by (simp add: sub_append)
      then show ?thesis using IH by auto
    next
      case False
      then show ?thesis
        using Cons.prems unfolding Ret n_def by (auto simp: Let_def res_ok_def sub_def min_def split: if_splits)
    qed
  next
    case (Again b)
    show ?thesis
    proof (cases "b \<and> k \<noteq> fin")
      case True
      then have "send_file_loop file st fin k (d\<lparr>tx_script := s\<rparr>) s = Some (r, d')"
        using Cons.prems(1) by (simp add: Again)
      from Cons.IH [OF this Cons.prems(2-4)] show ?thesis by (simp add: Again)
    next
      case False
      then show ?thesis using Cons.prems by (auto simp: Again res_ok_def sub_def split: if_splits)
    qed
  next
    case (Fail e)
    then show ?thesis using Cons.prems by (auto simp: res_ok_def sub_def)
  qed
qed simp

text \<open>C31. Sending a file puts on the wire the bytes of the file from the requested offset, as many as are
  reported and never beyond the requested range or the end of the file; when no call returns early, success
  means the whole range, or the file up to its end when it is shorter than was announced.  (An empty range is reported as
  an error, see below.)\<close>

theorem send_file_delivers:
  assumes "send_file (Inr file) h d = Some (r, d')" "hint_offset h \<le> length file"
  shows "res_size r \<le> min (hint_size h) (length file - hint_offset h)
     \<and> tx_wire d' = tx_wire d @ sub file (hint_offset h) (res_size r)
     \<and> (steady_tx d \<longrightarrow> res_ok r \<longrightarrow> res_size r = min (hint_size h) (length file - hint_offset h))"
  using send_file_loop_delivers [OF assms(1) [unfolded send_file_def sum.case]] assms(2)
  by (auto simp: steady_tx_def)

theorem send_file_delivers_witness:
  "\<exists>r d'. send_file (Inr ''abcde'') \<lparr>hint_offset = 1, hint_size = 3\<rparr> \<lparr>tx_wire = ''x'', tx_script = [Ret 2, Ret 2]\<rparr> = Some (r, d')
     \<and> tx_wire d' = ''xbcd''"
proof -
  let ?d = "\<lparr>tx_wire = ''x'', tx_script = [Ret 2, Ret 2]\<rparr>" and ?h = "\<lparr>hint_offset = 1, hint_size = 3\<rparr>"
  obtain r d' where s: "send_file (Inr ''abcde'') ?h ?d = Some (r, d')" and "res_ok r" "steady_tx ?d"
    by (simp add: send_file_def Let_def res_ok_def steady_tx_def)
  with send_file_delivers [OF s] show ?thesis by (auto simp: sub_def)
qed

text \<open>An empty range is reported as an error although nothing was asked for.\<close>

lemma send_file_empty:
  "send_file (Inr file) \<lparr>hint_offset = 0, hint_size = 0\<rparr> \<lparr>tx_wire = w, tx_script = Ret k # s\<rparr>
   = Some (Res 0 (Some no_message), \<lparr>tx_wire = w, tx_script = s\<rparr>)"
  by (simp add: send_file_def)

text \<open>A device that returns 0 for a non-empty datagram keeps \<^verbatim>\<open>sendto\<close> in its loop for ever.\<close>

lemma sendto_spins:
  "buf \<noteq> [] \<Longrightarrow> sendto buf \<lparr>tx_wire = w, tx_script = replicate n (Ret 0)\<rparr> = None"
proof -
  assume "buf \<noteq> []"
  then have "sendto_loop buf 0 d (replicate n (Ret 0)) = None" for d :: "'a tx"
    by (induction n arbitrary: d) (simp_all add: Let_def sub_def)
  then show ?thesis by (simp add: sendto_def)
qed

section \<open>The receiving side is the reader of the head parser\<close>

fun rx_chunks :: "rx_out list \<Rightarrow> string list" where
  "rx_chunks (Got bs # s) = (if bs = [] then [] else bs # rx_chunks s)"
| "rx_chunks (RAgain ready # s) = (if ready then rx_chunks s else [])"
| "rx_chunks _ = []"

definition reader_of :: "rx_out list \<Rightarrow> reader" where
  "reader_of s = \<lparr>chunks = rx_chunks s, at_end = not_connected\<rparr>"

text \<open>C32. A connected socket behaves as the chunk reader the head parser is verified against: a receive
  that returns data returns the next bytes of the stream, at most as many as asked for and losing none; every
  other outcome, an orderly close, a stop or an error, ends the stream with \<^verbatim>\<open>not_connected\<close>.\<close>

theorem recv_refines_reader:
  assumes "0 < n" "recv n s = Some (r, bs, s')"
  shows "reader_read n (reader_of s) = (if res_ok r then (Inr bs, reader_of s') else (Inl not_connected, reader_of s))
     \<and> (res_ok r \<longrightarrow> res_size r = length bs)"
proof -
  obtain r0 where im: "imm_recv n s = Some (r0, bs, s')"
    and r: "r = (if res_size r0 = 0 then Res 0 (Some not_connected) else r0)"
    using assms(2) by (auto simp: recv_def)
  then show ?thesis using assms(1)
    by (induction n s arbitrary: rule: imm_recv.induct)
      (auto simp: reader_of_def reader_read_def res_ok_def min_def split: if_splits)
qed

theorem recv_refines_reader_witness:
  "reader_read 2 (reader_of [RAgain True, Got ''abc'', Got ''d'']) = (Inr ''ab'', reader_of [Got ''c'', Got ''d''])"
proof -
  have "recv 2 [RAgain True, Got ''abc'', Got ''d''] = Some (Res 2 ok, ''ab'', [Got ''c'', Got ''d''])"
    by (simp add: recv_def)
  from recv_refines_reader [OF _ this] show ?thesis by (simp add: res_ok_def)
qed

text \<open>The error of the system call is lost: \<^verbatim>\<open>recv\<close> reports every failure as \<^verbatim>\<open>not_connected\<close>.\<close>

lemma recv_hides_errno: "recv n (RFail e # s) = Some (Res 0 (Some not_connected), [], s)"
  by (simp add: recv_def)

end
