(* ===== verification/Io_Buffer.thy ===== *)
theory Io_Buffer
  imports Async_Io
begin

text \<open>
  The block buffers of \<^verbatim>\<open>include/xsl/io/buf.h\<close> (\<^verbatim>\<open>FixedBuffer\<close>, \<^verbatim>\<open>Buffer\<close>) and
  \<^verbatim>\<open>include/xsl/asio/buf.h\<close> (\<^verbatim>\<open>Buffer::write\<close> from a reader), for a block size \<open>B\<close>.  A buffer is a list
  of blocks and the fill level of the last one; a copy that leaves its block is undefined behaviour, here
  \<^term>\<open>None\<close>.  Writes that stay in the last block append; a write that crosses into a new block does not
  reset the fill level, which misplaces the bytes or leaves the block.
\<close>

section \<open>FixedBuffer\<close>

record fixed_buffer =
  fb_data :: string
  fb_size :: nat

definition fb_new :: "nat \<Rightarrow> fixed_buffer" where
  "fb_new B = \<lparr>fb_data = replicate B (CHR 0x00), fb_size = 0\<rparr>"

text \<open>\<^verbatim>\<open>FixedBuffer(data, size)\<close>: \<^term>\<open>None\<close> is the failed assertion.\<close>

definition fb_of :: "nat \<Rightarrow> string \<Rightarrow> nat \<Rightarrow> fixed_buffer option" where
  "fb_of B data n = (if n \<le> B then Some \<lparr>fb_data = data, fb_size = n\<rparr> else None)"

text \<open>\<^verbatim>\<open>unfilled\<close>: the index of the first byte that is not valid.\<close>

definition fb_unfilled :: "fixed_buffer \<Rightarrow> nat" where
  "fb_unfilled b = fb_size b"

definition fb_fill :: "nat \<Rightarrow> nat \<Rightarrow> fixed_buffer \<Rightarrow> fixed_buffer option" where
  "fb_fill B n b = (if n \<le> B - fb_size b then Some (b\<lparr>fb_size := fb_size b + n\<rparr>) else None)"

definition fb_resize :: "nat \<Rightarrow> nat \<Rightarrow> fixed_buffer \<Rightarrow> fixed_buffer option" where
  "fb_resize B n b = (if n \<le> B then Some (b\<lparr>fb_size := n\<rparr>) else None)"

text \<open>The move constructor leaves the source without data and size.\<close>

definition fb_move :: "fixed_buffer \<Rightarrow> fixed_buffer \<times> fixed_buffer" where
  "fb_move b = (b, \<lparr>fb_data = [], fb_size = 0\<rparr>)"

section \<open>Buffer\<close>

record buffer =
  blocks :: "string list"
  current_size :: nat

definition block_new :: "nat \<Rightarrow> string" where
  "block_new B = replicate B (CHR 0x00)"

definition buffer_new :: "nat \<Rightarrow> buffer" where
  "buffer_new B = \<lparr>blocks = [block_new B], current_size = 0\<rparr>"

text \<open>\<^verbatim>\<open>std::copy_n(data, n, _buffers.back().get() + off)\<close>.\<close>

definition copy_back :: "nat \<Rightarrow> string \<Rightarrow> nat \<Rightarrow> string list \<Rightarrow> string list option" where
  "copy_back B data off bs =
     (if off + length data \<le> B then Some (butlast bs @ [blit (last bs) off data]) else None)"

function buffer_blocks :: "nat \<Rightarrow> string \<Rightarrow> string list \<Rightarrow> (string \<times> string list) option" where
  "buffer_blocks B data bs =
     (if B \<noteq> 0 \<and> length data \<ge> B then
        Option.bind (copy_back B (take B data) 0 bs) (\<lambda>bs'. buffer_blocks B (drop B data) (bs' @ [block_new B]))
      else Some (data, bs))"
  by pat_completeness auto
termination buffer_blocks
  by (relation "measure (\<lambda>(B, data, bs). length data)") auto

declare buffer_blocks.simps [simp del]

text \<open>\<^verbatim>\<open>Buffer::write\<close>: finish the last block, then whole blocks, then the rest at the fill level.\<close>

definition buffer_write :: "nat \<Rightarrow> string \<Rightarrow> buffer \<Rightarrow> (nat \<times> buffer) option" where
  "buffer_write B data b =
     Option.bind
       (if current_size b + length data > B
        then map_option (\<lambda>bs. (drop (B - current_size b) data, bs @ [block_new B]))
               (copy_back B (take (B - current_size b) data) (current_size b) (blocks b))
        else Some (data, blocks b))
       (\<lambda>(data1, bs1). Option.bind (buffer_blocks B data1 bs1)
         (\<lambda>(data2, bs2). Option.bind (copy_back B data2 (current_size b) bs2)
           (\<lambda>bs3. let n = current_size b + length data2 in Some (n, \<lparr>blocks = bs3, current_size = n\<rparr>))))"

definition add_buffer :: "string \<Rightarrow> buffer \<Rightarrow> buffer" where
  "add_buffer blk b = b\<lparr>blocks := blocks b @ [blk]\<rparr>"

definition is_full :: "nat \<Rightarrow> buffer \<Rightarrow> bool" where
  "is_full B b \<longleftrightarrow> current_size b = B"

text \<open>\<^verbatim>\<open>asio::Buffer::write(reader)\<close>.\<close>

definition buffer_fill :: "nat \<Rightarrow> buffer \<Rightarrow> reader \<Rightarrow> (errc + nat) \<times> buffer \<times> reader" where
  "buffer_fill B b r =
     (let b1 = (if current_size b = B then \<lparr>blocks = blocks b @ [block_new B], current_size = 0\<rparr> else b) in
      case reader_read (B - current_size b1) r of
        (Inl e, r') \<Rightarrow> (Inl e, b1, r')
      | (Inr bs, r') \<Rightarrow>
          (Inr (length bs),
           \<lparr>blocks = butlast (blocks b1) @ [blit (last (blocks b1)) (current_size b1) bs],
            current_size = current_size b1 + length bs\<rparr>, r'))"

section \<open>What a buffer holds\<close>

definition buffer_ok :: "nat \<Rightarrow> buffer \<Rightarrow> bool" where
  "buffer_ok B b \<longleftrightarrow> 0 < B \<and> blocks b \<noteq> [] \<and> current_size b \<le> B \<and> list_all (\<lambda>x. length x = B) (blocks b)"

definition contents :: "buffer \<Rightarrow> string" where
  "contents b = concat (butlast (blocks b)) @ take (current_size b) (last (blocks b))"

lemma buffer_new_ok: "0 < B \<Longrightarrow> buffer_ok B (buffer_new B) \<and> contents (buffer_new B) = []"
  by (simp add: buffer_ok_def buffer_new_def block_new_def contents_def)

lemma buffer_ok_last: "buffer_ok B b \<Longrightarrow> length (last (blocks b)) = B"
  by (simp add: buffer_ok_def list_all_iff)

lemma buffer_write_inside:
  assumes "buffer_ok B b" "current_size b + length data \<le> B"
  shows "\<exists>n b'. buffer_write B data b = Some (n, b') \<and> buffer_ok B b' \<and> contents b' = contents b @ data"
proof (cases "length data = B")
  case False
  then have "buffer_blocks B data (blocks b) = Some (data, blocks b)"
    using assms by (subst buffer_blocks.simps) auto
  moreover have "copy_back B data (current_size b) (blocks b)
      = Some (butlast (blocks b) @ [blit (last (blocks b)) (current_size b) data])"
    using assms(2) by (simp add: copy_back_def)
  ultimately show ?thesis
    using assms buffer_ok_last [OF assms(1)]
    by (auto simp: buffer_write_def Let_def buffer_ok_def contents_def blit_def list_all_iff dest: in_set_butlastD)
next
  case True
  then have z: "current_size b = 0" using assms(2) by simp
  have e: "buffer_blocks B [] bs = Some ([], bs)" for bs
    using assms(1) by (subst buffer_blocks.simps) (simp add: buffer_ok_def)
  have "buffer_blocks B data (blocks b) = Some ([], butlast (blocks b) @ [data] @ [block_new B])"
    using assms(1) True buffer_ok_last [OF assms(1)]
    by (subst buffer_blocks.simps) (simp add: copy_back_def e buffer_ok_def blit_def)
  then show ?thesis
    using assms True z by (auto simp: buffer_write_def copy_back_def Let_def buffer_ok_def contents_def blit_def
        block_new_def list_all_iff butlast_append dest: in_set_butlastD)
qed

lemma concat_butlast_last: "bs \<noteq> [] \<Longrightarrow> concat bs = concat (butlast bs) @ last bs"
  by (induction bs) auto

text \<open>C40. Filling a block buffer from a reader appends: a successful read adds exactly the bytes the
  reader returned, at most the room of the last block, to what the buffer holds; a failed one adds
  nothing; a full last block is followed by a new one and nothing already held is moved.\<close>

theorem buffer_fill_appends:
  assumes "buffer_ok B b" "buffer_fill B b r = (res, b', r')"
  shows "buffer_ok B b' \<and> prefix (butlast (blocks b)) (blocks b') \<and>
     (case res of
        Inl e \<Rightarrow> contents b' = contents b
      | Inr n \<Rightarrow> \<exists>bs k. reader_read k r = (Inr bs, r') \<and> 0 < k \<and> k \<le> B \<and> n = length bs \<and> contents b' = contents b @ bs)"
proof -
  define b1 where "b1 = (if current_size b = B then \<lparr>blocks = blocks b @ [block_new B], current_size = 0\<rparr> else b)"
  have ok1: "buffer_ok B b1" "current_size b1 < B" "contents b1 = contents b" "prefix (butlast (blocks b)) (butlast (blocks b1))"
    using assms(1) buffer_ok_last [OF assms(1)] concat_butlast_last [of "blocks b"] prefixeq_butlast [of "blocks b"]
    by (auto simp: b1_def buffer_ok_def contents_def block_new_def butlast_append)
  obtain x r1 where rd: "reader_read (B - current_size b1) r = (x, r1)" by fastforce
  show ?thesis
  proof (cases x)
    case (Inl e)
    then have "res = Inl e" "b' = b1" using assms(2) rd by (simp_all add: buffer_fill_def b1_def [symmetric] Let_def)
    then show ?thesis using ok1 by (auto intro: prefix_order.trans [OF _ prefixeq_butlast])
  next
    case (Inr bs)
    then have e: "res = Inr (length bs)" "r' = r1"
      "b' = \<lparr>blocks = butlast (blocks b1) @ [blit (last (blocks b1)) (current_size b1) bs], current_size = current_size b1 + length bs\<rparr>"
      using assms(2) rd by (simp_all add: buffer_fill_def b1_def [symmetric] Let_def)
    have "length bs \<le> B - current_size b1"
      using rd Inr by (auto simp: reader_read_def split: list.splits)
    then have len: "current_size b1 + length bs \<le> length (last (blocks b1))"
      using ok1(2) buffer_ok_last [OF ok1(1)] by simp
    then have "contents b' = contents b @ bs" "buffer_ok B b'"
      using ok1 buffer_ok_last [OF ok1(1)]
      by (auto simp: e contents_def blit_def buffer_ok_def list_all_iff dest: in_set_butlastD)
    moreover have "prefix (butlast (blocks b)) (blocks b')" using ok1(4) by (simp add: e(3) prefix_prefix)
    ultimately show ?thesis
      using rd Inr e ok1(2) by (auto intro!: exI [of _ "B - current_size b1"])
  qed
qed

theorem buffer_fill_appends_witness:
  "contents (fst (snd (buffer_fill 4 (buffer_new 4) \<lparr>chunks = [''ab''], at_end = not_connected\<rparr>))) = ''ab''"
proof -
  let ?r = "\<lparr>chunks = [''ab''], at_end = not_connected\<rparr>"
  obtain b' r' where f: "buffer_fill 4 (buffer_new 4) ?r = (Inr 2, b', r')"
    by (simp add: buffer_fill_def buffer_new_def reader_read_def Let_def)
  have "reader_read k ?r = (Inr bs, r1) \<Longrightarrow> length bs = 2 \<Longrightarrow> bs = ''ab''" for k bs r1
    by (auto simp: reader_read_def split: if_splits)
  with buffer_fill_appends [OF _ f] buffer_new_ok [of 4] f show ?thesis by force
qed

text \<open>A write that needs a new block: the fill level of the full block is kept, so the rest of the data lands
  behind a gap, or outside the block.\<close>

lemma buffer_write_crossing:
  "map_option (\<lambda>(n, b). (n, contents b))
     (Option.bind (buffer_write 4 ''abc'' (buffer_new 4)) (\<lambda>(n, b). buffer_write 4 ''de'' b))
   = Some (4, ''abcd'' @ [CHR 0x00, CHR 0x00, CHR 0x00] @ ''e'')
   \<and> Option.bind (buffer_write 4 ''abc'' (buffer_new 4)) (\<lambda>(n, b). buffer_write 4 ''defg'' b) = None"
  by (simp add: buffer_write_def buffer_blocks.simps copy_back_def buffer_new_def block_new_def contents_def blit_def
      Let_def numeral_eq_Suc)

end
