(* ===== verification/Http_Proto.thy ===== *)
theory Http_Proto
  imports Net_Prelude
begin

text \<open>
  The protocol vocabulary of \<^verbatim>\<open>include/xsl/net/http/proto.h\<close>: versions, methods, character sets and
  status codes with their tables, their conversions from and to text, and the cached date.
  An enumeration is a datatype in the order of its values; a status is its numeric code. Reading a
  table beyond its end is \<^term>\<open>None\<close>.
\<close>

definition table_at :: "'a list \<Rightarrow> nat \<Rightarrow> 'a option" where
  "table_at t i = (if i < length t then Some (t ! i) else None)"

section \<open>Versions\<close>

datatype version = V_EXT | HTTP_1_0 | HTTP_1_1 | HTTP_2_0 | V_UNKNOWN

definition HTTP_VERSION_STR :: "string list" where
  "HTTP_VERSION_STR = [''EXT'', ''HTTP/1.0'', ''HTTP/1.1'', ''HTTP/2.0'']"

definition versions :: "version list" where
  "versions = [V_EXT, HTTP_1_0, HTTP_1_1, HTTP_2_0]"

definition version_from_string_view :: "string \<Rightarrow> version" where
  "version_from_string_view s =
     (case find_idx (\<lambda>x. s = x) HTTP_VERSION_STR of Some i \<Rightarrow> versions ! i | None \<Rightarrow> V_UNKNOWN)"

fun version_to_string_view :: "version \<Rightarrow> string" where
  "version_to_string_view V_UNKNOWN = ''Unknown''"
| "version_to_string_view V_EXT = HTTP_VERSION_STR ! 0"
| "version_to_string_view HTTP_1_0 = HTTP_VERSION_STR ! 1"
| "version_to_string_view HTTP_1_1 = HTTP_VERSION_STR ! 2"
| "version_to_string_view HTTP_2_0 = HTTP_VERSION_STR ! 3"

section \<open>Methods\<close>

datatype http_method = M_EXT | GET | POST | PUT | DELETE | HEAD | OPTIONS | TRACE | CONNECT | M_UNKNOWN

definition HTTP_METHOD_STR :: "string list" where
  "HTTP_METHOD_STR =
     [''EXT'', ''GET'', ''POST'', ''PUT'', ''DELETE'', ''HEAD'', ''OPTIONS'', ''TRACE'', ''CONNECT'']"

definition methods :: "http_method list" where
  "methods = [M_EXT, GET, POST, PUT, DELETE, HEAD, OPTIONS, TRACE, CONNECT]"

text \<open>The value of the enumeration; \<^verbatim>\<open>UNKNOWN\<close> is 0xff.\<close>

definition method_code :: "http_method \<Rightarrow> nat" where
  "method_code m = (case find_idx (\<lambda>x. x = m) methods of Some i \<Rightarrow> i | None \<Rightarrow> 255)"

definition HTTP_METHOD_COUNT :: nat where
  "HTTP_METHOD_COUNT = 9"

definition method_from_string_view :: "string \<Rightarrow> http_method" where
  "method_from_string_view s =
     (case find_idx (\<lambda>x. s = x) HTTP_METHOD_STR of Some i \<Rightarrow> methods ! i | None \<Rightarrow> M_UNKNOWN)"

definition method_is_valid :: "http_method \<Rightarrow> bool" where
  "method_is_valid m \<longleftrightarrow> method_code m < HTTP_METHOD_COUNT \<and> m \<noteq> M_UNKNOWN"

definition method_to_string_view :: "http_method \<Rightarrow> string" where
  "method_to_string_view m = (if m = M_UNKNOWN then ''Unknown'' else HTTP_METHOD_STR ! method_code m)"

section \<open>Character sets\<close>

datatype charset = UTF_8 | GBK | GB2312 | ISO_8859_1 | CS_UNKNOWN

fun charset_to_string_view :: "charset \<Rightarrow> string" where
  "charset_to_string_view CS_UNKNOWN = ''Unknown''"
| "charset_to_string_view UTF_8 = ''UTF-8''"
| "charset_to_string_view GBK = ''GBK''"
| "charset_to_string_view GB2312 = ''GB2312''"
| "charset_to_string_view ISO_8859_1 = ''ISO-8859-1''"

section \<open>Status codes\<close>

definition HTTP_STATUS_STR :: "string list" where
  "HTTP_STATUS_STR =
    [''100'', ''101'', ''200'', ''201'', ''202'', ''203'', ''204'', ''205'', ''206'', ''300'', ''301'', ''302'',
     ''303'', ''304'', ''305'', ''307'', ''308'', ''400'', ''401'', ''402'', ''403'', ''404'', ''405'', ''406'',
     ''407'', ''408'', ''409'', ''410'', ''411'', ''412'', ''413'', ''414'', ''415'', ''416'', ''417'', ''421'',
     ''422'', ''426'', ''500'', ''501'', ''502'', ''503'', ''504'', ''505'', ''UNKNOWN'']"

definition HTTP_REASON_PHRASES :: "string list" where
  "HTTP_REASON_PHRASES =
    [''Continue'', ''Switching Protocols'', ''OK'', ''Created'', ''Accepted'',
     ''Non-Authoritative Information'', ''No Content'', ''Reset Content'', ''Partial Content'',
     ''Multiple Choices'', ''Moved Permanently'', ''Found'', ''See Other'', ''Not Modified'', ''Use Proxy'',
     ''Temporary Redirect'', ''Permanent Redirect'', ''Bad Request'', ''Unauthorized'', ''Payment Required'',
     ''Forbidden'', ''Not Found'', ''Method Not Allowed'', ''Not Acceptable'',
     ''Proxy Authentication Required'', ''Request Timeout'', ''Conflict'', ''Gone'', ''Length Required'',
     ''Precondition Failed'', ''Payload Too Large'', ''URI Too Long'', ''Unsupported Media Type'',
     ''Range Not Satisfiable'', ''Expectation Failed'', ''Misdirected Request'', ''Unprocessable Content'',
     ''Upgrade Required'', ''Internal Server Error'', ''Not Implemented'', ''Bad Gateway'',
     ''Service Unavailable'', ''Gateway Timeout'', ''HTTP Version Not Supported'']"

text \<open>The values of the enumeration \<^verbatim>\<open>Status\<close>, in the order of the cases of \<^verbatim>\<open>to_index\<close>.\<close>

definition status_codes :: "nat list" where
  "status_codes =
    [100, 101, 200, 201, 202, 203, 204, 205, 206, 300, 301, 302, 303, 304, 305, 307, 308, 400, 401, 402,
     403, 404, 405, 406, 407, 408, 409, 410, 411, 412, 413, 414, 415, 416, 417, 421, 422, 426, 500, 501,
     502, 503, 504, 505]"

definition STATUS_UNKNOWN :: nat where
  "STATUS_UNKNOWN = 65535"

definition dig :: "char \<Rightarrow> int" where
  "dig c = of_char c - of_char (CHR ''0'')"

definition status_from_string_view :: "string \<Rightarrow> nat" where
  "status_from_string_view s =
     (if length s \<noteq> 3 then STATUS_UNKNOWN
      else if dig (s ! 0) < 1 \<or> dig (s ! 0) > 5 \<or> dig (s ! 1) < 0 \<or> dig (s ! 1) > 9 \<or> dig (s ! 2) < 0 \<or> dig (s ! 2) > 9
      then STATUS_UNKNOWN
      else nat (dig (s ! 0) * 100 + dig (s ! 1) * 10 + dig (s ! 2)))"

definition status_to_index :: "nat \<Rightarrow> nat" where
  "status_to_index st = (case find_idx (\<lambda>c. c = st) status_codes of Some i \<Rightarrow> i | None \<Rightarrow> 44)"

definition status_to_string_view :: "nat \<Rightarrow> string option" where
  "status_to_string_view st = table_at HTTP_STATUS_STR (status_to_index st)"

definition status_to_reason_phrase :: "nat \<Rightarrow> string option" where
  "status_to_reason_phrase st = table_at HTTP_REASON_PHRASES (status_to_index st)"

section \<open>The cached date\<close>

text \<open>
  The thread-local cache of \<^verbatim>\<open>cached_date_string\<close>: the second it was made for and the text. The
  calendar formatting of the standard library is the argument \<open>fmt\<close>.
\<close>

record date_cache =
  cached_second :: int
  cached :: string

definition cached_date_string :: "(int \<Rightarrow> string) \<Rightarrow> date_cache \<Rightarrow> int \<Rightarrow> string \<times> date_cache" where
  "cached_date_string fmt c second =
     (let c' = (if second \<noteq> cached_second c then c\<lparr>cached := fmt second, cached_second := second\<rparr> else c)
      in (cached c', c'))"

definition date_cache_new :: date_cache where
  "date_cache_new = \<lparr>cached_second = -1, cached = []\<rparr>"

section \<open>Properties\<close>

text \<open>Versions and methods survive a trip through their text, and a text is recognised exactly when it is
  in the table: every other text gives the unknown value.\<close>

lemma version_method_round_trip:
  "(v \<noteq> V_UNKNOWN \<longrightarrow> version_from_string_view (version_to_string_view v) = v) \<and>
   (method_is_valid m \<longrightarrow> method_from_string_view (method_to_string_view m) = m) \<and>
   (method_is_valid m \<longleftrightarrow> m \<noteq> M_UNKNOWN) \<and>
   (method_from_string_view s \<noteq> M_UNKNOWN \<longrightarrow> method_to_string_view (method_from_string_view s) = s) \<and>
   (version_from_string_view s \<noteq> V_UNKNOWN \<longrightarrow> version_to_string_view (version_from_string_view s) = s)"
proof (intro conjI)
  show "v \<noteq> V_UNKNOWN \<longrightarrow> version_from_string_view (version_to_string_view v) = v"
    by (cases v) (simp_all add: version_from_string_view_def HTTP_VERSION_STR_def versions_def)
  show "method_is_valid m \<longrightarrow> method_from_string_view (method_to_string_view m) = m"
    by (cases m) (simp_all add: method_from_string_view_def method_to_string_view_def method_code_def
        HTTP_METHOD_STR_def methods_def method_is_valid_def)
  show "method_is_valid m \<longleftrightarrow> m \<noteq> M_UNKNOWN"
    by (cases m) (simp_all add: method_is_valid_def method_code_def methods_def HTTP_METHOD_COUNT_def)
  show "method_from_string_view s \<noteq> M_UNKNOWN \<longrightarrow> method_to_string_view (method_from_string_view s) = s"
    by (simp add: method_from_string_view_def HTTP_METHOD_STR_def methods_def method_to_string_view_def
        method_code_def)
  show "version_from_string_view s \<noteq> V_UNKNOWN \<longrightarrow> version_to_string_view (version_from_string_view s) = s"
    by (simp add: version_from_string_view_def HTTP_VERSION_STR_def versions_def)
qed

lemma version_method_round_trip_witness:
  "version_from_string_view (version_to_string_view HTTP_1_1) = HTTP_1_1 \<and>
   method_from_string_view (method_to_string_view DELETE) = DELETE \<and>
   method_to_string_view (method_from_string_view ''PUT'') = ''PUT''"
  using version_method_round_trip [of HTTP_1_1 DELETE "''PUT''"]
  by (simp add: method_is_valid_def method_code_def methods_def HTTP_METHOD_COUNT_def
      method_from_string_view_def HTTP_METHOD_STR_def)

text \<open>The tables belong together: each code has its text and its phrase at its own index.\<close>

lemma status_tables:
  "length HTTP_STATUS_STR = 45" "length HTTP_REASON_PHRASES = 44" "length status_codes = 44" "distinct status_codes"
  by (simp_all add: HTTP_STATUS_STR_def HTTP_REASON_PHRASES_def status_codes_def)

lemma status_strings: "map status_from_string_view (take 44 HTTP_STATUS_STR) = status_codes"
  by (simp add: HTTP_STATUS_STR_def status_from_string_view_def status_codes_def dig_def STATUS_UNKNOWN_def)

lemma status_to_index_nth: "i < 44 \<Longrightarrow> status_to_index (status_codes ! i) = i"
  using status_tables(3,4)
  by (auto simp: status_to_index_def find_idx_Some nth_eq_iff_index_eq split: option.splits dest!: find_idx_None [THEN iffD1])

lemma status_to_index_other: "st \<notin> set status_codes \<longleftrightarrow> status_to_index st = 44"
proof
  assume "st \<notin> set status_codes"
  then have "find_idx (\<lambda>c. c = st) status_codes = None" by (auto simp: find_idx_None)
  then show "status_to_index st = 44" by (simp add: status_to_index_def)
next
  assume a: "status_to_index st = 44"
  show "st \<notin> set status_codes"
  proof
    assume "st \<in> set status_codes"
    then obtain i where "i < 44" "st = status_codes ! i" using status_tables(3) by (auto simp: in_set_conv_nth)
    with a status_to_index_nth [of i] show False by simp
  qed
qed

lemma status_text:
  assumes "st \<in> set status_codes"
  shows "\<exists>s. status_to_string_view st = Some s \<and> status_from_string_view s = st \<and> s \<in> set (take 44 HTTP_STATUS_STR)"
proof -
  obtain i where i: "i < 44" "st = status_codes ! i" using assms status_tables(3) by (auto simp: in_set_conv_nth)
  then have "status_to_index st = i" by (simp add: status_to_index_nth)
  moreover have "status_from_string_view (HTTP_STATUS_STR ! i) = status_codes ! i"
    using i(1) arg_cong [OF status_strings, of "\<lambda>l. l ! i"] status_tables(1) by simp
  moreover have "HTTP_STATUS_STR ! i \<in> set (take 44 HTTP_STATUS_STR)"
    using i(1) status_tables(1) by (auto simp: in_set_conv_nth)
  ultimately show ?thesis
    using i status_tables by (simp add: status_to_string_view_def table_at_def)
qed

lemma status_text_plain:
  "s \<in> set (take 44 HTTP_STATUS_STR) \<Longrightarrow> SP \<notin> set s \<and> CR \<notin> set s \<and> length s = 3"
proof -
  have "list_all (\<lambda>s. SP \<notin> set s \<and> CR \<notin> set s \<and> length s = 3) (take 44 HTTP_STATUS_STR)"
    by (simp add: HTTP_STATUS_STR_def)
  then show "s \<in> set (take 44 HTTP_STATUS_STR) \<Longrightarrow> ?thesis" by (simp add: list_all_iff)
qed

text \<open>Status codes: every code of the enumeration is read back from the text it prints, and its reason
  phrase exists; for every other code the text is \<^verbatim>\<open>UNKNOWN\<close> and the reason phrase is read beyond the end
  of its table.\<close>

lemma status_round_trip:
  "(st \<in> set status_codes \<longrightarrow>
      (\<exists>s. status_to_string_view st = Some s \<and> status_from_string_view s = st) \<and>
      status_to_reason_phrase st \<noteq> None) \<and>
   (st \<notin> set status_codes \<longrightarrow>
      status_to_string_view st = Some ''UNKNOWN'' \<and> status_to_reason_phrase st = None)"
proof (cases "st \<in> set status_codes")
  case True
  then obtain i where i: "i < 44" "st = status_codes ! i" using status_tables(3) by (auto simp: in_set_conv_nth)
  then have "status_to_index st = i" by (simp add: status_to_index_nth)
  moreover have "status_from_string_view (HTTP_STATUS_STR ! i) = status_codes ! i"
    using i(1) arg_cong [OF status_strings, of "\<lambda>l. l ! i"] status_tables(1) by simp
  ultimately show ?thesis
    using True i status_tables by (simp add: status_to_string_view_def status_to_reason_phrase_def table_at_def)
next
  case False
  then have "status_to_index st = 44" using status_to_index_other by simp
  with False show ?thesis
    using status_tables by (simp add: status_to_string_view_def status_to_reason_phrase_def table_at_def)
      (simp add: HTTP_STATUS_STR_def)
qed

lemma status_round_trip_witness:
  "(\<exists>s. status_to_string_view 404 = Some s \<and> status_from_string_view s = 404) \<and>
   status_from_string_view ''299'' = 299 \<and> status_to_reason_phrase 299 = None"
  using status_round_trip [of 404] status_round_trip [of 299]
  by (simp add: status_codes_def status_from_string_view_def dig_def)

fun date_run :: "(int \<Rightarrow> string) \<Rightarrow> date_cache \<Rightarrow> int list \<Rightarrow> string list" where
  "date_run fmt c [] = []"
| "date_run fmt c (t # ts) = (let (s, c') = cached_date_string fmt c t in s # date_run fmt c' ts)"

lemma date_run_cached:
  "cached_second c = -1 \<or> cached c = fmt (cached_second c) \<Longrightarrow> -1 \<notin> set ts \<Longrightarrow> date_run fmt c ts = map fmt ts"
  by (induction fmt c ts rule: date_run.induct) (auto simp: cached_date_string_def Let_def split: if_splits)

text \<open>The date cache is transparent: on every sequence of calls whose clock does not show the second -1,
  each call returns the text the formatter gives for its own second.\<close>

lemma date_cache_transparent:
  assumes "-1 \<notin> set ts"
  shows "date_run fmt date_cache_new ts = map fmt ts"
  using assms by (simp add: date_run_cached date_cache_new_def)

lemma date_cache_transparent_witness:
  "date_run (\<lambda>t. replicate (nat t) CHR ''x'') date_cache_new [2, 2, 3] = [''xx'', ''xx'', ''xxx'']"
  using date_cache_transparent [of "[2, 2, 3]" "\<lambda>t. replicate (nat t) CHR ''x''"] by (simp add: numeral_eq_Suc)

end
