(* ===== verification/Http_Router.thy ===== *)
theory Http_Router
  imports Http_Proto
begin

text \<open>
  The route tree \<^verbatim>\<open>HttpRouteNode\<close> (\<^verbatim>\<open>include/xsl/net/http/router.h\<close>). A node has exact handlers for the
  last segment, the handler of its own prefix and children for inner segments; an id is a number, 0
  when it is not set. \<^verbatim>\<open>add_exact\<close> and \<^verbatim>\<open>add_prefix\<close> return a reference to an id: the model takes the
  write that the caller performs through it. The contract is stated over lists of path segments.
\<close>

abbreviation SLASH :: char where
  "SLASH \<equiv> CHR ''/''"

datatype route_node =
  RouteNode (nd_handlers: "string \<Rightarrow> nat option") (nd_prefix: nat) (nd_children: "string \<Rightarrow> route_node option")

definition node_new :: route_node where
  "node_new = RouteNode Map.empty 0 Map.empty"

abbreviation child_or_new :: "route_node \<Rightarrow> string \<Rightarrow> route_node" where
  "child_or_new n s \<equiv> (case nd_children n s of Some c \<Rightarrow> c | None \<Rightarrow> node_new)"

definition set_child :: "route_node \<Rightarrow> string \<Rightarrow> route_node \<Rightarrow> route_node" where
  "set_child n s c = RouteNode (nd_handlers n) (nd_prefix n) ((nd_children n)(s \<mapsto> c))"

section \<open>The operations\<close>

text \<open>The result is the id behind the reference after the caller's write and the new node; \<^term>\<open>None\<close> is a
  failed assertion on the path.\<close>

function add_exact :: "(nat \<Rightarrow> nat) \<Rightarrow> string \<Rightarrow> route_node \<Rightarrow> (nat \<times> route_node) option" where
  "add_exact w path n =
     (if path = [] \<or> hd path \<noteq> SLASH then None
      else case sv_find [SLASH] path 1 of
             Some pos \<Rightarrow>
               (let s = sub path 1 (pos - 1)
                in case add_exact w (drop pos path) (child_or_new n s) of
                     None \<Rightarrow> None | Some (i, c) \<Rightarrow> Some (i, set_child n s c))
           | None \<Rightarrow>
               (let s = drop 1 path; i = w (case nd_handlers n s of Some j \<Rightarrow> j | None \<Rightarrow> 0)
                in Some (i, RouteNode ((nd_handlers n)(s \<mapsto> i)) (nd_prefix n) (nd_children n))))"
  by pat_completeness auto

termination
  by (relation "measure (\<lambda>(w, path, n). length path)") (auto simp: sv_find_def split: if_splits dest: find_sub_bound)

definition set_prefix :: "(nat \<Rightarrow> nat) \<Rightarrow> route_node \<Rightarrow> nat \<times> route_node" where
  "set_prefix w n = (let i = w (nd_prefix n) in (i, RouteNode (nd_handlers n) i (nd_children n)))"

function add_prefix :: "(nat \<Rightarrow> nat) \<Rightarrow> string \<Rightarrow> route_node \<Rightarrow> (nat \<times> route_node) option" where
  "add_prefix w path n =
     (if path = [] \<or> hd path \<noteq> SLASH then None
      else if path = [SLASH] then Some (set_prefix w n)
      else let p = drop 1 path
           in case sv_find [SLASH] p 0 of
                None \<Rightarrow>
                  (let (i, c) = set_prefix w (child_or_new n p) in Some (i, set_child n p c))
              | Some pos \<Rightarrow>
                  (let s = sub p 0 pos
                   in case add_prefix w (drop pos p) (child_or_new n s) of
                        None \<Rightarrow> None | Some (i, c) \<Rightarrow> Some (i, set_child n s c)))"
  by pat_completeness auto

termination
  by (relation "measure (\<lambda>(w, path, n). length path)") (auto simp: neq_Nil_conv)

text \<open>The result is the id found and the path left in the context, which a failed search restores.\<close>

function route :: "string \<Rightarrow> route_node \<Rightarrow> nat option \<times> string" where
  "route path n =
     (if path = [] \<or> hd path \<noteq> SLASH then (None, path)
      else let fallback = (if nd_prefix n \<noteq> 0 then (Some (nd_prefix n), path) else (None, path))
           in case sv_find [SLASH] path 1 of
                Some pos \<Rightarrow>
                  (case nd_children n (sub path 1 (pos - 1)) of
                     None \<Rightarrow> fallback
                   | Some c \<Rightarrow>
                       (case route (drop pos path) c of
                          (Some i, rest) \<Rightarrow> (Some i, rest)
                        | (None, _) \<Rightarrow> fallback))
              | None \<Rightarrow>
                  (case nd_handlers n (drop 1 path) of Some i \<Rightarrow> (Some i, path) | None \<Rightarrow> fallback))"
  by pat_completeness auto

termination
  by (relation "measure (\<lambda>(path, n). length path)") (auto simp: sv_find_def split: if_splits dest: find_sub_bound)

declare add_exact.simps [simp del] add_prefix.simps [simp del] route.simps [simp del]

section \<open>Segments\<close>

fun segs :: "string \<Rightarrow> string list" where
  "segs [] = [[]]"
| "segs (c # cs) = (if c = SLASH then [] # segs cs else (case segs cs of s # ss \<Rightarrow> (c # s) # ss | [] \<Rightarrow> [[c]]))"

definition path_of :: "string list \<Rightarrow> string" where
  "path_of ss = concat (map (\<lambda>s. SLASH # s) ss)"

lemma segs_ne [simp]: "segs s \<noteq> []"
  by (induction s) (auto split: list.splits)

lemma segs_plain: "SLASH \<notin> set s \<Longrightarrow> segs s = [s]"
  by (induction s) auto

lemma segs_split: "SLASH \<notin> set s \<Longrightarrow> segs (s @ SLASH # r) = s # segs r"
  by (induction s) auto

lemma path_of_segs: "path_of (segs r) = SLASH # r"
  by (induction r) (auto simp: path_of_def split: list.splits)

text \<open>Searching the next slash behind the first one cuts off the first segment.\<close>

lemma next_slash:
  assumes "sv_find [SLASH] (SLASH # r) 1 = Some pos"
  shows "\<exists>s t. r = s @ SLASH # t \<and> SLASH \<notin> set s \<and> sub (SLASH # r) 1 (pos - 1) = s \<and>
     drop pos (SLASH # r) = SLASH # t"
proof -
  obtain k where k: "find_sub [SLASH] r = Some k" "pos = Suc k" using assms by (auto simp: sv_find_def)
  have "SLASH \<notin> set (take k r)"
    using k(1) by (auto simp: find_sub_char find_idx_Some in_set_conv_nth)
  moreover have dk: "drop k r = SLASH # drop (k + 1) r"
    using k(1) Cons_nth_drop_Suc [of k r] by (auto simp: find_sub_char find_idx_Some)
  moreover have "r = take k r @ SLASH # drop (k + 1) r" using append_take_drop_id [of k r] dk by simp
  ultimately show ?thesis using k by (intro exI [of _ "take k r"] exI [of _ "drop (k + 1) r"]) (simp add: sub_def)
qed

lemma no_slash: "sv_find [SLASH] (SLASH # r) 1 = None \<Longrightarrow> SLASH \<notin> set r"
  by (auto simp: sv_find_def find_sub_char find_idx_None)

section \<open>What a tree registers\<close>

fun exact_at :: "route_node \<Rightarrow> string list \<Rightarrow> nat option" where
  "exact_at n [] = None"
| "exact_at n [s] = nd_handlers n s"
| "exact_at n (s # t # ss) = (case nd_children n s of None \<Rightarrow> None | Some c \<Rightarrow> exact_at c (t # ss))"

fun prefix_at :: "route_node \<Rightarrow> string list \<Rightarrow> nat" where
  "prefix_at n [] = nd_prefix n"
| "prefix_at n (s # ss) = (case nd_children n s of None \<Rightarrow> 0 | Some c \<Rightarrow> prefix_at c ss)"

lemma exact_at_new [simp]: "exact_at node_new ss = None"
  by (cases ss rule: list.exhaust; cases "tl ss") (auto simp: node_new_def)

lemma prefix_at_new [simp]: "prefix_at node_new ss = 0"
  by (cases ss) (auto simp: node_new_def)

lemma exact_at_Cons: "ss \<noteq> [] \<Longrightarrow> exact_at n (s # ss) = exact_at (child_or_new n s) ss"
  by (cases ss) (auto split: option.split)

lemma prefix_at_Cons: "prefix_at n (s # ss) = prefix_at (child_or_new n s) ss"
  by (auto split: option.split)

lemma set_child_child [simp]: "child_or_new (set_child n s c) t = (if t = s then c else child_or_new n t)"
  by (simp add: set_child_def)

lemma set_child_frame [simp]: "nd_handlers (set_child n s c) = nd_handlers n" "nd_prefix (set_child n s c) = nd_prefix n"
  by (simp_all add: set_child_def)

lemma exact_at_set_child:
  "exact_at (set_child n s c) (t # ts) =
     (if ts = [] then nd_handlers n t else if t = s then exact_at c ts else exact_at n (t # ts))"
  by (cases "ts = []") (auto simp: exact_at_Cons)

lemma prefix_at_set_child:
  "prefix_at (set_child n s c) ts =
     (case ts of [] \<Rightarrow> nd_prefix n | t # us \<Rightarrow> if t = s then prefix_at c us else prefix_at n ts)"
  by (cases ts) (auto simp: prefix_at_Cons simp del: prefix_at.simps(2))

definition old_id :: "nat option \<Rightarrow> nat" where
  "old_id x = (case x of Some j \<Rightarrow> j | None \<Rightarrow> 0)"

lemma add_exact_spec:
  "\<exists>n'. add_exact w (SLASH # r) n = Some (w (old_id (exact_at n (segs r))), n') \<and>
     exact_at n' = (exact_at n)(segs r \<mapsto> w (old_id (exact_at n (segs r)))) \<and> prefix_at n' = prefix_at n"
proof (induction r arbitrary: n rule: length_induct)
  case (1 r)
  show ?case
  proof (cases "sv_find [SLASH] (SLASH # r) 1")
    case None
    then have "segs r = [r]" by (simp add: no_slash segs_plain)
    let ?i = "w (old_id (nd_handlers n r))"
    let ?n = "RouteNode ((nd_handlers n)(r \<mapsto> ?i)) (nd_prefix n) (nd_children n)"
    have "exact_at ?n ss = ((exact_at n)([r] \<mapsto> ?i)) ss" for ss
      by (cases "(?n, ss)" rule: exact_at.cases) auto
    moreover have "prefix_at ?n ss = prefix_at n ss" for ss by (cases ss) auto
    ultimately show ?thesis
      using None \<open>segs r = [r]\<close> by (subst add_exact.simps) (auto simp: old_id_def Let_def)
  next
    case (Some pos)
    then obtain s t where st: "r = s @ SLASH # t" "SLASH \<notin> set s" "sub (SLASH # r) 1 (pos - 1) = s"
      "drop pos (SLASH # r) = SLASH # t" using next_slash by blast
    have sg: "segs r = s # segs t" using st(1,2) by (simp add: segs_split)
    let ?c = "child_or_new n s" and ?i = "w (old_id (exact_at n (segs r)))"
    have e: "exact_at n (segs r) = exact_at ?c (segs t)" using sg by (simp add: exact_at_Cons)
    obtain c' where c': "add_exact w (SLASH # t) ?c = Some (?i, c')"
      "exact_at c' = (exact_at ?c)(segs t \<mapsto> ?i)" "prefix_at c' = prefix_at ?c"
      using 1 [rule_format, of t ?c] st(1) e by auto
    have "add_exact w (SLASH # r) n = Some (?i, set_child n s c')"
      using Some st c'(1) by (subst add_exact.simps) (simp add: Let_def)
    moreover have "exact_at (set_child n s c') ss = ((exact_at n)(segs r \<mapsto> ?i)) ss" for ss
      using c'(2) by (cases ss) (auto simp: exact_at_set_child sg exact_at_Cons split: if_splits)
    moreover have "prefix_at (set_child n s c') ss = prefix_at n ss" for ss
      using c'(3) by (auto simp: prefix_at_set_child prefix_at_Cons simp del: prefix_at.simps(2) split: list.splits)
    ultimately show ?thesis by blast
  qed
qed

text \<open>The segments of a prefix: a trailing slash adds none.\<close>

definition psegs :: "string \<Rightarrow> string list" where
  "psegs r = (if last (segs r) = [] then butlast (segs r) else segs r)"

lemma psegs_nil [simp]: "psegs [] = []"
  by (simp add: psegs_def)

lemma psegs_plain: "SLASH \<notin> set r \<Longrightarrow> r \<noteq> [] \<Longrightarrow> psegs r = [r]"
  by (simp add: psegs_def segs_plain)

lemma psegs_split: "SLASH \<notin> set s \<Longrightarrow> psegs (s @ SLASH # r) = s # psegs r"
  by (simp add: psegs_def segs_split)

lemma exact_at_set_prefix [simp]: "exact_at (snd (set_prefix w n)) = exact_at n"
proof
  fix ss show "exact_at (snd (set_prefix w n)) ss = exact_at n ss"
    by (cases "(n, ss)" rule: exact_at.cases) (auto simp: set_prefix_def Let_def)
qed

lemma prefix_at_set_prefix: "prefix_at (snd (set_prefix w n)) = (prefix_at n)([] := w (nd_prefix n))"
proof
  fix ss show "prefix_at (snd (set_prefix w n)) ss = ((prefix_at n)([] := w (nd_prefix n))) ss"
    by (cases ss) (auto simp: set_prefix_def Let_def)
qed

lemma add_prefix_spec:
  "\<exists>n'. add_prefix w (SLASH # r) n = Some (w (prefix_at n (psegs r)), n') \<and>
     prefix_at n' = (prefix_at n)(psegs r := w (prefix_at n (psegs r))) \<and> exact_at n' = exact_at n"
proof (induction r arbitrary: n rule: length_induct)
  case (1 r)
  let ?i = "w (prefix_at n (psegs r))"
  have child: "\<exists>n'. add_prefix w (SLASH # r) n = Some (?i, n') \<and> prefix_at n' = (prefix_at n)(psegs r := ?i) \<and>
      exact_at n' = exact_at n"
    if a: "add_prefix w (SLASH # r) n = Some (?i, set_child n s c)" and sg: "psegs r = s # ss"
      and c: "prefix_at c = (prefix_at (child_or_new n s))(ss := ?i)" "exact_at c = exact_at (child_or_new n s)"
    for s ss c
  proof -
    have "prefix_at (set_child n s c) ts = ((prefix_at n)(psegs r := ?i)) ts" for ts
      using c(1) by (auto simp: prefix_at_set_child prefix_at_Cons sg simp del: prefix_at.simps(2) split: list.splits)
    moreover have "exact_at (set_child n s c) ts = exact_at n ts" for ts
      using c(2) by (cases ts) (auto simp: exact_at_set_child exact_at_Cons)
    ultimately show ?thesis using a by blast
  qed
  consider "r = []" | "r \<noteq> []" "sv_find [SLASH] r 0 = None" | pos where "r \<noteq> []" "sv_find [SLASH] r 0 = Some pos"
    by fastforce
  then show ?case
  proof cases
    case a: 1
    then have "add_prefix w (SLASH # r) n = Some (w (nd_prefix n), snd (set_prefix w n))"
      by (subst add_prefix.simps) (simp add: set_prefix_def Let_def)
    with a show ?thesis by (simp add: prefix_at_set_prefix fun_eq_iff)
  next
    case a: 2
    then have "SLASH \<notin> set r" by (auto simp: sv_find_def find_sub_char find_idx_None)
    then have sg: "psegs r = [r]" using a(1) by (rule psegs_plain)
    have i: "prefix_at n (psegs r) = nd_prefix (child_or_new n r)" using sg by (simp add: prefix_at_Cons del: prefix_at.simps(2))
    show ?thesis
    proof (rule child [OF _ sg])
      show "add_prefix w (SLASH # r) n = Some (?i, set_child n r (snd (set_prefix w (child_or_new n r))))"
        using a by (subst add_prefix.simps) (simp add: Let_def i set_prefix_def)
    qed (simp_all add: prefix_at_set_prefix i)
  next
    case a: 3
    then have "sv_find [SLASH] (SLASH # r) 1 = Some (Suc pos)" by (auto simp: sv_find_def split: if_splits)
    then obtain s t where st0: "r = s @ SLASH # t" "SLASH \<notin> set s" "sub (SLASH # r) 1 (Suc pos - 1) = s"
      "drop (Suc pos) (SLASH # r) = SLASH # t"
      using next_slash [of r "Suc pos"] by blast
    have td: "take pos r = s" "drop pos r = SLASH # t" using st0(3,4) by (simp_all add: sub_def)
    note st = st0(1,2) td
    have sg: "psegs r = s # psegs t" using st by (simp add: psegs_split)
    have i: "prefix_at n (psegs r) = prefix_at (child_or_new n s) (psegs t)"
      using sg by (simp add: prefix_at_Cons del: prefix_at.simps(2))
    obtain c where c: "add_prefix w (SLASH # t) (child_or_new n s) = Some (?i, c)"
      "prefix_at c = (prefix_at (child_or_new n s))(psegs t := ?i)" "exact_at c = exact_at (child_or_new n s)"
      using 1 [rule_format, of t "child_or_new n s"] st(1) i by auto
    have "add_prefix w (SLASH # r) n = Some (?i, set_child n s c)"
      using a st c(1) by (subst add_prefix.simps) (simp add: Let_def sub_def)
    from child [OF this sg c(2,3)] show ?thesis .
  qed
qed

section \<open>Routing finds the exact route, else the longest prefix\<close>

definition best_prefix :: "(string list \<Rightarrow> nat) \<Rightarrow> string list \<Rightarrow> nat option" where
  "best_prefix pf ss = find (\<lambda>k. pf (take k ss) \<noteq> 0) (rev [0..<length ss])"

definition spec_route :: "(string list \<Rightarrow> nat option) \<Rightarrow> (string list \<Rightarrow> nat) \<Rightarrow> string list \<Rightarrow> nat option \<times> string list" where
  "spec_route ex pf ss =
     (case ex ss of
        Some i \<Rightarrow> (Some i, [last ss])
      | None \<Rightarrow> (case best_prefix pf ss of Some k \<Rightarrow> (Some (pf (take k ss)), drop k ss) | None \<Rightarrow> (None, ss)))"

lemma find_map_Suc: "find P (map Suc xs) = map_option Suc (find (\<lambda>k. P (Suc k)) xs)"
  by (induction xs) auto

lemma find_app: "find P (xs @ ys) = (case find P xs of Some x \<Rightarrow> Some x | None \<Rightarrow> find P ys)"
  by (induction xs) auto

lemma best_prefix_Cons:
  "best_prefix pf (s # ss) =
     (case best_prefix (\<lambda>us. pf (s # us)) ss of Some k \<Rightarrow> Some (Suc k)
      | None \<Rightarrow> if pf [] \<noteq> 0 then Some 0 else None)"
proof -
  have "rev [0..<length (s # ss)] = map Suc (rev [0..<length ss]) @ [0]"
    by (simp add: upt_conv_Cons rev_map [symmetric] map_Suc_upt del: upt_Suc)
  then show ?thesis by (simp add: best_prefix_def find_app find_map_Suc split: option.split)
qed

lemma best_prefix_none [simp]: "best_prefix (\<lambda>us. 0) ss = None"
  by (simp add: best_prefix_def find_None_iff)

lemma spec_route_Cons:
  assumes "ss \<noteq> []"
  shows "spec_route (exact_at n) (prefix_at n) (s # ss) =
     (let fallback = (if nd_prefix n \<noteq> 0 then (Some (nd_prefix n), s # ss) else (None, s # ss))
      in case nd_children n s of None \<Rightarrow> fallback
         | Some c \<Rightarrow> (case spec_route (exact_at c) (prefix_at c) ss of (Some i, rest) \<Rightarrow> (Some i, rest) | (None, _) \<Rightarrow> fallback))"
proof -
  obtain t ts where ss: "ss = t # ts" using assms by (cases ss) auto
  show ?thesis
    by (cases "nd_children n s")
      (auto simp: ss spec_route_def best_prefix_Cons [of _ s] Let_def split: option.splits)
qed

lemma route_spec:
  "route (SLASH # r) n =
     (let (i, rest) = spec_route (exact_at n) (prefix_at n) (segs r) in (i, path_of rest))"
proof (induction r arbitrary: n rule: length_induct)
  case (1 r)
  show ?case
  proof (cases "sv_find [SLASH] (SLASH # r) 1")
    case None
    then have sg: "segs r = [r]" by (simp add: no_slash segs_plain)
    have "best_prefix (prefix_at n) [r] = (if nd_prefix n \<noteq> 0 then Some 0 else None)"
      by (simp add: best_prefix_Cons) (simp add: best_prefix_def)
    with None sg show ?thesis
      by (subst route.simps) (auto simp: spec_route_def path_of_def split: option.split)
  next
    case (Some pos)
    then obtain s t where st: "r = s @ SLASH # t" "SLASH \<notin> set s" "sub (SLASH # r) 1 (pos - 1) = s"
      "drop pos (SLASH # r) = SLASH # t" using next_slash by blast
    have sg: "segs r = s # segs t" using st(1,2) by (simp add: segs_split)
    have p: "path_of (s # segs t) = SLASH # r" using sg path_of_segs [of r] by simp
    have IH: "route (SLASH # t) c = (let (i, rest) = spec_route (exact_at c) (prefix_at c) (segs t) in (i, path_of rest))" for c
      using 1 st(1) by simp
    show ?thesis
      unfolding sg spec_route_Cons [OF segs_ne] using Some st(3,4) p
      by (subst route.simps) (auto simp: IH Let_def split: option.splits prod.splits)
  qed
qed

section \<open>The router interface\<close>

text \<open>
  \<^verbatim>\<open>RouterLike\<close>: what the service relies on. The registered exact routes and prefixes are functions of
  the segments; registering changes one entry, routing depends on the entries only.
\<close>

locale router_like =
  fixes r_exact r_prefix :: "(nat \<Rightarrow> nat) \<Rightarrow> string \<Rightarrow> 'r \<Rightarrow> (nat \<times> 'r) option"
    and r_route :: "string \<Rightarrow> 'r \<Rightarrow> nat option \<times> string"
    and ex :: "'r \<Rightarrow> string list \<Rightarrow> nat option" and pf :: "'r \<Rightarrow> string list \<Rightarrow> nat"
  assumes exact_law: "\<exists>n'. r_exact w (SLASH # r) n = Some (w (old_id (ex n (segs r))), n') \<and>
      ex n' = (ex n)(segs r \<mapsto> w (old_id (ex n (segs r)))) \<and> pf n' = pf n"
    and prefix_law: "\<exists>n'. r_prefix w (SLASH # r) n = Some (w (pf n (psegs r)), n') \<and>
      pf n' = (pf n)(psegs r := w (pf n (psegs r))) \<and> ex n' = ex n"
    and route_law: "r_route (SLASH # r) n = (let (i, rest) = spec_route (ex n) (pf n) (segs r) in (i, path_of rest))"
begin

lemma route_added_exact:
  assumes "r_exact w (SLASH # r) n = Some (i, n')"
  shows "r_route (SLASH # r) n' = (Some i, SLASH # last (segs r))"
proof -
  obtain m where "r_exact w (SLASH # r) n = Some (w (old_id (ex n (segs r))), m)"
    "ex m = (ex n)(segs r \<mapsto> w (old_id (ex n (segs r))))" using exact_law by blast
  with assms have "ex n' (segs r) = Some i" by auto
  then show ?thesis by (simp add: route_law spec_route_def path_of_def)
qed

lemma exact_keeps_others:
  assumes "r_exact w (SLASH # r) n = Some (i, n')" "segs q \<noteq> segs r"
  shows "r_route (SLASH # q) n' = r_route (SLASH # q) n"
proof -
  obtain m where "r_exact w (SLASH # r) n = Some (w (old_id (ex n (segs r))), m)"
    "ex m = (ex n)(segs r \<mapsto> w (old_id (ex n (segs r))))" "pf m = pf n" using exact_law by blast
  with assms have "ex n' (segs q) = ex n (segs q)" "pf n' = pf n" by auto
  then show ?thesis by (simp add: route_law spec_route_def)
qed

end

interpretation tree: router_like add_exact add_prefix route exact_at prefix_at
  by unfold_locales (use add_exact_spec add_prefix_spec route_spec in blast)+

section \<open>Registration and routing\<close>

text \<open>A registration: an exact or a prefix route, its path behind the leading slash, and the id it gets.\<close>

datatype registration = RegExact string nat | RegPrefix string nat

primrec register :: "registration \<Rightarrow> route_node \<Rightarrow> route_node option" where
  "register (RegExact r i) n = map_option snd (add_exact (\<lambda>_. i) (SLASH # r) n)"
| "register (RegPrefix r i) n = map_option snd (add_prefix (\<lambda>_. i) (SLASH # r) n)"

primrec build_router :: "registration list \<Rightarrow> route_node \<Rightarrow> route_node option" where
  "build_router [] n = Some n"
| "build_router (g # gs) n = (case register g n of None \<Rightarrow> None | Some n' \<Rightarrow> build_router gs n')"

primrec exact_table :: "registration list \<Rightarrow> (string list \<Rightarrow> nat option) \<Rightarrow> string list \<Rightarrow> nat option" where
  "exact_table [] t = t"
| "exact_table (g # gs) t = exact_table gs (case g of RegExact r i \<Rightarrow> t(segs r \<mapsto> i) | _ \<Rightarrow> t)"

primrec prefix_table :: "registration list \<Rightarrow> (string list \<Rightarrow> nat) \<Rightarrow> string list \<Rightarrow> nat" where
  "prefix_table [] t = t"
| "prefix_table (g # gs) t = prefix_table gs (case g of RegPrefix r i \<Rightarrow> t(psegs r := i) | _ \<Rightarrow> t)"

lemma register_spec:
  "\<exists>n'. register g n = Some n' \<and> exact_at n' = exact_table [g] (exact_at n) \<and> prefix_at n' = prefix_table [g] (prefix_at n)"
  using tree.exact_law tree.prefix_law by (cases g) fastforce+

lemma build_router_spec:
  "\<exists>n'. build_router gs n = Some n' \<and> exact_at n' = exact_table gs (exact_at n) \<and> prefix_at n' = prefix_table gs (prefix_at n)"
proof (induction gs arbitrary: n)
  case (Cons g gs)
  obtain m where "register g n = Some m" "exact_at m = exact_table [g] (exact_at n)" "prefix_at m = prefix_table [g] (prefix_at n)"
    using register_spec by blast
  with Cons.IH [of m] show ?case by simp
qed simp

text \<open>A tree built from registrations routes by the tables of these registrations.\<close>

lemma build_router_tables:
  "\<exists>n. build_router gs node_new = Some n \<and>
     (\<forall>r. route (SLASH # r) n =
        (let (i, rest) = spec_route (exact_table gs Map.empty) (prefix_table gs (\<lambda>_. 0)) (segs r) in (i, path_of rest)))"
proof -
  have new: "exact_at node_new = Map.empty" "prefix_at node_new = (\<lambda>_. 0)" by auto
  obtain n where n: "build_router gs node_new = Some n" "exact_at n = exact_table gs Map.empty"
    "prefix_at n = prefix_table gs (\<lambda>_. 0)"
    using build_router_spec [of gs node_new, unfolded new] by blast
  then show ?thesis using tree.route_law [of _ n] by auto
qed

text \<open>The tree differs from the rules of \<^verbatim>\<open>docs/http/route.md\<close>: there a route that ends in a slash matches every path below it, and
  a path that ends in a slash is matched by no shorter prefix.  In the code the route matches only the path itself, and
  the prefix does match.\<close>

lemma routes_differ_from_doc:
  "\<exists>n. build_router [RegExact ''foo/'' 2] node_new = Some n \<and> route ''/foo/'' n = (Some 2, ''/'') \<and> fst (route ''/foo/bar'' n) = None"
  "\<exists>n. build_router [RegPrefix ''foo'' 3] node_new = Some n \<and> route ''/foo/bar/'' n = (Some 3, ''/bar/'')"
proof -
  show "\<exists>n. build_router [RegExact ''foo/'' 2] node_new = Some n \<and> route ''/foo/'' n = (Some 2, ''/'') \<and> fst (route ''/foo/bar'' n) = None"
    using build_router_tables [of "[RegExact ''foo/'' 2]"]
    by (auto simp: spec_route_def best_prefix_def path_of_def)
  show "\<exists>n. build_router [RegPrefix ''foo'' 3] node_new = Some n \<and> route ''/foo/bar/'' n = (Some 3, ''/bar/'')"
    using build_router_tables [of "[RegPrefix ''foo'' 3]"]
    by (auto simp: spec_route_def best_prefix_Cons psegs_def path_of_def)
qed

text \<open>C28. The route tree implements its registration tables: after any sequence of registrations every path
  that starts with a slash is routed to the handler registered last for exactly its segments; when there
  is none, to the handler of the longest registered prefix that leaves at least one segment, with the
  remaining path handed on; and to nothing when no prefix matches, with the path restored. Other paths are
  refused. This is the rule of the code; the lemma before shows where \<^verbatim>\<open>docs/http/route.md\<close> has another one.\<close>

theorem router_refines_tables:
  "\<exists>n. build_router gs node_new = Some n \<and>
     (\<forall>r. route (SLASH # r) n =
        (let (i, rest) = spec_route (exact_table gs Map.empty) (prefix_table gs (\<lambda>_. 0)) (segs r) in (i, path_of rest))) \<and>
     (\<forall>c r. c \<noteq> SLASH \<longrightarrow> route (c # r) n = (None, c # r))"
proof -
  obtain n where "build_router gs node_new = Some n" "\<forall>r. route (SLASH # r) n =
        (let (i, rest) = spec_route (exact_table gs Map.empty) (prefix_table gs (\<lambda>_. 0)) (segs r) in (i, path_of rest))"
    using build_router_tables by blast
  moreover have "c \<noteq> SLASH \<Longrightarrow> route (c # r) n = (None, c # r)" for c r by (simp add: route.simps)
  ultimately show ?thesis by blast
qed

theorem router_refines_tables_witness:
  "\<exists>n. build_router [RegPrefix ''static'' 3, RegExact ''static/a'' 4, RegPrefix [] 1] node_new = Some n \<and>
     route ''/static/a'' n = (Some 4, ''/a'') \<and> route ''/static/x/y'' n = (Some 3, ''/x/y'') \<and>
     route ''/static'' n = (Some 1, ''/static'') \<and> route ''x'' n = (None, ''x'')"
proof -
  let ?gs = "[RegPrefix ''static'' 3, RegExact ''static/a'' 4, RegPrefix [] 1]"
  obtain n where n: "build_router ?gs node_new = Some n"
    "\<And>r. route (SLASH # r) n = (let (i, rest) = spec_route (exact_table ?gs Map.empty) (prefix_table ?gs (\<lambda>_. 0)) (segs r) in (i, path_of rest))"
    "\<And>c r. c \<noteq> SLASH \<Longrightarrow> route (c # r) n = (None, c # r)"
    using router_refines_tables [of ?gs] by blast
  have "route ''/static/a'' n = (Some 4, ''/a'')" "route ''/static/x/y'' n = (Some 3, ''/x/y'')"
    "route ''/static'' n = (Some 1, ''/static'')" "route ''x'' n = (None, ''x'')"
    by (simp_all add: n(2,3) spec_route_def best_prefix_Cons psegs_def path_of_def, simp_all add: best_prefix_def)
  with n(1) show ?thesis by blast
qed

end
