(* ===== verification/Uri.thy ===== *)
theory Uri
  imports Net_Prelude
begin

text \<open>
  URIs and request targets: \<^verbatim>\<open>percent_decode\<close> (\<^verbatim>\<open>src/net/uri.cpp\<close>), the regular expressions of
  \<^verbatim>\<open>include/xsl/regex.h\<close>, \<^verbatim>\<open>include/xsl/net/uri.h\<close> and \<^verbatim>\<open>include/xsl/net/http/request/target.h\<close>, and
  the types built from their captures. A regular expression is a term; \<open>re_run\<close> is the backtracking
  matcher of ECMAScript, as the list of all its outcomes in the order it tries them, and
  \<^verbatim>\<open>std::regex_match\<close> takes the first outcome that uses the whole input.
\<close>

section \<open>Percent decoding\<close>

definition hex_digit :: "char \<Rightarrow> nat option" where
  "hex_digit c =
     (let n = (of_char c :: nat)
      in if 48 \<le> n \<and> n \<le> 57 then Some (n - 48)
         else if 97 \<le> n \<and> n \<le> 102 then Some (n - 87)
         else if 65 \<le> n \<and> n \<le> 70 then Some (n - 55) else None)"

primrec hex_prefix :: "nat \<Rightarrow> string \<Rightarrow> nat" where
  "hex_prefix acc [] = acc"
| "hex_prefix acc (c # cs) = (case hex_digit c of None \<Rightarrow> acc | Some d \<Rightarrow> hex_prefix (16 * acc + d) cs)"

text \<open>
  \<^verbatim>\<open>std::from_chars(first, last, value, 16)\<close> into an \<^verbatim>\<open>int\<close>: an optional minus sign, then the longest
  prefix of hexadecimal digits, which must not be empty. What follows the digits is not an error.
\<close>

definition from_chars16 :: "string \<Rightarrow> int option" where
  "from_chars16 s =
     (case s of
        [] \<Rightarrow> None
      | c # cs \<Rightarrow>
          if c = CHR ''-''
          then (case cs of [] \<Rightarrow> None | d # _ \<Rightarrow> if hex_digit d = None then None else Some (- int (hex_prefix 0 cs)))
          else if hex_digit c = None then None else Some (int (hex_prefix 0 s)))"

text \<open>The loop appends to the buffer; the result is the error or the buffer and the rest without escapes.\<close>

function pd_loop :: "string \<Rightarrow> string \<Rightarrow> string \<times> (errc + string)" where
  "pd_loop buffer sv =
     (case sv_find [CHR ''%''] sv 0 of
        None \<Rightarrow> (buffer, Inr sv)
      | Some pos \<Rightarrow>
          (let buffer1 = buffer @ take pos sv
           in if \<not> length sv \<ge> pos + 3 then (buffer1, Inl illegal_byte_sequence)
              else (case from_chars16 (sub sv (pos + 1) 2) of
                      None \<Rightarrow> (buffer1, Inl illegal_byte_sequence)
                    | Some value \<Rightarrow>
                        if \<not> (0 \<le> value \<and> value \<le> 255) then (buffer1, Inl illegal_byte_sequence)
                        else pd_loop (buffer1 @ [char_of (nat value)]) (drop (pos + 3) sv))))"
  by pat_completeness auto

termination
  by (relation "measure (\<lambda>(b, sv). length sv)") (auto simp: sv_find_def dest: find_sub_bound)

declare pd_loop.simps [simp del]

text \<open>The result is the decoded text as a view of the buffer, empty when there was nothing to decode.\<close>

definition percent_decode :: "string \<Rightarrow> string \<Rightarrow> string \<times> (errc + string)" where
  "percent_decode buffer sv =
     (case pd_loop buffer sv of
        (b, Inl e) \<Rightarrow> (b, Inl e)
      | (b, Inr rest) \<Rightarrow>
          if length b = length buffer then (b, Inr [])
          else (b @ rest, Inr (drop (length buffer) (b @ rest))))"

section \<open>Regular expressions\<close>

datatype re =
    Cls bool string          \<comment> \<open>a character (not) in the set\<close>
  | Bol                      \<comment> \<open>the assertion \<open>^\<close>\<close>
  | Eps
  | Seq re re
  | Alt re re
  | Star re
  | Opt re
  | Grp nat re

type_synonym caps = "(nat \<times> string) list"

primrec star_iter :: "nat \<Rightarrow> (string \<times> caps \<Rightarrow> (string \<times> caps) list) \<Rightarrow> string \<times> caps \<Rightarrow> (string \<times> caps) list" where
  "star_iter 0 f s = [s]"
| "star_iter (Suc n) f s =
     concat (map (star_iter n f) (filter (\<lambda>t. length (fst t) < length (fst s)) (f s))) @ [s]"

primrec re_run :: "nat \<Rightarrow> re \<Rightarrow> string \<times> caps \<Rightarrow> (string \<times> caps) list" where
  "re_run len (Cls neg cs) s =
     (case fst s of [] \<Rightarrow> [] | x # xs \<Rightarrow> if (x \<in> set cs) \<noteq> neg then [(xs, snd s)] else [])"
| "re_run len Bol s = (if length (fst s) = len then [s] else [])"
| "re_run len Eps s = [s]"
| "re_run len (Seq a b) s = concat (map (re_run len b) (re_run len a s))"
| "re_run len (Alt a b) s = re_run len a s @ re_run len b s"
| "re_run len (Star a) s = star_iter (length (fst s)) (re_run len a) s"
| "re_run len (Opt a) s = re_run len a s @ [s]"
| "re_run len (Grp i a) s =
     map (\<lambda>t. (fst t, (i, take (length (fst s) - length (fst t)) (fst s)) # snd t)) (re_run len a s)"

definition regex_match :: "re \<Rightarrow> string \<Rightarrow> caps option" where
  "regex_match r s = map_option snd (find (\<lambda>t. fst t = []) (re_run (length s) r (s, [])))"

text \<open>A sub-match: \<^verbatim>\<open>match[i].matched\<close> and its text, empty when it did not take part.\<close>

definition matched :: "caps \<Rightarrow> nat \<Rightarrow> bool" where
  "matched c i \<longleftrightarrow> map_of c i \<noteq> None"

definition group :: "caps \<Rightarrow> nat \<Rightarrow> string" where
  "group c i = (case map_of c i of None \<Rightarrow> [] | Some s \<Rightarrow> s)"

fun Lit :: "string \<Rightarrow> re" where
  "Lit [] = Eps"
| "Lit (c # cs) = Seq (Cls False [c]) (Lit cs)"

fun Seqs :: "re list \<Rightarrow> re" where
  "Seqs [] = Eps"
| "Seqs (r # rs) = Seq r (Seqs rs)"

definition Digit :: re where
  "Digit = Cls False ''0123456789''"

text \<open>\<^verbatim>\<open>HTTP/(\d)\.(\d)\<close>\<close>

definition http_version_re :: re where
  "http_version_re = Seqs [Lit ''HTTP/'', Grp 1 Digit, Lit ''.'', Grp 2 Digit]"

text \<open>\<^verbatim>\<open>^((?:/[^/?#]*)*)(?:\?([^#]*))?\<close> with its groups numbered from \<open>k\<close>\<close>

definition path_re :: re where
  "path_re = Star (Seq (Cls False ''/'') (Star (Cls True ''/?#'')))"

definition origin_re :: "nat \<Rightarrow> re" where
  "origin_re k = Seqs [Bol, Grp k path_re, Opt (Seq (Cls False ''?'') (Grp (k + 1) (Star (Cls True ''#''))))]"

text \<open>\<^verbatim>\<open>^([^:/?#]+)://(?:(?:[^/?#@]*@)?([^/?#:]*)(?::([^/?#]*))?)((?:/[^/?#]*)*)(?:\?([^#]*))?\<close>\<close>

definition absolute_re :: "nat \<Rightarrow> re" where
  "absolute_re k = Seqs
     [Bol, Grp k (Seq (Cls True '':/?#'') (Star (Cls True '':/?#''))), Lit ''://'',
      Opt (Seq (Star (Cls True ''/?#@'')) (Cls False ''@'')), Grp (k + 1) (Star (Cls True ''/?#:'')),
      Opt (Seq (Cls False '':'') (Grp (k + 2) (Star (Cls True ''/?#'')))),
      Grp (k + 3) path_re, Opt (Seq (Cls False ''?'') (Grp (k + 4) (Star (Cls True ''#''))))]"

text \<open>\<^verbatim>\<open>^([^:*]*)(?::(\d*))?\<close> and \<^verbatim>\<open>^(\*)\<close>\<close>

definition authority_re :: "nat \<Rightarrow> re" where
  "authority_re k = Seqs [Bol, Grp k (Star (Cls True '':*'')), Opt (Seq (Cls False '':'') (Grp (k + 1) (Star Digit)))]"

definition asterisk_re :: "nat \<Rightarrow> re" where
  "asterisk_re k = Seqs [Bol, Grp k (Cls False ''*'')]"

definition request_target_re :: re where
  "request_target_re = Alt (origin_re 1) (Alt (absolute_re 3) (Alt (authority_re 8) (asterisk_re 10)))"

section \<open>URIs and request targets\<close>

record absolute_uri =
  au_scheme :: string
  au_host :: string
  au_port :: string
  au_path :: string
  au_query :: string

definition absolute_uri_of :: "caps \<Rightarrow> nat \<Rightarrow> absolute_uri" where
  "absolute_uri_of c k =
     \<lparr>au_scheme = group c k, au_host = group c (k + 1), au_port = group c (k + 2),
      au_path = group c (k + 3), au_query = group c (k + 4)\<rparr>"

definition absolute_uri_match :: "string \<Rightarrow> absolute_uri option" where
  "absolute_uri_match sv = map_option (\<lambda>c. absolute_uri_of c 1) (regex_match (absolute_re 1) sv)"

datatype request_target =
    NoTarget
  | OriginForm (of_path: string) (of_query: string)
  | AbsoluteForm absolute_uri
  | AuthorityForm (af_host: string) (af_port: string)
  | AsteriskForm

definition authority_form_match :: "string \<Rightarrow> (string \<times> string) option" where
  "authority_form_match sv = map_option (\<lambda>c. (group c 1, group c 2)) (regex_match (authority_re 1) sv)"

definition target_of :: "caps \<Rightarrow> request_target" where
  "target_of c =
     (if matched c 1 then OriginForm (group c 1) (group c 2)
      else if matched c 3 then AbsoluteForm (absolute_uri_of c 3)
      else if matched c 8 then AuthorityForm (group c 8) (group c 9)
      else if matched c 10 then AsteriskForm else NoTarget)"

definition request_target :: "string \<Rightarrow> request_target" where
  "request_target sv = (case regex_match request_target_re sv of None \<Rightarrow> NoTarget | Some c \<Rightarrow> target_of c)"

section \<open>Percent decoding inverts encoding\<close>

text \<open>The macro \<^verbatim>\<open>PERCENT_DECODE\<close> of \<^verbatim>\<open>RequestLine::parse\<close>: the field keeps its own text when there was
  nothing to decode; the flag says whether the text is the decoded one, which lies in the buffer.\<close>

definition decode_field :: "string \<Rightarrow> string \<Rightarrow> string \<times> (errc + bool \<times> string)" where
  "decode_field raw f =
     (case percent_decode raw f of
        (raw', Inl e) \<Rightarrow> (raw', Inl e)
      | (raw', Inr v) \<Rightarrow> (raw', Inr (if v = [] then (False, f) else (True, v))))"

definition hex_char :: "nat \<Rightarrow> char" where
  "hex_char k = ''0123456789ABCDEF'' ! k"

text \<open>A reference encoder: the characters in \<open>keep\<close> other than the percent sign stay as they are.\<close>

definition pct :: "char \<Rightarrow> string" where
  "pct c = [CHR ''%'', hex_char (of_char c div 16), hex_char (of_char c mod 16)]"

definition encode :: "char set \<Rightarrow> string \<Rightarrow> string" where
  "encode keep s = concat (map (\<lambda>c. if c \<in> keep \<and> c \<noteq> CHR ''%'' then [c] else pct c) s)"

lemma hex_digit_char: "k < 16 \<Longrightarrow> hex_digit (hex_char k) = Some k \<and> hex_char k \<noteq> CHR ''-''"
proof -
  have "\<forall>k\<in>set [0..<16]. hex_digit (hex_char k) = Some k \<and> hex_char k \<noteq> CHR ''-''"
    by (simp add: upt_rec hex_char_def hex_digit_def Let_def)
  then show "k < 16 \<Longrightarrow> ?thesis" by simp
qed

lemma from_chars16_pct: "from_chars16 (tl (pct c)) = Some (int (of_char c))"
proof -
  have "of_char c < (256 :: nat)" by simp
  then have "of_char c div 16 < (16 :: nat)" "of_char c mod 16 < (16 :: nat)"
    by (simp_all add: less_mult_imp_div_less)
  then show ?thesis
    using hex_digit_char [of "of_char c div 16"] hex_digit_char [of "of_char c mod 16"]
    by (simp add: from_chars16_def pct_def)
qed

lemma sv_find_pct_plain: "CHR ''%'' \<notin> set u \<Longrightarrow> sv_find [CHR ''%''] u 0 = None"
  by (auto simp: sv_find_def find_sub_char find_idx_None)

lemma sv_find_pct_at:
  "CHR ''%'' \<notin> set u \<Longrightarrow> sv_find [CHR ''%''] (u @ CHR ''%'' # r) 0 = Some (length u)"
proof -
  assume "CHR ''%'' \<notin> set u"
  then have "find_idx (\<lambda>x. x = CHR ''%'') u = None" by (auto simp: find_idx_None)
  then show ?thesis by (simp add: sv_find_def find_sub_char find_idx_append)
qed

lemma pd_loop_encode:
  "CHR ''%'' \<notin> set u \<Longrightarrow>
     \<exists>b' rest. pd_loop b (u @ encode keep s) = (b', Inr rest) \<and> b' @ rest = b @ u @ s \<and>
       length b \<le> length b' \<and> (length b' = length b \<longrightarrow> encode keep s = s)"
proof (induction s arbitrary: u b)
  case Nil
  then show ?case by (subst pd_loop.simps) (simp add: encode_def sv_find_pct_plain)
next
  case (Cons c cs)
  show ?case
  proof (cases "c \<in> keep \<and> c \<noteq> CHR ''%''")
    case True
    with Cons.IH [of "u @ [c]" b] Cons.prems show ?thesis by (auto simp: encode_def)
  next
    case False
    then have e: "encode keep (c # cs) = pct c @ encode keep cs" by (auto simp: encode_def)
    have s: "sub (u @ pct c @ encode keep cs) (length u + 1) 2 = tl (pct c)" by (simp add: sub_def pct_def)
    have "of_char c < (256 :: nat)" by simp
    then have "of_char c \<le> (255 :: nat)" "int (of_char c) \<le> 255" by linarith+
    then have "pd_loop b (u @ pct c @ encode keep cs) = pd_loop (b @ u @ [c]) (encode keep cs)"
      using sv_find_pct_at [OF Cons.prems, of "tl (pct c) @ encode keep cs"] from_chars16_pct [of c] s
      by (subst pd_loop.simps) (simp add: pct_def Let_def)
    moreover obtain b' rest where "pd_loop (b @ u @ [c]) (encode keep cs) = (b', Inr rest)"
      "b' @ rest = (b @ u @ [c]) @ cs" "length (b @ u @ [c]) \<le> length b'"
      using Cons.IH [of "[]" "b @ u @ [c]"] by auto
    ultimately show ?thesis using e by auto
  qed
qed

lemma encode_length: "length s \<le> length (encode keep s)"
  by (induction s) (auto simp: encode_def pct_def)

lemma encode_fixed: "encode keep s = s \<longleftrightarrow> (\<forall>c\<in>set s. c \<in> keep \<and> c \<noteq> CHR ''%'')"
proof (induction s)
  case (Cons c s)
  have "pct c @ encode keep s \<noteq> c # s"
  proof
    assume "pct c @ encode keep s = c # s"
    then have "length (pct c @ encode keep s) = length (c # s)" by (rule arg_cong)
    then show False using encode_length [of s keep] by (simp add: pct_def)
  qed
  with Cons show ?case by (auto simp: encode_def)
qed (simp add: encode_def)

text \<open>Percent decoding inverts percent encoding: whatever characters an encoder leaves unescaped (other
  than the percent sign itself), decoding the field gives the original text, for every content of the
  buffer that earlier fields were decoded into; that content is kept, and the text is appended to it exactly when
  something had been escaped.\<close>

lemma percent_decode_round_trip:
  "decode_field raw (encode keep s) =
     (if encode keep s = s then (raw, Inr (False, s)) else (raw @ s, Inr (True, s)))"
proof (cases "encode keep s = s")
  case True
  then have "CHR ''%'' \<notin> set s" by (auto simp: encode_fixed)
  then have "pd_loop raw s = (raw, Inr s)" by (subst pd_loop.simps) (simp add: sv_find_pct_plain)
  with True show ?thesis by (simp add: decode_field_def percent_decode_def)
next
  case False
  obtain b' rest where l: "pd_loop raw (encode keep s) = (b', Inr rest)" "b' @ rest = raw @ s"
    "length b' \<noteq> length raw"
    using pd_loop_encode [of "[]" raw keep s] False by auto
  moreover have "s \<noteq> []" using False by (auto simp: encode_def)
  moreover have "drop (length raw) (b' @ rest) = s" using l(2) by simp
  ultimately show ?thesis using False by (auto simp: decode_field_def percent_decode_def simp del: drop_append)
qed

text \<open>A malformed escape is accepted: an escape whose second character is not a hexadecimal digit decodes
  to the value of the first one, and the second character is swallowed.\<close>

lemma percent_decode_accepts_malformed:
  assumes "hex_digit h = Some d" "hex_digit x = None" "h \<noteq> CHR ''-''" "CHR ''%'' \<notin> set rest"
  shows "percent_decode [] (CHR ''%'' # h # x # rest) = (char_of d # rest, Inr (char_of d # rest))"
proof -
  have "d < 16" using assms(1) by (auto simp: hex_digit_def Let_def split: if_splits)
  moreover have "from_chars16 [h, x] = Some (int d)" using assms by (simp add: from_chars16_def)
  ultimately have "pd_loop [] (CHR ''%'' # h # x # rest) = pd_loop [char_of d] rest"
    using sv_find_pct_at [of "[]" "h # x # rest"]
    by (subst pd_loop.simps) (simp add: sub_def numeral_2_eq_2 numeral_3_eq_3)
  also have "\<dots> = ([char_of d], Inr rest)"
    using assms(4) by (subst pd_loop.simps) (simp add: sv_find_pct_plain)
  finally show ?thesis by (simp add: percent_decode_def)
qed

lemma percent_decode_accepts_malformed_witness:
  "percent_decode [] ''%2zab'' = (char_of (2 :: nat) # ''ab'', Inr (char_of (2 :: nat) # ''ab''))"
  using percent_decode_accepts_malformed [of "CHR ''2''" 2 "CHR ''z''" "''ab''"]
  by (simp add: hex_digit_def)

section \<open>What the matcher recognises\<close>

primrec lang :: "re \<Rightarrow> string set" where
  "lang (Cls neg cs) = {[x] | x. (x \<in> set cs) \<noteq> neg}"
| "lang Bol = {}"
| "lang Eps = {[]}"
| "lang (Seq a b) = {p @ q | p q. p \<in> lang a \<and> q \<in> lang b}"
| "lang (Alt a b) = lang a \<union> lang b"
| "lang (Star a) = {concat ps | ps. set ps \<subseteq> lang a}"
| "lang (Opt a) = insert [] (lang a)"
| "lang (Grp i a) = {}"

primrec plain :: "re \<Rightarrow> bool" where
  "plain (Cls neg cs) = True"
| "plain Bol = False"
| "plain Eps = True"
| "plain (Seq a b) = (plain a \<and> plain b)"
| "plain (Alt a b) = (plain a \<and> plain b)"
| "plain (Star a) = plain a"
| "plain (Opt a) = plain a"
| "plain (Grp i a) = False"

definition runs :: "(string \<times> caps \<Rightarrow> (string \<times> caps) list) \<Rightarrow> string set \<Rightarrow> bool" where
  "runs f L \<longleftrightarrow> (\<forall>s c r c'. (r, c') \<in> set (f (s, c)) \<longleftrightarrow> c' = c \<and> (\<exists>p\<in>L. s = p @ r))"

lemma runsD: "runs f L \<Longrightarrow> (r, c') \<in> set (f (s, c)) \<longleftrightarrow> c' = c \<and> (\<exists>p\<in>L. s = p @ r)"
  by (simp add: runs_def)

lemma star_iter_runs:
  assumes "runs f L"
  shows "(r, c') \<in> set (star_iter n f (s, c)) \<longleftrightarrow>
     c' = c \<and> (\<exists>ps. set ps \<subseteq> L - {[]} \<and> length ps \<le> n \<and> s = concat ps @ r)"
proof (induction n arbitrary: s c)
  case (Suc n)
  have key: "(\<exists>t c1. (c1 = c \<and> (\<exists>p\<in>L. s = p @ t)) \<and> length t < length s \<and> c' = c1 \<and> Q t) \<longleftrightarrow>
          c' = c \<and> (\<exists>t p. p \<in> L - {[]} \<and> s = p @ t \<and> Q t)" for Q :: "string \<Rightarrow> bool"
    by (auto; blast)
  have "(r, c') \<in> set (star_iter (Suc n) f (s, c)) \<longleftrightarrow>
      (\<exists>t c1. (t, c1) \<in> set (f (s, c)) \<and> length t < length s \<and> (r, c') \<in> set (star_iter n f (t, c1))) \<or>
      r = s \<and> c' = c"
    by fastforce
  also have "\<dots> \<longleftrightarrow> c' = c \<and> ((\<exists>t p. p \<in> L - {[]} \<and> s = p @ t \<and>
      (\<exists>ps. set ps \<subseteq> L - {[]} \<and> length ps \<le> n \<and> t = concat ps @ r)) \<or> r = s)"
    unfolding Suc.IH runsD [OF assms] key by blast
  also have "\<dots> \<longleftrightarrow> c' = c \<and> (\<exists>ps. set ps \<subseteq> L - {[]} \<and> length ps \<le> Suc n \<and> s = concat ps @ r)" (is "_ \<and> ?a \<longleftrightarrow> _ \<and> ?b")
  proof -
    have "?a \<Longrightarrow> ?b"
    proof (elim disjE exE conjE)
      fix t p ps assume "p \<in> L - {[]}" "s = p @ t" "set ps \<subseteq> L - {[]}" "length ps \<le> n" "t = concat ps @ r"
      then show ?b by (intro exI [of _ "p # ps"]) auto
    qed (auto intro: exI [of _ "[]"])
    moreover have "?b \<Longrightarrow> ?a"
    proof (elim exE conjE)
      fix ps assume "set ps \<subseteq> L - {[]}" "length ps \<le> Suc n" "s = concat ps @ r"
      then show ?a by (cases ps) auto
    qed
    ultimately show ?thesis by blast
  qed
  finally show ?case .
qed auto

lemma concat_nonempty: "\<exists>qs. concat qs = concat ps \<and> set qs \<subseteq> set ps - {[]} \<and> length qs \<le> length (concat ps)"
proof (intro exI [of _ "filter (\<lambda>p. p \<noteq> []) ps"] conjI)
  show "concat (filter (\<lambda>p. p \<noteq> []) ps) = concat ps" by (induction ps) auto
  show "length (filter (\<lambda>p. p \<noteq> []) ps) \<le> length (concat ps)"
  proof (induction ps)
    case (Cons p ps)
    then show ?case by (cases p) auto
  qed simp
qed auto

lemma runs_star:
  assumes "runs f L"
  shows "runs (\<lambda>s. star_iter (length (fst s)) f s) {concat ps | ps. set ps \<subseteq> L}"
  unfolding runs_def
proof (intro allI)
  fix s c r c'
  have "(\<exists>ps. set ps \<subseteq> L - {[]} \<and> length ps \<le> length s \<and> s = concat ps @ r) \<longleftrightarrow>
        (\<exists>p\<in>{concat ps | ps. set ps \<subseteq> L}. s = p @ r)" (is "?a \<longleftrightarrow> ?b")
  proof
    assume ?b
    then obtain ps where ps: "set ps \<subseteq> L" "s = concat ps @ r" by auto
    obtain qs where "concat qs = concat ps" "set qs \<subseteq> set ps - {[]}" "length qs \<le> length (concat ps)"
      using concat_nonempty [of ps] by blast
    with ps show ?a by (intro exI [of _ qs]) auto
  qed auto
  then show "(r, c') \<in> set (star_iter (length (fst (s, c))) f (s, c)) \<longleftrightarrow>
      c' = c \<and> (\<exists>p\<in>{concat ps | ps. set ps \<subseteq> L}. s = p @ r)"
    using star_iter_runs [OF assms, of r c' "length s" s c] by simp
qed

lemma re_run_lang: "plain r \<Longrightarrow> runs (re_run n r) (lang r)"
proof (induction r)
  case (Cls neg cs)
  show ?case by (auto simp: runs_def split: list.splits if_splits)
next
  case (Seq a b)
  then have "runs (re_run n a) (lang a)" "runs (re_run n b) (lang b)" by auto
  note D = this [THEN runsD]
  show ?case unfolding runs_def
    by (auto simp: Bex_def D) blast+
next
  case (Alt a b)
  then show ?case by (auto simp: runs_def)
next
  case (Star a)
  then show ?case using runs_star [of "re_run n a" "lang a"] by simp
next
  case (Opt a)
  then show ?case by (auto simp: runs_def)
qed (auto simp: runs_def)

lemma regex_match_plain: "plain r \<Longrightarrow> regex_match r s \<noteq> None \<longleftrightarrow> s \<in> lang r"
  using runsD [OF re_run_lang, of r "[]" "[]" "length s" s "[]"]
  by (auto simp: regex_match_def find_None_iff runsD [OF re_run_lang])

lemma re_run_Lit:
  "re_run n (Lit cs) (s, c) = (if prefix cs s then [(drop (length cs) s, c)] else [])"
proof (induction cs arbitrary: s)
  case (Cons x xs)
  then show ?case by (cases s) auto
qed simp

lemma re_run_Cls: "re_run n (Cls neg cs) (s, c) = (case s of [] \<Rightarrow> [] | x # xs \<Rightarrow> if (x \<in> set cs) \<noteq> neg then [(xs, c)] else [])"
  by (simp split: list.split)

lemma http_version_lang:
  "regex_match http_version_re s \<noteq> None \<longleftrightarrow>
     (\<exists>a b. s = ''HTTP/'' @ [a, CHR ''.'', b] \<and> a \<in> set ''0123456789'' \<and> b \<in> set ''0123456789'')"
proof -
  define D where "D = set ''0123456789''"
  have cls: "re_run n Digit (s, c) = (case s of [] \<Rightarrow> [] | x # xs \<Rightarrow> if x \<in> D then [(xs, c)] else [])" for n s c
    unfolding Digit_def D_def re_run_Cls by (cases s) auto
  show ?thesis
  proof (cases "prefix ''HTTP/'' s")
    case False
    have "re_run n http_version_re (s, []) = []" for n
      using False unfolding http_version_re_def Seqs.simps re_run.simps(4) re_run_Lit by simp
    then show ?thesis using False by (auto simp: regex_match_def)
  next
    case True
    then obtain r where s: "s = ''HTTP/'' @ r" by (auto simp: prefix_def)
    have "re_run n http_version_re (''HTTP/'' @ r, []) =
       (case r of a # d # b # t \<Rightarrow>
          if a \<in> D \<and> d = CHR ''.'' \<and> b \<in> D then [(t, [(2, [b]), (1, [a])])] else [] | _ \<Rightarrow> [])" for n
      unfolding http_version_re_def Seqs.simps re_run.simps(4) re_run_Lit
      by (auto simp: cls split: list.splits)
    then show ?thesis unfolding s D_def [symmetric]
      by (auto simp: regex_match_def split: list.splits)
  qed
qed

lemma http_version_accepts:
  "a \<in> set ''0123456789'' \<Longrightarrow> b \<in> set ''0123456789'' \<Longrightarrow> regex_match http_version_re (''HTTP/'' @ [a, CHR ''.'', b]) \<noteq> None"
  using http_version_lang by blast

text \<open>The version test of the request and status lines is exact: it accepts the texts made of \<^verbatim>\<open>HTTP/\<close>, a
  digit, a dot and a digit, and no other.\<close>

lemma http_version_re_exact:
  "regex_match http_version_re s \<noteq> None \<longleftrightarrow>
     (\<exists>a b. s = ''HTTP/'' @ [a, CHR ''.'', b] \<and> a \<in> set ''0123456789'' \<and> b \<in> set ''0123456789'')"
  by (rule http_version_lang)

definition path_ok :: "string \<Rightarrow> bool" where
  "path_ok p \<longleftrightarrow> (p = [] \<or> hd p = CHR ''/'') \<and> CHR ''?'' \<notin> set p \<and> CHR ''#'' \<notin> set p"

lemma star_cls_lang: "lang (Star (Cls neg cs)) = {p. \<forall>x\<in>set p. (x \<in> set cs) \<noteq> neg}"
proof (intro set_eqI iffI)
  fix p assume "p \<in> {p. \<forall>x\<in>set p. (x \<in> set cs) \<noteq> neg}"
  then show "p \<in> lang (Star (Cls neg cs))"
    by (auto intro!: exI [of _ "map (\<lambda>x. [x]) p"])
next
  fix p assume "p \<in> lang (Star (Cls neg cs))"
  then obtain ps where ps: "p = concat ps" "set ps \<subseteq> {[x] | x. (x \<in> set cs) \<noteq> neg}" by auto
  then have "\<forall>q\<in>set ps. \<forall>x\<in>set q. (x \<in> set cs) \<noteq> neg" by fastforce
  with ps(1) show "p \<in> {p. \<forall>x\<in>set p. (x \<in> set cs) \<noteq> neg}" by simp
qed

lemma path_lang: "lang path_re = {p. path_ok p}"
proof (intro set_eqI iffI)
  fix p assume "p \<in> lang path_re"
  then obtain ps where ps: "p = concat ps" "\<forall>q\<in>set ps. \<exists>w. q = CHR ''/'' # w \<and> (\<forall>x\<in>set w. x \<notin> set ''/?#'')"
    unfolding path_re_def lang.simps(6) [of "Seq _ _"] lang.simps(4) star_cls_lang
    by (fastforce simp: subset_iff)
  then show "p \<in> {p. path_ok p}" by (cases ps) (fastforce simp: path_ok_def)+
next
  fix p assume "p \<in> {p. path_ok p}"
  then have "path_ok p" by simp
  then have "\<exists>ps. p = concat ps \<and> (\<forall>q\<in>set ps. \<exists>w. q = CHR ''/'' # w \<and> (\<forall>x\<in>set w. x \<notin> set ''/?#''))"
  proof (induction p rule: length_induct)
    case (1 p)
    show ?case
    proof (cases p)
      case Nil
      then show ?thesis by (intro exI [of _ "[]"]) simp
    next
      case (Cons c w)
      with 1(2) have c: "c = CHR ''/''" by (simp add: path_ok_def)
      let ?r = "dropWhile (\<lambda>x. x \<noteq> CHR ''/'') w"
      have "path_ok ?r" "length ?r < length p"
        using 1(2) Cons hd_dropWhile [of "\<lambda>x. x \<noteq> CHR ''/''" w]
        by (auto simp: path_ok_def length_dropWhile_le le_imp_less_Suc dest: set_dropWhileD)
      with 1(1) obtain ps where "?r = concat ps"
        "\<forall>q\<in>set ps. \<exists>w. q = CHR ''/'' # w \<and> (\<forall>x\<in>set w. x \<notin> set ''/?#'')" by blast
      moreover have "\<forall>x\<in>set (takeWhile (\<lambda>x. x \<noteq> CHR ''/'') w). x \<notin> set ''/?#''"
        using 1(2) Cons by (auto simp: path_ok_def dest: set_takeWhileD)
      ultimately show ?thesis
        using Cons c takeWhile_dropWhile_id [of "\<lambda>x. x \<noteq> CHR ''/''" w]
        by (intro exI [of _ "(c # takeWhile (\<lambda>x. x \<noteq> CHR ''/'') w) # ps"]) auto
    qed
  qed
  then show "p \<in> lang path_re"
    unfolding path_re_def lang.simps(6) [of "Seq _ _"] lang.simps(4) star_cls_lang
    by (fastforce simp: subset_iff)
qed

lemma path_runs: "(r, c') \<in> set (re_run n path_re (s, c)) \<longleftrightarrow> c' = c \<and> (\<exists>p. path_ok p \<and> s = p @ r)"
proof -
  have "plain path_re" by (simp add: path_re_def)
  from runsD [OF re_run_lang [OF this], of r c' n s c] show ?thesis by (simp add: path_lang)
qed

lemma query_runs:
  "(r, c') \<in> set (re_run n (Star (Cls True ''#'')) (s, c)) \<longleftrightarrow> c' = c \<and> (\<exists>p. CHR ''#'' \<notin> set p \<and> s = p @ r)"
proof -
  have "plain (Star (Cls True ''#''))" by simp
  from runsD [OF re_run_lang [OF this], of r c' n s c] show ?thesis unfolding star_cls_lang by auto
qed

lemma origin_outcomes:
  assumes "(r, c) \<in> set (re_run (length s) (origin_re k) (s, []))"
  shows "\<exists>p. path_ok p \<and> (s = p @ r \<and> c = [(k, p)] \<or>
     (\<exists>q. s = p @ CHR ''?'' # q @ r \<and> CHR ''#'' \<notin> set q \<and> c = [(k + 1, q), (k, p)]))"
proof -
  let ?Q = "Opt (Seq (Cls False ''?'') (Grp (k + 1) (Star (Cls True ''#''))))"
  obtain t ct where t: "(t, ct) \<in> set (re_run (length s) (Grp k path_re) (s, []))"
    "(r, c) \<in> set (re_run (length s) ?Q (t, ct))"
    using assms by (auto simp: origin_re_def simp del: re_run.simps(6,7,8))
  then obtain p where p: "path_ok p" "s = p @ t" "ct = [(k, p)]"
    by (auto simp: path_runs)
  from t(2) have "(r, c) = (t, ct) \<or>
      (\<exists>u. t = CHR ''?'' # u \<and> (r, c) \<in> set (re_run (length s) (Grp (k + 1) (Star (Cls True ''#''))) (u, ct)))"
    by (auto simp del: re_run.simps(6,8) split: list.splits if_splits)
  with p show ?thesis by (auto simp: query_runs simp del: re_run.simps(6))
qed

lemma grp_run:
  "(t, c) \<in> set (re_run n a (p @ t, c0)) \<Longrightarrow> (t, (i, p) # c) \<in> set (re_run n (Grp i a) (p @ t, c0))"
  by force

lemma find_append_left: "find P xs = Some x \<Longrightarrow> find P (xs @ ys) = Some x"
  by (induction xs) auto

lemma seq_run:
  "(t, c1) \<in> set (re_run n a s) \<Longrightarrow> x \<in> set (re_run n b (t, c1)) \<Longrightarrow> x \<in> set (re_run n (Seq a b) s)"
  by (auto intro!: bexI [of _ "(t, c1)"])

lemma origin_complete:
  assumes "path_ok p" "s = p \<or> (\<exists>q. s = p @ CHR ''?'' # q \<and> CHR ''#'' \<notin> set q)"
  shows "\<exists>c. ([], c) \<in> set (re_run (length s) (origin_re k) (s, []))"
proof -
  let ?G = "Grp (k + 1) (Star (Cls True ''#''))"
  obtain t where t: "s = p @ t" "t = [] \<or> (\<exists>q. t = CHR ''?'' # q \<and> CHR ''#'' \<notin> set q)" using assms(2) by auto
  have 1: "(t, [(k, p)]) \<in> set (re_run (length s) (Grp k path_re) (s, []))"
    unfolding t(1) by (rule grp_run) (use assms(1) path_runs in auto)
  have "\<exists>c. ([], c) \<in> set (re_run (length s) (Opt (Seq (Cls False ''?'') ?G)) (t, [(k, p)]))"
  proof (cases "t = []")
    case False
    then obtain q where q: "t = CHR ''?'' # q" "CHR ''#'' \<notin> set q" using t(2) by blast
    have "([], [(k + 1, q), (k, p)]) \<in> set (re_run (length s) ?G (q @ [], [(k, p)]))"
      by (rule grp_run) (use q(2) query_runs in auto)
    with q(1) show ?thesis by (auto simp del: re_run.simps(6,8))
  qed auto
  then obtain c where "([], c) \<in> set (re_run (length s) (Opt (Seq (Cls False ''?'') ?G)) (t, [(k, p)]))" by blast
  then have "([], c) \<in> set (re_run (length s) (Seqs [Opt (Seq (Cls False ''?'') ?G)]) (t, [(k, p)]))"
    unfolding Seqs.simps by (rule seq_run) simp
  from seq_run [OF 1 this] have "([], c) \<in> set (re_run (length s) (origin_re k) (s, []))"
    unfolding origin_re_def Seqs.simps by (intro seq_run [of s "[]" _ Bol]) simp_all
  then show ?thesis by blast
qed

lemma origin_caps:
  assumes "CHR ''#'' \<notin> set s" "s = [] \<or> hd s = CHR ''/'' \<or> hd s = CHR ''?''"
  shows "\<exists>c. regex_match request_target_re s = Some c \<and> matched c 1 \<and>
     group c 1 = takeWhile (\<lambda>c. c \<noteq> CHR ''?'') s \<and> group c 2 = tl (dropWhile (\<lambda>c. c \<noteq> CHR ''?'') s)"
proof -
  let ?p = "takeWhile (\<lambda>c. c \<noteq> CHR ''?'') s" and ?d = "dropWhile (\<lambda>c. c \<noteq> CHR ''?'') s"
  have sp: "s = ?p @ ?d" by simp
  have "path_ok ?p" using assms by (cases s) (auto simp: path_ok_def dest: set_takeWhileD)
  moreover have "s = ?p \<or> (\<exists>q. s = ?p @ CHR ''?'' # q \<and> CHR ''#'' \<notin> set q)"
  proof (cases ?d)
    case (Cons c q)
    then have "c = CHR ''?''" using hd_dropWhile [of "\<lambda>c. c \<noteq> CHR ''?''" s] by simp
    with Cons sp assms(1) show ?thesis by (metis Un_iff list.set_intros(2) set_append)
  next
    case Nil
    then have "s = ?p" by (metis append_Nil2 takeWhile_dropWhile_id)
    then show ?thesis by (rule disjI1)
  qed
  ultimately obtain c0 where "([], c0) \<in> set (re_run (length s) (origin_re 1) (s, []))"
    using origin_complete by blast
  then obtain o1 where f: "find (\<lambda>t. fst t = []) (re_run (length s) (origin_re 1) (s, [])) = Some o1"
    by (cases "find (\<lambda>t. fst t = []) (re_run (length s) (origin_re 1) (s, []))") (auto simp: find_None_iff)
  then have o1: "fst o1 = []" "o1 \<in> set (re_run (length s) (origin_re 1) (s, []))"
    by (auto simp: find_Some_iff)
  then obtain c where c: "o1 = ([], c)" by (cases o1) auto
  obtain p where p: "path_ok p" "s = p \<and> c = [(1, p)] \<or>
      (\<exists>q. s = p @ CHR ''?'' # q \<and> CHR ''#'' \<notin> set q \<and> c = [(2, q), (1, p)])"
    using origin_outcomes [of "[]" c s 1] o1 c by (auto simp: numeral_2_eq_2)
  have "regex_match request_target_re s = Some c"
    using find_append_left [OF f] c by (simp add: regex_match_def request_target_re_def)
  moreover have "?p = p \<and> tl ?d = group c 2 \<and> group c 1 = p \<and> matched c 1"
  proof -
    have "\<forall>x\<in>set p. x \<noteq> CHR ''?''" using p(1) by (auto simp: path_ok_def)
    then have TD: "takeWhile (\<lambda>c. c \<noteq> CHR ''?'') (p @ r) = p @ takeWhile (\<lambda>c. c \<noteq> CHR ''?'') r"
      "dropWhile (\<lambda>c. c \<noteq> CHR ''?'') (p @ r) = dropWhile (\<lambda>c. c \<noteq> CHR ''?'') r" for r
      by (simp_all add: takeWhile_append2 dropWhile_append2)
    from p(2) show ?thesis
    proof (elim disjE exE conjE)
      assume "s = p" "c = [(1, p)]"
      then show ?thesis using TD(1) [of "[]"] TD(2) [of "[]"]
        by (simp add: group_def matched_def del: dropWhile_eq_Nil_conv takeWhile_eq_all_conv)
    next
      fix q assume "s = p @ CHR ''?'' # q" "c = [(2, q), (1, p)]"
      then show ?thesis using TD [of "CHR ''?'' # q"] by (simp add: group_def matched_def)
    qed
  qed
  ultimately show ?thesis by auto
qed

text \<open>Request targets in origin form are recognised and split where the query starts: for a target without
  a fragment that is empty or begins with a slash or a question mark, the path is what comes before the
  first question mark and the query what comes after it.\<close>

lemma request_target_origin:
  assumes "CHR ''#'' \<notin> set s" "s = [] \<or> hd s = CHR ''/'' \<or> hd s = CHR ''?''"
  shows "request_target s = OriginForm (takeWhile (\<lambda>c. c \<noteq> CHR ''?'') s) (tl (dropWhile (\<lambda>c. c \<noteq> CHR ''?'') s))"
  using origin_caps [OF assms] by (auto simp: request_target_def target_of_def)

lemma request_target_origin_witness:
  "request_target ''/a/b?x=1'' = OriginForm ''/a/b'' ''x=1''"
  using request_target_origin [of "''/a/b?x=1''"] by simp

end
