(* ===== verification/Http_Lines.thy ===== *)
theory Http_Lines
  imports Http_Message Http_Proto Uri
begin

text \<open>
  The first lines of HTTP messages: \<^verbatim>\<open>RequestLine::parse\<close> (\<^verbatim>\<open>include/xsl/net/http/request/line.h\<close>) and
  \<^verbatim>\<open>StatusLineView::parse\<close> (\<^verbatim>\<open>include/xsl/asio/http/response.h\<close>). Both meet the contract the head
  reader relies on, so the reader's lemmas hold for requests and for responses. A field of the request line that is
  a view carries the memory it points into, because that memory can go away: the buffer of decoded fields moves when
  it grows, and the blocks of the connection are written again for the next request. The views of a status line
  all point into the blocks of the one message and are read before the next; they are modelled by their texts.
\<close>

section \<open>The request line\<close>

text \<open>A view: the characters it was made for and where they lie, a string literal, the blocks of the connection or
  the buffer \<^verbatim>\<open>_raw\<close>; \<open>Gone\<close> says that they are no longer there, and then the view cannot be read.\<close>

datatype memory = Literal | InBlocks | RawBuf | Gone

datatype view = View (chars_of: string) (mem_of: memory)

definition reads :: "view \<Rightarrow> string option" where
  "reads v = (if mem_of v = Gone then None else Some (chars_of v))"

definition lose_view :: "memory \<Rightarrow> view \<Rightarrow> view" where
  "lose_view m v = (if mem_of v = m then View (chars_of v) Gone else v)"

record request_line =
  rl_raw :: string
  rl_cap :: nat
  rl_method :: http_method
  rl_scheme :: view
  rl_host :: view
  rl_port :: view
  rl_path :: view
  rl_query :: view
  rl_version :: view

text \<open>\<^verbatim>\<open>_raw\<close> is a \<^verbatim>\<open>std::string\<close> with the capacities of libstdc++: 15 characters before the first allocation, and a request for
  more at least doubles it.\<close>

definition string_capacity :: nat where
  "string_capacity = 15"

definition reserve_cap :: "nat \<Rightarrow> nat \<Rightarrow> nat" where
  "reserve_cap n c = (if n \<le> c then c else max n (2 * c))"

definition request_line_new :: request_line where
  "request_line_new = \<lparr>rl_raw = [], rl_cap = string_capacity, rl_method = M_UNKNOWN, rl_scheme = View [] Literal,
     rl_host = View [] Literal, rl_port = View [] Literal, rl_path = View ''/'' Literal, rl_query = View [] Literal,
     rl_version = View [] Literal\<rparr>"

definition lose :: "memory \<Rightarrow> request_line \<Rightarrow> request_line" where
  "lose m l = l\<lparr>rl_scheme := lose_view m (rl_scheme l), rl_host := lose_view m (rl_host l), rl_port := lose_view m (rl_port l),
     rl_path := lose_view m (rl_path l), rl_query := lose_view m (rl_query l), rl_version := lose_view m (rl_version l)\<rparr>"

text \<open>\<^verbatim>\<open>buffer.reserve(buffer.size() + n)\<close> of \<^verbatim>\<open>percent_decode\<close>: beyond the capacity the characters move.\<close>

definition reserve_raw :: "nat \<Rightarrow> request_line \<Rightarrow> request_line" where
  "reserve_raw n l =
     (let need = length (rl_raw l) + n
      in if need \<le> rl_cap l then l else (lose RawBuf l)\<lparr>rl_cap := reserve_cap need (rl_cap l)\<rparr>)"

text \<open>A field behind \<^verbatim>\<open>PERCENT_DECODE\<close>: a piece of the block, or of the buffer when something was decoded.\<close>

definition field_view :: "bool \<times> string \<Rightarrow> view" where
  "field_view dv = View (snd dv) (if fst dv then RawBuf else InBlocks)"

definition decode_path :: "string \<Rightarrow> request_line \<Rightarrow> ec \<times> request_line" where
  "decode_path f l0 =
     (let l = reserve_raw (length f) l0 in
      case decode_field (rl_raw l) f of
        (raw, Inl e) \<Rightarrow> (Some e, l\<lparr>rl_raw := raw\<rparr>)
      | (raw, Inr v) \<Rightarrow> (ok, l\<lparr>rl_raw := raw, rl_path := field_view v\<rparr>))"

definition decode_query :: "string \<Rightarrow> request_line \<Rightarrow> ec \<times> request_line" where
  "decode_query f l0 =
     (let l = reserve_raw (length f) l0 in
      case decode_field (rl_raw l) f of
        (raw, Inl e) \<Rightarrow> (Some e, l\<lparr>rl_raw := raw\<rparr>)
      | (raw, Inr v) \<Rightarrow> (ok, l\<lparr>rl_raw := raw, rl_query := field_view v\<rparr>))"

text \<open>The part of \<^verbatim>\<open>parse\<close> that stores the target; a target no form matches stores nothing.\<close>

definition store_target :: "string \<Rightarrow> request_line \<Rightarrow> ec \<times> request_line" where
  "store_target target l =
     (case regex_match request_target_re target of
        None \<Rightarrow> (ok, l)
      | Some c \<Rightarrow>
          if matched c 1 then
            (let (ec, l1) = decode_path (group c 1) l
             in if ec \<noteq> ok then (ec, l1) else decode_query (group c 2) l1)
          else if matched c 3 then
            (let f = absolute_uri_of c 3;
                 (ec, l1) = decode_path (au_path f)
                   (l\<lparr>rl_scheme := View (au_scheme f) InBlocks, rl_host := View (au_host f) InBlocks,
                      rl_port := View (au_port f) InBlocks\<rparr>)
             in if ec \<noteq> ok then (ec, l1)
                else decode_query (au_query f)
                  (l1\<lparr>rl_path := if chars_of (rl_path l1) = [] then View ''/'' Literal else rl_path l1\<rparr>))
          else if matched c 8 then (ok, l\<lparr>rl_host := View (group c 8) InBlocks, rl_port := View (group c 9) InBlocks\<rparr>)
          else if matched c 10 then (ok, l\<lparr>rl_path := View ''*'' Literal\<rparr>)
          else (ok, l))"

text \<open>When \<^verbatim>\<open>parse\<close> finds a line, the blocks hold it and no longer the request before it: a view that points into them
  from then on reads other bytes.\<close>

definition request_line_parse :: "request_line line_parser" where
  "request_line_parse l view =
     (case sv_find CRLF view 0 of
        None \<Rightarrow> (0, Some resource_unavailable_try_again, l)
      | Some e \<Rightarrow>
          (let ln = sub view 0 e
           in case sv_find [SP] ln 0 of
                None \<Rightarrow> (0, Some illegal_byte_sequence, l)
              | Some sp1 \<Rightarrow>
                  (case sv_find [SP] ln (sp1 + 1) of
                     None \<Rightarrow> (0, Some illegal_byte_sequence, l)
                   | Some sp2 \<Rightarrow>
                       (let (ec, l1) = store_target (sub ln (sp1 + 1) (sp2 - sp1 - 1))
                               ((lose InBlocks l)\<lparr>rl_method := method_from_string_view (sub ln 0 sp1)\<rparr>);
                            tmp_version = drop (sp2 + 1) ln
                        in if ec \<noteq> ok then (0, ec, l1)
                           else if regex_match http_version_re tmp_version = None
                           then (0, Some illegal_byte_sequence, l1)
                           else (e + 2, ok, l1\<lparr>rl_version := View tmp_version InBlocks\<rparr>)))))"

section \<open>The status line\<close>

record status_line =
  sl_version :: string
  sl_status_code :: nat
  sl_status_message :: string

definition status_line_new :: status_line where
  "status_line_new = \<lparr>sl_version = [], sl_status_code = STATUS_UNKNOWN, sl_status_message = []\<rparr>"

definition status_line_parse :: "status_line line_parser" where
  "status_line_parse l view =
     (case sv_find CRLF view 0 of
        None \<Rightarrow> (0, Some resource_unavailable_try_again, l)
      | Some e \<Rightarrow>
          (let ln = sub view 0 e
           in case sv_find [SP] ln 0 of
                None \<Rightarrow> (0, Some illegal_byte_sequence, l)
              | Some sp1 \<Rightarrow>
                  (case sv_find [SP] ln (sp1 + 1) of
                     None \<Rightarrow> (0, Some illegal_byte_sequence, l)
                   | Some sp2 \<Rightarrow>
                       (let tmp_version = sub ln 0 sp1
                        in if regex_match http_version_re tmp_version = None
                           then (0, Some illegal_byte_sequence, l)
                           else let l1 = l\<lparr>sl_version := tmp_version,
                                  sl_status_code := status_from_string_view (sub ln (sp1 + 1) (sp2 - sp1 - 1))\<rparr>
                                in if sl_status_code l1 = STATUS_UNKNOWN then (0, Some illegal_byte_sequence, l1)
                                   else (e + 2, ok, l1\<lparr>sl_status_message := drop (sp2 + 1) ln\<rparr>)))))"

section \<open>Both parsers meet the contract of the head reader\<close>

lemma reads_blocks [simp]: "reads (View s InBlocks) = Some s"
  by (simp add: reads_def)

lemma sv_find_0 [simp]: "sv_find pat s 0 = find_sub pat s"
  by (cases "find_sub pat s") (auto simp: sv_find_def)

lemma sub_0 [simp]: "sub s 0 n = take n s"
  by (simp add: sub_def)

lemma pd_loop_error: "pd_loop b s = (b', Inl e) \<Longrightarrow> e = illegal_byte_sequence"
proof (induction b s rule: pd_loop.induct)
  case (1 b sv)
  show ?case
    using 1(2) by (subst (asm) pd_loop.simps)
      (auto simp: Let_def split: option.splits if_splits intro: 1(1))
qed

lemma decode_field_error: "decode_field b s = (b', Inl e) \<Longrightarrow> e = illegal_byte_sequence"
  by (auto simp: decode_field_def percent_decode_def split: prod.splits sum.splits if_splits dest: pd_loop_error)

lemma decode_path_error: "decode_path f l = (Some e, l') \<Longrightarrow> e = illegal_byte_sequence"
  by (auto simp: decode_path_def Let_def split: prod.splits sum.splits dest: decode_field_error)

lemma decode_query_error: "decode_query f l = (Some e, l') \<Longrightarrow> e = illegal_byte_sequence"
  by (auto simp: decode_query_def Let_def split: prod.splits sum.splits dest: decode_field_error)

lemma store_target_error: "store_target t l = (Some e, l') \<Longrightarrow> e = illegal_byte_sequence"
  by (auto simp: store_target_def Let_def split: option.splits if_splits prod.splits
      dest: decode_path_error decode_query_error)

interpretation request_head: head_line request_line_parse
proof
  fix v :: string and l l' :: request_line and e n ec
  show "find_sub CRLF v = None \<Longrightarrow> request_line_parse l v = (0, Some resource_unavailable_try_again, l)"
    by (simp add: request_line_parse_def)
  assume e: "find_sub CRLF v = Some e"
  then have "find_sub CRLF (take (e + 2) v) = Some e" by (intro find_sub_take) auto
  with e show "request_line_parse l v = request_line_parse l (take (e + 2) v)"
    by (simp add: request_line_parse_def min_absorb1)
  assume "request_line_parse l v = (n, ec, l')"
  with e show "(ec = ok \<longrightarrow> n = e + 2) \<and> ec \<noteq> Some resource_unavailable_try_again"
    by (auto simp: request_line_parse_def Let_def split: option.splits prod.splits if_splits dest: store_target_error)
qed

interpretation response_head: head_line status_line_parse
proof
  fix v :: string and l l' :: status_line and e n ec
  show "find_sub CRLF v = None \<Longrightarrow> status_line_parse l v = (0, Some resource_unavailable_try_again, l)"
    by (simp add: status_line_parse_def)
  assume e: "find_sub CRLF v = Some e"
  then have "find_sub CRLF (take (e + 2) v) = Some e" by (intro find_sub_take) auto
  with e show "status_line_parse l v = status_line_parse l (take (e + 2) v)"
    by (simp add: status_line_parse_def min_absorb1)
  assume "status_line_parse l v = (n, ec, l')"
  with e show "(ec = ok \<longrightarrow> n = e + 2) \<and> ec \<noteq> Some resource_unavailable_try_again"
    by (auto simp: status_line_parse_def Let_def split: option.splits prod.splits if_splits)
qed

section \<open>Reading heads\<close>

text \<open>C1. Reading a request head: from every state the reader can be in, and however the connection cuts the
  bytes into chunks, \<^verbatim>\<open>read\<close> ends with exactly the outcome that the sequence of pending bytes has: the
  error of the connection when the head is incomplete, an error when it is malformed or a line does not
  fit a block, and otherwise the parsed request line, the headers of the head (the last value of a
  repeated name) and all bytes behind the head still pending, in order.\<close>

theorem request_read_spec:
  assumes "msg_wf m" "reader_ok r" "read request_line_parse m r = (ec, m', r')"
  shows "case spec_head request_line_parse (line m) (pending m r) of
      Incomplete \<Rightarrow> ec = Some (at_end r)
    | Bad x \<Rightarrow> ec = Some x
    | Done (l, hs) rest \<Rightarrow> ec = ok \<and> line m' = l \<and> get_header m' = map_of (rev hs) \<and>
        pending m' r' = rest \<and> at_end r' = at_end r \<and> msg_wf m' \<and> reader_ok r'"
  using request_head.read_spec [OF assms] by (auto split: head_result.splits)

lemma window_new [simp]: "window (message_new l) = []"
  by (simp add: window_def message_new_def sub_def)

lemma line_new [simp]: "line (message_new l) = l"
  by (simp add: message_new_def)

definition example_line :: request_line where
  "example_line = \<lparr>rl_raw = ''/a b'', rl_cap = 15, rl_method = GET, rl_scheme = View [] Literal, rl_host = View [] Literal,
     rl_port = View [] Literal, rl_path = View ''/a b'' RawBuf, rl_query = View ''q'' InBlocks, rl_version = View ''HTTP/1.1'' InBlocks\<rparr>"

lemma request_example:
  "spec_head request_line_parse request_line_new
     (''GET /a%20b?q HTTP/1.1'' @ CRLF @ ''Host: x'' @ CRLF @ CRLF @ ''rest'') =
   Done (example_line, [(''Host'', ''x'')]) ''rest''"
  by code_simp

theorem request_read_spec_witness:
  "case read request_line_parse (message_new request_line_new)
      \<lparr>chunks = [''GET /a%20b?q HTTP/1.1'' @ [CR], LF # ''Host: x'' @ CRLF @ [CR], LF # ''rest''], at_end = not_connected\<rparr> of
     (ec, m, r) \<Rightarrow> ec = ok \<and> reads (rl_path (line m)) = Some ''/a b'' \<and> get_header m ''Host'' = Some ''x'' \<and> pending m r = ''rest''"
proof -
  let ?r = "\<lparr>chunks = [''GET /a%20b?q HTTP/1.1'' @ [CR], LF # ''Host: x'' @ CRLF @ [CR], LF # ''rest''], at_end = not_connected\<rparr>"
  obtain ec m r where rd: "read request_line_parse (message_new request_line_new) ?r = (ec, m, r)"
    using prod_cases3 by blast
  have "reader_ok ?r" by (simp add: reader_ok_def)
  from request_read_spec [OF msg_wf_new this rd] request_example show ?thesis
    unfolding rd by (simp add: example_line_def reads_def)
qed

text \<open>Responses are read independently of chunking: two connections that deliver the same bytes, cut
  differently and with different buffers behind them, give the same result, the same status line, the
  same headers and the same pending bytes.\<close>

lemma response_read_chunking:
  assumes "msg_wf m" "reader_ok r" "msg_wf n" "reader_ok q"
    and "line n = line m" "pending n q = pending m r" "at_end q = at_end r"
    and "read status_line_parse m r = (ec, m', r')" "read status_line_parse n q = (ec', n', q')"
  shows "ec' = ec \<and> (ec = ok \<longrightarrow> line n' = line m' \<and> get_header n' = get_header m' \<and> pending n' q' = pending m' r')"
  by (rule response_head.read_chunking [OF assms])

lemma response_read_chunking_witness:
  "fst (read status_line_parse (message_new status_line_new) \<lparr>chunks = [''HTT'', ''P/1.1''], at_end = not_connected\<rparr>)
     = fst (read status_line_parse (message_new status_line_new) \<lparr>chunks = [''HTTP/1.1''], at_end = not_connected\<rparr>)"
proof -
  let ?q = "\<lparr>chunks = [''HTT'', ''P/1.1''], at_end = not_connected\<rparr>"
  let ?r = "\<lparr>chunks = [''HTTP/1.1''], at_end = not_connected\<rparr>"
  let ?m = "message_new status_line_new"
  obtain ec m' r' ec' n' q' where rd: "read status_line_parse ?m ?r = (ec, m', r')" "read status_line_parse ?m ?q = (ec', n', q')"
    by (metis prod_cases3)
  show ?thesis
    using response_read_chunking [OF msg_wf_new _ msg_wf_new _ _ _ _ rd] by (simp add: reader_ok_def rd)
qed

text \<open>C4. Pipelined requests: reading any number of heads from a new connection gives, head by head, what the
  concatenated bytes mean; nothing is lost, repeated or mixed between consecutive heads.\<close>

theorem request_pipeline:
  assumes "[] \<notin> set cs"
  shows "read_heads request_line_parse k (message_new l) \<lparr>chunks = cs, at_end = e\<rparr> =
         spec_heads request_line_parse k l (concat cs) e"
proof -
  show ?thesis
    using assms request_head.read_heads_spec [of "message_new l" "\<lparr>chunks = cs, at_end = e\<rparr>" k]
    by (simp add: reader_ok_def)
qed

theorem request_pipeline_witness:
  "read_heads request_line_parse 2 (message_new request_line_new)
     \<lparr>chunks = [''GET /a%20b?q HTTP/1.1'' @ CRLF @ ''Ho'', ''st: x'' @ CRLF @ CRLF @ ''rest''], at_end = not_connected\<rparr> =
   ([(example_line, [''Host'' \<mapsto> ''x''])], Some not_connected)"
proof -
  have "spec_head request_line_parse l ''rest'' = Incomplete" for l
    by (simp add: spec_head_def spec_line_def HTTP_BUFFER_BLOCK_SIZE_def)
  then show ?thesis
    using request_pipeline [of "[''GET /a%20b?q HTTP/1.1'' @ CRLF @ ''Ho'', ''st: x'' @ CRLF @ CRLF @ ''rest'']" 2
        request_line_new not_connected] request_example
    by (simp add: numeral_2_eq_2 fun_upd_def)
qed

section \<open>Request lines: what is written is what is read\<close>

lemma find_SP: "SP \<notin> set a \<Longrightarrow> find_sub [SP] (a @ SP # b) = Some (length a)"
  by (induction a) auto

lemma set_encode:
  assumes "x \<in> set (encode keep s)"
  shows "x \<in> keep \<or> x = CHR ''%'' \<or> x \<in> set ''0123456789ABCDEF''"
proof -
  define H where "H = set ''0123456789ABCDEF''"
  have hex: "k < 16 \<Longrightarrow> hex_char k \<in> H" for k
    unfolding hex_char_def H_def by (rule nth_mem) simp
  have "set (pct c) \<subseteq> insert (CHR ''%'') H" for c
  proof -
    have "of_char c < (256 :: nat)" by simp
    then have "of_char c div 16 < (16 :: nat)" "of_char c mod 16 < (16 :: nat)"
      by (simp_all add: less_mult_imp_div_less)
    then show ?thesis using hex by (simp add: pct_def)
  qed
  then show ?thesis
    using assms unfolding H_def [symmetric] by (auto simp: encode_def split: if_splits)
qed

definition safe_keep :: "char set \<Rightarrow> bool" where
  "safe_keep keep \<longleftrightarrow> CHR ''/'' \<in> keep \<and> keep \<inter> {SP, CR, CHR ''?'', CHR ''#''} = {}"

lemma encode_safe:
  assumes "safe_keep keep"
  shows "SP \<notin> set (encode keep s)" "CR \<notin> set (encode keep s)" "CHR ''?'' \<notin> set (encode keep s)"
    "CHR ''#'' \<notin> set (encode keep s)"
  using assms set_encode [of _ keep s] by (fastforce simp: safe_keep_def)+

text \<open>The path keeps its place while the query is decoded: nothing of it was decoded, or the buffer that the decoded
  path lies in has room for the query as it is written.\<close>

definition path_stays :: "char set \<Rightarrow> string \<Rightarrow> string \<Rightarrow> request_line \<Rightarrow> bool" where
  "path_stays keep p q l \<longleftrightarrow> encode keep p = p \<or>
     length (rl_raw l) + length p + length (encode keep q)
       \<le> reserve_cap (length (rl_raw l) + length (encode keep p)) (rl_cap l)"

definition stored :: "char set \<Rightarrow> string \<Rightarrow> string \<Rightarrow> request_line \<Rightarrow> request_line \<Rightarrow> bool" where
  "stored keep p q l l1 \<longleftrightarrow> rl_method l1 = rl_method l \<and> reads (rl_query l1) = Some q \<and>
     reads (rl_path l1) = (if path_stays keep p q l then Some p else None)"

lemma reserve_raw_simps [simp]:
  "rl_raw (reserve_raw n l) = rl_raw l" "rl_method (reserve_raw n l) = rl_method l"
  "rl_cap (reserve_raw n l) = reserve_cap (length (rl_raw l) + n) (rl_cap l)"
  by (simp_all add: reserve_raw_def Let_def lose_def reserve_cap_def)

lemma decode_path_encode:
  "decode_path (encode keep p) l = (ok, (reserve_raw (length (encode keep p)) l)\<lparr>
     rl_raw := (if encode keep p = p then rl_raw l else rl_raw l @ p),
     rl_path := View p (if encode keep p = p then InBlocks else RawBuf)\<rparr>)"
  by (simp add: decode_path_def percent_decode_round_trip field_view_def)

lemma decode_query_encode:
  "decode_query (encode keep q) l = (ok, (reserve_raw (length (encode keep q)) l)\<lparr>
     rl_raw := (if encode keep q = q then rl_raw l else rl_raw l @ q),
     rl_query := View q (if encode keep q = q then InBlocks else RawBuf)\<rparr>)"
  by (simp add: decode_query_def percent_decode_round_trip field_view_def)

lemma reserve_path:
  "rl_path (reserve_raw n l) = (if length (rl_raw l) + n \<le> rl_cap l then rl_path l else lose_view RawBuf (rl_path l))"
  by (simp add: reserve_raw_def Let_def lose_def)

lemma stored_decoded:
  "\<exists>l1. decode_query (encode keep q) (snd (decode_path (encode keep p) l)) = (ok, l1) \<and> stored keep p q l l1"
  by (simp add: decode_path_encode decode_query_encode stored_def reads_def reserve_path path_stays_def lose_view_def)

text \<open>A target without a hash that starts with a slash, with a query or without one, is stored decoded.\<close>

lemma store_target_parts:
  assumes keep: "safe_keep keep" and p: "p \<noteq> []" "hd p = CHR ''/''" and t: "t = encode keep p \<and> q = [] \<or> t = encode keep p @ CHR ''?'' # encode keep q"
  shows "\<exists>l1. store_target t l = (ok, l1) \<and> stored keep p q l l1"
proof -
  have "hd t = CHR ''/''" using keep p t by (cases p) (auto simp: safe_keep_def encode_def)
  moreover have "CHR ''#'' \<notin> set t" using encode_safe [OF keep] t by auto
  ultimately obtain c where c: "regex_match request_target_re t = Some c" "matched c 1"
    "group c 1 = takeWhile (\<lambda>c. c \<noteq> CHR ''?'') t" "group c 2 = tl (dropWhile (\<lambda>c. c \<noteq> CHR ''?'') t)"
    using origin_caps [of t] by blast
  have n: "\<forall>x\<in>set (encode keep p). x \<noteq> CHR ''?''" using encode_safe(3) [OF keep] by metis
  have g: "group c 1 = encode keep p \<and> group c 2 = encode keep q"
    using t
  proof
    assume e: "t = encode keep p \<and> q = []"
    from n have "takeWhile (\<lambda>c. c \<noteq> CHR ''?'') (encode keep p) = encode keep p" "dropWhile (\<lambda>c. c \<noteq> CHR ''?'') (encode keep p) = []"
      by (simp_all only: takeWhile_eq_all_conv dropWhile_eq_Nil_conv)
    moreover have "encode keep [] = []" by (simp add: encode_def)
    ultimately show ?thesis using c(3,4) e by (simp only:) simp
  next
    assume "t = encode keep p @ CHR ''?'' # encode keep q"
    then show ?thesis using c(3,4) n by (simp add: takeWhile_append2 dropWhile_append2)
  qed
  then have "store_target t l = decode_query (encode keep q) (snd (decode_path (encode keep p) l))"
    unfolding store_target_def c(1) option.case by (simp add: c(2) decode_path_encode del: One_nat_def)
  then show ?thesis by (simp add: stored_decoded)
qed

lemma store_target_origin:
  assumes "safe_keep keep" "p \<noteq> []" "hd p = CHR ''/''"
  shows "\<exists>l1. store_target (encode keep p @ CHR ''?'' # encode keep q) l = (ok, l1) \<and> stored keep p q l l1"
  using store_target_parts [OF assms] by blast

lemma request_line_parse_parts:
  assumes "SP \<notin> set mt" "SP \<notin> set t" "CR \<notin> set (mt @ t @ vs)" "regex_match http_version_re vs \<noteq> None"
    and st: "store_target t ((lose InBlocks l)\<lparr>rl_method := method_from_string_view mt\<rparr>) = (ok, l1)"
  shows "request_line_parse l (mt @ SP # t @ SP # vs @ CRLF @ rest)
     = (length mt + length t + length vs + 4, ok, l1\<lparr>rl_version := View vs InBlocks\<rparr>)"
proof -
  let ?ln = "mt @ SP # t @ SP # vs"
  have "find_sub CRLF (?ln @ CRLF @ rest) = Some (length ?ln)"
    by (rule find_CRLF_line) (use assms in auto)
  moreover have "find_sub [SP] ?ln = Some (length mt)" using find_SP [OF assms(1)] by simp
  moreover have "sv_find [SP] ?ln (length mt + 1) = Some (length mt + 1 + length t)"
    using find_SP [OF assms(2)] by (simp add: sv_find_def)
  moreover have "take (length ?ln) (?ln @ CRLF @ rest) = ?ln" by simp
  moreover have "sub ?ln (length mt + 1) (length mt + 1 + length t - length mt - 1) = t"
    "take (length mt) ?ln = mt" "drop (length mt + 1 + length t + 1) ?ln = vs" by (simp_all add: sub_def)
  ultimately show ?thesis
    using assms(4) st unfolding request_line_parse_def sv_find_0 by (simp add: Let_def)
qed

lemma path_stays_lose [simp]: "path_stays keep p q ((lose m l)\<lparr>rl_method := mt\<rparr>) = path_stays keep p q l"
  by (simp add: path_stays_def lose_def)

text \<open>Without a query, and within the first capacity of the buffer, the path is always there.\<close>

lemma path_stays_no_query: "path_stays keep p [] l"
  using encode_length [of p keep] by (auto simp: path_stays_def encode_def reserve_cap_def)

lemma path_stays_short:
  assumes "length (rl_raw l) + length (encode keep p) + length (encode keep q) \<le> rl_cap l"
  shows "path_stays keep p q l"
  using assms encode_length [of p keep] by (auto simp: path_stays_def reserve_cap_def)

text \<open>C26. Request lines round trip, up to the memory of their views: the line written for a valid method, a path that
  starts with a slash and may contain any bytes, a query of any bytes (both percent-encoded by an encoder that escapes
  at least spaces, carriage returns, question marks, hashes and percent signs) and a version is consumed exactly and
  parsed back into that method, query and version, whatever the previous request left. The path can be read back
  exactly when nothing of it was escaped or the buffer of decoded fields has room for the written query behind it;
  otherwise decoding the query moves the buffer, and the path points to memory that was freed.\<close>

theorem request_line_round_trip:
  assumes "method_is_valid mt" "safe_keep keep" "p \<noteq> []" "hd p = CHR ''/''"
    and "a \<in> set ''0123456789''" "b \<in> set ''0123456789''"
    and "txt = method_to_string_view mt @ SP # (encode keep p @ CHR ''?'' # encode keep q) @ SP #
               (''HTTP/'' @ [a, CHR ''.'', b]) @ CRLF"
  shows "\<exists>l'. request_line_parse l (txt @ rest) = (length txt, ok, l') \<and> rl_method l' = mt \<and>
     reads (rl_query l') = Some q \<and> reads (rl_version l') = Some (''HTTP/'' @ [a, CHR ''.'', b]) \<and>
     reads (rl_path l') =
       (if encode keep p = p \<or> length (rl_raw l) + length p + length (encode keep q)
             \<le> reserve_cap (length (rl_raw l) + length (encode keep p)) (rl_cap l)
        then Some p else None)"
proof -
  have m: "SP \<notin> set (method_to_string_view mt)" "CR \<notin> set (method_to_string_view mt)"
    "method_from_string_view (method_to_string_view mt) = mt"
    using assms(1)
    by (cases mt; simp add: method_to_string_view_def method_is_valid_def method_code_def methods_def
        HTTP_METHOD_STR_def method_from_string_view_def)+
  obtain l1 where st: "store_target (encode keep p @ CHR ''?'' # encode keep q) ((lose InBlocks l)\<lparr>rl_method := mt\<rparr>) = (ok, l1)"
    and l1: "stored keep p q ((lose InBlocks l)\<lparr>rl_method := mt\<rparr>) l1"
    using store_target_origin [OF assms(2-4)] by blast
  have v: "regex_match http_version_re (''HTTP/'' @ [a, CHR ''.'', b]) \<noteq> None"
    using assms(5,6) by (intro http_version_accepts) auto
  have "CR \<noteq> a" "CR \<noteq> b" using assms(5,6) by auto
  with request_line_parse_parts [OF m(1) _ _ v, of "encode keep p @ CHR ''?'' # encode keep q" l l1 rest] st m
    encode_safe [OF assms(2)] l1
  show ?thesis unfolding assms(7) path_stays_def [symmetric] by (simp add: stored_def)
qed

lemma safe_slash: "safe_keep {CHR ''/''}"
  by (simp add: safe_keep_def)

theorem request_line_round_trip_witness:
  "(\<exists>l'. request_line_parse request_line_new (''GET /%61%20%3F?%23 HTTP/1.1'' @ CRLF @ ''more'') = (29, ok, l') \<and>
     rl_method l' = GET \<and> reads (rl_path l') = Some ''/a ?'' \<and> reads (rl_query l') = Some ''#'' \<and>
     reads (rl_version l') = Some ''HTTP/1.1'') \<and>
   (\<exists>l'. request_line_parse request_line_new (''GET /%61?%61%61%61%61%61 HTTP/1.1'' @ CRLF) = (35, ok, l') \<and>
     reads (rl_path l') = None \<and> reads (rl_query l') = Some ''aaaaa'')"
proof -
  have m: "method_is_valid GET" "method_to_string_view GET = ''GET''"
    by (simp_all add: method_is_valid_def method_code_def methods_def HTTP_METHOD_COUNT_def
        method_to_string_view_def HTTP_METHOD_STR_def)
  have e: "encode {CHR ''/''} ''/a ?'' = ''/%61%20%3F''" "encode {CHR ''/''} ''#'' = ''%23''"
    "encode {CHR ''/''} ''/a'' = ''/%61''" "encode {CHR ''/''} ''aaaaa'' = ''%61%61%61%61%61''"
    by (simp_all add: encode_def pct_def hex_char_def)
  note rt = request_line_round_trip [OF m(1) safe_slash, where a = "CHR ''1''" and b = "CHR ''1''" and l = request_line_new]
  have "\<exists>l'. request_line_parse request_line_new (''GET /%61%20%3F?%23 HTTP/1.1'' @ CRLF @ ''more'') = (29, ok, l') \<and>
     rl_method l' = GET \<and> reads (rl_path l') = Some ''/a ?'' \<and> reads (rl_query l') = Some ''#'' \<and>
     reads (rl_version l') = Some ''HTTP/1.1''"
    using rt [of "''/a ?''" "''GET /%61%20%3F?%23 HTTP/1.1'' @ CRLF" "''#''" "''more''"]
    by (auto simp: m(2) e eval_nat_numeral request_line_new_def string_capacity_def reserve_cap_def)
  moreover have "\<exists>l'. request_line_parse request_line_new (''GET /%61?%61%61%61%61%61 HTTP/1.1'' @ CRLF) = (35, ok, l') \<and>
     reads (rl_path l') = None \<and> reads (rl_query l') = Some ''aaaaa''"
    using rt [of "''/a''" "''GET /%61?%61%61%61%61%61 HTTP/1.1'' @ CRLF" "''aaaaa''" "[]"]
    by (auto simp: m(2) e eval_nat_numeral request_line_new_def string_capacity_def reserve_cap_def)
  ultimately show ?thesis ..
qed

text \<open>A target that matches no form is not refused: the line is accepted and no field of the target is set. A path
  of the previous request that was decoded is used again, since its buffer is kept; one that was not decoded points
  into blocks that hold other bytes by then.\<close>

lemma unmatched_target_not_stored:
  assumes "regex_match request_target_re t = None" "SP \<notin> set mt" "SP \<notin> set t" "CR \<notin> set (mt @ t @ vs)"
    and "regex_match http_version_re vs \<noteq> None"
  shows "\<exists>l'. request_line_parse l (mt @ SP # t @ SP # vs @ CRLF @ rest) = (length mt + length t + length vs + 4, ok, l') \<and>
     rl_method l' = method_from_string_view mt \<and> reads (rl_version l') = Some vs \<and>
     reads (rl_path l') = (if mem_of (rl_path l) = InBlocks then None else reads (rl_path l))"
proof -
  let ?l = "(lose InBlocks l)\<lparr>rl_method := method_from_string_view mt\<rparr>"
  have "store_target t ?l = (ok, ?l)" by (simp add: store_target_def assms(1))
  from request_line_parse_parts [OF assms(2-5) this, of rest] show ?thesis
    by (simp add: reads_def lose_def lose_view_def)
qed

lemma unmatched_target_example:
  "\<exists>l'. request_line_parse example_line (''GET x:y HTTP/1.1'' @ CRLF) = (18, ok, l') \<and> reads (rl_path l') = Some ''/a b''"
proof -
  have 1: "regex_match request_target_re ''x:y'' = None" by code_simp
  have 2: "regex_match http_version_re ''HTTP/1.1'' \<noteq> None"
    using http_version_accepts [of "CHR ''1''" "CHR ''1''"] by simp
  have "mem_of (rl_path example_line) = RawBuf" "reads (rl_path example_line) = Some ''/a b''"
    by (simp_all add: example_line_def reads_def)
  with unmatched_target_not_stored [OF 1 _ _ _ 2, of "''GET''" example_line "[]"] show ?thesis by auto
qed

end
