(* ===== verification/Http_Response.thy ===== *)
theory Http_Response
  imports Http_Lines
begin

text \<open>
  Building messages: the header store \<^verbatim>\<open>SmallHeaderMap\<close>, \<^verbatim>\<open>ResponsePart\<close> with its two renderers
  (\<^verbatim>\<open>include/xsl/asio/http/response.h\<close>, \<^verbatim>\<open>src/asio/http/response.cpp\<close>) and the request builder
  \<^verbatim>\<open>RequestPartBuilder\<close> (\<^verbatim>\<open>include/xsl/asio/http/request.h\<close>, \<^verbatim>\<open>src/asio/http/request.cpp\<close>). What they
  print is read back by the head reader.
\<close>

section \<open>The header store\<close>

definition inline_capacity :: nat where "inline_capacity = 8"
definition key_buffer_size :: nat where "key_buffer_size = 40"
definition value_buffer_size :: nat where "value_buffer_size = 64"

text \<open>A slot holds copies that fit its buffers, so it is modelled by the two texts.\<close>

record small_header_map =
  slots :: "(string \<times> string) list"
  overflow :: "(string \<times> string) list"

definition shm_new :: small_header_map where
  "shm_new = \<lparr>slots = [], overflow = []\<rparr>"

definition shm_contains :: "small_header_map \<Rightarrow> string \<Rightarrow> bool" where
  "shm_contains m k \<longleftrightarrow> list_ex (\<lambda>e. fst e = k) (slots m) \<or> list_ex (\<lambda>e. fst e = k) (overflow m)"

definition shm_emplace :: "string \<Rightarrow> string \<Rightarrow> small_header_map \<Rightarrow> bool \<times> small_header_map" where
  "shm_emplace k v m =
     (if shm_contains m k then (False, m)
      else if length (slots m) < inline_capacity \<and> length k \<le> key_buffer_size \<and> length v \<le> value_buffer_size
      then (True, m\<lparr>slots := slots m @ [(k, v)]\<rparr>)
      else (True, m\<lparr>overflow := overflow m @ [(k, v)]\<rparr>))"

definition shm_size :: "small_header_map \<Rightarrow> nat" where
  "shm_size m = length (slots m) + length (overflow m)"

definition shm_entry :: "small_header_map \<Rightarrow> nat \<Rightarrow> string \<times> string" where
  "shm_entry m i = (if i < length (slots m) then slots m ! i else overflow m ! (i - length (slots m)))"

definition shm_entries :: "small_header_map \<Rightarrow> (string \<times> string) list" where
  "shm_entries m = map (shm_entry m) [0..<shm_size m]"

definition shm_inv :: "small_header_map \<Rightarrow> bool" where
  "shm_inv m \<longleftrightarrow> length (slots m) \<le> inline_capacity \<and> distinct (map fst (slots m @ overflow m)) \<and>
     (\<forall>e\<in>set (slots m). length (fst e) \<le> key_buffer_size \<and> length (snd e) \<le> value_buffer_size)"

lemma shm_entries_eq: "shm_entries m = slots m @ overflow m"
  by (rule nth_equalityI) (auto simp: shm_entries_def shm_entry_def shm_size_def nth_append)

text \<open>
  The interface the response code relies on: a store in which the first value of a key wins. Its
  entries are what is printed.
\<close>

locale header_store =
  fixes emplace :: "string \<Rightarrow> string \<Rightarrow> 's \<Rightarrow> bool \<times> 's" and contains :: "'s \<Rightarrow> string \<Rightarrow> bool"
    and entries :: "'s \<Rightarrow> (string \<times> string) list" and inv :: "'s \<Rightarrow> bool"
  assumes keys_distinct: "inv s \<Longrightarrow> distinct (map fst (entries s))"
    and contains_law: "inv s \<Longrightarrow> contains s k \<longleftrightarrow> k \<in> fst ` set (entries s)"
    and emplace_law: "inv s \<Longrightarrow> emplace k v s = (b, s') \<Longrightarrow>
        inv s' \<and> (b \<longleftrightarrow> \<not> contains s k) \<and>
        map_of (entries s') = (if contains s k then map_of (entries s) else (map_of (entries s))(k \<mapsto> v))"
begin

lemma first_wins:
  assumes "inv s" "emplace k v s = (b, s')" "emplace k u s' = (c, s'')"
  shows "\<not> c \<and> map_of (entries s'') = map_of (entries s')"
proof -
  note 1 = emplace_law [OF assms(1,2)]
  have "map_of (entries s') k \<noteq> None"
    using 1 contains_law [OF assms(1), of k] by (cases "contains s k") (simp_all add: map_of_eq_None_iff)
  then have "k \<in> fst ` set (entries s')" by (metis map_of_eq_None_iff)
  then have "contains s' k" using contains_law [of s' k] 1 by blast
  with emplace_law [of s' k u c s''] 1 assms(3) show ?thesis by simp
qed

end

interpretation shm: header_store shm_emplace shm_contains shm_entries shm_inv
proof
  fix s s' :: small_header_map and k v b
  assume inv: "shm_inv s"
  then show "distinct (map fst (shm_entries s))" by (simp add: shm_inv_def shm_entries_eq)
  show c: "shm_contains s k \<longleftrightarrow> k \<in> fst ` set (shm_entries s)"
    by (auto simp: shm_contains_def shm_entries_eq list_ex_iff image_iff)
  assume e: "shm_emplace k v s = (b, s')"
  have upd: "map_of (xs @ (k, v) # ys) = (map_of (xs @ ys))(k \<mapsto> v)" if "k \<notin> fst ` set xs" for xs ys :: "(string \<times> string) list"
    using that by (induction xs) (auto simp: fun_eq_iff)
  show "shm_inv s' \<and> (b \<longleftrightarrow> \<not> shm_contains s k) \<and>
      map_of (shm_entries s') = (if shm_contains s k then map_of (shm_entries s) else (map_of (shm_entries s))(k \<mapsto> v))"
  proof (cases "shm_contains s k")
    case True
    with e inv show ?thesis by (simp add: shm_emplace_def)
  next
    case False
    then have k: "k \<notin> fst ` set (slots s)" "k \<notin> fst ` set (overflow s)" using c by (auto simp: shm_entries_eq)
    then have u: "map_of (slots s @ (k, v) # overflow s) = (map_of (slots s @ overflow s))(k \<mapsto> v)"
      "map_of (slots s @ overflow s @ [(k, v)]) = (map_of (slots s @ overflow s))(k \<mapsto> v)"
      using upd [of "slots s" "overflow s"] upd [of "slots s @ overflow s" "[]"] by (auto simp del: map_of_append)
    show ?thesis
    proof (cases "length (slots s) < inline_capacity \<and> length k \<le> key_buffer_size \<and> length v \<le> value_buffer_size")
      case True
      then have s': "b" "s' = s\<lparr>slots := slots s @ [(k, v)]\<rparr>" using False e by (auto simp: shm_emplace_def)
      have "shm_inv s'" using inv True k unfolding s'(2) shm_inv_def by (simp add: Int_commute)
      then show ?thesis using s' False u(1) by (simp add: shm_entries_eq del: map_of_append)
    next
      case ov: False
      then have s': "b" "s' = s\<lparr>overflow := overflow s @ [(k, v)]\<rparr>" using False e by (auto simp: shm_emplace_def)
      have "shm_inv s'" using inv k unfolding s'(2) shm_inv_def by simp
      then show ?thesis using s' False u(2) by (simp add: shm_entries_eq del: map_of_append)
    qed
  qed
qed

section \<open>The response head\<close>

definition API_VERSION :: string where
  "API_VERSION = ''XSL/0.1''"

record response_part =
  status_code :: nat
  status_message :: string
  version :: version
  part_headers :: small_header_map

definition response_part :: "version \<Rightarrow> nat \<Rightarrow> string \<Rightarrow> response_part" where
  "response_part ver st msg = \<lparr>status_code = st, status_message = msg, version = ver, part_headers = shm_new\<rparr>"

text \<open>\<^verbatim>\<open>ResponsePart(Status)\<close>: \<^term>\<open>None\<close> is the reason phrase table read out of range.\<close>

definition response_part_of :: "nat \<Rightarrow> response_part option" where
  "response_part_of st = map_option (response_part HTTP_1_1 st) (status_to_reason_phrase st)"

text \<open>The texts the renderers append, in order; the index of \<^verbatim>\<open>to_string_view\<close> is always in range.\<close>

definition head_pieces :: "response_part \<Rightarrow> string list" where
  "head_pieces p =
     [version_to_string_view (version p), '' '', the (status_to_string_view (status_code p)), '' '',
      status_message p, CRLF]
     @ concat (map (\<lambda>i. let e = shm_entry (part_headers p) i in [fst e, '': '', snd e, CRLF])
                   [0..<shm_size (part_headers p)])
     @ (if \<not> shm_contains (part_headers p) ''Server'' then [''Server: '', API_VERSION, CRLF] else [])
     @ [CRLF]"

definition to_string :: "response_part \<Rightarrow> string" where
  "to_string p = fold (\<lambda>x res. res @ x) (head_pieces p) []"

definition rh_append :: "nat \<Rightarrow> string \<Rightarrow> string option \<Rightarrow> string option" where
  "rh_append cap sv st =
     (case st of None \<Rightarrow> None | Some buf \<Rightarrow> if length buf + length sv > cap then None else Some (buf @ sv))"

definition render_head :: "nat \<Rightarrow> response_part \<Rightarrow> string" where
  "render_head cap p = (case fold (rh_append cap) (head_pieces p) (Some []) of None \<Rightarrow> [] | Some buf \<Rightarrow> buf)"

lemma to_string_concat: "to_string p = concat (head_pieces p)"
proof -
  have "fold (\<lambda>x res. res @ x) xs a = a @ concat xs" for xs and a :: string
    by (induction xs arbitrary: a) auto
  then show ?thesis by (simp add: to_string_def)
qed

lemma rh_append_None: "fold (rh_append cap) xs None = None"
  by (induction xs) (auto simp: rh_append_def)

lemma rh_append_Some: "rh_append cap x (Some a) = (if length a + length x > cap then None else Some (a @ x))"
  by (simp add: rh_append_def)

lemma render_fold:
  "length a \<le> cap \<Longrightarrow> fold (rh_append cap) xs (Some a) =
     (if length a + length (concat xs) \<le> cap then Some (a @ concat xs) else None)"
proof (induction xs arbitrary: a)
  case (Cons x xs)
  then show ?case by (simp add: rh_append_Some rh_append_None)
qed simp

text \<open>The zero-allocation renderer agrees with the string renderer: \<^verbatim>\<open>render_head\<close> gives exactly the text of
  \<^verbatim>\<open>to_string\<close> when it fits the buffer, and the empty view otherwise; since a head is never empty the
  caller can tell the two apart.\<close>

lemma render_head_to_string:
  "render_head cap p = (if length (to_string p) \<le> cap then to_string p else []) \<and> to_string p \<noteq> []"
proof
  show "render_head cap p = (if length (to_string p) \<le> cap then to_string p else [])"
    using render_fold [of "[]" cap "head_pieces p"] by (simp add: render_head_def to_string_concat)
  show "to_string p \<noteq> []" by (simp add: to_string_concat head_pieces_def)
qed

section \<open>What is printed is what is read\<close>

definition printed_headers :: "response_part \<Rightarrow> (string \<times> string) list" where
  "printed_headers p = shm_entries (part_headers p) @
     (if shm_contains (part_headers p) ''Server'' then [] else [(''Server'', API_VERSION)])"

lemma print_pieces: "concat (concat (map (\<lambda>e. [fst e, '': '', snd e, CRLF]) es)) = print_headers es"
  by (induction es) (auto simp: print_headers_def)

lemma print_headers_append: "print_headers (xs @ ys) = print_headers xs @ print_headers ys"
  by (simp add: print_headers_def)

lemma to_string_lines:
  "to_string p = (version_to_string_view (version p) @ SP # the (status_to_string_view (status_code p)) @ SP #
     status_message p) @ CRLF @ print_headers (printed_headers p) @ CRLF"
proof -
  have "concat (map (\<lambda>i. let e = shm_entry m i in [fst e, '': '', snd e, CRLF]) [0..<shm_size m])
      = concat (map (\<lambda>e. [fst e, '': '', snd e, CRLF]) (shm_entries m))" for m
    by (simp add: shm_entries_def comp_def Let_def)
  then show ?thesis
    by (simp add: to_string_concat head_pieces_def printed_headers_def print_pieces print_headers_append)
      (simp add: print_headers_def)
qed

definition plain_version :: "version \<Rightarrow> bool" where
  "plain_version v \<longleftrightarrow> v \<in> {HTTP_1_0, HTTP_1_1, HTTP_2_0}"

lemma plain_version_text:
  assumes "plain_version v"
  shows "SP \<notin> set (version_to_string_view v)" "CR \<notin> set (version_to_string_view v)"
    "regex_match http_version_re (version_to_string_view v) \<noteq> None" "length (version_to_string_view v) = 8"
proof -
  have "version_to_string_view v \<in> {''HTTP/1.0'', ''HTTP/1.1'', ''HTTP/2.0''}"
    using assms by (auto simp: plain_version_def HTTP_VERSION_STR_def)
  then show "SP \<notin> set (version_to_string_view v)" "CR \<notin> set (version_to_string_view v)"
    "regex_match http_version_re (version_to_string_view v) \<noteq> None" "length (version_to_string_view v) = 8"
    using http_version_accepts [of "CHR ''1''" "CHR ''0''"] http_version_accepts [of "CHR ''1''" "CHR ''1''"]
      http_version_accepts [of "CHR ''2''" "CHR ''0''"] by auto
qed

lemma status_line_parse_parts:
  assumes "SP \<notin> set vs" "SP \<notin> set st" "CR \<notin> set (vs @ st @ msg)" "regex_match http_version_re vs \<noteq> None"
    and "status_from_string_view st \<noteq> STATUS_UNKNOWN"
  shows "status_line_parse l ((vs @ SP # st @ SP # msg) @ CRLF @ rest) =
     (length vs + length st + length msg + 4, ok,
      \<lparr>sl_version = vs, sl_status_code = status_from_string_view st, sl_status_message = msg\<rparr>)"
proof -
  let ?ln = "vs @ SP # st @ SP # msg"
  have "find_sub CRLF (?ln @ CRLF @ rest) = Some (length ?ln)"
    by (rule find_CRLF_line) (use assms in auto)
  moreover have "find_sub [SP] ?ln = Some (length vs)" using find_SP [OF assms(1)] by simp
  moreover have "sv_find [SP] ?ln (length vs + 1) = Some (length vs + 1 + length st)"
    using find_SP [OF assms(2)] by (simp add: sv_find_def)
  moreover have "take (length ?ln) (?ln @ CRLF @ rest) = ?ln" by simp
  moreover have "sub ?ln (length vs + 1) (length vs + 1 + length st - length vs - 1) = st"
    "take (length vs) ?ln = vs" "drop (length vs + 1 + length st + 1) ?ln = msg" by (simp_all add: sub_def)
  ultimately show ?thesis
    using assms(4,5) unfolding status_line_parse_def sv_find_0 by (cases l) (simp add: Let_def)
qed

lemma line_cut: "take (length a + 2) (a @ CRLF @ t) = a @ CRLF" "drop (length a + 2) (a @ CRLF @ t) = t"
  by simp_all

lemma spec_head_response:
  assumes v: "plain_version (version p)" and st: "status_code p \<in> set status_codes"
    and msg: "CR \<notin> set (status_message p)" "length (status_message p) \<le> 4000"
    and hs: "list_all header_ok (shm_entries (part_headers p))"
  shows "spec_head status_line_parse l (to_string p @ body) =
     Done (\<lparr>sl_version = version_to_string_view (version p), sl_status_code = status_code p,
            sl_status_message = status_message p\<rparr>, printed_headers p) body"
proof -
  obtain s where s: "status_to_string_view (status_code p) = Some s" "status_from_string_view s = status_code p"
    "s \<in> set (take 44 HTTP_STATUS_STR)" using status_text [OF st] by blast
  note sp = status_text_plain [OF s(3)] and vt = plain_version_text [OF v]
  let ?ln = "version_to_string_view (version p) @ SP # s @ SP # status_message p"
  let ?hs = "print_headers (printed_headers p) @ CRLF @ body"
  have "status_code p \<noteq> STATUS_UNKNOWN" using st by (auto simp: status_codes_def STATUS_UNKNOWN_def)
  then have pl: "status_line_parse l (?ln @ CRLF @ r) = (length ?ln + 2, ok,
      \<lparr>sl_version = version_to_string_view (version p), sl_status_code = status_code p, sl_status_message = status_message p\<rparr>)" for r
    using status_line_parse_parts [OF vt(1) _ _ vt(3), of s "status_message p" l r] sp vt(2) msg s(2) by simp
  have f: "find_sub CRLF (?ln @ CRLF @ ?hs) = Some (length ?ln)"
    by (rule find_CRLF_line) (use sp vt msg in auto)
  have tk: "take (length ?ln + 2) (?ln @ CRLF @ ?hs) = ?ln @ CRLF @ []" "drop (length ?ln + 2) (?ln @ CRLF @ ?hs) = ?hs"
    using line_cut [of ?ln ?hs] by auto
  have len: "length ?ln + 2 \<le> HTTP_BUFFER_BLOCK_SIZE"
    using sp vt(4) msg(2) by (simp add: HTTP_BUFFER_BLOCK_SIZE_def)
  have "spec_line status_line_parse l (?ln @ CRLF @ ?hs) =
      Done \<lparr>sl_version = version_to_string_view (version p), sl_status_code = status_code p, sl_status_message = status_message p\<rparr> ?hs"
    unfolding spec_line_def f using len by (simp only: option.case tk pl) simp
  moreover have "list_all header_ok (printed_headers p)"
    using hs by (simp add: printed_headers_def header_ok_def API_VERSION_def HTTP_BUFFER_BLOCK_SIZE_def)
  moreover have "to_string p @ body = ?ln @ CRLF @ ?hs" using s(1) by (simp add: to_string_lines)
  ultimately show ?thesis using spec_rest_print [of "printed_headers p" body "[]"] by (simp add: spec_head_def)
qed

lemma printed_headers_rev:
  assumes "shm_inv (part_headers p)"
  shows "map_of (rev (printed_headers p)) = map_of (printed_headers p)"
proof -
  have "distinct (map fst (printed_headers p))"
    using shm.keys_distinct [OF assms] shm.contains_law [OF assms, of "''Server''"] by (simp add: printed_headers_def)
  then show ?thesis
    using map_of_inject_set [of "rev (printed_headers p)" "printed_headers p"] by (simp add: rev_map [symmetric])
qed

text \<open>C22. Responses round trip between server and client: the head that the response builder prints for a known
  status and headers without line breaks, followed by any body and cut into chunks in any way, is read
  back by the client as the same version, status and message, with every header found under its name
  (and the default server name when the response did not set one), and the body is what remains.\<close>

theorem response_round_trip:
  assumes "plain_version (version p)" "status_code p \<in> set status_codes" "CR \<notin> set (status_message p)"
    and "length (status_message p) \<le> 4000" "list_all header_ok (shm_entries (part_headers p))" "shm_inv (part_headers p)"
    and "[] \<notin> set cs" "concat cs = to_string p @ body"
  shows "\<exists>m r. read status_line_parse (message_new l) \<lparr>chunks = cs, at_end = e\<rparr> = (ok, m, r) \<and>
     line m = \<lparr>sl_version = version_to_string_view (version p), sl_status_code = status_code p,
               sl_status_message = status_message p\<rparr> \<and>
     get_header m = map_of (printed_headers p) \<and> pending m r = body"
proof -
  let ?r = "\<lparr>chunks = cs, at_end = e\<rparr>"
  obtain ec m r where rd: "read status_line_parse (message_new l) ?r = (ec, m, r)" using prod_cases3 by blast
  have "reader_ok ?r" using assms(7) by (simp add: reader_ok_def)
  with printed_headers_rev [OF assms(6)] show ?thesis
    using response_head.read_spec [OF msg_wf_new _ rd] spec_head_response [OF assms(1-5), of l body] rd assms(8)
    by simp
qed

lemma to_string_ne: "to_string p \<noteq> []"
  by (simp add: to_string_concat head_pieces_def)

theorem response_round_trip_witness:
  "\<exists>m r. read status_line_parse (message_new status_line_new)
      \<lparr>chunks = [to_string ((response_part HTTP_1_1 200 ''OK'')\<lparr>part_headers := \<lparr>slots = [(''A'', ''b'')], overflow = []\<rparr>\<rparr>), ''hi''],
       at_end = not_connected\<rparr> = (ok, m, r) \<and>
     sl_status_code (line m) = 200 \<and> get_header m ''A'' = Some ''b'' \<and> get_header m ''Server'' = Some ''XSL/0.1'' \<and>
     pending m r = ''hi''"
proof -
  define p where "p = (response_part HTTP_1_1 200 ''OK'')\<lparr>part_headers := \<lparr>slots = [(''A'', ''b'')], overflow = []\<rparr>\<rparr>"
  have a: "plain_version (version p)" "status_code p \<in> set status_codes" "CR \<notin> set (status_message p)"
    "length (status_message p) \<le> 4000" "list_all header_ok (shm_entries (part_headers p))" "shm_inv (part_headers p)"
    by (simp_all add: p_def response_part_def plain_version_def status_codes_def shm_entries_eq header_ok_def
        HTTP_BUFFER_BLOCK_SIZE_def shm_inv_def inline_capacity_def key_buffer_size_def value_buffer_size_def)
  have "printed_headers p = [(''A'', ''b''), (''Server'', ''XSL/0.1'')]" "status_code p = 200"
    by (simp_all add: printed_headers_def p_def response_part_def shm_entries_eq shm_contains_def API_VERSION_def)
  then show ?thesis
    using response_round_trip [OF a, of "[to_string p, ''hi'']" "''hi''" status_line_new not_connected] to_string_ne [of p]
    unfolding p_def [symmetric] by auto
qed

section \<open>The request builder\<close>

record request_builder =
  rb_raw :: "string list"
  rb_offset :: nat

definition request_builder_new :: request_builder where
  "request_builder_new = \<lparr>rb_raw = [new_block], rb_offset = 0\<rparr>"

definition back_write :: "nat \<Rightarrow> string \<Rightarrow> string list \<Rightarrow> string list" where
  "back_write off s raw = butlast raw @ [blit (last raw) off s]"

definition check_append :: "request_builder \<Rightarrow> request_builder" where
  "check_append b = (if rb_offset b = HTTP_BUFFER_BLOCK_SIZE then \<lparr>rb_raw = rb_raw b @ [new_block], rb_offset = 0\<rparr> else b)"

definition append_char :: "char \<Rightarrow> request_builder \<Rightarrow> request_builder" where
  "append_char c b =
     (let b1 = check_append b
      in \<lparr>rb_raw = back_write (rb_offset b1) [c] (rb_raw b1), rb_offset = rb_offset b1 + 1\<rparr>)"

text \<open>The loop over whole blocks; \<^term>\<open>None\<close> is a loop that never ends.\<close>

partial_function (option) rb_loop :: "string list \<Rightarrow> string \<Rightarrow> string list option" where
  "rb_loop raw data =
     (if length data > HTTP_BUFFER_BLOCK_SIZE
      then rb_loop (back_write 0 (take HTTP_BUFFER_BLOCK_SIZE data) raw @ [new_block]) data
      else Some raw)"

definition append_str :: "string \<Rightarrow> request_builder \<Rightarrow> request_builder option" where
  "append_str str b =
     (if str = [] then Some b
      else let b1 = check_append b
           in if rb_offset b1 + length str \<le> HTTP_BUFFER_BLOCK_SIZE
              then Some \<lparr>rb_raw = back_write (rb_offset b1) str (rb_raw b1), rb_offset = rb_offset b1 + length str\<rparr>
              else let remaining = HTTP_BUFFER_BLOCK_SIZE - rb_offset b1;
                       raw = back_write (rb_offset b1) (take remaining str) (rb_raw b1) @ [new_block];
                       data = drop remaining str
                   in case rb_loop raw data of
                        None \<Rightarrow> None
                      | Some raw' \<Rightarrow>
                          Some (if data \<noteq> [] then \<lparr>rb_raw = back_write 0 data raw', rb_offset = length data\<rparr>
                                else \<lparr>rb_raw = raw', rb_offset = rb_offset b1\<rparr>))"

text \<open>The bytes \<^verbatim>\<open>to_string\<close> and \<^verbatim>\<open>write\<close> take from the blocks, without the final line end.\<close>

definition rb_text :: "request_builder \<Rightarrow> string" where
  "rb_text b = concat (butlast (rb_raw b)) @ take (rb_offset b) (last (rb_raw b))"

definition rb_to_string :: "request_builder \<Rightarrow> string" where
  "rb_to_string b = rb_text b @ CRLF"

fun append_all :: "string list \<Rightarrow> request_builder \<Rightarrow> request_builder option" where
  "append_all [] b = Some b"
| "append_all (s # ss) b = (case append_str s b of None \<Rightarrow> None | Some b' \<Rightarrow> append_all ss b')"

definition set_method :: "http_method \<Rightarrow> request_builder \<Rightarrow> request_builder option" where
  "set_method m b = append_str (method_to_string_view m) b"

definition set_target :: "string \<Rightarrow> request_builder \<Rightarrow> request_builder option" where
  "set_target t b = append_str t (append_char SP b)"

definition set_version :: "version \<Rightarrow> request_builder \<Rightarrow> request_builder option" where
  "set_version v b = append_all [version_to_string_view v, CRLF] (append_char SP b)"

definition add_header :: "string \<Rightarrow> string \<Rightarrow> request_builder \<Rightarrow> request_builder option" where
  "add_header k v b = append_all [k, '': '', v, CRLF] b"

definition rb_inv :: "request_builder \<Rightarrow> bool" where
  "rb_inv b \<longleftrightarrow> rb_raw b \<noteq> [] \<and> (\<forall>x\<in>set (rb_raw b). length x = HTTP_BUFFER_BLOCK_SIZE) \<and>
     rb_offset b \<le> HTTP_BUFFER_BLOCK_SIZE"

lemma rb_loop_diverges:
  assumes "length data > HTTP_BUFFER_BLOCK_SIZE"
  shows "rb_loop raw data = None"
proof -
  have "length data \<le> HTTP_BUFFER_BLOCK_SIZE" if "rb_loop raw data = Some r" for r
  proof (rule rb_loop.raw_induct [of "\<lambda>raw data r. length data \<le> HTTP_BUFFER_BLOCK_SIZE", OF _ that])
    fix loop raw data y
    assume "\<And>raw data y. loop raw data = Some y \<Longrightarrow> length data \<le> HTTP_BUFFER_BLOCK_SIZE"
      and "(if length data > HTTP_BUFFER_BLOCK_SIZE
        then loop (back_write 0 (take HTTP_BUFFER_BLOCK_SIZE data) raw @ [new_block]) data else Some raw) = Some y"
    then show "length data \<le> HTTP_BUFFER_BLOCK_SIZE" by (cases "length data > HTTP_BUFFER_BLOCK_SIZE") auto
  qed
  with assms show ?thesis by (cases "rb_loop raw data") auto
qed

lemma rb_loop_small: "length data \<le> HTTP_BUFFER_BLOCK_SIZE \<Longrightarrow> rb_loop raw data = Some raw"
  by (simp add: rb_loop.simps)

lemma check_append_ok:
  assumes "rb_inv b"
  shows "rb_inv (check_append b) \<and> rb_text (check_append b) = rb_text b \<and> rb_offset (check_append b) < HTTP_BUFFER_BLOCK_SIZE"
proof -
  have "concat (rb_raw b) = rb_text b" if "rb_offset b = HTTP_BUFFER_BLOCK_SIZE"
  proof -
    have "last (rb_raw b) \<in> set (rb_raw b)" using assms by (simp add: rb_inv_def)
    then have "length (last (rb_raw b)) = HTTP_BUFFER_BLOCK_SIZE" using assms by (simp add: rb_inv_def)
    moreover have "concat (rb_raw b) = concat (butlast (rb_raw b)) @ last (rb_raw b)"
      using assms by (metis append_butlast_last_id concat.simps concat_append append.right_neutral rb_inv_def)
    ultimately show ?thesis using that by (simp add: rb_text_def)
  qed
  then show ?thesis using assms by (auto simp: check_append_def rb_inv_def rb_text_def)
qed

lemma back_write_ok:
  assumes "rb_inv b" "rb_offset b + length s \<le> HTTP_BUFFER_BLOCK_SIZE"
  shows "rb_inv \<lparr>rb_raw = back_write (rb_offset b) s (rb_raw b), rb_offset = rb_offset b + length s\<rparr> \<and>
     rb_text \<lparr>rb_raw = back_write (rb_offset b) s (rb_raw b), rb_offset = rb_offset b + length s\<rparr> = rb_text b @ s"
proof -
  have l: "length (last (rb_raw b)) = HTTP_BUFFER_BLOCK_SIZE" using assms by (simp add: rb_inv_def)
  then have "take (rb_offset b + length s) (blit (last (rb_raw b)) (rb_offset b) s) = take (rb_offset b) (last (rb_raw b)) @ s"
    using assms(2) by (simp add: blit_def)
  with l assms show ?thesis
    by (auto simp: rb_inv_def rb_text_def back_write_def dest: in_set_butlastD)
qed

lemma append_char_ok: "rb_inv b \<Longrightarrow> rb_inv (append_char c b) \<and> rb_text (append_char c b) = rb_text b @ [c]"
  using check_append_ok [of b] back_write_ok [of "check_append b" "[c]"] by (simp add: append_char_def Let_def)

lemma append_split_ok:
  assumes inv: "rb_inv b" and over: "HTTP_BUFFER_BLOCK_SIZE < rb_offset b + length str"
    and fit: "rb_offset b + length str \<le> 2 * HTTP_BUFFER_BLOCK_SIZE"
    and k: "k = HTTP_BUFFER_BLOCK_SIZE - rb_offset b"
    and b': "b' = \<lparr>rb_raw = back_write 0 (drop k str) (back_write (rb_offset b) (take k str) (rb_raw b) @ [new_block]),
                  rb_offset = length (drop k str)\<rparr>"
  shows "rb_inv b' \<and> rb_text b' = rb_text b @ str"
proof -
  have off: "rb_offset b \<le> HTTP_BUFFER_BLOCK_SIZE" using inv by (simp add: rb_inv_def)
  let ?b1 = "\<lparr>rb_raw = back_write (rb_offset b) (take k str) (rb_raw b), rb_offset = rb_offset b + length (take k str)\<rparr>"
  have kl: "rb_offset b + length (take k str) = HTTP_BUFFER_BLOCK_SIZE" using k over off by simp
  have 1: "rb_inv ?b1" "rb_text ?b1 = rb_text b @ take k str" using back_write_ok [OF inv, of "take k str"] kl by auto
  let ?b2 = "\<lparr>rb_raw = rb_raw ?b1 @ [new_block], rb_offset = 0\<rparr>"
  have "?b2 = check_append ?b1" using kl by (simp add: check_append_def)
  then have 2: "rb_inv ?b2" "rb_text ?b2 = rb_text b @ take k str" using check_append_ok [OF 1(1)] 1(2) by auto
  show ?thesis using back_write_ok [OF 2(1), of "drop k str"] 2(2) fit k b' off by simp
qed

lemma append_str_exact:
  assumes inv: "rb_inv b"
  shows "if rb_offset (check_append b) + length str \<le> 2 * HTTP_BUFFER_BLOCK_SIZE
     then \<exists>b'. append_str str b = Some b' \<and> rb_inv b' \<and> rb_text b' = rb_text b @ str
     else append_str str b = None"
proof (cases "str = []")
  case True
  with inv check_append_ok [OF inv] show ?thesis by (simp add: append_str_def)
next
  case False
  let ?b = "check_append b"
  note ck = check_append_ok [OF inv]
  show ?thesis
  proof (cases "rb_offset ?b + length str \<le> HTTP_BUFFER_BLOCK_SIZE")
    case True
    with False back_write_ok [of ?b str] ck show ?thesis by (simp add: append_str_def Let_def)
  next
    case over: False
    let ?k = "HTTP_BUFFER_BLOCK_SIZE - rb_offset ?b"
    have d: "drop ?k str \<noteq> []" using over ck by auto
    show ?thesis
    proof (cases "rb_offset ?b + length str \<le> 2 * HTTP_BUFFER_BLOCK_SIZE")
      case True
      then have "length (drop ?k str) \<le> HTTP_BUFFER_BLOCK_SIZE" using ck by simp
      from rb_loop_small [OF this] append_split_ok [of ?b str ?k, OF _ _ True refl refl] over False d ck True
      show ?thesis by (simp add: append_str_def Let_def)
    next
      case big: False
      then have "length (drop ?k str) > HTTP_BUFFER_BLOCK_SIZE" using ck by simp
      from rb_loop_diverges [OF this] over False big show ?thesis by (simp add: append_str_def Let_def)
    qed
  qed
qed

text \<open>C37. The request builder appends exactly, up to one extra block: an append that needs at most one new block
  keeps the builder well formed and adds exactly the given text; an append that needs more never returns,
  because the loop over whole blocks does not advance in the data.\<close>

theorem request_append_exact:
  assumes "rb_inv b"
  shows "if rb_offset (check_append b) + length str \<le> 2 * HTTP_BUFFER_BLOCK_SIZE
     then \<exists>b'. append_str str b = Some b' \<and> rb_inv b' \<and> rb_text b' = rb_text b @ str
     else append_str str b = None"
  by (rule append_str_exact [OF assms])

lemma rb_inv_new: "rb_inv request_builder_new" "rb_text request_builder_new = []"
  "rb_offset (check_append request_builder_new) = 0"
  by (simp_all add: rb_inv_def request_builder_new_def rb_text_def check_append_def HTTP_BUFFER_BLOCK_SIZE_def)

theorem request_append_exact_witness:
  "(\<exists>b'. append_str ''GET'' request_builder_new = Some b' \<and> rb_text b' = ''GET'') \<and>
   append_str (replicate 9000 (CHR ''x'')) request_builder_new = None"
  using request_append_exact [OF rb_inv_new(1), of "''GET''"]
    request_append_exact [OF rb_inv_new(1), of "replicate 9000 (CHR ''x'')"]
  by (auto simp: rb_inv_new HTTP_BUFFER_BLOCK_SIZE_def)

lemma append_str_ok:
  assumes "rb_inv b" "length str \<le> HTTP_BUFFER_BLOCK_SIZE"
  shows "\<exists>b'. append_str str b = Some b' \<and> rb_inv b' \<and> rb_text b' = rb_text b @ str"
  using append_str_exact [OF assms(1), of str] check_append_ok [OF assms(1)] assms(2) by simp

lemma append_all_ok:
  "rb_inv b \<Longrightarrow> \<forall>s\<in>set ss. length s \<le> HTTP_BUFFER_BLOCK_SIZE \<Longrightarrow>
     \<exists>b'. append_all ss b = Some b' \<and> rb_inv b' \<and> rb_text b' = rb_text b @ concat ss"
proof (induction ss arbitrary: b)
  case (Cons s ss)
  obtain b1 where "append_str s b = Some b1" "rb_inv b1" "rb_text b1 = rb_text b @ s"
    using append_str_ok [of b s] Cons.prems by auto
  with Cons.IH [of b1] Cons.prems show ?case by auto
qed simp

text \<open>The sequence of calls the client makes: method, target, version, headers.\<close>

fun add_headers :: "(string \<times> string) list \<Rightarrow> request_builder \<Rightarrow> request_builder option" where
  "add_headers [] b = Some b"
| "add_headers ((k, v) # hs) b = (case add_header k v b of None \<Rightarrow> None | Some b' \<Rightarrow> add_headers hs b')"

definition build_request :: "http_method \<Rightarrow> string \<Rightarrow> version \<Rightarrow> (string \<times> string) list \<Rightarrow> request_builder option" where
  "build_request m t v hs =
     Option.bind (set_method m request_builder_new) (\<lambda>b1. Option.bind (set_target t b1) (\<lambda>b2.
       Option.bind (set_version v b2) (add_headers hs)))"

lemma add_headers_ok:
  "rb_inv b \<Longrightarrow> list_all header_ok hs \<Longrightarrow>
     \<exists>b'. add_headers hs b = Some b' \<and> rb_inv b' \<and> rb_text b' = rb_text b @ print_headers hs"
proof (induction hs arbitrary: b)
  case Nil
  then show ?case by (simp add: print_headers_def)
next
  case (Cons h hs)
  obtain k v where h: "h = (k, v)" by (cases h)
  have "\<forall>s\<in>set [k, '': '', v, CRLF]. length s \<le> HTTP_BUFFER_BLOCK_SIZE"
    using Cons.prems(2) h by (auto simp: header_ok_def HTTP_BUFFER_BLOCK_SIZE_def)
  then obtain b1 where "add_header k v b = Some b1" "rb_inv b1" "rb_text b1 = rb_text b @ concat [k, '': '', v, CRLF]"
    unfolding add_header_def using append_all_ok [OF Cons.prems(1), of "[k, '': '', v, CRLF]"] by blast
  with Cons.IH [of b1] Cons.prems h show ?case by (auto simp: print_headers_def)
qed

lemma build_request_text:
  assumes "method_is_valid m" "length t \<le> HTTP_BUFFER_BLOCK_SIZE" "plain_version v" "list_all header_ok hs"
  shows "\<exists>b. build_request m t v hs = Some b \<and>
     rb_text b = method_to_string_view m @ SP # t @ SP # version_to_string_view v @ CRLF @ print_headers hs"
proof -
  have ml: "length (method_to_string_view m) \<le> HTTP_BUFFER_BLOCK_SIZE"
    using assms(1) by (cases m) (simp_all add: method_to_string_view_def method_is_valid_def method_code_def
        methods_def HTTP_METHOD_STR_def HTTP_BUFFER_BLOCK_SIZE_def)
  obtain b1 where b1: "set_method m request_builder_new = Some b1" "rb_inv b1" "rb_text b1 = method_to_string_view m"
    using append_str_ok [OF rb_inv_new(1) ml] by (auto simp: set_method_def rb_inv_new)
  obtain b2 where b2: "set_target t b1 = Some b2" "rb_inv b2" "rb_text b2 = rb_text b1 @ SP # t"
    using append_str_ok [of "append_char SP b1" t] append_char_ok [OF b1(2), of SP] assms(2) by (auto simp: set_target_def)
  have "\<forall>s\<in>set [version_to_string_view v, CRLF]. length s \<le> HTTP_BUFFER_BLOCK_SIZE"
    using plain_version_text(4) [OF assms(3)] by (simp add: HTTP_BUFFER_BLOCK_SIZE_def)
  then obtain b3 where b3: "set_version v b2 = Some b3" "rb_inv b3"
    "rb_text b3 = rb_text b2 @ SP # version_to_string_view v @ CRLF"
    using append_all_ok [of "append_char SP b2"] append_char_ok [OF b2(2), of SP] by (fastforce simp: set_version_def)
  show ?thesis
    using add_headers_ok [OF b3(2) assms(4)] b1 b2 b3 by (auto simp: build_request_def)
qed

text \<open>What a server reads from the text of a request.\<close>

lemma valid_method_text:
  assumes "method_is_valid m"
  shows "SP \<notin> set (method_to_string_view m)" "CR \<notin> set (method_to_string_view m)"
    "method_from_string_view (method_to_string_view m) = m" "length (method_to_string_view m) \<le> 7"
  using assms
  by (cases m; simp add: method_to_string_view_def method_is_valid_def method_code_def methods_def
      HTTP_METHOD_STR_def method_from_string_view_def)+

lemma spec_head_request:
  assumes "method_is_valid m" "plain_version v" "list_all header_ok hs"
    and "SP \<notin> set t" "CR \<notin> set t" "length t \<le> 4000" "store_target t ((lose InBlocks l)\<lparr>rl_method := m\<rparr>) = (ok, l1)"
  shows "spec_head request_line_parse l
      (method_to_string_view m @ SP # t @ SP # version_to_string_view v @ CRLF @ print_headers hs @ CRLF @ body)
    = Done (l1\<lparr>rl_version := View (version_to_string_view v) InBlocks\<rparr>, hs) body"
proof -
  note mt = valid_method_text [OF assms(1)] and vt = plain_version_text [OF assms(2)]
  define ln where "ln = method_to_string_view m @ SP # t @ SP # version_to_string_view v"
  have pl: "request_line_parse l (ln @ CRLF) = (length ln + 2, ok, l1\<lparr>rl_version := View (version_to_string_view v) InBlocks\<rparr>)"
    using request_line_parse_parts [OF mt(1) assms(4) _ vt(3), of l l1 "[]"] mt vt assms(5,7) by (simp add: ln_def)
  have "CR \<notin> set ln" using mt vt assms(5) by (simp add: ln_def)
  then have f: "find_sub CRLF (ln @ CRLF @ r) = Some (length ln)" for r by (rule find_CRLF_line)
  have len: "length ln + 2 \<le> HTTP_BUFFER_BLOCK_SIZE"
    using mt(4) vt(4) assms(6) by (simp add: ln_def HTTP_BUFFER_BLOCK_SIZE_def)
  have "spec_line request_line_parse l (ln @ CRLF @ print_headers hs @ CRLF @ body)
      = Done (l1\<lparr>rl_version := View (version_to_string_view v) InBlocks\<rparr>) (print_headers hs @ CRLF @ body)"
    unfolding spec_line_def f using len by (simp only: option.case line_cut pl) simp
  then show ?thesis using spec_rest_print [OF assms(3), of body "[]"] by (simp add: spec_head_def ln_def)
qed

text \<open>Requests round trip between client and server: the request the builder assembles for a method, a
  percent-encoded path and query, a version and headers is complete, and the server reads from it the same
  method, query, version and headers, and the path where it stays readable.\<close>

lemma request_builder_round_trip:
  assumes "method_is_valid m" "plain_version v" "list_all header_ok hs"
    and "safe_keep keep" "p \<noteq> []" "hd p = CHR ''/''" "length t \<le> 4000"
    and "t = encode keep p @ CHR ''?'' # encode keep q"
  shows "\<exists>b l'. build_request m t v hs = Some b \<and>
     spec_head request_line_parse l (rb_to_string b @ body) = Done (l', hs) body \<and>
     rl_method l' = m \<and> reads (rl_path l') = (if path_stays keep p q l then Some p else None) \<and> reads (rl_query l') = Some q \<and>
     reads (rl_version l') = Some (version_to_string_view v)"
proof -
  have "length t \<le> HTTP_BUFFER_BLOCK_SIZE" using assms(7) by (simp add: HTTP_BUFFER_BLOCK_SIZE_def)
  then obtain b where b: "build_request m t v hs = Some b"
    "rb_text b = method_to_string_view m @ SP # t @ SP # version_to_string_view v @ CRLF @ print_headers hs"
    using build_request_text [OF assms(1) _ assms(2,3)] by blast
  obtain l1 where st: "store_target t ((lose InBlocks l)\<lparr>rl_method := m\<rparr>) = (ok, l1)" and l1: "stored keep p q ((lose InBlocks l)\<lparr>rl_method := m\<rparr>) l1"
    using store_target_origin [OF assms(4-6)] assms(8) by blast
  have "SP \<notin> set t" "CR \<notin> set t" using encode_safe [OF assms(4)] by (auto simp: assms(8))
  from spec_head_request [OF assms(1-3) this assms(7) st, of body] b l1 show ?thesis by (auto simp: rb_to_string_def stored_def)
qed

lemma request_builder_round_trip_witness:
  "\<exists>b l'. build_request GET ''/%61?'' HTTP_1_1 [(''Host'', ''x'')] = Some b \<and>
     spec_head request_line_parse request_line_new (rb_to_string b @ ''body'') = Done (l', [(''Host'', ''x'')]) ''body'' \<and>
     rl_method l' = GET \<and> reads (rl_path l') = Some ''/a'' \<and> reads (rl_query l') = Some [] \<and> reads (rl_version l') = Some ''HTTP/1.1''"
proof -
  have a: "method_is_valid GET" "plain_version HTTP_1_1" "list_all header_ok [(''Host'', ''x'')]"
    by (simp_all add: method_is_valid_def method_code_def methods_def HTTP_METHOD_COUNT_def plain_version_def
        header_ok_def HTTP_BUFFER_BLOCK_SIZE_def)
  have e: "''/%61?'' = encode {CHR ''/''} ''/a'' @ CHR ''?'' # encode {CHR ''/''} []"
    by (simp add: encode_def pct_def hex_char_def)
  have v: "version_to_string_view HTTP_1_1 = ''HTTP/1.1''" by (simp add: HTTP_VERSION_STR_def)
  show ?thesis
    using request_builder_round_trip [OF a safe_slash _ _ _ e, of request_line_new "''body''"] v by (simp add: path_stays_no_query)
qed

end
