(* ===== verification/Http_Server.thy ===== *)
theory Http_Server
  imports Http_Router Http_Response Async_Io
begin

text \<open>
  The HTTP server above the head reader: \<^verbatim>\<open>ResponseBuilder\<close> (\<^verbatim>\<open>asio/http/response.h\<close>),
  \<^verbatim>\<open>HandleContext\<close> (\<^verbatim>\<open>asio/http/context.h\<close>), \<^verbatim>\<open>HttpService\<close> and \<^verbatim>\<open>ServiceBuilder\<close>
  (\<^verbatim>\<open>asio/http/service.h\<close>), the redirect handler (\<^verbatim>\<open>asio/http/component/redirect.h\<close>) and the
  connection loop \<^verbatim>\<open>imm_serve_connection\<close> (\<^verbatim>\<open>asio/http/conn.h\<close>).  Handlers are parameters: a
  handler maps the context to the optional status it returns and the context it leaves, or throws.  The text of the
  current date is a parameter too.  The theorems show that the builder and the router together dispatch
  to the first handler registered for a path and method, that every checked out response is complete, and
  that a connection answers the requests on it in order and closes when asked to.
\<close>

section \<open>Responses\<close>

text \<open>\<^verbatim>\<open>_body\<close> is a function that sends the body, \<^verbatim>\<open>_raw_body\<close> a text.\<close>

type_synonym body_fn = "char tx \<Rightarrow> (result \<times> char tx) option"

record response =
  rs_part :: response_part
  rs_body :: "body_fn option"
  rs_raw :: string

definition response_builder :: "response_part \<Rightarrow> response" where
  "response_builder p = \<lparr>rs_part = p, rs_body = None, rs_raw = []\<rparr>"

definition response_with_body :: "response_part \<Rightarrow> body_fn \<Rightarrow> response" where
  "response_with_body p f = \<lparr>rs_part = p, rs_body = Some f, rs_raw = []\<rparr>"

definition response_with_text :: "response_part \<Rightarrow> string \<Rightarrow> response" where
  "response_with_text p s = \<lparr>rs_part = p, rs_body = None, rs_raw = s\<rparr>"

definition part_emplace :: "string \<Rightarrow> string \<Rightarrow> response_part \<Rightarrow> response_part" where
  "part_emplace k v p = p\<lparr>part_headers := snd (shm_emplace k v (part_headers p))\<rparr>"

definition set_header :: "string \<Rightarrow> string \<Rightarrow> response \<Rightarrow> response" where
  "set_header k v rs = rs\<lparr>rs_part := part_emplace k v (rs_part rs)\<rparr>"

text \<open>\<^verbatim>\<open>ResponseBuilder::sendto\<close> on a socket, which has \<^verbatim>\<open>writev\<close>.\<close>

definition head_buf_size :: nat where "head_buf_size = 1024"

definition response_head_text :: "response_part \<Rightarrow> string" where
  "response_head_text p = (let head = render_head head_buf_size p in if head = [] then to_string p else head)"

definition response_sendto :: "response \<Rightarrow> char tx \<Rightarrow> (result \<times> char tx) option" where
  "response_sendto rs d =
     (let head = response_head_text (rs_part rs) in
      if rs_raw rs \<noteq> [] then sendv [head, rs_raw rs] d
      else Option.bind (send_span head d) (\<lambda>(r, d1).
        if \<not> res_ok r then Some (r, d1)
        else case rs_body rs of
            None \<Rightarrow> Some (r, d1)
          | Some f \<Rightarrow> Option.bind (f d1) (\<lambda>(r2, d2). Some (r2\<lparr>res_size := res_size r2 + res_size r\<rparr>, d2))))"

section \<open>The handler context\<close>

record handle_ctx =
  hc_path :: string
  hc_request :: "request_line message"
  hc_in :: reader
  hc_response :: "response option"

text \<open>A handler returns an optional status and leaves the context; \<^term>\<open>None\<close> is an exception or a failed
  assertion.\<close>

type_synonym handler = "handle_ctx \<Rightarrow> (nat option \<times> handle_ctx) option"

definition ctx_new :: "string \<Rightarrow> request_line message \<Rightarrow> reader \<Rightarrow> handle_ctx" where
  "ctx_new path req rd = \<lparr>hc_path = path, hc_request = req, hc_in = rd, hc_response = None\<rparr>"

text \<open>\<^verbatim>\<open>resp\<close> with a part alone, a body function, or a text, which gets its length as a header.\<close>

definition resp :: "response_part \<Rightarrow> handle_ctx \<Rightarrow> handle_ctx" where
  "resp p c = c\<lparr>hc_response := Some (response_builder p)\<rparr>"

definition resp_body :: "response_part \<Rightarrow> body_fn \<Rightarrow> handle_ctx \<Rightarrow> handle_ctx" where
  "resp_body p f c = c\<lparr>hc_response := Some (response_with_body p f)\<rparr>"

definition resp_text :: "response_part \<Rightarrow> string \<Rightarrow> handle_ctx \<Rightarrow> handle_ctx" where
  "resp_text p s c =
     c\<lparr>hc_response := Some (response_with_text (part_emplace ''Content-Length'' (dec_digits (length s)) p) s)\<rparr>"

text \<open>\<^verbatim>\<open>easy_resp\<close>: \<^term>\<open>None\<close> is the read outside the reason phrases for a status that has none.\<close>

definition easy_resp :: "nat \<Rightarrow> handle_ctx \<Rightarrow> handle_ctx option" where
  "easy_resp st c = map_option (\<lambda>msg. resp (response_part HTTP_1_1 st msg) c) (status_to_reason_phrase st)"

definition easy_resp_body :: "nat \<Rightarrow> body_fn \<Rightarrow> handle_ctx \<Rightarrow> handle_ctx option" where
  "easy_resp_body st f c = map_option (\<lambda>msg. resp_body (response_part HTTP_1_1 st msg) f c) (status_to_reason_phrase st)"

definition easy_resp_text :: "nat \<Rightarrow> string \<Rightarrow> handle_ctx \<Rightarrow> handle_ctx option" where
  "easy_resp_text st s c = map_option (\<lambda>msg. resp_text (response_part HTTP_1_1 st msg) s c) (status_to_reason_phrase st)"

definition check_and_add_date :: "string \<Rightarrow> response \<Rightarrow> response" where
  "check_and_add_date date rs =
     (if shm_contains (part_headers (rs_part rs)) ''Date'' then rs
      else rs\<lparr>rs_part := part_emplace ''Date'' date (rs_part rs)\<rparr>)"

definition checkout :: "string \<Rightarrow> handle_ctx \<Rightarrow> response option" where
  "checkout date c =
     (let c1 = (case hc_response c of None \<Rightarrow> easy_resp 500 c | Some _ \<Rightarrow> Some c) in
      Option.bind c1 (\<lambda>c2. map_option (check_and_add_date date) (hc_response c2)))"

text \<open>\<^verbatim>\<open>create_redirect_handler\<close>.\<close>

definition create_redirect_handler :: "string \<Rightarrow> handler" where
  "create_redirect_handler target c =
     map_option (\<lambda>p. (None, resp (part_emplace ''Location'' target p) c)) (response_part_of 301)"

section \<open>The service\<close>

record service =
  sv_router :: route_node
  sv_handlers :: "nat \<times> http_method \<Rightarrow> handler option"
  sv_status_handlers :: "nat \<Rightarrow> handler option"

definition service_new :: service where
  "service_new = \<lparr>sv_router = node_new, sv_handlers = Map.empty, sv_status_handlers = Map.empty\<rparr>"

text \<open>The handler of a route: its method, or any method; \<^term>\<open>None\<close> is the failed assertion.\<close>

definition find_handler :: "service \<Rightarrow> nat \<Rightarrow> http_method \<Rightarrow> handler option" where
  "find_handler s i m =
     (case sv_handlers s (i, m) of Some h \<Rightarrow> Some h | None \<Rightarrow> sv_handlers s (i, M_UNKNOWN))"

definition after_handler :: "service \<Rightarrow> nat option \<times> handle_ctx \<Rightarrow> handle_ctx option" where
  "after_handler s res =
     (case res of
        (None, c) \<Rightarrow> Some c
      | (Some st, c) \<Rightarrow>
          (case sv_status_handlers s st of Some h \<Rightarrow> map_option snd (h c) | None \<Rightarrow> easy_resp st c))"

text \<open>\<^verbatim>\<open>HttpService::operator()\<close>: the response, and the request and reader as the handlers left them;
  \<^term>\<open>None\<close> is the failed assertion, a status without a reason phrase, a handler that threw, or a path whose
  characters are no longer there (then the code routes whatever the memory holds).\<close>

definition service_call :: "service \<Rightarrow> string \<Rightarrow> request_line message \<Rightarrow> reader \<Rightarrow> (response \<times> request_line message \<times> reader) option" where
  "service_call s date req rd =
     Option.bind (reads (rl_path (line req))) (\<lambda>path. let (hid, cur) = route path (sv_router s);
          c = ctx_new cur req rd;
          done_ctx = (case hid of
              None \<Rightarrow> easy_resp 404 c
            | Some i \<Rightarrow> Option.bind (find_handler s i (rl_method (line req))) (\<lambda>h. Option.bind (h c) (after_handler s)))
      in Option.bind done_ctx (\<lambda>c1. map_option (\<lambda>rs. (rs, hc_request c1, hc_in c1)) (checkout date c1)))"

subsection \<open>The builder\<close>

record service_builder =
  sb_service :: service
  sb_id :: nat

definition builder_new :: service_builder where
  "builder_new = \<lparr>sb_service = service_new, sb_id = 1\<rparr>"

text \<open>\<^verbatim>\<open>add_handler\<close>: the slot of the router is given by the operation that writes it; an id that is not set is
  taken from the counter, and \<^verbatim>\<open>emplace\<close> keeps a handler that is already there.\<close>

definition add_handler ::
    "((nat \<Rightarrow> nat) \<Rightarrow> (nat \<times> route_node) option) \<Rightarrow> handler \<Rightarrow> http_method \<Rightarrow> service_builder \<Rightarrow> service_builder option" where
  "add_handler slot h m b =
     Option.bind (slot (\<lambda>i. i)) (\<lambda>(old, _).
       let i = (if old = 0 then sb_id b else old);
           next_id = (if old = 0 then sb_id b + 1 else sb_id b);
           s = sb_service b;
           hs = (if sv_handlers s (i, m) = None then (sv_handlers s)((i, m) \<mapsto> h) else sv_handlers s)
       in map_option (\<lambda>(_, n). \<lparr>sb_service = s\<lparr>sv_router := n, sv_handlers := hs\<rparr>, sb_id = next_id\<rparr>) (slot (\<lambda>_. i)))"

definition sb_add_route :: "http_method \<Rightarrow> string \<Rightarrow> handler \<Rightarrow> service_builder \<Rightarrow> service_builder option" where
  "sb_add_route m path h b = add_handler (\<lambda>w. add_exact w path (sv_router (sb_service b))) h m b"

definition sb_add_prefix :: "string \<Rightarrow> handler \<Rightarrow> service_builder \<Rightarrow> service_builder option" where
  "sb_add_prefix path h b = add_handler (\<lambda>w. add_prefix w path (sv_router (sb_service b))) h M_UNKNOWN b"

definition sb_redirect :: "http_method \<Rightarrow> string \<Rightarrow> string \<Rightarrow> service_builder \<Rightarrow> service_builder option" where
  "sb_redirect m path target b = sb_add_route m path (create_redirect_handler target) b"

definition set_status_handler :: "nat \<Rightarrow> handler \<Rightarrow> service_builder \<Rightarrow> service_builder" where
  "set_status_handler st h b =
     (let s = sb_service b in
      if sv_status_handlers s st = None
      then b\<lparr>sb_service := s\<lparr>sv_status_handlers := (sv_status_handlers s)(st \<mapsto> h)\<rparr>\<rparr> else b)"

definition build_service :: "service_builder \<Rightarrow> service" where
  "build_service b = sb_service b"

section \<open>The connection\<close>

text \<open>How a connection ends: closed, a failed assertion in the service, suspended in a write, or out of fuel.\<close>

datatype conn_end = Closed "char tx" | Aborted | Suspended | NoFuel

definition is_close :: "request_line message \<Rightarrow> bool" where
  "is_close req \<longleftrightarrow> get_header req ''Connection'' = Some ''close''"

text \<open>\<^verbatim>\<open>imm_serve_connection\<close>: \<open>dates k\<close> is the date text at the \<open>k\<close>-th request; a send error is only logged.\<close>

fun serve :: "nat \<Rightarrow> service \<Rightarrow> (nat \<Rightarrow> string) \<Rightarrow> nat \<Rightarrow> request_line message \<Rightarrow> reader \<Rightarrow> char tx \<Rightarrow> conn_end" where
  "serve 0 s dates k req rd d = NoFuel"
| "serve (Suc fuel) s dates k req rd d =
     (case read request_line_parse req rd of
        (Some e, _, _) \<Rightarrow> Closed d
      | (None, req1, rd1) \<Rightarrow>
          (case service_call s (dates k) req1 rd1 of
             None \<Rightarrow> Aborted
           | Some (rs, req2, rd2) \<Rightarrow>
               (let rs1 = (if is_close req2 then set_header ''Connection'' ''close'' rs else rs) in
                case response_sendto rs1 d of
                  None \<Rightarrow> Suspended
                | Some (_, d1) \<Rightarrow> if is_close req2 then Closed d1 else serve fuel s dates (k + 1) req2 rd2 d1)))"

definition imm_serve_connection :: "nat \<Rightarrow> service \<Rightarrow> (nat \<Rightarrow> string) \<Rightarrow> reader \<Rightarrow> char tx \<Rightarrow> conn_end" where
  "imm_serve_connection fuel s dates rd d = serve fuel s dates 0 (message_new request_line_new) rd d"

section \<open>Dispatch\<close>

text \<open>What a registration means: a slot of the router, a method and a handler.\<close>

datatype slot = ExactSlot "string list" | PrefixSlot "string list"

datatype reg = Route http_method string handler | Prefix string handler

fun reg_slot :: "reg \<Rightarrow> slot" where
  "reg_slot (Route m r h) = ExactSlot (segs r)"
| "reg_slot (Prefix r h) = PrefixSlot (psegs r)"

fun reg_method :: "reg \<Rightarrow> http_method" where
  "reg_method (Route m r h) = m"
| "reg_method (Prefix r h) = M_UNKNOWN"

fun reg_handler :: "reg \<Rightarrow> handler" where
  "reg_handler (Route m r h) = h"
| "reg_handler (Prefix r h) = h"

text \<open>Registering on the builder; the paths start with a slash.\<close>

fun sb_register :: "reg \<Rightarrow> service_builder \<Rightarrow> service_builder option" where
  "sb_register (Route m r h) b = sb_add_route m (SLASH # r) h b"
| "sb_register (Prefix r h) b = sb_add_prefix (SLASH # r) h b"

fun sb_register_all :: "reg list \<Rightarrow> service_builder \<Rightarrow> service_builder option" where
  "sb_register_all [] b = Some b"
| "sb_register_all (g # gs) b = Option.bind (sb_register g b) (sb_register_all gs)"

fun slot_id :: "route_node \<Rightarrow> slot \<Rightarrow> nat" where
  "slot_id n (ExactSlot ss) = old_id (exact_at n ss)"
| "slot_id n (PrefixSlot ss) = prefix_at n ss"

text \<open>The builder's invariant: ids are below the counter, never shared, and handlers belong to assigned ids.\<close>

definition builder_inv :: "service_builder \<Rightarrow> bool" where
  "builder_inv b \<longleftrightarrow> (let n = sv_router (sb_service b) in
     0 < sb_id b \<and> (\<forall>sl. slot_id n sl < sb_id b)
     \<and> (\<forall>sl sl'. slot_id n sl = slot_id n sl' \<and> slot_id n sl \<noteq> 0 \<longrightarrow> sl = sl')
     \<and> (\<forall>ss. exact_at n ss \<noteq> Some 0)
     \<and> (\<forall>i m. sv_handlers (sb_service b) (i, m) \<noteq> None \<longrightarrow> i < sb_id b))"

text \<open>The table of handlers by slot and method that the builder stands for.\<close>

definition handler_at :: "service \<Rightarrow> slot \<Rightarrow> http_method \<Rightarrow> handler option" where
  "handler_at s sl m =
     (if slot_id (sv_router s) sl = 0 then None else sv_handlers s (slot_id (sv_router s) sl, m))"

text \<open>Writing a slot changes this slot only.\<close>

lemma reg_slot_write:
  "\<exists>n'. (case g of Route m r h \<Rightarrow> add_exact w (SLASH # r) n | Prefix r h \<Rightarrow> add_prefix w (SLASH # r) n)
       = Some (w (slot_id n (reg_slot g)), n') \<and>
     slot_id n' = (slot_id n)(reg_slot g := w (slot_id n (reg_slot g))) \<and>
     (\<forall>ss. exact_at n' ss = Some 0 \<longrightarrow> exact_at n ss = Some 0 \<or> w (slot_id n (reg_slot g)) = 0)"
proof (cases g)
  case (Route m r h)
  obtain n' where n': "add_exact w (SLASH # r) n = Some (w (old_id (exact_at n (segs r))), n')"
    "exact_at n' = (exact_at n)(segs r \<mapsto> w (old_id (exact_at n (segs r))))" "prefix_at n' = prefix_at n"
    using tree.exact_law by blast
  have "slot_id n' sl = ((slot_id n)(reg_slot g := w (slot_id n (reg_slot g)))) sl" for sl
    using n' Route by (cases sl) (auto simp: old_id_def)
  then show ?thesis using n' Route by (auto simp: fun_eq_iff split: if_splits)
next
  case (Prefix r h)
  obtain n' where n': "add_prefix w (SLASH # r) n = Some (w (prefix_at n (psegs r)), n')"
    "prefix_at n' = (prefix_at n)(psegs r := w (prefix_at n (psegs r)))" "exact_at n' = exact_at n"
    using tree.prefix_law by blast
  have "slot_id n' sl = ((slot_id n)(reg_slot g := w (slot_id n (reg_slot g)))) sl" for sl
    using n' Prefix by (cases sl) auto
  then show ?thesis using n' Prefix by (auto simp: fun_eq_iff)
qed

lemma sb_register_eq:
  "sb_register g b = add_handler (\<lambda>w. case g of Route m r h \<Rightarrow> add_exact w (SLASH # r) (sv_router (sb_service b))
      | Prefix r h \<Rightarrow> add_prefix w (SLASH # r) (sv_router (sb_service b))) (reg_handler g) (reg_method g) b"
  by (cases g) (simp_all add: sb_add_route_def sb_add_prefix_def)

lemma sb_register_step:
  assumes "builder_inv b"
  shows "\<exists>b'. sb_register g b = Some b' \<and> builder_inv b' \<and>
     (\<forall>sl. slot_id (sv_router (sb_service b')) sl \<noteq> 0 \<longleftrightarrow>
        slot_id (sv_router (sb_service b)) sl \<noteq> 0 \<or> sl = reg_slot g) \<and>
     (\<forall>sl m. handler_at (sb_service b') sl m =
        (if sl = reg_slot g \<and> m = reg_method g \<and> handler_at (sb_service b) sl m = None
         then Some (reg_handler g) else handler_at (sb_service b) sl m))"
proof -
  let ?n = "sv_router (sb_service b)" and ?sl = "reg_slot g"
  let ?old = "slot_id ?n ?sl"
  define i where "i = (if ?old = 0 then sb_id b else ?old)"
  have inv: "0 < sb_id b" "\<And>sl. slot_id ?n sl < sb_id b" "\<And>ss. exact_at ?n ss \<noteq> Some 0"
    "\<And>sl sl'. slot_id ?n sl = slot_id ?n sl' \<Longrightarrow> slot_id ?n sl \<noteq> 0 \<Longrightarrow> sl = sl'"
    "\<And>j m. sv_handlers (sb_service b) (j, m) \<noteq> None \<Longrightarrow> j < sb_id b"
    using assms unfolding builder_inv_def Let_def by blast+
  have i: "0 < i" using inv(1) by (simp add: i_def)
  let ?slot = "\<lambda>w. case g of Route m r h \<Rightarrow> add_exact w (SLASH # r) ?n | Prefix r h \<Rightarrow> add_prefix w (SLASH # r) ?n"
  obtain n0 where n0: "?slot (\<lambda>x. x) = Some (?old, n0)" using reg_slot_write [where g = g and w = "\<lambda>x. x" and n = ?n] by blast
  obtain n' where n': "?slot (\<lambda>_. i) = Some (i, n')" "slot_id n' = (slot_id ?n)(?sl := i)"
    "\<And>ss. exact_at n' ss \<noteq> Some 0"
    using reg_slot_write [where g = g and w = "\<lambda>_. i" and n = ?n] inv(3) i by fastforce
  let ?s = "sb_service b"
  define hs where "hs = (if sv_handlers ?s (i, reg_method g) = None
     then (sv_handlers ?s)((i, reg_method g) \<mapsto> reg_handler g) else sv_handlers ?s)"
  define b' where "b' = \<lparr>sb_service = ?s\<lparr>sv_router := n', sv_handlers := hs\<rparr>,
     sb_id = (if ?old = 0 then sb_id b + 1 else sb_id b)\<rparr>"
  have reg: "sb_register g b = Some b'"
    unfolding sb_register_eq add_handler_def n0 Option.bind.simps prod.case Let_def i_def [symmetric] n'(1)
    by (simp add: hs_def b'_def)
  have uniq: "slot_id n' sl = i \<longleftrightarrow> sl = ?sl" for sl
    using n'(2) inv(2) [of sl] inv(4) [of sl ?sl] by (auto simp: i_def)
  have "builder_inv b'"
    unfolding builder_inv_def Let_def
  proof (intro conjI allI impI)
    show "0 < sb_id b'" using inv(1) by (simp add: b'_def)
    show "slot_id (sv_router (sb_service b')) sl < sb_id b'" for sl
      using inv(1) inv(2) [of sl] inv(2) [of ?sl] n'(2) by (auto simp: b'_def i_def)
    show "sl = sl'" if "slot_id (sv_router (sb_service b')) sl = slot_id (sv_router (sb_service b')) sl' \<and>
        slot_id (sv_router (sb_service b')) sl \<noteq> 0" for sl sl'
      using that uniq [of sl] uniq [of sl'] inv(4) [of sl sl'] n'(2) by (auto simp: b'_def split: if_splits)
    show "exact_at (sv_router (sb_service b')) ss \<noteq> Some 0" for ss using n'(3) by (simp add: b'_def)
    show "j < sb_id b'" if "sv_handlers (sb_service b') (j, m) \<noteq> None" for j m
      using that inv(1) inv(5) [of j m] inv(2) [of ?sl] by (auto simp: b'_def hs_def i_def split: if_splits)
  qed
  moreover have "handler_at (sb_service b') sl m = (if sl = ?sl \<and> m = reg_method g \<and> handler_at ?s sl m = None
      then Some (reg_handler g) else handler_at ?s sl m)" for sl m
  proof (cases "sl = ?sl")
    case True
    have fresh: "sv_handlers ?s (sb_id b, m') = None" for m' using inv(5) [of "sb_id b" m'] by blast
    show ?thesis using True n'(2) i fresh by (cases "?old = 0") (auto simp: handler_at_def b'_def hs_def i_def)
  next
    case False
    have "slot_id n' sl \<noteq> i" using False uniq by blast
    moreover have "slot_id n' sl = slot_id ?n sl" unfolding n'(2) using False by simp
    ultimately have "slot_id n' sl = slot_id ?n sl" "slot_id ?n sl \<noteq> i" by simp_all
    then show ?thesis using False by (auto simp: handler_at_def b'_def hs_def)
  qed
  moreover have "slot_id (sv_router (sb_service b')) sl \<noteq> 0 \<longleftrightarrow> slot_id ?n sl \<noteq> 0 \<or> sl = ?sl" for sl
    using n'(2) i by (auto simp: b'_def)
  ultimately show ?thesis using reg by blast
qed

text \<open>The dispatch table of a list of registrations: the first handler registered for a slot and method.\<close>

definition first_reg :: "reg list \<Rightarrow> slot \<Rightarrow> http_method \<Rightarrow> handler option" where
  "first_reg gs sl m = map_option reg_handler (find (\<lambda>g. reg_slot g = sl \<and> reg_method g = m) gs)"

definition has_slot :: "reg list \<Rightarrow> slot \<Rightarrow> bool" where
  "has_slot gs sl \<longleftrightarrow> list_ex (\<lambda>g. reg_slot g = sl) gs"

definition spec_slot :: "reg list \<Rightarrow> string list \<Rightarrow> slot option" where
  "spec_slot gs ss =
     (if has_slot gs (ExactSlot ss) then Some (ExactSlot ss)
      else map_option (\<lambda>k. PrefixSlot (take k ss)) (find (\<lambda>k. has_slot gs (PrefixSlot (take k ss))) (rev [0..<length ss])))"

lemma sb_register_all_spec:
  "builder_inv b \<Longrightarrow> \<exists>b'. sb_register_all gs b = Some b' \<and> builder_inv b' \<and>
     (\<forall>sl. slot_id (sv_router (sb_service b')) sl \<noteq> 0 \<longleftrightarrow> slot_id (sv_router (sb_service b)) sl \<noteq> 0 \<or> has_slot gs sl) \<and>
     (\<forall>sl m. handler_at (sb_service b') sl m =
        (case handler_at (sb_service b) sl m of Some h \<Rightarrow> Some h | None \<Rightarrow> first_reg gs sl m))"
proof (induction gs arbitrary: b)
  case Nil
  then show ?case by (simp add: has_slot_def first_reg_def split: option.splits)
next
  case (Cons g gs)
  obtain b1 where b1: "sb_register g b = Some b1" "builder_inv b1"
    "\<And>sl. slot_id (sv_router (sb_service b1)) sl \<noteq> 0 \<longleftrightarrow> slot_id (sv_router (sb_service b)) sl \<noteq> 0 \<or> sl = reg_slot g"
    "\<And>sl m. handler_at (sb_service b1) sl m = (if sl = reg_slot g \<and> m = reg_method g \<and> handler_at (sb_service b) sl m = None
        then Some (reg_handler g) else handler_at (sb_service b) sl m)"
    using sb_register_step [OF Cons.prems, of g] by blast
  obtain b2 where b2: "sb_register_all gs b1 = Some b2" "builder_inv b2"
    "\<And>sl. slot_id (sv_router (sb_service b2)) sl \<noteq> 0 \<longleftrightarrow> slot_id (sv_router (sb_service b1)) sl \<noteq> 0 \<or> has_slot gs sl"
    "\<And>sl m. handler_at (sb_service b2) sl m =
        (case handler_at (sb_service b1) sl m of Some h \<Rightarrow> Some h | None \<Rightarrow> first_reg gs sl m)"
    using Cons.IH [OF b1(2)] by blast
  have "slot_id (sv_router (sb_service b2)) sl \<noteq> 0 \<longleftrightarrow> slot_id (sv_router (sb_service b)) sl \<noteq> 0 \<or> has_slot (g # gs) sl" for sl
    unfolding b2(3) b1(3) by (auto simp: has_slot_def)
  moreover have "handler_at (sb_service b2) sl m =
      (case handler_at (sb_service b) sl m of Some h \<Rightarrow> Some h | None \<Rightarrow> first_reg (g # gs) sl m)" for sl m
    unfolding b2(4) b1(4) by (auto simp: first_reg_def split: option.splits)
  ultimately show ?case using b1(1) b2(1,2) by auto
qed

lemma slot_id_new: "slot_id node_new sl = 0"
  by (cases sl) (simp_all add: old_id_def exact_at_new prefix_at_new)

lemma builder_new_inv: "builder_inv builder_new"
  by (simp add: builder_inv_def builder_new_def service_new_def slot_id_new exact_at_new)

text \<open>C8. Registration and routing implement first-wins dispatch: after any registrations a request path selects
  the exactly registered path if there is one and otherwise its longest registered prefix that leaves at least one
  segment (the rule of the code, not that of \<^verbatim>\<open>docs/http/route.md\<close>; see theory \<^verbatim>\<open>Http_Router\<close>), and on that
  slot the handler found is the first one registered for the method, else the first registered for every
  method; no registration disturbs the handlers of another path.\<close>

theorem service_dispatch:
  "\<exists>b. sb_register_all gs builder_new = Some b \<and>
     (\<forall>r m. (case fst (route (SLASH # r) (sv_router (build_service b))) of
               None \<Rightarrow> None | Some i \<Rightarrow> Some (find_handler (build_service b) i m)) =
            (case spec_slot gs (segs r) of
               None \<Rightarrow> None
             | Some sl \<Rightarrow> Some (case first_reg gs sl m of Some h \<Rightarrow> Some h | None \<Rightarrow> first_reg gs sl M_UNKNOWN)))"
proof -
  obtain b where b: "sb_register_all gs builder_new = Some b" "builder_inv b"
    "\<And>sl. slot_id (sv_router (sb_service b)) sl \<noteq> 0 \<longleftrightarrow> has_slot gs sl"
    "\<And>sl m. handler_at (sb_service b) sl m = first_reg gs sl m"
    using sb_register_all_spec [OF builder_new_inv, of gs]
    by (auto simp: builder_new_def service_new_def slot_id_new handler_at_def)
  let ?n = "sv_router (sb_service b)"
  have fh: "find_handler (sb_service b) (slot_id ?n sl) m =
      (case first_reg gs sl m of Some h \<Rightarrow> Some h | None \<Rightarrow> first_reg gs sl M_UNKNOWN)" if "has_slot gs sl" for sl m
    using that b(3) [of sl] unfolding b(4) [symmetric] by (simp add: find_handler_def handler_at_def split: option.split)
  have ex: "exact_at ?n ss = (if has_slot gs (ExactSlot ss) then Some (slot_id ?n (ExactSlot ss)) else None)" for ss
  proof -
    have "exact_at ?n ss \<noteq> Some 0" using b(2) unfolding builder_inv_def Let_def by blast
    then show ?thesis using b(3) [of "ExactSlot ss"] by (auto simp: old_id_def split: option.splits)
  qed
  have bp: "best_prefix (prefix_at ?n) ss = find (\<lambda>k. has_slot gs (PrefixSlot (take k ss))) (rev [0..<length ss])" for ss
    using b(3) [of "PrefixSlot ss" for ss] by (simp add: best_prefix_def)
  have "(case fst (route (SLASH # r) ?n) of None \<Rightarrow> None | Some i \<Rightarrow> Some (find_handler (sb_service b) i m)) =
        (case spec_slot gs (segs r) of None \<Rightarrow> None
         | Some sl \<Rightarrow> Some (case first_reg gs sl m of Some h \<Rightarrow> Some h | None \<Rightarrow> first_reg gs sl M_UNKNOWN))" for r m
  proof (cases "has_slot gs (ExactSlot (segs r))")
    case True
    then show ?thesis using fh [OF True, of m] by (simp add: tree.route_law spec_route_def ex spec_slot_def del: slot_id.simps)
  next
    case False
    show ?thesis
    proof (cases "best_prefix (prefix_at ?n) (segs r)")
      case None
      then show ?thesis using False by (simp add: tree.route_law spec_route_def ex spec_slot_def bp [symmetric] del: slot_id.simps)
    next
      case (Some k)
      then have "has_slot gs (PrefixSlot (take k (segs r)))" unfolding bp by (auto simp: find_Some_iff)
      from fh [OF this, of m] Some False show ?thesis
        by (simp add: tree.route_law spec_route_def ex spec_slot_def bp [symmetric])
    qed
  qed
  then show ?thesis using b(1) unfolding build_service_def by blast
qed

section \<open>Sending responses\<close>

lemma response_head_text_eq: "response_head_text p = to_string p"
  using render_fold [of "[]" head_buf_size "head_pieces p"]
  by (simp add: response_head_text_def render_head_def to_string_concat Let_def)

lemma to_string_nonempty: "to_string p \<noteq> []"
  by (simp add: to_string_concat head_pieces_def)

text \<open>The text of a response without a body function.\<close>

definition response_text :: "response \<Rightarrow> string" where
  "response_text rs = to_string (rs_part rs) @ rs_raw rs"

text \<open>A device whose every call accepts at least one byte.\<close>

definition open_tx :: "char tx \<Rightarrow> bool" where
  "open_tx d \<longleftrightarrow> list_all accepts (tx_script d)"

lemma send_loop_open:
  "\<lbrakk>list_all accepts s; length data - k \<le> length s; k < length data\<rbrakk> \<Longrightarrow>
   \<exists>d'. send_loop data k d s = Some (Res (length data) ok, d') \<and> tx_wire d' = tx_wire d @ drop k data
     \<and> list_all accepts (tx_script d') \<and> length s - (length data - k) \<le> length (tx_script d')"
proof (induction s arbitrary: k d)
  case (Cons x s)
  then obtain j where x: "x = Ret j" "0 < j" by (cases x) auto
  define n where "n = min j (length data - k)"
  have n: "0 < n" "k + n \<le> length data" using x Cons.prems(3) by (auto simp: n_def)
  define d1 where "d1 = d\<lparr>tx_wire := tx_wire d @ sub data k n, tx_script := s\<rparr>"
  have step: "send_loop data k d (x # s) =
      (if k + n < length data then send_loop data (k + n) d1 s else Some (Res (k + n) ok, d1))"
    using n(1) by (simp add: x Let_def n_def [symmetric] d1_def)
  show ?case
  proof (cases "k + n < length data")
    case True
    have "length data - (k + n) \<le> length s" using Cons.prems(2) n(1) by simp
    from Cons.IH [OF _ this True, of d1] Cons.prems(1)
    obtain d' where d': "send_loop data (k + n) d1 s = Some (Res (length data) ok, d')"
      "tx_wire d' = tx_wire d1 @ drop (k + n) data" "list_all accepts (tx_script d')"
      "length s - (length data - (k + n)) \<le> length (tx_script d')" by auto
    have "sub data k n @ drop (k + n) data = drop k data"
      by (simp add: sub_def add.commute [of k n] flip: drop_drop)
    then show ?thesis using step True d' n(1) by (auto simp: d1_def)
  next
    case False
    then have e: "k + n = length data" using n(2) by simp
    then have "sub data k n = drop k data" by (simp add: sub_def)
    then show ?thesis using step False e Cons.prems n(1) by (auto simp: d1_def)
  qed
qed simp

lemma response_sendto_open:
  assumes "open_tx d" "rs_body rs = None" "length (response_text rs) \<le> length (tx_script d)"
  shows "\<exists>r d'. response_sendto rs d = Some (r, d') \<and> res_ok r \<and> tx_wire d' = tx_wire d @ response_text rs
     \<and> open_tx d' \<and> length (tx_script d) - length (response_text rs) \<le> length (tx_script d')"
proof -
  have ne: "response_text rs \<noteq> []" by (simp add: response_text_def to_string_nonempty)
  obtain d' where d': "send (response_text rs) d = Some (Res (length (response_text rs)) ok, d')"
    "tx_wire d' = tx_wire d @ response_text rs" "open_tx d'"
    "length (tx_script d) - length (response_text rs) \<le> length (tx_script d')"
    using send_loop_open [of "tx_script d" "response_text rs" 0 d] assms ne by (auto simp: send_def open_tx_def)
  show ?thesis
  proof (cases "rs_raw rs = []")
    case False
    have "sendv [to_string (rs_part rs), rs_raw rs] d = send (response_text rs) d"
      using sendv_send [of "[to_string (rs_part rs), rs_raw rs]" d] False
      by (simp add: writev_max_chunks_def response_text_def)
    then show ?thesis using d' False by (simp add: response_sendto_def response_head_text_eq res_ok_def)
  next
    case True
    then have "response_sendto rs d = Some (Res (length (response_text rs)) ok, d')"
      using d'(1) assms(2) ne
      by (simp add: response_sendto_def response_head_text_eq response_text_def send_span_def res_ok_def)
    then show ?thesis using d' by (simp add: res_ok_def)
  qed
qed

section \<open>Serving a connection\<close>

text \<open>A service that answers every request whose path can be read, from the request line, the headers and the date
  alone, and sends no body functions.\<close>

type_synonym answer = "request_line \<Rightarrow> (string \<rightharpoonup> string) \<Rightarrow> string \<Rightarrow> response"

definition answers :: "service \<Rightarrow> answer \<Rightarrow> bool" where
  "answers s ans \<longleftrightarrow> (\<forall>date req rd. reads (rl_path (line req)) \<noteq> None \<longrightarrow> service_call s date req rd = Some (ans (line req) (get_header req) date, req, rd)
     \<and> rs_body (ans (line req) (get_header req) date) = None)"

text \<open>What the bytes of a connection are answered with: one response for each complete head, in order, up to the
  first that asks to close, an incomplete head or a malformed one.\<close>

fun conn_text :: "nat \<Rightarrow> answer \<Rightarrow> (nat \<Rightarrow> string) \<Rightarrow> nat \<Rightarrow> request_line \<Rightarrow> string \<Rightarrow> string" where
  "conn_text 0 ans dates k l bs = []"
| "conn_text (Suc fuel) ans dates k l bs =
     (case spec_head request_line_parse l bs of
        Done (l', hs) rest \<Rightarrow>
          (let hm = map_of (rev hs); close = (hm ''Connection'' = Some ''close''); rs = ans l' hm (dates k);
               rs1 = (if close then set_header ''Connection'' ''close'' rs else rs)
           in response_text rs1 @ (if close then [] else conn_text fuel ans dates (k + 1) l' rest))
      | _ \<Rightarrow> [])"

text \<open>Every request on the connection has a path that can be read (see theory \<^verbatim>\<open>Http_Lines\<close>).\<close>

fun paths_readable :: "nat \<Rightarrow> request_line \<Rightarrow> string \<Rightarrow> bool" where
  "paths_readable 0 l bs = True"
| "paths_readable (Suc fuel) l bs =
     (case spec_head request_line_parse l bs of
        Done (l', hs) rest \<Rightarrow> reads (rl_path l') \<noteq> None \<and>
          (map_of (rev hs) ''Connection'' = Some ''close'' \<or> paths_readable fuel l' rest)
      | _ \<Rightarrow> True)"

lemma spec_rest_shorter: "spec_rest bs acc = Done hs rest \<Longrightarrow> length rest \<le> length bs"
proof (induction bs acc rule: spec_rest.induct)
  case (1 bs acc)
  from "1.prems" show ?case
    by (subst (asm) spec_rest.simps) (auto simp: Let_def split: option.splits if_splits dest!: "1.IH")
qed

lemma spec_head_shorter: "spec_head p l bs = Done x rest \<Longrightarrow> length rest < length bs"
  by (auto simp: spec_head_def spec_line_def split: head_result.splits option.splits if_splits prod.splits
      dest!: find_sub_bound spec_rest_shorter)

lemma serve_spec:
  assumes "answers s ans"
  shows "\<lbrakk>msg_wf req; reader_ok rd; open_tx d; length (conn_text fuel ans dates k (line req) (pending req rd)) \<le> length (tx_script d);
     length (pending req rd) < fuel; paths_readable fuel (line req) (pending req rd)\<rbrakk> \<Longrightarrow>
   \<exists>d'. serve fuel s dates k req rd d = Closed d'
     \<and> tx_wire d' = tx_wire d @ conn_text fuel ans dates k (line req) (pending req rd)"
proof (induction fuel arbitrary: k req rd d)
  case (Suc fuel)
  obtain ec req1 rd1 where rdq: "read request_line_parse req rd = (ec, req1, rd1)" using prod_cases3 by blast
  note rs = request_head.read_spec [OF Suc.prems(1,2) rdq]
  show ?case
  proof (cases "spec_head request_line_parse (line req) (pending req rd)")
    case (Done x rest)
    obtain l hs where x: "x = (l, hs)" by (cases x)
    have r: "ec = ok" "msg_wf req1" "reader_ok rd1" "line req1 = l" "pending req1 rd1 = rest" "get_header req1 = map_of (rev hs)"
      using rs Done x by auto
    let ?rs = "ans l (map_of (rev hs)) (dates k)"
    have "reads (rl_path (line req1)) \<noteq> None" using Suc.prems(6) Done x r(4) by simp
    then have sc: "service_call s (dates k) req1 rd1 = Some (?rs, req1, rd1)" "rs_body ?rs = None"
      using assms r(4,6) unfolding answers_def by metis+
    define cl where "cl = is_close req1"
    have cl: "(map_of (rev hs) ''Connection'' = Some ''close'') = cl" by (simp add: cl_def is_close_def r(6))
    define rs1 where "rs1 = (if cl then set_header ''Connection'' ''close'' ?rs else ?rs)"
    have body: "rs_body rs1 = None" using sc(2) by (simp add: rs1_def set_header_def)
    let ?more = "if cl then [] else conn_text fuel ans dates (k + 1) l rest"
    have ct: "conn_text (Suc fuel) ans dates k (line req) (pending req rd) = response_text rs1 @ ?more"
      using Done x cl by (simp add: Let_def rs1_def)
    obtain res d1 where d1: "response_sendto rs1 d = Some (res, d1)" "tx_wire d1 = tx_wire d @ response_text rs1"
      "open_tx d1" "length (tx_script d) - length (response_text rs1) \<le> length (tx_script d1)"
      using response_sendto_open [OF Suc.prems(3) body] Suc.prems(4) ct by auto
    have sv: "serve (Suc fuel) s dates k req rd d = (if cl then Closed d1 else serve fuel s dates (k + 1) req1 rd1 d1)"
      using rdq r(1) sc(1) d1(1) by (simp add: Let_def rs1_def cl_def)
    show ?thesis
    proof (cases cl)
      case True
      then show ?thesis using sv ct d1(2) by simp
    next
      case False
      have "length rest < fuel" using spec_head_shorter [OF Done] Suc.prems(5) by simp
      moreover have "length (conn_text fuel ans dates (k + 1) l rest) \<le> length (tx_script d1)"
        using Suc.prems(4) ct False d1(4) by simp
      ultimately obtain d' where "serve fuel s dates (k + 1) req1 rd1 d1 = Closed d'"
        "tx_wire d' = tx_wire d1 @ conn_text fuel ans dates (k + 1) l rest"
        using Suc.IH [OF r(2,3) d1(3), of "k + 1"] r(4,5) Suc.prems(6) Done x cl False by auto
      then show ?thesis using sv ct d1(2) False by simp
    qed
  qed (use rs rdq in auto)
qed simp

text \<open>C6. A connection answers every request on it, in order, and then ends: let every call of the device take at least one
  byte, let the service answer every request from its line, headers and date alone, without a body function, and let
  the path of every request be readable (no path is lost when the buffer of decoded fields moves).  Then
  the connection loop terminates, and the bytes on the wire
  are the texts of the responses to the successive heads, however the input is cut into chunks, up to and
  including the first request that asks to close, whose response says so; an incomplete or malformed head ends the
  connection without a response.\<close>

theorem connection_answers_requests:
  assumes "answers s ans" "[] \<notin> set cs" "open_tx d" "length (concat cs) < fuel"
    and "length (conn_text fuel ans dates 0 request_line_new (concat cs)) \<le> length (tx_script d)"
    and "paths_readable fuel request_line_new (concat cs)"
  shows "\<exists>d'. imm_serve_connection fuel s dates \<lparr>chunks = cs, at_end = e\<rparr> d = Closed d'
     \<and> tx_wire d' = tx_wire d @ conn_text fuel ans dates 0 request_line_new (concat cs)"
  using serve_spec [OF assms(1) msg_wf_new, of "\<lparr>chunks = cs, at_end = e\<rparr>" d fuel dates 0] assms(2-6)
  by (simp add: imm_serve_connection_def reader_ok_def)

text \<open>A service without routes answers every request with 404.\<close>

definition not_found_answer :: answer where
  "not_found_answer l hm date =
     check_and_add_date date (response_builder (response_part HTTP_1_1 404 ''Not Found''))"

lemma route_empty: "fst (route p node_new) = None"
proof (cases "p = [] \<or> hd p \<noteq> SLASH")
  case True
  then show ?thesis by (subst route.simps) simp
next
  case False
  then obtain r where "p = SLASH # r" by (cases p) auto
  moreover have "best_prefix (prefix_at node_new) ss = None" for ss
    by (simp add: best_prefix_def prefix_at_new find_None_iff)
  ultimately show ?thesis by (simp add: tree.route_law spec_route_def exact_at_new)
qed

lemma not_found_phrase: "status_to_reason_phrase 404 = Some ''Not Found''"
  by code_simp

lemma service_new_answers: "answers service_new not_found_answer"
proof -
  have "service_call service_new date req rd = Some (not_found_answer (line req) (get_header req) date, req, rd)"
    if p: "reads (rl_path (line req)) = Some p" for date req rd p
  proof -
    obtain cur where "route p node_new = (None, cur)"
      using route_empty [of p] by (metis prod.collapse)
    then show ?thesis
      by (simp add: p service_call_def service_new_def easy_resp_def not_found_phrase checkout_def resp_def ctx_new_def
          not_found_answer_def)
  qed
  then show ?thesis by (auto simp: answers_def not_found_answer_def check_and_add_date_def response_builder_def)
qed

theorem connection_answers_requests_witness:
  "\<exists>d'. imm_serve_connection 100 service_new (\<lambda>_. ''now'')
       \<lparr>chunks = [''GET /a%20b?q HTTP/1.1'' @ CRLF @ ''Ho'', ''st: x'' @ CRLF @ CRLF], at_end = not_connected\<rparr>
       \<lparr>tx_wire = [], tx_script = replicate 200 (Ret 7)\<rparr> = Closed d'
     \<and> tx_wire d' = response_text (not_found_answer request_line_new Map.empty ''now'')"
proof -
  let ?b = "''GET /a%20b?q HTTP/1.1'' @ CRLF @ ''Host: x'' @ CRLF @ CRLF"
  have sh: "spec_head request_line_parse request_line_new ?b = Done (example_line, [(''Host'', ''x'')]) []"
    by code_simp
  have e: "spec_head request_line_parse l [] = Incomplete" for l
    by (simp add: spec_head_def spec_line_def HTTP_BUFFER_BLOCK_SIZE_def)
  have ct: "conn_text 100 not_found_answer (\<lambda>_. ''now'') 0 request_line_new ?b
      = response_text (not_found_answer request_line_new Map.empty ''now'')"
    using sh by (auto simp: numeral_eq_Suc e Let_def not_found_answer_def)
  have rp: "paths_readable 100 request_line_new ?b"
    using sh by (auto simp: numeral_eq_Suc e example_line_def reads_def)
  have len: "length (response_text (not_found_answer request_line_new Map.empty ''now'')) = 54"
    by code_simp
  from connection_answers_requests [OF service_new_answers, of "[''GET /a%20b?q HTTP/1.1'' @ CRLF @ ''Ho'', ''st: x'' @ CRLF @ CRLF]"
      "\<lparr>tx_wire = [], tx_script = replicate 200 (Ret 7)\<rparr>" 100 "\<lambda>_. ''now''" not_connected] ct len rp
  show ?thesis by (simp add: open_tx_def list_all_iff)
qed

end
