(* ===== verification/Uri_Query.thy ===== *)
theory Uri_Query
  imports Uri
begin

text \<open>
  Searching with regular expressions, and the parts of \<^verbatim>\<open>include/xsl/net/uri.h\<close> and
  \<^verbatim>\<open>include/xsl/net/http/request/target.h\<close> that theory \<^verbatim>\<open>Uri\<close> leaves: the query map \<^verbatim>\<open>KVQuery\<close> and the accessors of a
  request target.  The lemmas show what a search finds first and that a query made of pairs is read
  back as these pairs, the last value of a key winning.
\<close>

section \<open>Searching\<close>

text \<open>\<^verbatim>\<open>std::regex_search\<close>: the leftmost position that matches and its first outcome; the groups and the
  input after the match.  \<^verbatim>\<open>std::cregex_iterator\<close> searches on after each match.\<close>

fun regex_search :: "re \<Rightarrow> string \<Rightarrow> (caps \<times> string) option" where
  "regex_search r s =
     (case re_run (length s) r (s, []) of
        (rest, c) # _ \<Rightarrow> Some (c, rest)
      | [] \<Rightarrow> (case s of [] \<Rightarrow> None | _ # s' \<Rightarrow> regex_search r s'))"

declare regex_search.simps [simp del]

function regex_iter :: "re \<Rightarrow> string \<Rightarrow> caps list" where
  "regex_iter r s =
     (case regex_search r s of
        None \<Rightarrow> []
      | Some (c, rest) \<Rightarrow> if length rest < length s then c # regex_iter r rest else [c])"
  by pat_completeness auto
termination regex_iter
  by (relation "measure (\<lambda>(r, s). length s)") auto

declare regex_iter.simps [simp del]

section \<open>Queries\<close>

text \<open>\<^verbatim>\<open>([^&=]+)=([^&=]+)\<close>\<close>

definition KV_STOP :: string where "KV_STOP = ''&=''"

definition Word :: re where "Word = Seq (Cls True KV_STOP) (Star (Cls True KV_STOP))"

definition kv_query_re :: re where
  "kv_query_re = Seqs [Grp 1 Word, Lit ''='', Grp 2 Word]"

text \<open>The map is assigned match by match.\<close>

definition KVQuery :: "string \<Rightarrow> (string \<rightharpoonup> string)" where
  "KVQuery sv = fold (\<lambda>c m. m(group c 1 \<mapsto> group c 2)) (regex_iter kv_query_re sv) Map.empty"

section \<open>Accessors of a target\<close>

fun origin_form_of :: "request_target \<Rightarrow> (string \<times> string) option" where
  "origin_form_of (OriginForm p q) = Some (p, q)"
| "origin_form_of _ = None"

fun absolute_form_of :: "request_target \<Rightarrow> absolute_uri option" where
  "absolute_form_of (AbsoluteForm u) = Some u"
| "absolute_form_of _ = None"

fun authority_form_of :: "request_target \<Rightarrow> (string \<times> string) option" where
  "authority_form_of (AuthorityForm h p) = Some (h, p)"
| "authority_form_of _ = None"

fun asterisk_form_of :: "request_target \<Rightarrow> unit option" where
  "asterisk_form_of AsteriskForm = Some ()"
| "asterisk_form_of _ = None"

section \<open>What a search finds first\<close>

text \<open>The first outcome of the matcher; a greedy class takes the whole run of accepted characters.\<close>

definition first :: "nat \<Rightarrow> re \<Rightarrow> string \<times> caps \<Rightarrow> string \<times> caps \<Rightarrow> bool" where
  "first n r s t \<longleftrightarrow> (\<exists>ts. re_run n r s = t # ts)"

lemma first_seq: "first n a s t \<Longrightarrow> first n b t u \<Longrightarrow> first n (Seq a b) s u"
  by (auto simp: first_def)

lemma first_eps: "first n Eps s s" by (simp add: first_def)

lemma first_cls: "(x \<in> set cs) \<noteq> neg \<Longrightarrow> first n (Cls neg cs) (x # s, c) (s, c)"
  by (simp add: first_def)

lemma first_star_cls:
  "first n (Star (Cls neg cs)) (s, c) (dropWhile (\<lambda>x. (x \<in> set cs) \<noteq> neg) s, c)"
proof (induction s)
  case (Cons x xs)
  then obtain ts where "star_iter (length xs) (re_run n (Cls neg cs)) (xs, c) =
      (dropWhile (\<lambda>x. (x \<in> set cs) \<noteq> neg) xs, c) # ts" by (auto simp: first_def simp del: re_run.simps(1))
  then show ?case by (auto simp: first_def)
qed (simp add: first_def)

lemma first_opt: "first n a s t \<Longrightarrow> first n (Opt a) s t"
  by (auto simp: first_def)

lemma first_opt_none: "re_run n a s = [] \<Longrightarrow> first n (Opt a) s s"
  by (simp add: first_def)

lemma first_grp:
  "first n a (p @ t, c) (t, c') \<Longrightarrow> first n (Grp i a) (p @ t, c) (t, (i, p) # c')"
  by (auto simp: first_def)

lemma first_plus_cls:
  assumes "p \<noteq> []" "\<forall>x\<in>set p. (x \<in> set cs) \<noteq> neg" "t = [] \<or> (hd t \<in> set cs) = neg"
  shows "first n (Seq (Cls neg cs) (Star (Cls neg cs))) (p @ t, c) (t, c)"
proof -
  obtain x q where p: "p = x # q" using assms(1) by (cases p) auto
  have "dropWhile (\<lambda>x. (x \<in> set cs) \<noteq> neg) (q @ t) = t"
    using assms(2,3) p by (cases t) (auto simp: dropWhile_append)
  then have "first n (Star (Cls neg cs)) (q @ t, c) (t, c)" using first_star_cls [of n neg cs "q @ t" c] by simp
  moreover have "first n (Cls neg cs) (p @ t, c) (q @ t, c)" using first_cls [of x cs neg] assms(2) p by simp
  ultimately show ?thesis by (rule first_seq [rotated])
qed

lemma first_lit: "first n (Lit cs) (cs @ s, c) (s, c)"
  by (simp add: first_def re_run_Lit)

lemma search_first: "first (length s) r (s, []) (rest, c) \<Longrightarrow> regex_search r s = Some (c, rest)"
  by (auto simp: first_def regex_search.simps [of _ s])

section \<open>Reading queries\<close>

definition kv_word :: "string \<Rightarrow> bool" where
  "kv_word w \<longleftrightarrow> w \<noteq> [] \<and> CHR ''&'' \<notin> set w \<and> CHR ''='' \<notin> set w"

fun print_query :: "(string \<times> string) list \<Rightarrow> string" where
  "print_query [] = []"
| "print_query ((k, v) # ps) = k @ ''='' @ v @ (if ps = [] then [] else ''&'' @ print_query ps)"

lemma search_pair:
  assumes "kv_word k" "kv_word v" "rest = [] \<or> hd rest \<in> set KV_STOP"
  shows "regex_search kv_query_re (k @ ''='' @ v @ rest) = Some ([(2, v), (1, k)], rest)"
proof (rule search_first)
  let ?s = "k @ ''='' @ v @ rest" let ?n = "length (k @ ''='' @ v @ rest)"
  have 1: "first ?n (Grp 1 Word) (?s, []) (''='' @ v @ rest, [(1, k)])"
    unfolding Word_def by (rule first_grp, rule first_plus_cls) (use assms(1) in \<open>auto simp: kv_word_def KV_STOP_def\<close>)
  have 2: "first ?n (Lit ''='') (''='' @ v @ rest, [(1, k)]) (v @ rest, [(1, k)])" by (rule first_lit)
  have 3: "first ?n (Grp 2 Word) (v @ rest, [(1, k)]) (rest, [(2, v), (1, k)])"
    unfolding Word_def by (rule first_grp, rule first_plus_cls) (use assms(2,3) in \<open>auto simp: kv_word_def KV_STOP_def\<close>)
  show "first ?n kv_query_re (?s, []) (rest, [(2, v), (1, k)])"
    unfolding kv_query_re_def Seqs.simps by (rule first_seq [OF 1 first_seq [OF 2 first_seq [OF 3 first_eps]]])
qed

text \<open>A separator in front of the input is passed over.\<close>

lemma search_skips: "c \<in> set KV_STOP \<Longrightarrow> regex_search kv_query_re (c # s) = regex_search kv_query_re s"
  by (subst regex_search.simps) (simp add: kv_query_re_def Word_def)

lemma iter_skips: "c \<in> set KV_STOP \<Longrightarrow> regex_search kv_query_re s = Some (g, rest) \<Longrightarrow> length rest < length s \<Longrightarrow>
    regex_iter kv_query_re (c # s) = regex_iter kv_query_re s"
  by (simp add: regex_iter.simps [of _ "c # s"] regex_iter.simps [of _ s] search_skips)

lemma iter_query:
  assumes "\<forall>p\<in>set ps. kv_word (fst p) \<and> kv_word (snd p)"
  shows "map (\<lambda>c. (group c 1, group c 2)) (regex_iter kv_query_re (print_query ps)) = ps"
  using assms
proof (induction ps)
  case Nil
  have "regex_search kv_query_re [] = None" by code_simp
  then show ?case by (simp add: regex_iter.simps)
next
  case (Cons p ps)
  obtain k v where p: "p = (k, v)" by (cases p)
  have w: "kv_word k" "kv_word v" using Cons.prems p by auto
  let ?rest = "if ps = [] then [] else ''&'' @ print_query ps"
  have s: "regex_search kv_query_re (print_query (p # ps)) = Some ([(2, v), (1, k)], ?rest)"
    using search_pair [OF w, of ?rest] p by (simp add: KV_STOP_def)
  have it: "regex_iter kv_query_re (print_query (p # ps)) = [(2, v), (1, k)] # regex_iter kv_query_re ?rest"
    by (subst regex_iter.simps) (use s p in simp)
  have "regex_iter kv_query_re ?rest = regex_iter kv_query_re (print_query ps)"
  proof (cases ps)
    case (Cons q qs)
    obtain k' v' where q: "q = (k', v')" by (cases q)
    have "regex_search kv_query_re (print_query ps) = Some ([(2, v'), (1, k')], if qs = [] then [] else ''&'' @ print_query qs)"
      using search_pair [of k' v' "if qs = [] then [] else ''&'' @ print_query qs"] Cons.prems Cons q by (simp add: KV_STOP_def)
    then show ?thesis using iter_skips [of "CHR ''&''" "print_query ps"] Cons q by (simp add: KV_STOP_def)
  qed simp
  then show ?case using it Cons p by (simp add: group_def)
qed

lemma assigns_pairs: "fold (\<lambda>p m. m(fst p \<mapsto> snd p)) ps m = m ++ map_of (rev ps)"
  by (induction ps arbitrary: m) (simp_all add: map_add_def fun_eq_iff split: option.split)

text \<open>C39. Queries round trip: a query printed from pairs of keys and values, each of them not empty and without the
  separators, is read back by \<^verbatim>\<open>KVQuery\<close> as exactly these pairs, the last value of a repeated key winning.\<close>

theorem kv_query_round_trip:
  assumes "\<forall>p\<in>set ps. kv_word (fst p) \<and> kv_word (snd p)"
  shows "KVQuery (print_query ps) = map_of (rev ps)"
proof -
  have "KVQuery (print_query ps) = fold (\<lambda>p m. m(fst p \<mapsto> snd p)) (map (\<lambda>c. (group c 1, group c 2)) (regex_iter kv_query_re (print_query ps))) Map.empty"
    by (simp add: KVQuery_def fold_map comp_def)
  then show ?thesis using iter_query [OF assms] assigns_pairs [of ps Map.empty] by simp
qed

theorem kv_query_round_trip_witness: "KVQuery ''a=1&b=%20&a=x'' = [''a'' \<mapsto> ''x'', ''b'' \<mapsto> ''%20'']"
proof -
  have "KVQuery (print_query [(''a'', ''1''), (''b'', ''%20''), (''a'', ''x'')]) = map_of (rev [(''a'', ''1''), (''b'', ''%20''), (''a'', ''x'')])"
    by (rule kv_query_round_trip) (simp add: kv_word_def)
  then show ?thesis by (simp add: fun_eq_iff)
qed

text \<open>A key without a value is dropped, and a second equals sign ends the value.\<close>

lemma kv_query_drops:
  "KVQuery ''a=&b=1'' = [''b'' \<mapsto> ''1'']" "KVQuery ''a=b=c'' = [''a'' \<mapsto> ''b'']"
proof -
  have "map (\<lambda>c. (group c 1, group c 2)) (regex_iter kv_query_re ''a=&b=1'') = [(''b'', ''1'')]"
    "map (\<lambda>c. (group c 1, group c 2)) (regex_iter kv_query_re ''a=b=c'') = [(''a'', ''b'')]" by code_simp+
  then show "KVQuery ''a=&b=1'' = [''b'' \<mapsto> ''1'']" "KVQuery ''a=b=c'' = [''a'' \<mapsto> ''b'']" by (auto simp: KVQuery_def)
qed

end
