(* ===== verification/Http_Media.thy ===== *)
theory Http_Media
  imports Uri_Query Http_Head
begin

text \<open>
  Media types and content negotiation: \<^verbatim>\<open>include/xsl/net/http/proto/media-type.h\<close>,
  \<^verbatim>\<open>src/net/http/proto/media-type.cpp\<close> (the enumerations and their texts, the named media types, the
  table from file extensions to media types, \<^verbatim>\<open>MediaTypeBase\<close>) and \<^verbatim>\<open>src/net/http/proto/accept.cpp\<close>
  (\<^verbatim>\<open>parse_accept\<close>, \<^verbatim>\<open>parse_accept_encoding\<close>).  The expression \<^verbatim>\<open>parameter_re\<close> runs on the matcher of
  theory \<^verbatim>\<open>Uri\<close>; \<^verbatim>\<open>substr\<close> past the end throws, here \<^term>\<open>None\<close>.  The theorems show that every
  extension yields a well formed media type of the common list and that the two header parsers invert
  the printing of well formed headers.
\<close>

section \<open>Main types and sub types\<close>

datatype media_main_type =
    MM_ANY | MM_TEXT | MM_IMAGE | MM_AUDIO | MM_VIDEO | MM_APPLICATION | MM_MULTIPART | MM_MESSAGE
  | MM_MODEL | MM_UNKNOWN

fun main_code :: "media_main_type \<Rightarrow> nat" where
  "main_code MM_ANY = 0" | "main_code MM_TEXT = 1" | "main_code MM_IMAGE = 2" | "main_code MM_AUDIO = 3"
| "main_code MM_VIDEO = 4" | "main_code MM_APPLICATION = 5" | "main_code MM_MULTIPART = 6"
| "main_code MM_MESSAGE = 7" | "main_code MM_MODEL = 8" | "main_code MM_UNKNOWN = 255"

definition MEDIA_MAIN_TYPE_STRINGS :: "string list" where
  "MEDIA_MAIN_TYPE_STRINGS =
     [''*'', ''text'', ''image'', ''audio'', ''video'', ''application'', ''multipart'', ''message'', ''model'']"

text \<open>\<^verbatim>\<open>to_string_view\<close>: \<^term>\<open>None\<close> is the read outside the table for \<^verbatim>\<open>UNKNOWN\<close>.\<close>

definition main_to_string :: "media_main_type \<Rightarrow> string option" where
  "main_to_string t =
     (if main_code t < length MEDIA_MAIN_TYPE_STRINGS then Some (MEDIA_MAIN_TYPE_STRINGS ! main_code t) else None)"

definition main_equals :: "media_main_type \<Rightarrow> string \<Rightarrow> bool option" where
  "main_equals t s = map_option (\<lambda>x. x = s) (main_to_string t)"

datatype media_sub_type =
    MS_ANY | MS_PLAIN | MS_CSS | MS_CSV | MS_HTML | MS_JAVASCRIPT | MS_JSON | MS_XML | MS_ZIP | MS_GZIP
  | MS_JPEG | MS_PNG | MS_GIF | MS_BMP | MS_SVG | MS_TIFF | MS_WEBP | MS_MP3 | MS_WAV | MS_OGG | MS_MPEG
  | MS_MP4 | MS_WEBM | MS_OGG_VIDEO | MS_OGG_AUDIO | MS_PDF | MS_ZIP_APPLICATION | MS_GZIP_APPLICATION
  | MS_OCTET_STREAM | MS_FORM_DATA | MS_SIGNED | MS_ENCRYPTED | MS_BYTERANGES | MS_UNKNOWN

fun sub_code :: "media_sub_type \<Rightarrow> nat" where
  "sub_code MS_ANY = 0" | "sub_code MS_PLAIN = 1" | "sub_code MS_CSS = 2"
| "sub_code MS_CSV = 3" | "sub_code MS_HTML = 4" | "sub_code MS_JAVASCRIPT = 5"
| "sub_code MS_JSON = 6" | "sub_code MS_XML = 7" | "sub_code MS_ZIP = 8"
| "sub_code MS_GZIP = 9" | "sub_code MS_JPEG = 10" | "sub_code MS_PNG = 11"
| "sub_code MS_GIF = 12" | "sub_code MS_BMP = 13" | "sub_code MS_SVG = 14"
| "sub_code MS_TIFF = 15" | "sub_code MS_WEBP = 16" | "sub_code MS_MP3 = 17"
| "sub_code MS_WAV = 18" | "sub_code MS_OGG = 19" | "sub_code MS_MPEG = 20"
| "sub_code MS_MP4 = 21" | "sub_code MS_WEBM = 22" | "sub_code MS_OGG_VIDEO = 23"
| "sub_code MS_OGG_AUDIO = 24" | "sub_code MS_PDF = 25" | "sub_code MS_ZIP_APPLICATION = 26"
| "sub_code MS_GZIP_APPLICATION = 27" | "sub_code MS_OCTET_STREAM = 28" | "sub_code MS_FORM_DATA = 29"
| "sub_code MS_SIGNED = 30" | "sub_code MS_ENCRYPTED = 31" | "sub_code MS_BYTERANGES = 32"
| "sub_code MS_UNKNOWN = 255"

definition MEDIA_SUB_TYPE_STRINGS :: "string list" where
  "MEDIA_SUB_TYPE_STRINGS =
     [''*'', ''plain'', ''css'', ''csv'', ''html'', ''javascript'', ''json'', ''xml'', ''zip'', ''gzip'',
      ''jpeg'', ''png'', ''gif'', ''bmp'', ''svg'', ''tiff'', ''webp'', ''mp3'', ''wav'', ''ogg'', ''mpeg'',
      ''mp4'', ''webm'', ''ogg-video'', ''ogg-audio'', ''pdf'', ''zip'', ''gzip'', ''octet-stream'',
      ''form-data'', ''signed'', ''encrypted'', ''byteranges'']"

definition sub_to_string :: "media_sub_type \<Rightarrow> string option" where
  "sub_to_string t =
     (if sub_code t < length MEDIA_SUB_TYPE_STRINGS then Some (MEDIA_SUB_TYPE_STRINGS ! sub_code t) else None)"

definition sub_equals :: "media_sub_type \<Rightarrow> string \<Rightarrow> bool option" where
  "sub_equals t s = map_option (\<lambda>x. x = s) (sub_to_string t)"

section \<open>Named media types and file extensions\<close>

text \<open>The constants of the namespace \<^verbatim>\<open>common_media_type\<close> by name; the table
  \<^verbatim>\<open>extension_to_media_type\<close> has their texts.\<close>

definition common_media_type :: "(string \<times> string) list" where
  "common_media_type = [
   (''any'', ''*''), (''text'', ''text''), (''image'', ''image''), (''audio'', ''audio''),
   (''video'', ''video''), (''application'', ''application''), (''multipart'', ''multipart''),
   (''message'', ''message''), (''model'', ''model''), (''plain'', ''plain''), (''css'', ''css''),
   (''csv'', ''csv''), (''html'', ''html''), (''javascript'', ''javascript''), (''json'', ''json''),
   (''xml'', ''xml''), (''zip'', ''zip''), (''gzip'', ''gzip''), (''jpeg'', ''jpeg''), (''png'', ''png''),
   (''gif'', ''gif''), (''bmp'', ''bmp''), (''svg'', ''svg''), (''tiff'', ''tiff''), (''webp'', ''webp''),
   (''mp3'', ''mp3''), (''wav'', ''wav''), (''ogg'', ''ogg''), (''mpeg'', ''mpeg''), (''mp4'', ''mp4''),
   (''webm'', ''webm''), (''ogg_video'', ''ogg-video''), (''ogg_audio'', ''ogg-audio''),
   (''any_any'', ''*/*''), (''text_any'', ''text/*''), (''image_any'', ''image/*''),
   (''audio_any'', ''audio/*''), (''video_any'', ''video/*''), (''application_any'', ''application/*''),
   (''multipart_any'', ''multipart/*''), (''message_any'', ''message/*''), (''model_any'', ''model/*''),
   (''text_html'', ''text/html''), (''text_css'', ''text/css''), (''text_xml'', ''text/xml''),
   (''image_gif'', ''image/gif''), (''image_jpeg'', ''image/jpeg''),
   (''application_javascript'', ''application/javascript''),
   (''application_atom_xml'', ''application/atom+xml''),
   (''application_rss_xml'', ''application/rss+xml''), (''text_mathml'', ''text/mathml''),
   (''text_plain'', ''text/plain''),
   (''text_vnd_sun_j2me_app_descriptor'', ''text/vnd.sun.j2me.app-descriptor''),
   (''text_vnd_wap_wml'', ''text/vnd.wap.wml''), (''text_x_component'', ''text/x-component''),
   (''image_avif'', ''image/avif''), (''image_png'', ''image/png''),
   (''image_svg_xml'', ''image/svg+xml''), (''image_tiff'', ''image/tiff''),
   (''image_vnd_wap_wbmp'', ''image/vnd.wap.wbmp''), (''image_webp'', ''image/webp''),
   (''image_x_icon'', ''image/x-icon''), (''image_x_jng'', ''image/x-jng''),
   (''image_x_ms_bmp'', ''image/x-ms-bmp''), (''font_woff'', ''font/woff''),
   (''font_woff2'', ''font/woff2''), (''application_java_archive'', ''application/java-archive''),
   (''application_json'', ''application/json''),
   (''application_mac_binhex40'', ''application/mac-binhex40''),
   (''application_msword'', ''application/msword''), (''application_pdf'', ''application/pdf''),
   (''application_postscript'', ''application/postscript''), (''application_rtf'', ''application/rtf''),
   (''application_vnd_apple_mpegurl'', ''application/vnd.apple.mpegurl''),
   (''application_vnd_google_earth_kml_xml'', ''application/vnd.google-earth.kml+xml''),
   (''application_vnd_google_earth_kmz'', ''application/vnd.google-earth.kmz''),
   (''application_vnd_ms_excel'', ''application/vnd.ms-excel''),
   (''application_vnd_ms_fontobject'', ''application/vnd.ms-fontobject''),
   (''application_vnd_ms_powerpoint'', ''application/vnd.ms-powerpoint''),
   (''application_vnd_oasis_opendocument_graphics'', ''application/vnd.oasis.opendocument.graphics''),
   (''application_vnd_oasis_opendocument_presentation'', ''application/vnd.oasis.opendocument.presentation''),
   (''application_vnd_oasis_opendocument_spreadsheet'', ''application/vnd.oasis.opendocument.spreadsheet''),
   (''application_vnd_oasis_opendocument_text'', ''application/vnd.oasis.opendocument.text''),
   (''application_vnd_openxmlformats_officedocument_presentationml_presentation'', ''application/vnd.openxmlformats-officedocument.presentationml.presentation''),
   (''application_vnd_openxmlformats_officedocument_spreadsheetml_sheet'', ''application/vnd.openxmlformats-officedocument.spreadsheetml.sheet''),
   (''application_vnd_openxmlformats_officedocument_wordprocessingml_document'', ''application/vnd.openxmlformats-officedocument.wordprocessingml.document''),
   (''application_vnd_wap_wmlc'', ''application/vnd.wap.wmlc''),
   (''application_wasm'', ''application/wasm''),
   (''application_x_7z_compressed'', ''application/x-7z-compressed''),
   (''application_x_cocoa'', ''application/x-cocoa''),
   (''application_x_java_archive_diff'', ''application/x-java-archive-diff''),
   (''application_x_java_jnlp_file'', ''application/x-java-jnlp-file''),
   (''application_x_makeself'', ''application/x-makeself''),
   (''application_x_perl'', ''application/x-perl''), (''application_x_pilot'', ''application/x-pilot''),
   (''application_x_rar_compressed'', ''application/x-rar-compressed''),
   (''application_x_redhat_package_manager'', ''application/x-redhat-package-manager''),
   (''application_x_sea'', ''application/x-sea''),
   (''application_x_shockwave_flash'', ''application/x-shockwave-flash''),
   (''application_x_stuffit'', ''application/x-stuffit''), (''application_x_tcl'', ''application/x-tcl''),
   (''application_x_x509_ca_cert'', ''application/x-x509-ca-cert''),
   (''application_x_xpinstall'', ''application/x-xpinstall''),
   (''application_xhtml_xml'', ''application/xhtml+xml''),
   (''application_xspf_xml'', ''application/xspf+xml''), (''application_zip'', ''application/zip''),
   (''application_octet_stream'', ''application/octet-stream''), (''audio_midi'', ''audio/midi''),
   (''audio_mpeg'', ''audio/mpeg''), (''audio_ogg'', ''audio/ogg''), (''audio_x_m4a'', ''audio/x-m4a''),
   (''audio_x_realaudio'', ''audio/x-realaudio''), (''video_3gpp'', ''video/3gpp''),
   (''video_mp2t'', ''video/mp2t''), (''video_mp4'', ''video/mp4''), (''video_mpeg'', ''video/mpeg''),
   (''video_quicktime'', ''video/quicktime''), (''video_webm'', ''video/webm''),
   (''video_x_flv'', ''video/x-flv''), (''video_x_m4v'', ''video/x-m4v''),
   (''video_x_mng'', ''video/x-mng''), (''video_x_ms_asf'', ''video/x-ms-asf''),
   (''video_x_ms_wmv'', ''video/x-ms-wmv''), (''video_x_msvideo'', ''video/x-msvideo'')]"

definition extension_to_media_type :: "(string \<times> string) list" where
  "extension_to_media_type = [
   (''.html'', ''text/html''), (''.shtml'', ''text/html''), (''.htm'', ''text/html''),
   (''.css'', ''text/css''), (''.xml'', ''text/xml''), (''.gif'', ''image/gif''),
   (''.jpeg'', ''image/jpeg''), (''.jpg'', ''image/jpeg''), (''.js'', ''application/javascript''),
   (''.atom'', ''application/atom+xml''), (''.rss'', ''application/rss+xml''), (''.mml'', ''text/mathml''),
   (''.txt'', ''text/plain''), (''.jad'', ''text/vnd.sun.j2me.app-descriptor''),
   (''.wml'', ''text/vnd.wap.wml''), (''.htc'', ''text/x-component''), (''.avif'', ''image/avif''),
   (''.png'', ''image/png''), (''.svg'', ''image/svg+xml''), (''.svgz'', ''image/svg+xml''),
   (''.tif'', ''image/tiff''), (''.tiff'', ''image/tiff''), (''.wbmp'', ''image/vnd.wap.wbmp''),
   (''.webp'', ''image/webp''), (''.ico'', ''image/x-icon''), (''.jng'', ''image/x-jng''),
   (''.bmp'', ''image/x-ms-bmp''), (''.woff'', ''font/woff''), (''.woff2'', ''font/woff2''),
   (''.jar'', ''application/java-archive''), (''.war'', ''application/java-archive''),
   (''.ear'', ''application/java-archive''), (''.json'', ''application/json''),
   (''.hqx'', ''application/mac-binhex40''), (''.doc'', ''application/msword''),
   (''.pdf'', ''application/pdf''), (''.ps'', ''application/postscript''),
   (''.eps'', ''application/postscript''), (''.ai'', ''application/postscript''),
   (''.rtf'', ''application/rtf''), (''.m3u8'', ''application/vnd.apple.mpegurl''),
   (''.kml'', ''application/vnd.google-earth.kml+xml''), (''.kmz'', ''application/vnd.google-earth.kmz''),
   (''.xls'', ''application/vnd.ms-excel''), (''.eot'', ''application/vnd.ms-fontobject''),
   (''.ppt'', ''application/vnd.ms-powerpoint''),
   (''.odg'', ''application/vnd.oasis.opendocument.graphics''),
   (''.odp'', ''application/vnd.oasis.opendocument.presentation''),
   (''.ods'', ''application/vnd.oasis.opendocument.spreadsheet''),
   (''.odt'', ''application/vnd.oasis.opendocument.text''),
   (''.pptx'', ''application/vnd.openxmlformats-officedocument.presentationml.presentation''),
   (''.xlsx'', ''application/vnd.openxmlformats-officedocument.spreadsheetml.sheet''),
   (''.docx'', ''application/vnd.openxmlformats-officedocument.wordprocessingml.document''),
   (''.wmlc'', ''application/vnd.wap.wmlc''), (''.wasm'', ''application/wasm''),
   (''.7z'', ''application/x-7z-compressed''), (''.cco'', ''application/x-cocoa''),
   (''.jardiff'', ''application/x-java-archive-diff''), (''.jnlp'', ''application/x-java-jnlp-file''),
   (''.run'', ''application/x-makeself''), (''.pl'', ''application/x-perl''),
   (''.pm'', ''application/x-perl''), (''.prc'', ''application/x-pilot''),
   (''.pdb'', ''application/x-pilot''), (''.rar'', ''application/x-rar-compressed''),
   (''.rpm'', ''application/x-redhat-package-manager''), (''.sea'', ''application/x-sea''),
   (''.swf'', ''application/x-shockwave-flash''), (''.sit'', ''application/x-stuffit''),
   (''.tcl'', ''application/x-tcl''), (''.tk'', ''application/x-tcl''),
   (''.der'', ''application/x-x509-ca-cert''), (''.pem'', ''application/x-x509-ca-cert''),
   (''.crt'', ''application/x-x509-ca-cert''), (''.xpi'', ''application/x-xpinstall''),
   (''.xhtml'', ''application/xhtml+xml''), (''.xspf'', ''application/xspf+xml''),
   (''.zip'', ''application/zip''), (''.bin'', ''application/octet-stream''),
   (''.exe'', ''application/octet-stream''), (''.dll'', ''application/octet-stream''),
   (''.deb'', ''application/octet-stream''), (''.dmg'', ''application/octet-stream''),
   (''.iso'', ''application/octet-stream''), (''.img'', ''application/octet-stream''),
   (''.msi'', ''application/octet-stream''), (''.msp'', ''application/octet-stream''),
   (''.msm'', ''application/octet-stream''), (''.mid'', ''audio/midi''), (''.midi'', ''audio/midi''),
   (''.kar'', ''audio/midi''), (''.mp3'', ''audio/mpeg''), (''.ogg'', ''audio/ogg''),
   (''.m4a'', ''audio/x-m4a''), (''.ra'', ''audio/x-realaudio''), (''.3gpp'', ''video/3gpp''),
   (''.3gp'', ''video/3gpp''), (''.ts'', ''video/mp2t''), (''.mp4'', ''video/mp4''),
   (''.mpeg'', ''video/mpeg''), (''.mpg'', ''video/mpeg''), (''.mov'', ''video/quicktime''),
   (''.webm'', ''video/webm''), (''.flv'', ''video/x-flv''), (''.m4v'', ''video/x-m4v''),
   (''.mng'', ''video/x-mng''), (''.asx'', ''video/x-ms-asf''), (''.asf'', ''video/x-ms-asf''),
   (''.wmv'', ''video/x-ms-wmv''), (''.avi'', ''video/x-msvideo'')]"

definition COMMON_MEDIA_TYPES :: "string list" where
  "COMMON_MEDIA_TYPES = [
   ''text/html'', ''text/css'', ''text/xml'', ''image/gif'', ''image/jpeg'', ''application/javascript'',
   ''application/atom+xml'', ''application/rss+xml'', ''text/mathml'', ''text/plain'',
   ''text/vnd.sun.j2me.app-descriptor'', ''text/vnd.wap.wml'', ''text/x-component'', ''image/avif'',
   ''image/png'', ''image/svg+xml'', ''image/tiff'', ''image/vnd.wap.wbmp'', ''image/webp'',
   ''image/x-icon'', ''image/x-jng'', ''image/x-ms-bmp'', ''font/woff'', ''font/woff2'',
   ''application/java-archive'', ''application/json'', ''application/mac-binhex40'',
   ''application/msword'', ''application/pdf'', ''application/postscript'', ''application/rtf'',
   ''application/vnd.apple.mpegurl'', ''application/vnd.google-earth.kml+xml'',
   ''application/vnd.google-earth.kmz'', ''application/vnd.ms-excel'', ''application/vnd.ms-fontobject'',
   ''application/vnd.ms-powerpoint'', ''application/vnd.oasis.opendocument.graphics'',
   ''application/vnd.oasis.opendocument.presentation'', ''application/vnd.oasis.opendocument.spreadsheet'',
   ''application/vnd.oasis.opendocument.text'',
   ''application/vnd.openxmlformats-officedocument.presentationml.presentation'',
   ''application/vnd.openxmlformats-officedocument.spreadsheetml.sheet'',
   ''application/vnd.openxmlformats-officedocument.wordprocessingml.document'',
   ''application/vnd.wap.wmlc'', ''application/wasm'', ''application/x-7z-compressed'',
   ''application/x-cocoa'', ''application/x-java-archive-diff'', ''application/x-java-jnlp-file'',
   ''application/x-makeself'', ''application/x-perl'', ''application/x-pilot'',
   ''application/x-rar-compressed'', ''application/x-redhat-package-manager'', ''application/x-sea'',
   ''application/x-shockwave-flash'', ''application/x-stuffit'', ''application/x-tcl'',
   ''application/x-x509-ca-cert'', ''application/x-xpinstall'', ''application/xhtml+xml'',
   ''application/xspf+xml'', ''application/zip'', ''application/octet-stream'', ''audio/midi'',
   ''audio/mpeg'', ''audio/ogg'', ''audio/x-m4a'', ''audio/x-realaudio'', ''video/3gpp'', ''video/mp2t'',
   ''video/mp4'', ''video/mpeg'', ''video/quicktime'', ''video/webm'', ''video/x-flv'', ''video/x-m4v'',
   ''video/x-mng'', ''video/x-ms-asf'', ''video/x-ms-wmv'', ''video/x-msvideo'']"

definition cmt :: "string \<Rightarrow> string" where
  "cmt name = (case map_of common_media_type name of Some v \<Rightarrow> v | None \<Rightarrow> [])"

section \<open>Media types\<close>

text \<open>\<^verbatim>\<open>MediaTypeBase\<close> with the parameters of \<^verbatim>\<open>MediaType\<close> and \<^verbatim>\<open>MediaTypeView\<close>: the characters from
  \<^verbatim>\<open>start\<close> to \<^verbatim>\<open>end\<close>, the offset of \<^verbatim>\<open>slash\<close> and the pairs of name and value.\<close>

record media_type =
  mt_text :: string
  mt_slash :: nat
  mt_params :: "(string \<times> string) list"

definition main_type :: "media_type \<Rightarrow> string" where
  "main_type m = take (mt_slash m) (mt_text m)"

definition sub_type :: "media_type \<Rightarrow> string" where
  "sub_type m = drop (mt_slash m + 1) (mt_text m)"

definition type_includes :: "media_type \<Rightarrow> media_type \<Rightarrow> bool" where
  "type_includes m other =
     (if main_type m = cmt ''any'' then True
      else if main_type m \<noteq> main_type other then False
      else if sub_type m = cmt ''any'' then True
      else sub_type m = sub_type other)"

definition mt_to_string_view :: "media_type \<Rightarrow> string" where
  "mt_to_string_view m = mt_text m"

text \<open>\<^verbatim>\<open>MediaType::to_string\<close>.\<close>

definition mt_to_string :: "media_type \<Rightarrow> string" where
  "mt_to_string m = fold (\<lambda>(n, v) r. r @ '';'' @ n @ ''='' @ v) (mt_params m) (mt_to_string_view m)"

text \<open>\<^verbatim>\<open>from_extension\<close>; every media type of the table has a slash (\<open>common_slash\<close> below).\<close>

definition media_of_text :: "string \<Rightarrow> media_type" where
  "media_of_text s =
     \<lparr>mt_text = s, mt_slash = (case sv_find ''/'' s 0 of Some i \<Rightarrow> i | None \<Rightarrow> 0), mt_params = []\<rparr>"

definition from_extension :: "string \<Rightarrow> media_type" where
  "from_extension ext =
     (case map_of extension_to_media_type ext of
        Some mt \<Rightarrow> media_of_text mt
      | None \<Rightarrow> media_of_text (cmt ''application_octet_stream''))"

section \<open>The Accept headers\<close>

text \<open>\<^verbatim>\<open>\s*;\s*([^=]+)=(?:\"?([^;,\r\n]+)\"?)\<close>.\<close>

definition SPACES :: string where
  "SPACES = [CHR '' '', CHR 0x09, CHR 0x0A, CHR 0x0B, CHR 0x0C, CHR 0x0D]"

definition Space :: re where
  "Space = Cls False SPACES"

definition VALUE_STOP :: string where
  "VALUE_STOP = [CHR '';'', CHR '','', CHR 0x0D, CHR 0x0A]"

definition QUOTE :: char where "QUOTE = CHR 0x22"

definition parameter_re :: re where
  "parameter_re = Seqs
     [Star Space, Cls False '';'', Star Space, Grp 1 (Seq (Cls True ''='') (Star (Cls True ''=''))),
      Cls False ''='', Opt (Cls False [QUOTE]), Grp 2 (Seq (Cls True VALUE_STOP) (Star (Cls True VALUE_STOP))),
      Opt (Cls False [QUOTE])]"

text \<open>The loop over the matches: a parameter \<^verbatim>\<open>q\<close> sets the weight, every other one is kept.\<close>

fun accept_params :: "(string \<times> string) list \<Rightarrow> (string \<times> string) list \<Rightarrow> string \<Rightarrow> (string \<times> string) list \<times> string" where
  "accept_params [] ps w = (ps, w)"
| "accept_params ((n, v) # ms) ps w =
     (if n = ''q'' then accept_params ms ps v else accept_params ms (ps @ [(n, v)]) w)"

definition parse_media :: "string \<Rightarrow> nat \<Rightarrow> media_type \<times> string" where
  "parse_media media_str slash =
     (case sv_find '';'' media_str slash of
        None \<Rightarrow> (\<lparr>mt_text = media_str, mt_slash = slash, mt_params = []\<rparr>, [])
      | Some semicolon \<Rightarrow>
          (let (ps, w) = accept_params (map (\<lambda>c. (group c 1, group c 2)) (regex_iter parameter_re (drop semicolon media_str))) [] []
           in (\<lparr>mt_text = take semicolon media_str, mt_slash = slash, mt_params = ps\<rparr>, w)))"

text \<open>The position of the next comma, or the end.\<close>

definition find_comma :: "string \<Rightarrow> nat \<Rightarrow> nat" where
  "find_comma s pos = (case sv_find '','' s pos of None \<Rightarrow> length s | Some c \<Rightarrow> c)"

definition next_element :: "string \<Rightarrow> nat \<Rightarrow> string option" where
  "next_element s comma = sv_substr s (sv_find_first_not_of [CHR '' '', CHR 0x09] s (comma + 1))"

lemma next_element_shorter: "next_element s comma = Some s' \<Longrightarrow> length s' < length s"
  by (auto simp: next_element_def sv_substr_def dest: sv_find_first_not_of_bounds split: option.splits if_splits)

function parse_accept_loop :: "string \<Rightarrow> (media_type \<times> string) list \<Rightarrow> (media_type \<times> string) list option" where
  "parse_accept_loop accept result =
     (case sv_find ''/'' accept 0 of
        None \<Rightarrow> Some result
      | Some slash \<Rightarrow>
          (let comma = find_comma accept slash;
               result' = result @ [parse_media (take comma accept) slash]
           in if comma = length accept then Some result'
              else (case next_element accept comma of
                      None \<Rightarrow> None
                    | Some accept' \<Rightarrow> parse_accept_loop accept' result')))"
  by pat_completeness auto
termination parse_accept_loop
  by (relation "measure (\<lambda>(s, r). length s)") (auto dest: next_element_shorter)

declare parse_accept_loop.simps [simp del]

definition parse_accept :: "string \<Rightarrow> (media_type \<times> string) list option" where
  "parse_accept accept = parse_accept_loop accept []"

definition parse_encoding :: "string \<Rightarrow> string \<times> string" where
  "parse_encoding encoding_str =
     (case sv_find '';'' encoding_str 0 of
        None \<Rightarrow> (encoding_str, [])
      | Some semicolon \<Rightarrow>
          (take semicolon encoding_str,
           case regex_search parameter_re (drop semicolon encoding_str) of None \<Rightarrow> [] | Some (c, _) \<Rightarrow> group c 2))"

function parse_encoding_loop :: "string \<Rightarrow> (string \<times> string) list \<Rightarrow> (string \<times> string) list option" where
  "parse_encoding_loop s result =
     (let comma = find_comma s 0;
          result' = result @ [parse_encoding (take comma s)]
      in if comma = length s then Some result'
         else (case next_element s comma of
                 None \<Rightarrow> None
               | Some s' \<Rightarrow> parse_encoding_loop s' result'))"
  by pat_completeness auto
termination parse_encoding_loop
  by (relation "measure (\<lambda>(s, r). length s)") (auto dest: next_element_shorter)

declare parse_encoding_loop.simps [simp del]

definition parse_accept_encoding :: "string \<Rightarrow> (string \<times> string) list option" where
  "parse_accept_encoding s = (if s = [] then Some [] else parse_encoding_loop s [])"


section \<open>The tables\<close>

definition good_media :: "string \<Rightarrow> bool" where
  "good_media t \<longleftrightarrow>
     (case find_idx (\<lambda>c. c = CHR ''/'') t of
        None \<Rightarrow> False | Some i \<Rightarrow> 0 < i \<and> drop (Suc i) t \<noteq> [] \<and> CHR ''/'' \<notin> set (drop (Suc i) t))"

lemma common_slash: "list_all good_media COMMON_MEDIA_TYPES"
  by code_simp

lemma common_types_listed:
  "COMMON_MEDIA_TYPES = filter (\<lambda>t. CHR ''/'' \<in> set t \<and> CHR ''*'' \<notin> set t) (map snd common_media_type)"
  by code_simp

text \<open>The table follows the order of the common list, so one pass over both checks it.\<close>

fun follows :: "'a list \<Rightarrow> 'a list \<Rightarrow> bool" where
  "follows [] ys = True"
| "follows (x # xs) [] = False"
| "follows (x # xs) (y # ys) = (if x = y then follows xs (y # ys) else follows (x # xs) ys)"

lemma follows_subset: "follows xs ys \<Longrightarrow> set xs \<subseteq> set ys"
  by (induction xs ys rule: follows.induct) (auto split: if_splits)

lemma extension_types: "follows (map snd extension_to_media_type) COMMON_MEDIA_TYPES"
  by code_simp

lemma octet_stream: "cmt ''application_octet_stream'' \<in> set COMMON_MEDIA_TYPES"
  by code_simp

lemma extension_type_common: "map_of extension_to_media_type ext = Some t \<Longrightarrow> t \<in> set COMMON_MEDIA_TYPES"
  using follows_subset [OF extension_types] by (force dest!: map_of_SomeD)

lemma media_of_text_split:
  assumes "good_media t"
  shows "main_type (media_of_text t) @ ''/'' @ sub_type (media_of_text t) = t"
    "CHR ''/'' \<notin> set (main_type (media_of_text t))" "CHR ''/'' \<notin> set (sub_type (media_of_text t))"
    "main_type (media_of_text t) \<noteq> []" "sub_type (media_of_text t) \<noteq> []"
proof -
  obtain i where i: "find_idx (\<lambda>c. c = CHR ''/'') t = Some i" "0 < i" "drop (Suc i) t \<noteq> []"
    "CHR ''/'' \<notin> set (drop (Suc i) t)"
    using assms by (auto simp: good_media_def split: option.splits)
  have sl: "mt_slash (media_of_text t) = i" "mt_text (media_of_text t) = t"
    using i(1) by (simp_all add: media_of_text_def sv_find_def find_sub_char)
  have b: "i < length t" "t ! i = CHR ''/''" "\<forall>j<i. t ! j \<noteq> CHR ''/''" using i(1) by (auto simp: find_idx_Some)
  show "main_type (media_of_text t) @ ''/'' @ sub_type (media_of_text t) = t"
    using id_take_nth_drop [OF b(1)] b(2) by (simp add: main_type_def sub_type_def sl)
  show "CHR ''/'' \<notin> set (main_type (media_of_text t))"
    using b by (auto simp: main_type_def sl in_set_conv_nth)
  show "CHR ''/'' \<notin> set (sub_type (media_of_text t))" "sub_type (media_of_text t) \<noteq> []"
    using i by (simp_all add: sub_type_def sl)
  show "main_type (media_of_text t) \<noteq> []" using i(2) b(1) by (auto simp: main_type_def sl)
qed

lemma from_extension_cases:
  obtains t where "t \<in> set COMMON_MEDIA_TYPES" "from_extension ext = media_of_text t" "good_media t"
proof -
  have "\<exists>t\<in>set COMMON_MEDIA_TYPES. from_extension ext = media_of_text t"
    using extension_type_common [of ext] octet_stream by (auto simp: from_extension_def split: option.split)
  then show thesis using common_slash that by (auto simp: list_all_iff)
qed

text \<open>Every file extension yields a media type of the common list, without parameters, whose main and
  sub type are non-empty, free of slashes and join to its text.\<close>

lemma from_extension_well_formed:
  "mt_to_string_view (from_extension ext) \<in> set COMMON_MEDIA_TYPES \<and>
   main_type (from_extension ext) @ ''/'' @ sub_type (from_extension ext) = mt_to_string (from_extension ext) \<and>
   CHR ''/'' \<notin> set (main_type (from_extension ext)) \<and> CHR ''/'' \<notin> set (sub_type (from_extension ext)) \<and>
   main_type (from_extension ext) \<noteq> [] \<and> sub_type (from_extension ext) \<noteq> [] \<and> mt_params (from_extension ext) = []"
proof -
  obtain t where t: "t \<in> set COMMON_MEDIA_TYPES" "from_extension ext = media_of_text t" "good_media t"
    by (rule from_extension_cases)
  have "mt_text (media_of_text t) = t" "mt_params (media_of_text t) = []" by (simp_all add: media_of_text_def)
  with t(1) media_of_text_split [OF t(3)] show ?thesis
    unfolding t(2) by (simp add: mt_to_string_view_def mt_to_string_def)
qed

section \<open>The parameter expression\<close>

text \<open>A parameter as it is printed: a name without \<open>=\<close> that does not start with white space, and a value.\<close>

definition ok_name :: "string \<Rightarrow> bool" where
  "ok_name n \<longleftrightarrow> n \<noteq> [] \<and> CHR ''='' \<notin> set n \<and> CHR '','' \<notin> set n \<and> hd n \<notin> set SPACES"

definition ok_value :: "string \<Rightarrow> bool" where
  "ok_value v \<longleftrightarrow> v \<noteq> [] \<and> (\<forall>x\<in>set v. x \<notin> set VALUE_STOP) \<and> hd v \<noteq> QUOTE"

definition print_param :: "string \<times> string \<Rightarrow> string" where
  "print_param p = '';'' @ fst p @ ''='' @ snd p"

lemma search_param:
  assumes "ok_name n" "ok_value v" "rest = [] \<or> hd rest \<in> set VALUE_STOP"
  shows "regex_search parameter_re (print_param (n, v) @ rest) = Some ([(2, v), (1, n)], rest)"
proof -
  let ?s = "print_param (n, v) @ rest" and ?N = "length (print_param (n, v) @ rest)"
  have s: "?s = CHR '';'' # n @ CHR ''='' # v @ rest" by (simp add: print_param_def)
  obtain x n' where n: "n = x # n'" using assms(1) by (cases n) (auto simp: ok_name_def)
  obtain y v' where v: "v = y # v'" using assms(2) by (cases v) (auto simp: ok_value_def)
  have 1: "first ?N (Star Space) (?s, []) (?s, [])"
    using first_star_cls [of ?N False SPACES ?s "[]"] unfolding Space_def s by (simp add: SPACES_def)
  have 2: "first ?N (Cls False '';'') (?s, []) (n @ CHR ''='' # v @ rest, [])"
    unfolding s by (rule first_cls) simp
  have 3: "first ?N (Star Space) (n @ CHR ''='' # v @ rest, []) (n @ CHR ''='' # v @ rest, [])"
    using first_star_cls [of ?N False SPACES "n @ CHR ''='' # v @ rest" "[]"] assms(1) n
    unfolding Space_def by (simp add: ok_name_def)
  have 4: "first ?N (Grp 1 (Seq (Cls True ''='') (Star (Cls True ''=''))))
      (n @ CHR ''='' # v @ rest, []) (CHR ''='' # v @ rest, [(1, n)])"
    by (rule first_grp, rule first_plus_cls) (use assms(1) in \<open>auto simp: ok_name_def\<close>)
  have 5: "first ?N (Cls False ''='') (CHR ''='' # v @ rest, [(1, n)]) (v @ rest, [(1, n)])"
    by (rule first_cls) simp
  have 6: "first ?N (Opt (Cls False [QUOTE])) (v @ rest, [(1, n)]) (v @ rest, [(1, n)])"
    by (rule first_opt_none) (use assms(2) v in \<open>simp add: ok_value_def\<close>)
  have 7: "first ?N (Grp 2 (Seq (Cls True VALUE_STOP) (Star (Cls True VALUE_STOP))))
      (v @ rest, [(1, n)]) (rest, [(2, v), (1, n)])"
    by (rule first_grp, rule first_plus_cls) (use assms(2,3) in \<open>auto simp: ok_value_def\<close>)
  have 8: "first ?N (Opt (Cls False [QUOTE])) (rest, [(2, v), (1, n)]) (rest, [(2, v), (1, n)])"
    by (rule first_opt_none) (use assms(3) in \<open>auto simp: VALUE_STOP_def QUOTE_def split: list.split\<close>)
  have "first ?N parameter_re (?s, []) (rest, [(2, v), (1, n)])"
    unfolding parameter_re_def Seqs.simps
    by (rule first_seq [OF 1 first_seq [OF 2 first_seq [OF 3 first_seq [OF 4 first_seq [OF 5
          first_seq [OF 6 first_seq [OF 7 first_seq [OF 8 first_eps]]]]]]]])
  then show ?thesis by (auto simp: first_def regex_search.simps [of _ ?s])
qed

lemma search_nil: "regex_search parameter_re [] = None"
  by code_simp

lemma iter_params:
  assumes "\<forall>p\<in>set ps. ok_name (fst p) \<and> ok_value (snd p)"
  shows "map (\<lambda>c. (group c 1, group c 2)) (regex_iter parameter_re (concat (map print_param ps))) = ps"
  using assms
proof (induction ps)
  case Nil
  then show ?case by (simp add: regex_iter.simps search_nil)
next
  case (Cons p ps)
  let ?rest = "concat (map print_param ps)"
  have "?rest = [] \<or> hd ?rest \<in> set VALUE_STOP"
    by (cases ps) (auto simp: print_param_def VALUE_STOP_def)
  then have "regex_search parameter_re (print_param (fst p, snd p) @ ?rest) = Some ([(2, snd p), (1, fst p)], ?rest)"
    by (intro search_param) (use Cons.prems in auto)
  then have "regex_iter parameter_re (concat (map print_param (p # ps))) =
      [(2, snd p), (1, fst p)] # regex_iter parameter_re ?rest"
    by (subst regex_iter.simps) (simp add: print_param_def)
  then show ?case using Cons by (simp add: group_def)
qed

lemma accept_params_weight:
  assumes "\<forall>p\<in>set ps. fst p \<noteq> ''q''"
  shows "accept_params ps qs w = (qs @ ps, w)" "accept_params (ps @ [(''q'', v)]) qs w = (qs @ ps, v)"
  using assms by (induction ps arbitrary: qs) auto

section \<open>Printing and parsing the Accept headers\<close>

definition print_weight :: "string \<Rightarrow> string" where
  "print_weight w = (if w = [] then [] else print_param (''q'', w))"

definition print_media :: "media_type \<times> string \<Rightarrow> string" where
  "print_media x = mt_text (fst x) @ concat (map print_param (mt_params (fst x))) @ print_weight (snd x)"

fun print_elements :: "string list \<Rightarrow> string" where
  "print_elements [] = []"
| "print_elements [x] = x"
| "print_elements (x # y # xs) = x @ '', '' @ print_elements (y # xs)"

definition ok_media :: "media_type \<times> string \<Rightarrow> bool" where
  "ok_media x \<longleftrightarrow>
     (let t = mt_text (fst x); k = mt_slash (fst x) in
      k < length t \<and> t ! k = CHR ''/'' \<and> CHR ''/'' \<notin> set (take k t) \<and> hd t \<notin> set [CHR '' '', CHR 0x09] \<and>
      CHR '','' \<notin> set (drop k t) \<and> CHR '';'' \<notin> set (drop k t) \<and>
      list_all (\<lambda>p. ok_name (fst p) \<and> fst p \<noteq> ''q'' \<and> ok_value (snd p)) (mt_params (fst x)) \<and>
      (snd x = [] \<or> ok_value (snd x)))"

lemma parse_media_print:
  assumes "ok_media x"
  shows "parse_media (print_media x) (mt_slash (fst x)) = x"
proof -
  let ?t = "mt_text (fst x)" and ?k = "mt_slash (fst x)" and ?ps = "mt_params (fst x)"
  define qs where "qs = ?ps @ (if snd x = [] then [] else [(''q'', snd x)])"
  have k: "?k < length ?t" "CHR '';'' \<notin> set (drop ?k ?t)" using assms by (auto simp: ok_media_def Let_def)
  have pm: "print_media x = ?t @ concat (map print_param qs)"
    by (simp add: print_media_def print_weight_def qs_def)
  have okq: "\<forall>p\<in>set qs. ok_name (fst p) \<and> ok_value (snd p)"
    using assms by (auto simp: qs_def ok_media_def Let_def list_all_iff) (simp_all add: ok_name_def SPACES_def)
  have ap: "accept_params qs [] [] = (?ps, snd x)"
    using assms accept_params_weight(1) [of ?ps "[]" "[]"] accept_params_weight(2) [of ?ps "snd x" "[]" "[]"] by (auto simp: qs_def ok_media_def Let_def list_all_iff)
  show ?thesis
  proof (cases "qs = []")
    case True
    with k have "sv_find '';'' (print_media x) ?k = None"
      by (auto simp: pm sv_find_def find_sub_char find_idx_None)
    moreover have "snd x = []" "?ps = []" using True by (auto simp: qs_def split: if_splits)
    moreover have "print_media x = ?t" using True by (simp add: pm)
    ultimately show ?thesis by (cases x) (simp add: parse_media_def)
  next
    case False
    then obtain p ps where q: "qs = p # ps" by (cases qs) auto
    have "find_idx (\<lambda>c. c = CHR '';'') (drop ?k ?t) = None" using k(2) by (auto simp: find_idx_None)
    then have "find_idx (\<lambda>c. c = CHR '';'') (drop ?k ?t @ concat (map print_param qs)) = Some (length ?t - ?k)"
      by (simp add: find_idx_append q print_param_def)
    then have "sv_find '';'' (print_media x) ?k = Some (length ?t)"
      using k(1) by (simp add: pm sv_find_def find_sub_char)
    moreover have "drop (length ?t) (print_media x) = concat (map print_param qs)" "take (length ?t) (print_media x) = ?t"
      by (simp_all add: pm)
    ultimately show ?thesis using iter_params [OF okq] ap by (cases x) (simp add: parse_media_def)
  qed
qed


subsection \<open>Elements\<close>

lemma find_comma_append:
  assumes "k \<le> length p" "CHR '','' \<notin> set (drop k p)" "t = [] \<or> hd t = CHR '',''"
  shows "find_comma (p @ t) k = length p"
proof -
  have "find_idx (\<lambda>c. c = CHR '','') (drop k p) = None" using assms(2) by (auto simp: find_idx_None)
  then show ?thesis
    using assms(1,3) by (cases t) (auto simp: find_comma_def sv_find_def find_sub_char find_idx_append)
qed

lemma next_element_append:
  assumes "r \<noteq> []" "hd r \<notin> set [CHR '' '', CHR 0x09]"
  shows "next_element (p @ '', '' @ r) (length p) = Some r"
  using assms by (cases r) (auto simp: next_element_def sv_find_first_not_of_def sv_substr_def)

lemma print_param_no_comma: "ok_name n \<Longrightarrow> ok_value v \<Longrightarrow> CHR '','' \<notin> set (print_param (n, v))"
  by (auto simp: print_param_def ok_name_def ok_value_def VALUE_STOP_def)

lemma print_weight_no_comma: "w = [] \<or> ok_value w \<Longrightarrow> CHR '','' \<notin> set (print_weight w)"
  using print_param_no_comma [of "''q''" w] by (auto simp: print_weight_def ok_name_def SPACES_def)

lemma print_media_facts:
  assumes "ok_media x"
  shows "mt_slash (fst x) < length (print_media x)" "CHR '','' \<notin> set (drop (mt_slash (fst x)) (print_media x))"
    "sv_find ''/'' (print_media x @ t) 0 = Some (mt_slash (fst x))"
    "print_media x \<noteq> []" "hd (print_media x) \<notin> set [CHR '' '', CHR 0x09]"
proof -
  let ?t = "mt_text (fst x)" and ?k = "mt_slash (fst x)"
  have a: "?k < length ?t" "?t ! ?k = CHR ''/''" "CHR ''/'' \<notin> set (take ?k ?t)"
    "hd ?t \<notin> set [CHR '' '', CHR 0x09]" "CHR '','' \<notin> set (drop ?k ?t)"
    "\<forall>p\<in>set (mt_params (fst x)). ok_name (fst p) \<and> ok_value (snd p)" "snd x = [] \<or> ok_value (snd x)"
    using assms by (auto simp: ok_media_def Let_def list_all_iff)
  have np: "CHR '','' \<notin> set (concat (map print_param (mt_params (fst x))))"
    using a(6) print_param_no_comma by auto
  show "?k < length (print_media x)" "CHR '','' \<notin> set (drop ?k (print_media x))"
    using a(1,5) np print_weight_no_comma [OF a(7)] by (auto simp: print_media_def)
  have "?t \<noteq> []" using a(1) by auto
  then show "print_media x \<noteq> []" "hd (print_media x) \<notin> set [CHR '' '', CHR 0x09]"
    using a(4) by (auto simp: print_media_def)
  have "find_idx (\<lambda>c. c = CHR ''/'') ?t = Some ?k"
    using a(1-3) by (auto simp: find_idx_Some in_set_conv_nth)
  then show "sv_find ''/'' (print_media x @ t) 0 = Some ?k"
    by (simp add: sv_find_def find_sub_char print_media_def find_idx_append)
qed

lemma print_elements_head:
  assumes "list_all P xs" "xs \<noteq> []" "\<And>x. P x \<Longrightarrow> f x \<noteq> [] \<and> hd (f x) \<notin> A"
  shows "print_elements (map f xs) \<noteq> [] \<and> hd (print_elements (map f xs)) \<notin> A"
  using assms by (cases xs; cases "tl xs") auto

lemma parse_accept_loop_print:
  "list_all ok_media xs \<Longrightarrow> parse_accept_loop (print_elements (map print_media xs)) acc = Some (acc @ xs)"
proof (induction xs arbitrary: acc)
  case Nil
  then show ?case by (subst parse_accept_loop.simps) (simp add: sv_find_def)
next
  case (Cons x xs)
  then have x: "ok_media x" and xs: "list_all ok_media xs" by simp_all
  note f = print_media_facts [OF x]
  define t where "t = (if xs = [] then [] else '', '' @ print_elements (map print_media xs))"
  have s: "print_elements (map print_media (x # xs)) = print_media x @ t"
    by (cases xs) (simp_all add: t_def)
  have c: "find_comma (print_media x @ t) (mt_slash (fst x)) = length (print_media x)"
    using f(1,2) by (intro find_comma_append) (auto simp: t_def)
  show ?case
  proof (cases "xs = []")
    case True
    then show ?thesis unfolding s using c f(3) [of t] parse_media_print [OF x]
      by (subst parse_accept_loop.simps) (simp add: t_def)
  next
    case False
    have "next_element (print_media x @ t) (length (print_media x)) = Some (print_elements (map print_media xs))"
      using next_element_append print_elements_head [OF xs False, of print_media "set [CHR '' '', CHR 0x09]"]
        print_media_facts(4,5) False by (simp add: t_def)
    then show ?thesis unfolding s using c f(3) [of t] parse_media_print [OF x] False Cons.IH [OF xs]
      by (subst parse_accept_loop.simps) (simp add: t_def)
  qed
qed

definition ok_encoding :: "string \<times> string \<Rightarrow> bool" where
  "ok_encoding x \<longleftrightarrow>
     fst x \<noteq> [] \<and> CHR '','' \<notin> set (fst x) \<and> CHR '';'' \<notin> set (fst x) \<and> hd (fst x) \<notin> set [CHR '' '', CHR 0x09] \<and>
     (snd x = [] \<or> ok_value (snd x))"

definition print_encoding :: "string \<times> string \<Rightarrow> string" where
  "print_encoding x = fst x @ print_weight (snd x)"

lemma parse_encoding_print: "ok_encoding x \<Longrightarrow> parse_encoding (print_encoding x) = x"
proof -
  assume x: "ok_encoding x"
  have n: "find_idx (\<lambda>c. c = CHR '';'') (fst x) = None" using x by (auto simp: ok_encoding_def find_idx_None)
  show ?thesis
  proof (cases "snd x = []")
    case True
    then show ?thesis using n
      by (cases x) (simp add: parse_encoding_def print_encoding_def print_weight_def sv_find_def find_sub_char)
  next
    case False
    have "regex_search parameter_re (print_param (''q'', snd x) @ []) = Some ([(2, snd x), (1, ''q'')], [])"
      by (rule search_param) (use x False in \<open>auto simp: ok_encoding_def ok_name_def SPACES_def\<close>)
    moreover have "sv_find '';'' (print_encoding x) 0 = Some (length (fst x))"
      using n False by (simp add: print_encoding_def print_weight_def sv_find_def find_sub_char find_idx_append print_param_def)
    ultimately show ?thesis using False
      by (cases x) (simp add: parse_encoding_def print_encoding_def print_weight_def group_def)
  qed
qed

lemma parse_encoding_loop_print:
  "list_all ok_encoding xs \<Longrightarrow> xs \<noteq> [] \<Longrightarrow>
     parse_encoding_loop (print_elements (map print_encoding xs)) acc = Some (acc @ xs)"
proof (induction xs arbitrary: acc)
  case (Cons x xs)
  then have x: "ok_encoding x" and xs: "list_all ok_encoding xs" by simp_all
  have p: "CHR '','' \<notin> set (print_encoding x)"
    using x print_weight_no_comma [of "snd x"] by (auto simp: ok_encoding_def print_encoding_def)
  define t where "t = (if xs = [] then [] else '', '' @ print_elements (map print_encoding xs))"
  have s: "print_elements (map print_encoding (x # xs)) = print_encoding x @ t"
    by (cases xs) (simp_all add: t_def)
  have c: "find_comma (print_encoding x @ t) 0 = length (print_encoding x)"
    using p by (intro find_comma_append) (auto simp: t_def)
  show ?case
  proof (cases "xs = []")
    case True
    then show ?thesis unfolding s using c parse_encoding_print [OF x]
      by (subst parse_encoding_loop.simps) (simp add: t_def)
  next
    case False
    have h: "print_elements (map print_encoding xs) \<noteq> [] \<and> hd (print_elements (map print_encoding xs)) \<notin> set [CHR '' '', CHR 0x09]"
      by (rule print_elements_head [OF xs False]) (auto simp: ok_encoding_def print_encoding_def)
    then have "next_element (print_encoding x @ t) (length (print_encoding x)) = Some (print_elements (map print_encoding xs))"
      using next_element_append [of "print_elements (map print_encoding xs)"] False by (simp add: t_def)
    then show ?thesis unfolding s using c parse_encoding_print [OF x] False Cons.IH [OF xs False]
      by (subst parse_encoding_loop.simps) (simp add: t_def)
  qed
qed simp

text \<open>The Accept and Accept-Encoding parsers invert printing: a header written from media types with
  parameters and weights, or from encodings with weights, is parsed into exactly these elements, in order.\<close>

lemma accept_round_trip:
  assumes "list_all ok_media xs" "list_all ok_encoding es"
  shows "parse_accept (print_elements (map print_media xs)) = Some xs \<and>
    parse_accept_encoding (print_elements (map print_encoding es)) = Some es"
proof -
  have "print_elements (map print_encoding es) \<noteq> []" if "es \<noteq> []"
    using print_elements_head [OF assms(2) that, of print_encoding "{}"] by (auto simp: ok_encoding_def print_encoding_def)
  then show ?thesis
    using parse_accept_loop_print [OF assms(1), of "[]"] parse_encoding_loop_print [OF assms(2), of "[]"]
    by (cases "es = []") (simp_all add: parse_accept_def parse_accept_encoding_def)
qed

lemma accept_round_trip_witness:
  "parse_accept ''text/html;level=1, */*;q=0.8'' =
     Some [(\<lparr>mt_text = ''text/html'', mt_slash = 4, mt_params = [(''level'', ''1'')]\<rparr>, []),
           (\<lparr>mt_text = ''*/*'', mt_slash = 1, mt_params = []\<rparr>, ''0.8'')] \<and>
   parse_accept_encoding ''gzip, br;q=0.5'' = Some [(''gzip'', []), (''br'', ''0.5'')]"
proof -
  let ?xs = "[(\<lparr>mt_text = ''text/html'', mt_slash = 4, mt_params = [(''level'', ''1'')]\<rparr>, []),
           (\<lparr>mt_text = ''*/*'', mt_slash = 1, mt_params = []\<rparr>, ''0.8'')]"
  let ?es = "[(''gzip'', []), (''br'', ''0.5'')]"
  have "list_all ok_media ?xs" "list_all ok_encoding ?es"
    by (simp_all add: ok_media_def ok_encoding_def ok_name_def ok_value_def SPACES_def VALUE_STOP_def QUOTE_def)
  from accept_round_trip [OF this] show ?thesis
    by (simp add: print_media_def print_encoding_def print_weight_def print_param_def)
qed

text \<open>A header that ends in a comma makes \<^verbatim>\<open>substr\<close> throw; a quoted value keeps its closing quote; a
  parameter without a value swallows the next one.\<close>

lemma parse_accept_trailing_comma: "parse_accept ''text/html,'' = None" "parse_accept_encoding ''gzip, '' = None"
  by code_simp+

lemma parse_accept_quoted:
  "parse_encoding (''gzip;q='' @ [QUOTE] @ ''1'' @ [QUOTE]) = (''gzip'', [CHR ''1'', QUOTE])"
  by code_simp

lemma parse_accept_valueless:
  "parse_accept ''text/html;x;q=0'' = Some [(\<lparr>mt_text = ''text/html'', mt_slash = 4, mt_params = [(''x;q'', ''0'')]\<rparr>, [])]"
  by code_simp

text \<open>\<^verbatim>\<open>type_includes\<close> is reflexive and transitive, and \<open>*/*\<close> includes every media type.\<close>

lemma type_includes_refl: "type_includes m m"
  by (simp add: type_includes_def)

lemma cmt_any: "cmt ''any'' = ''*''"
  by code_simp

lemma type_includes_trans: "type_includes a b \<Longrightarrow> type_includes b c \<Longrightarrow> type_includes a c"
  by (auto simp: type_includes_def split: if_splits)

end
