(* ===== verification/Http_Static.thy ===== *)
theory Http_Static
  imports Http_Server Http_Media
begin

text \<open>
  The static file component: \<^verbatim>\<open>include/xsl/asio/http/component/static.h\<close> and
  \<^verbatim>\<open>include/xsl/asio/http/component/compress.h\<close>.  The file system, the formatting and parsing of file times,
  the order \<^verbatim>\<open>std::sort\<close> gives to equal weights and the value of the uninitialised \<^verbatim>\<open>w\<close> are parameters,
  collected in the record \<open>static_env\<close>.  Paths are native texts with the operations of
  \<^verbatim>\<open>std::filesystem::path\<close> the code uses.  An exception, a failed assertion or undefined behaviour is
  \<^term>\<open>None\<close>.  The theorems show that the folder handler only ever sends regular files below its root or the index
  files of directories there, and files only for GET, and that a plain GET writes the head and then the bytes of the file.
\<close>

section \<open>The configuration and its environment\<close>

record static_cfg =
  sc_path :: string
  sc_encodings :: "string list"
  sc_compress :: bool
  sc_index :: string

definition static_cfg_new :: "string \<Rightarrow> static_cfg" where
  "static_cfg_new p = \<lparr>sc_path = p, sc_encodings = [], sc_compress = False, sc_index = ''index.html''\<rparr>"

definition directory_index :: "string \<Rightarrow> static_cfg \<Rightarrow> static_cfg" where
  "directory_index i cfg = cfg\<lparr>sc_index := i\<rparr>"

datatype fs_err = ENOENT | ENOTDIR | EOTHER nat

datatype file_type = FNotFound | FRegular | FDirectory | FOther

text \<open>\<^verbatim>\<open>weakly_canonical\<close>, \<^verbatim>\<open>relative\<close>, \<^verbatim>\<open>status\<close>, \<^verbatim>\<open>file_size\<close> and \<^verbatim>\<open>last_write_time\<close> of
  \<^verbatim>\<open>std::filesystem\<close> with their error codes, opening a file for \<^verbatim>\<open>sendfile\<close>, the date functions, the sort
  of the encodings, and whether the uninitialised weight happens to be zero.\<close>

record static_env =
  fs_canonical :: "string \<Rightarrow> fs_err + string"
  fs_relative :: "string \<Rightarrow> string \<Rightarrow> fs_err + string"
  fs_status :: "string \<Rightarrow> fs_err option \<times> file_type"
  fs_size :: "string \<Rightarrow> fs_err + nat"
  fs_mtime :: "string \<Rightarrow> fs_err + int"
  fs_open :: "string \<Rightarrow> nat + string"
  to_date :: "int \<Rightarrow> string"
  from_date :: "string \<Rightarrow> int option"
  sort_enc :: "(string \<times> string) list \<Rightarrow> (string \<times> string) list"
  stale_zero :: bool

definition encoding_to_extension :: "(string \<times> string) list" where
  "encoding_to_extension = [(''br'', ''.br''), (''gzip'', ''.gz''), (''deflate'', ''.deflate'')]"

subsection \<open>Paths\<close>

text \<open>\<^verbatim>\<open>operator/=\<close>: an absolute right side replaces the left one.\<close>

definition path_append :: "string \<Rightarrow> string \<Rightarrow> string" where
  "path_append p q =
     (if q \<noteq> [] \<and> hd q = SLASH then q
      else if p \<noteq> [] \<and> last p \<noteq> SLASH then p @ [SLASH] @ q
      else p @ q)"

definition path_filename :: "string \<Rightarrow> string" where
  "path_filename p = rev (takeWhile (\<lambda>c. c \<noteq> SLASH) (rev p))"

definition path_extension :: "string \<Rightarrow> string" where
  "path_extension p =
     (let f = path_filename p;
          e = rev (takeWhile (\<lambda>c. c \<noteq> CHR ''.'') (rev f))
      in if f = ''.'' \<or> f = ''..'' \<or> length e \<ge> length f - 1 then [] else CHR ''.'' # e)"

definition replace_extension :: "string \<Rightarrow> string" where
  "replace_extension p = take (length p - length (path_extension p)) p"

subsection \<open>Weights\<close>

text \<open>\<^verbatim>\<open>std::from_chars\<close> on a \<^verbatim>\<open>float\<close>: whether it reads a value, that is whether the text starts with a number
  that neither overflows nor vanishes in single precision, or with an infinity or NaN.\<close>

definition exponent_value :: "string \<Rightarrow> int" where
  "exponent_value s =
     (case s of
        [] \<Rightarrow> 0
      | c # t \<Rightarrow>
          if c \<noteq> CHR ''e'' \<and> c \<noteq> CHR ''E'' then 0
          else
            (let neg = (t \<noteq> [] \<and> hd t = CHR ''-'');
                 u = (if t \<noteq> [] \<and> (hd t = CHR ''-'' \<or> hd t = CHR ''+'') then tl t else t);
                 v = int (digits_value (takeWhile is_digit u))
             in if neg then - v else v))"

definition float_range :: "nat \<Rightarrow> int \<Rightarrow> bool" where
  "float_range m x =
     (if m = 0 then True
      else if x \<ge> 0 then m * 10 ^ nat x < 2 ^ 128 - 2 ^ 103
      else m < (2 ^ 128 - 2 ^ 103) * 10 ^ nat (- x) \<and> 10 ^ nat (- x) < m * 2 ^ 150)"

definition float_ok :: "string \<Rightarrow> bool" where
  "float_ok w =
     (let s = (if w \<noteq> [] \<and> hd w = CHR ''-'' then tl w else w);
          ds = takeWhile is_digit s;
          r = dropWhile is_digit s;
          fs = (if r \<noteq> [] \<and> hd r = CHR ''.'' then takeWhile is_digit (tl r) else []);
          r2 = (if r \<noteq> [] \<and> hd r = CHR ''.'' then dropWhile is_digit (tl r) else r)
      in if ds @ fs \<noteq> [] then float_range (digits_value (ds @ fs)) (exponent_value r2 - int (length fs))
         else map lower_char (take 3 s) = ''inf'' \<or> map lower_char (take 3 s) = ''nan'')"

section \<open>Sending one file\<close>

definition reply :: "nat \<Rightarrow> string \<Rightarrow> handle_ctx \<Rightarrow> (nat option \<times> handle_ctx) option" where
  "reply st txt c = map_option (\<lambda>c'. (None, c')) (easy_resp_text st txt c)"

text \<open>The end of \<^verbatim>\<open>try_sendfile\<close>, from the test of the file type on.\<close>

definition file_body :: "static_env \<Rightarrow> string \<Rightarrow> nat \<Rightarrow> body_fn" where
  "file_body e path n = send_file (fs_open e path) \<lparr>hint_offset = 0, hint_size = n\<rparr>"

definition file_part :: "static_env \<Rightarrow> nat \<Rightarrow> int \<Rightarrow> media_type \<Rightarrow> response_part \<Rightarrow> response_part" where
  "file_part e n mtime ct p =
     part_emplace ''Content-Type'' (mt_to_string_view ct)
       (part_emplace ''Last-Modified'' (to_date e mtime)
         (part_emplace ''Content-Length'' (dec_digits n) p))"

definition send_regular ::
    "static_env \<Rightarrow> handle_ctx \<Rightarrow> string \<Rightarrow> file_type \<Rightarrow> media_type \<Rightarrow> (nat option \<times> handle_ctx) option" where
  "send_regular e c path s ct =
     (if s \<noteq> FRegular then
        if s = FNotFound then reply 404 ''File not found'' c else Some (Some 500, c)
      else case fs_size e path of
          Inl _ \<Rightarrow> Some (Some 500, c)
        | Inr n \<Rightarrow>
            (case fs_mtime e path of
               Inl _ \<Rightarrow> Some (Some 500, c)
             | Inr mtime \<Rightarrow>
                 map_option
                   (\<lambda>p0. let p = file_part e n mtime ct p0 in
                      (None, if rl_method (line (hc_request c)) = HEAD then resp p c
                             else resp_body p (file_body e path n) c))
                   (response_part_of 200)))"

definition escapes :: "fs_err + string \<Rightarrow> bool" where
  "escapes rel = (case rel of Inl _ \<Rightarrow> True | Inr r \<Rightarrow> r = [] \<or> prefix ''..'' r)"

definition try_sendfile ::
    "static_env \<Rightarrow> static_cfg \<Rightarrow> handle_ctx \<Rightarrow> string \<Rightarrow> media_type \<Rightarrow> (nat option \<times> handle_ctx) option" where
  "try_sendfile e cfg c p ct =
     (case fs_canonical e p of
        Inl _ \<Rightarrow> Some (Some 500, c)
      | Inr path \<Rightarrow>
          if escapes (fs_relative e path (sc_path cfg)) then reply 403 ''Path is not allowed'' c
          else
            (let (ec, s) = fs_status e path in
             if ec = Some ENOENT then reply 404 ''File not found'' c
             else if ec = Some ENOTDIR then reply 404 ''Path is not a directory'' c
             else if ec \<noteq> None then Some (Some 500, c)
             else if s = FDirectory then
               if hc_path c = [] then None
               else if last (hc_path c) \<noteq> SLASH \<or> sc_index cfg = [] then Some (Some 403, c)
               else
                 (let path2 = path_append path (sc_index cfg); (ec2, s2) = fs_status e path2 in
                  if ec2 = Some ENOENT then reply 403 ''Index file not found'' c
                  else if ec2 \<noteq> None then Some (Some 500, c)
                  else send_regular e c path2 s2 ct)
             else send_regular e c path s ct))"

section \<open>Negotiation\<close>

text \<open>The loop over the sorted encodings.  \<open>alias\<close> says that \<^verbatim>\<open>path\<close> is the path of the configuration
  itself (the file handler passes it by reference), so that changing it changes the configuration.  The
  result is the context, the path after the loop and whether the loop returned.\<close>

definition with_path :: "bool \<Rightarrow> string \<Rightarrow> static_cfg \<Rightarrow> static_cfg" where
  "with_path alias p cfg = (if alias then cfg\<lparr>sc_path := p\<rparr> else cfg)"

definition add_encoding_header :: "string \<Rightarrow> handle_ctx \<Rightarrow> handle_ctx option" where
  "add_encoding_header enc c =
     map_option (\<lambda>rs. c\<lparr>hc_response := Some (set_header ''Content-Encoding'' enc rs)\<rparr>) (hc_response c)"

fun try_encodings ::
    "static_env \<Rightarrow> bool \<Rightarrow> static_cfg \<Rightarrow> media_type \<Rightarrow> (string \<times> string) list \<Rightarrow> string \<Rightarrow> handle_ctx
     \<Rightarrow> (handle_ctx \<times> string \<times> bool) option" where
  "try_encodings e alias cfg ct [] path c = Some (c, path, False)"
| "try_encodings e alias cfg ct ((enc, weight) # encs) path c =
     (if float_ok weight \<or> stale_zero e then try_encodings e alias cfg ct encs path c
      else if enc \<notin> set (sc_encodings cfg) then try_encodings e alias cfg ct encs path c
      else case map_of encoding_to_extension enc of
          None \<Rightarrow> try_encodings e alias cfg ct encs path c
        | Some ext \<Rightarrow>
            (let p1 = path @ ext; p2 = replace_extension p1 in
             case try_sendfile e (with_path alias p1 cfg) c p1 ct of
               None \<Rightarrow> None
             | Some (None, c1) \<Rightarrow> map_option (\<lambda>c2. (c2, p2, True)) (add_encoding_header enc c1)
             | Some (Some st, c1) \<Rightarrow> try_encodings e alias cfg ct encs p2 c1))"

definition acceptable :: "handle_ctx \<Rightarrow> media_type \<Rightarrow> bool option" where
  "acceptable c ct =
     (case get_header (hc_request c) ''Accept'' of
        None \<Rightarrow> Some True
      | Some a \<Rightarrow> map_option (\<lambda>ms. \<exists>m\<in>set ms. type_includes (fst m) ct) (parse_accept a))"

definition not_modified :: "static_env \<Rightarrow> handle_ctx \<Rightarrow> string \<Rightarrow> bool option" where
  "not_modified e c path =
     (if has_header (hc_request c) ''If-None-Match'' then Some False
      else case get_header (hc_request c) ''If-Modified-Since'' of
          None \<Rightarrow> Some False
        | Some d \<Rightarrow>
            (case fs_mtime e path of
               Inl _ \<Rightarrow> None
             | Inr mtime \<Rightarrow> Some (case from_date e d of None \<Rightarrow> False | Some t \<Rightarrow> mtime \<le> t)))"

definition sendfile ::
    "static_env \<Rightarrow> bool \<Rightarrow> static_cfg \<Rightarrow> handle_ctx \<Rightarrow> string \<Rightarrow> media_type \<Rightarrow> (nat option \<times> handle_ctx) option" where
  "sendfile e alias cfg c path ct =
     Option.bind (acceptable c ct) (\<lambda>acc.
       if \<not> acc then Some (Some 406, c)
       else Option.bind (not_modified e c path) (\<lambda>unmod.
         if unmod then Some (Some 304, c)
         else Option.bind
           (if sc_encodings cfg = [] then Some (c, path, False)
            else case get_header (hc_request c) ''Accept-Encoding'' of
                None \<Rightarrow> Some (c, path, False)
              | Some a \<Rightarrow> Option.bind (parse_accept_encoding a) (\<lambda>encs. try_encodings e alias cfg ct (sort_enc e encs) path c))
           (\<lambda>(c1, p1, returned).
             if returned then Some (None, c1) else try_sendfile e (with_path alias p1 cfg) c1 p1 ct)))"

section \<open>The handlers\<close>

definition file_route_handler :: "static_env \<Rightarrow> static_cfg \<Rightarrow> handler" where
  "file_route_handler e cfg c = sendfile e True cfg c (sc_path cfg) (from_extension (path_extension (sc_path cfg)))"

definition folder_route_handler :: "static_env \<Rightarrow> static_cfg \<Rightarrow> handler" where
  "folder_route_handler e cfg c =
     (if hc_path c = [] then Some (Some 404, c)
      else if rl_method (line (hc_request c)) \<noteq> GET \<and> rl_method (line (hc_request c)) \<noteq> HEAD then
        map_option (\<lambda>p. (None, resp_text (part_emplace ''Allow'' ''GET, HEAD'' p) ''Supported methods: GET, HEAD'' c))
          (response_part_of 405)
      else
        (let full_path = path_append (sc_path cfg) (tl (hc_path c)) in
         sendfile e False cfg c full_path (from_extension (path_extension full_path))))"

text \<open>\<^verbatim>\<open>create_static_handler\<close>: \<^term>\<open>None\<close> is a failed assertion.\<close>

definition create_static_handler :: "static_env \<Rightarrow> static_cfg \<Rightarrow> handler option" where
  "create_static_handler e cfg =
     (if sc_path cfg = [] then None
      else
        (let (ec, s) = fs_status e (sc_path cfg) in
         if ec \<noteq> None then None
         else if s = FDirectory then Some (folder_route_handler e cfg)
         else if s = FRegular then Some (file_route_handler e cfg)
         else None))"

definition sb_add_static :: "static_env \<Rightarrow> string \<Rightarrow> static_cfg \<Rightarrow> service_builder \<Rightarrow> service_builder option" where
  "sb_add_static e path cfg b = Option.bind (create_static_handler e cfg) (\<lambda>h. sb_add_prefix path h b)"


section \<open>Paths come back\<close>

text \<open>Appending the extension of an encoding and replacing it restores the path of a file, so the file handler
  keeps its configuration.\<close>

lemma encoding_extensions:
  "map_of encoding_to_extension enc = Some ext \<Longrightarrow> \<exists>x. ext = CHR ''.'' # x \<and> CHR ''.'' \<notin> set x \<and> SLASH \<notin> set x"
  by (auto simp: encoding_to_extension_def split: if_splits)

lemma path_filename_append:
  "SLASH \<notin> set q \<Longrightarrow> path_filename (p @ q) = path_filename p @ q"
proof -
  assume "SLASH \<notin> set q"
  then have "takeWhile (\<lambda>c. c \<noteq> SLASH) (rev q @ rev p) = rev q @ takeWhile (\<lambda>c. c \<noteq> SLASH) (rev p)"
    by (intro takeWhile_append2) auto
  then show ?thesis by (simp add: path_filename_def)
qed

lemma path_restored:
  assumes "map_of encoding_to_extension enc = Some ext" "path_filename p \<noteq> []"
  shows "replace_extension (p @ ext) = p"
proof -
  obtain x where x: "ext = CHR ''.'' # x" "CHR ''.'' \<notin> set x" "SLASH \<notin> set x"
    using encoding_extensions [OF assms(1)] by blast
  have "x \<noteq> []" "x \<noteq> ''.''" using assms(1) x by (auto simp: encoding_to_extension_def split: if_splits)
  have "path_filename (p @ ext) = path_filename p @ ext"
    using x by (intro path_filename_append) auto
  moreover have "takeWhile (\<lambda>c. c \<noteq> CHR ''.'') (rev x @ CHR ''.'' # rev (path_filename p)) = rev x"
    using x(2) by (subst takeWhile_append2) auto
  moreover have "path_filename p @ ext \<noteq> ''.''" "path_filename p @ ext \<noteq> ''..''"
    using x \<open>x \<noteq> []\<close> assms(2) by (auto simp: append_eq_Cons_conv)
  ultimately have "path_extension (p @ ext) = ext"
    using x(1) assms(2) by (simp add: path_extension_def Let_def)
  then show ?thesis by (simp add: replace_extension_def)
qed

section \<open>Only files below the root are sent\<close>

definition below :: "static_env \<Rightarrow> static_cfg \<Rightarrow> string \<Rightarrow> bool" where
  "below e cfg q \<longleftrightarrow> (\<exists>p path. fs_canonical e p = Inr path \<and> \<not> escapes (fs_relative e path (sc_path cfg)) \<and>
     (q = path \<or> q = path_append path (sc_index cfg) \<and> fs_status e path = (None, FDirectory)))"

definition sends_below :: "static_env \<Rightarrow> static_cfg \<Rightarrow> http_method \<Rightarrow> response \<Rightarrow> bool" where
  "sends_below e cfg m rs \<longleftrightarrow>
     (case rs_body rs of
        None \<Rightarrow> True
      | Some f \<Rightarrow> m \<noteq> HEAD \<and>
          (\<exists>q n. below e cfg q \<and> fs_status e q = (None, FRegular) \<and> fs_size e q = Inr n \<and> f = file_body e q n))"

text \<open>What every step keeps: the request, and a response that sends no file or one below the root.\<close>

definition ctx_below :: "static_env \<Rightarrow> static_cfg \<Rightarrow> handle_ctx \<Rightarrow> handle_ctx \<Rightarrow> bool" where
  "ctx_below e cfg c c' \<longleftrightarrow> hc_request c' = hc_request c \<and>
     (case hc_response c' of None \<Rightarrow> True | Some rs \<Rightarrow> sends_below e cfg (rl_method (line (hc_request c))) rs)"

lemma reply_below: "reply st txt c0 = Some (r, c') \<Longrightarrow> ctx_below e cfg c c0 \<Longrightarrow> ctx_below e cfg c c' \<and> hc_response c' \<noteq> None"
  by (auto simp: reply_def easy_resp_text_def resp_text_def ctx_below_def sends_below_def response_with_text_def)

lemma sends_below_none: "rs_body rs = None \<Longrightarrow> sends_below e cfg m rs"
  by (simp add: sends_below_def)

lemma sends_below_file:
  "below e cfg q \<Longrightarrow> fs_status e q = (None, FRegular) \<Longrightarrow> fs_size e q = Inr n \<Longrightarrow> m \<noteq> HEAD \<Longrightarrow>
   sends_below e cfg m (response_with_body p (file_body e q n))"
  by (auto simp: sends_below_def response_with_body_def)

lemma send_regular_below:
  assumes "send_regular e c0 q s ct = Some (r, c')" "ctx_below e cfg c c0" "below e cfg q" "fs_status e q = (None, s)"
  shows "ctx_below e cfg c c' \<and> (r = None \<longrightarrow> hc_response c' \<noteq> None)"
proof (cases "s = FRegular \<and> (\<exists>n mt. fs_size e q = Inr n \<and> fs_mtime e q = Inr mt)")
  case True
  then obtain n mt where n: "s = FRegular" "fs_size e q = Inr n" "fs_mtime e q = Inr mt" by blast
  then obtain p0 where "r = None" "c' = (if rl_method (line (hc_request c0)) = HEAD then resp (file_part e n mt ct p0) c0
      else resp_body (file_part e n mt ct p0) (file_body e q n) c0)"
    using assms(1) by (auto simp: send_regular_def Let_def)
  then show ?thesis using assms(2,4) n(1,2) sends_below_file [OF assms(3)]
    by (auto simp: ctx_below_def resp_def resp_body_def response_builder_def intro: sends_below_none)
next
  case False
  then have "r \<noteq> None \<and> c' = c0 \<or> reply 404 ''File not found'' c0 = Some (r, c')"
    using assms(1) by (auto simp: send_regular_def split: if_splits sum.splits)
  then show ?thesis using reply_below [OF _ assms(2)] assms(2) by blast
qed

lemma try_sendfile_below:
  assumes "try_sendfile e cfg c0 p ct = Some (r, c')" "ctx_below e cfg c c0"
  shows "ctx_below e cfg c c' \<and> (r = None \<longrightarrow> hc_response c' \<noteq> None)"
proof (cases "fs_canonical e p")
  case (Inr path)
  show ?thesis
  proof (cases "escapes (fs_relative e path (sc_path cfg))")
    case True
    then show ?thesis using assms Inr reply_below [OF _ assms(2)] by (simp add: try_sendfile_def)
  next
    case False
    obtain ec s where s: "fs_status e path = (ec, s)" by (cases "fs_status e path")
    obtain ec2 s2 where s2: "fs_status e (path_append path (sc_index cfg)) = (ec2, s2)"
      by (cases "fs_status e (path_append path (sc_index cfg))")
    have b: "below e cfg path" "ec = None \<Longrightarrow> s = FDirectory \<Longrightarrow> below e cfg (path_append path (sc_index cfg))"
      using Inr False s by (auto simp: below_def)
    from assms(1) Inr False s s2
    have "(r \<noteq> None \<and> c' = c0) \<or> (\<exists>st txt. reply st txt c0 = Some (r, c')) \<or>
      ec = None \<and> send_regular e c0 path s ct = Some (r, c') \<or>
      ec = None \<and> s = FDirectory \<and> ec2 = None \<and> send_regular e c0 (path_append path (sc_index cfg)) s2 ct = Some (r, c')"
      by (auto simp: try_sendfile_def Let_def split: if_splits)
    then show ?thesis
      using send_regular_below [OF _ assms(2) b(1), of s] send_regular_below [OF _ assms(2) b(2), of s2]
        reply_below [OF _ assms(2)] assms(2) s s2 by metis
  qed
qed (use assms in \<open>auto simp: try_sendfile_def\<close>)

lemma add_encoding_below:
  "add_encoding_header enc c0 = Some c' \<Longrightarrow> ctx_below e cfg c c0 \<Longrightarrow> ctx_below e cfg c c'"
  by (auto simp: add_encoding_header_def ctx_below_def sends_below_def set_header_def)

lemma try_encodings_below:
  "try_encodings e False cfg ct encs p c0 = Some (c', p', b) \<Longrightarrow> ctx_below e cfg c c0 \<Longrightarrow> ctx_below e cfg c c'"
proof (induction encs arbitrary: p c0)
  case (Cons x encs)
  obtain enc w where x: "x = (enc, w)" by (cases x)
  show ?case
  proof (cases "float_ok w \<or> stale_zero e \<or> enc \<notin> set (sc_encodings cfg) \<or> map_of encoding_to_extension enc = None")
    case True
    then have "try_encodings e False cfg ct encs p c0 = Some (c', p', b)"
      using Cons.prems(1) by (auto simp: x split: if_splits)
    then show ?thesis using Cons by blast
  next
    case False
    then obtain ext where ext: "map_of encoding_to_extension enc = Some ext" by auto
    obtain r c1 where t: "try_sendfile e cfg c0 (p @ ext) ct = Some (r, c1)"
      using Cons.prems(1) False ext by (auto simp: x with_path_def Let_def split: option.splits)
    have c1: "ctx_below e cfg c c1" using try_sendfile_below [OF t Cons.prems(2)] by blast
    show ?thesis
    proof (cases r)
      case None
      then show ?thesis using Cons.prems(1) False ext t add_encoding_below [OF _ c1]
        by (auto simp: x with_path_def Let_def)
    next
      case (Some st)
      then show ?thesis using Cons.prems(1) False ext t Cons.IH [OF _ c1]
        by (auto simp: x with_path_def Let_def)
    qed
  qed
qed simp

lemma sendfile_cases:
  assumes "sendfile e False cfg c p ct = Some (r, c')"
  obtains "c' = c" | c1 p1 encs b where "try_encodings e False cfg ct encs p c = Some (c1, p1, b)"
      "c' = c1 \<or> try_sendfile e cfg c1 p1 ct = Some (r, c')"
proof -
  obtain acc un where au: "acceptable c ct = Some acc" "acc \<Longrightarrow> not_modified e c p = Some un"
    using assms by (auto simp: sendfile_def bind_eq_Some_conv split: if_splits)
  have nil: "Some (c, p, False) = try_encodings e False cfg ct [] p c" by simp
  show thesis
  proof (cases "acc \<and> \<not> un")
    case False
    then have "c' = c" using assms au by (auto simp: sendfile_def split: if_splits)
    then show thesis by (rule that)
  next
    case True
    then obtain t where t: "(if sc_encodings cfg = [] then Some (c, p, False)
            else case get_header (hc_request c) ''Accept-Encoding'' of
                None \<Rightarrow> Some (c, p, False)
              | Some a \<Rightarrow> Option.bind (parse_accept_encoding a) (\<lambda>encs. try_encodings e False cfg ct (sort_enc e encs) p c)) = Some t"
      "(case t of (c1, p1, returned) \<Rightarrow>
             if returned then Some (None, c1) else try_sendfile e (with_path False p1 cfg) c1 p1 ct) = Some (r, c')"
      using assms au unfolding sendfile_def by (auto simp: bind_eq_Some_conv)
    obtain encs where "try_encodings e False cfg ct encs p c = Some t"
      using t(1) unfolding nil by (auto simp del: try_encodings.simps simp: bind_eq_Some_conv split: if_splits option.splits)
    then show thesis using t(2) that(2) by (cases t) (auto simp: with_path_def split: if_splits)
  qed
qed

lemma sendfile_below:
  assumes "sendfile e False cfg c p ct = Some (r, c')" "ctx_below e cfg c c"
  shows "ctx_below e cfg c c'"
  using assms(1)
proof (cases rule: sendfile_cases)
  case (2 c1 p1 encs b)
  from try_encodings_below [OF 2(1) assms(2)] have "ctx_below e cfg c c1" .
  then show ?thesis using 2(2) try_sendfile_below by blast
qed (use assms(2) in simp)

text \<open>C12. Whatever path, headers and method a request has, the folder handler only attaches a body that sends a
  regular file, with the size the file system reports, and only to a GET request.  The canonical path of the file lies
  below the configured root, or the file is the configured index file of a directory whose canonical path does.  The
  index file itself may be a link to anywhere, see below.\<close>

theorem static_confined:
  assumes "folder_route_handler e cfg c = Some (r, c')" "hc_response c = None" "hc_response c' = Some rs" "rs_body rs = Some f"
  shows "rl_method (line (hc_request c)) = GET \<and>
    (\<exists>p path q n. fs_canonical e p = Inr path \<and> \<not> escapes (fs_relative e path (sc_path cfg)) \<and>
       (q = path \<or> q = path_append path (sc_index cfg) \<and> fs_status e path = (None, FDirectory)) \<and> fs_status e q = (None, FRegular) \<and>
       fs_size e q = Inr n \<and> f = send_file (fs_open e q) \<lparr>hint_offset = 0, hint_size = n\<rparr>)"
proof -
  have "rl_method (line (hc_request c)) \<in> {GET, HEAD} \<and>
      (\<exists>p ct. sendfile e False cfg c p ct = Some (r, c'))"
    using assms by (auto simp: folder_route_handler_def Let_def resp_text_def response_with_text_def split: if_splits)
  moreover have "ctx_below e cfg c c" using assms(2) by (simp add: ctx_below_def)
  ultimately have m: "rl_method (line (hc_request c)) \<in> {GET, HEAD}" and "ctx_below e cfg c c'"
    using sendfile_below by blast+
  then have "rl_method (line (hc_request c)) \<noteq> HEAD \<and> (\<exists>q n. below e cfg q \<and> fs_status e q = (None, FRegular) \<and>
      fs_size e q = Inr n \<and> f = file_body e q n)"
    using assms(3,4) by (simp add: ctx_below_def sends_below_def)
  then show ?thesis using m unfolding below_def file_body_def by auto
qed


text \<open>A small site for the concrete runs: a directory with one file.\<close>

definition small_site :: static_env where
  "small_site = \<lparr>
     fs_canonical = Inr,
     fs_relative = (\<lambda>p root. Inr (if prefix root p then drop (length root + 1) p else ''..'')),
     fs_status = (\<lambda>p. if p = ''/srv'' then (None, FDirectory) else if p = ''/srv/a.txt'' then (None, FRegular)
       else (Some ENOENT, FNotFound)),
     fs_size = (\<lambda>p. if p = ''/srv/a.txt'' then Inr 5 else Inl ENOENT),
     fs_mtime = (\<lambda>p. if p = ''/srv/a.txt'' then Inr 7 else Inl ENOENT),
     fs_open = (\<lambda>p. if p = ''/srv/a.txt'' then Inr ''hello'' else Inl 2),
     to_date = (\<lambda>t. ''T''), from_date = (\<lambda>s. None), sort_enc = (\<lambda>l. l), stale_zero = False\<rparr>"

definition site_ctx :: "string \<Rightarrow> handle_ctx" where
  "site_ctx p = ctx_new p (message_new (request_line_new\<lparr>rl_method := GET\<rparr>)) \<lparr>chunks = [], at_end = not_connected\<rparr>"

lemma ok_phrase: "status_to_reason_phrase 200 = Some ''OK''"
  by code_simp

section \<open>A plain GET\<close>

lemma send_file_loop_open:
  "\<lbrakk>list_all accepts s; length file - k \<le> length s; k < length file\<rbrakk> \<Longrightarrow>
   \<exists>d'. send_file_loop file 0 (length file) k d s = Some (Res (length file) ok, d') \<and> tx_wire d' = tx_wire d @ drop k file"
proof (induction s arbitrary: k d)
  case (Cons x s)
  then obtain j where x: "x = Ret j" "0 < j" by (cases x) auto
  define n where "n = min j (length file - k)"
  have n: "0 < n" "k + n \<le> length file" using x Cons.prems(3) by (auto simp: n_def)
  define d1 where "d1 = d\<lparr>tx_wire := tx_wire d @ sub file k n, tx_script := s\<rparr>"
  have step: "send_file_loop file 0 (length file) k d (x # s) =
      (if k + n \<noteq> length file then send_file_loop file 0 (length file) (k + n) d1 s else Some (Res (k + n) ok, d1))"
    using n(1) by (simp add: x Let_def n_def [symmetric] d1_def)
  show ?case
  proof (cases "k + n < length file")
    case True
    have "length file - (k + n) \<le> length s" using Cons.prems(2) n(1) by simp
    from Cons.IH [OF _ this True, of d1] Cons.prems(1)
    obtain d' where d': "send_file_loop file 0 (length file) (k + n) d1 s = Some (Res (length file) ok, d')"
      "tx_wire d' = tx_wire d1 @ drop (k + n) file" by auto
    have "sub file k n @ drop (k + n) file = drop k file"
      by (simp add: sub_def add.commute [of k n] flip: drop_drop)
    then show ?thesis using step True d' by (auto simp: d1_def)
  next
    case False
    then have "k + n = length file" using n(2) by simp
    moreover from this have "sub file k n = drop k file" by (simp add: sub_def)
    ultimately show ?thesis using step by (simp add: d1_def)
  qed
qed simp

lemma folder_plain_get:
  assumes m: "rl_method (line (hc_request c)) = GET"
    and h: "get_header (hc_request c) ''Accept'' = None" "get_header (hc_request c) ''If-Modified-Since'' = None"
      "get_header (hc_request c) ''Accept-Encoding'' = None"
    and p: "hc_path c \<noteq> []" "path = path_append (sc_path cfg) (tl (hc_path c))"
    and f: "fs_canonical e path = Inr q" "\<not> escapes (fs_relative e q (sc_path cfg))" "fs_status e q = (None, FRegular)"
      "fs_size e q = Inr n" "fs_mtime e q = Inr t"
  shows "folder_route_handler e cfg c =
     Some (None, resp_body (file_part e n t (from_extension (path_extension path)) (response_part HTTP_1_1 200 ''OK''))
       (file_body e q n) c)"
proof -
  let ?ct = "from_extension (path_extension path)"
  have "acceptable c ?ct = Some True" "not_modified e c path = Some False"
    using h by (simp_all add: acceptable_def not_modified_def)
  moreover have "try_sendfile e cfg c path ?ct =
     Some (None, resp_body (file_part e n t ?ct (response_part HTTP_1_1 200 ''OK'')) (file_body e q n) c)"
    using f m by (simp add: try_sendfile_def send_regular_def response_part_of_def ok_phrase Let_def)
  ultimately show ?thesis
    using p(1) m h(3) unfolding folder_route_handler_def Let_def p(2) [symmetric] sendfile_def with_path_def by simp
qed

text \<open>C21. A plain GET of a file below the root is answered with the file: the handler answers 200 with the file's
  length, time and media type, and sending the response on a device that accepts bytes writes the head
  followed by exactly the bytes of the file, with the size of both reported.\<close>

theorem static_get_delivers:
  assumes "rl_method (line (hc_request c)) = GET"
    and "get_header (hc_request c) ''Accept'' = None" "get_header (hc_request c) ''If-Modified-Since'' = None"
      "get_header (hc_request c) ''Accept-Encoding'' = None"
    and "hc_path c \<noteq> []" "path = path_append (sc_path cfg) (tl (hc_path c))"
    and "fs_canonical e path = Inr q" "\<not> escapes (fs_relative e q (sc_path cfg))" "fs_status e q = (None, FRegular)"
      "fs_size e q = Inr (length file)" "fs_mtime e q = Inr t" "fs_open e q = Inr file" "file \<noteq> []"
    and "part = file_part e (length file) t (from_extension (path_extension path)) (response_part HTTP_1_1 200 ''OK'')"
    and "open_tx d" "length (to_string part) + length file \<le> length (tx_script d)"
  shows "\<exists>c' rs d'. folder_route_handler e cfg c = Some (None, c') \<and> hc_response c' = Some rs \<and> rs_part rs = part \<and>
     response_sendto rs d = Some (Res (length file + length (to_string part)) ok, d') \<and>
     tx_wire d' = tx_wire d @ to_string part @ file"
proof -
  let ?rs = "response_with_body part (file_body e q (length file))"
  have fh: "folder_route_handler e cfg c = Some (None, resp_body part (file_body e q (length file)) c)"
    using folder_plain_get [OF assms(1-11)] assms(14) by simp
  obtain d1 where d1: "send (to_string part) d = Some (Res (length (to_string part)) ok, d1)"
    "tx_wire d1 = tx_wire d @ to_string part" "list_all accepts (tx_script d1)"
    "length (tx_script d) - length (to_string part) \<le> length (tx_script d1)"
    using send_loop_open [of "tx_script d" "to_string part" 0 d] assms(15,16) to_string_nonempty
    by (auto simp: send_def open_tx_def)
  have "length file \<le> length (tx_script d1)" using d1(4) assms(16) by linarith
  then obtain d2 where d2: "send_file_loop file 0 (length file) 0 d1 (tx_script d1) = Some (Res (length file) ok, d2)"
    "tx_wire d2 = tx_wire d1 @ file"
    using send_file_loop_open [of "tx_script d1" "file" 0 d1] d1(3) assms(13) by auto
  have "response_sendto ?rs d = Some (Res (length file + length (to_string part)) ok, d2)"
    using d1(1) d2(1) assms(12) to_string_nonempty [of part]
    by (simp add: response_sendto_def response_with_body_def response_head_text_eq send_span_def res_ok_def file_body_def
        send_file_def)
  then show ?thesis using fh d1(2) d2(2) by (auto simp: resp_body_def response_with_body_def)
qed


lemma site_headers:
  "get_header (hc_request (site_ctx p)) h = None" "hc_path (site_ctx p) = p"
  "rl_method (line (hc_request (site_ctx p))) = GET" "hc_response (site_ctx p) = None"
  by (simp_all add: site_ctx_def ctx_new_def get_header_def message_new_def hdr_find_def)

lemma site_file:
  "fs_canonical small_site ''/srv/a.txt'' = Inr ''/srv/a.txt''"
  "\<not> escapes (fs_relative small_site ''/srv/a.txt'' ''/srv'')"
  "fs_status small_site ''/srv/a.txt'' = (None, FRegular)" "fs_size small_site ''/srv/a.txt'' = Inr (length ''hello'')"
  "fs_mtime small_site ''/srv/a.txt'' = Inr 7" "fs_open small_site ''/srv/a.txt'' = Inr ''hello''"
  by (simp_all add: small_site_def escapes_def)

lemma site_path: "path_append (sc_path (static_cfg_new ''/srv'')) (tl (hc_path (site_ctx ''/a.txt''))) = ''/srv/a.txt''"
  by (simp add: static_cfg_new_def site_headers path_append_def)

lemma site_get:
  "folder_route_handler small_site (static_cfg_new ''/srv'') (site_ctx ''/a.txt'') =
     Some (None, resp_body (file_part small_site (length ''hello'') 7 (from_extension (path_extension ''/srv/a.txt''))
       (response_part HTTP_1_1 200 ''OK'')) (file_body small_site ''/srv/a.txt'' (length ''hello'')) (site_ctx ''/a.txt''))"
  by (rule folder_plain_get [where path = "''/srv/a.txt''"])
    (use site_file site_path in \<open>simp_all add: site_headers static_cfg_new_def\<close>)

theorem static_confined_witness:
  "\<exists>c' rs f. folder_route_handler small_site (static_cfg_new ''/srv'') (site_ctx ''/a.txt'') = Some (None, c') \<and>
     hc_response c' = Some rs \<and> rs_body rs = Some f \<and>
     (\<exists>p path q n. fs_canonical small_site p = Inr path \<and> fs_status small_site q = (None, FRegular) \<and>
       f = send_file (fs_open small_site q) \<lparr>hint_offset = 0, hint_size = n\<rparr>)"
proof -
  obtain c' rs f where r: "folder_route_handler small_site (static_cfg_new ''/srv'') (site_ctx ''/a.txt'') = Some (None, c')"
    "hc_response c' = Some rs" "rs_body rs = Some f"
    using site_get by (auto simp: resp_body_def response_with_body_def)
  from static_confined [OF r(1) site_headers(4) r(2,3)] r show ?thesis by blast
qed

theorem static_get_delivers_witness:
  "\<exists>c' rs r d'. folder_route_handler small_site (static_cfg_new ''/srv'') (site_ctx ''/a.txt'') = Some (None, c') \<and>
     hc_response c' = Some rs \<and>
     response_sendto rs \<lparr>tx_wire = [], tx_script = replicate 200 (Ret 3)\<rparr> = Some (r, d') \<and> res_ok r \<and>
     drop (length (tx_wire d') - 5) (tx_wire d') = ''hello''"
proof -
  let ?part = "file_part small_site (length ''hello'') 7 (from_extension (path_extension ''/srv/a.txt'')) (response_part HTTP_1_1 200 ''OK'')"
  have "length (to_string ?part) + length ''hello'' \<le> length (tx_script \<lparr>tx_wire = [] :: string, tx_script = replicate 200 (Ret 3)\<rparr>)"
    by code_simp
  moreover have "open_tx \<lparr>tx_wire = [], tx_script = replicate 200 (Ret 3)\<rparr>" by (simp add: open_tx_def list_all_iff)
  ultimately show ?thesis
    using static_get_delivers [OF site_headers(3,1,1,1) _ site_path [symmetric], of small_site "''/srv/a.txt''" "''hello''" 7 ?part
        "\<lparr>tx_wire = [], tx_script = replicate 200 (Ret 3)\<rparr>"] site_file
    by (auto simp: site_headers static_cfg_new_def res_ok_def)
qed

section \<open>What is not checked\<close>

text \<open>The index file is not canonicalised: a link of that name that leads out of the root is followed and sent.\<close>

lemma index_not_checked:
  assumes "fs_canonical e p = Inr path" "\<not> escapes (fs_relative e path (sc_path cfg))" "fs_status e path = (None, FDirectory)"
    and "hc_path c \<noteq> []" "last (hc_path c) = SLASH" "q = path_append path (sc_index cfg)" "sc_index cfg \<noteq> []"
    and "fs_canonical e q = Inr outside" "escapes (fs_relative e outside (sc_path cfg))"
    and "fs_status e q = (None, FRegular)" "fs_size e q = Inr n" "fs_mtime e q = Inr t" "rl_method (line (hc_request c)) = GET"
  shows "\<exists>c' rs. try_sendfile e cfg c p ct = Some (None, c') \<and> hc_response c' = Some rs \<and> rs_body rs = Some (file_body e q n)"
  using assms by (simp add: try_sendfile_def send_regular_def response_part_of_def ok_phrase Let_def resp_body_def response_with_body_def)

text \<open>An error is answered with its text, also when the request was HEAD.\<close>

lemma head_error_text:
  assumes "fs_canonical e p = Inr path" "\<not> escapes (fs_relative e path (sc_path cfg))" "fs_status e path = (Some ENOENT, s)"
    and "rl_method (line (hc_request c)) = HEAD"
  shows "\<exists>c' rs. try_sendfile e cfg c p ct = Some (None, c') \<and> hc_response c' = Some rs \<and> rs_raw rs = ''File not found''"
proof -
  have p: "status_to_reason_phrase 404 = Some ''Not Found''" by code_simp
  show ?thesis using assms p
    by (simp add: try_sendfile_def reply_def easy_resp_text_def resp_text_def response_with_text_def Let_def)
qed

section \<open>Negotiated encodings\<close>

text \<open>An encoding whose weight parses as a number is skipped, whatever the number is.\<close>

lemma weighted_encodings_skipped:
  "list_all (\<lambda>x. float_ok (snd x)) encs \<Longrightarrow> try_encodings e alias cfg ct encs path c = Some (c, path, False)"
  by (induction encs) auto

text \<open>An accepted encoding whose compressed file is missing is answered with 404, although the file itself exists.\<close>

lemma missing_compressed_file:
  assumes "\<not> stale_zero e" "sc_encodings cfg = [''gzip'']"
    and "fs_canonical e (path @ ''.gz'') = Inr q" "\<not> escapes (fs_relative e q (sc_path cfg))" "fs_status e q = (Some ENOENT, s)"
  shows "\<exists>c' rs. try_encodings e False cfg ct [(''gzip'', [])] path c = Some (c', replace_extension (path @ ''.gz''), True) \<and>
     hc_response c' = Some rs \<and> status_code (rs_part rs) = 404"
proof -
  have p: "status_to_reason_phrase 404 = Some ''Not Found''" by code_simp
  have f: "\<not> float_ok []" by code_simp
  have "try_sendfile e cfg c (path @ ''.gz'') ct = reply 404 ''File not found'' c"
    using assms(3-5) by (simp add: try_sendfile_def Let_def)
  then show ?thesis
    using assms(1,2) f p
    by (auto simp: encoding_to_extension_def with_path_def Let_def reply_def easy_resp_text_def resp_text_def
        add_encoding_header_def set_header_def part_emplace_def response_with_text_def response_part_def)
qed

text \<open>A directory is served with the media type of its own name, not of its index file.\<close>

lemma index_media_type: "mt_to_string_view (from_extension (path_extension ''/srv/docs/'')) = ''application/octet-stream''"
  by code_simp

end
