(* ===== verification/Http_Client.thy ===== *)
theory Http_Client
  imports Http_Response Async_Io
begin

text \<open>
  The client side of HTTP: \<^verbatim>\<open>RequestPartBuilder::write\<close> (\<^verbatim>\<open>include/xsl/asio/http/request.h\<close>) on a socket of theory
  \<^verbatim>\<open>Async_Io\<close>, and \<^verbatim>\<open>HttpClient::get\<close> (\<^verbatim>\<open>src/asio/http.cpp\<close>) up to the point where it connects: the checks of the URL,
  the request it builds, and the name and port it passes to the resolver.  The theorems show that exactly
  the request reaches the wire, whatever partial writes occur, and which request \<^verbatim>\<open>get\<close> builds; a run
  shows what the resolver is given.
\<close>

section \<open>Writing a request\<close>

text \<open>The whole blocks, then the used part of the last one; the first write that fails ends it.\<close>

fun write_blocks :: "string list \<Rightarrow> char tx \<Rightarrow> (result \<times> char tx) option" where
  "write_blocks [] d = Some (Res 0 ok, d)"
| "write_blocks (b # bs) d =
     (case send (take HTTP_BUFFER_BLOCK_SIZE b) d of
        None \<Rightarrow> None
      | Some (r, d1) \<Rightarrow> if res_ok r then write_blocks bs d1 else Some (r, d1))"

definition rb_write :: "request_builder \<Rightarrow> char tx \<Rightarrow> (ec \<times> request_builder \<times> char tx) option" where
  "rb_write b d =
     (if rb_raw b = [] then Some (Some invalid_argument, b, d)
      else case append_str CRLF b of
             None \<Rightarrow> None
           | Some b1 \<Rightarrow>
               (case write_blocks (butlast (rb_raw b1)) d of
                  None \<Rightarrow> None
                | Some (r, d1) \<Rightarrow>
                    if \<not> res_ok r then Some (res_ec r, b1, d1)
                    else if rb_offset b1 > 0 then
                      map_option (\<lambda>(r2, d2). (res_ec r2, b1, d2)) (send (take (rb_offset b1) (last (rb_raw b1))) d1)
                    else Some (ok, b1, d1)))"

section \<open>\<open>HttpClient::get\<close>\<close>

definition origin_form :: "absolute_uri \<Rightarrow> string" where
  "origin_form u = au_path u @ (if au_query u = [] then [] else CHR ''?'' # au_query u)"

text \<open>Where the host begins in the URL: behind the scheme and the user information.\<close>

definition host_offset :: "string \<Rightarrow> absolute_uri \<Rightarrow> nat" where
  "host_offset url u =
     (let k = length (au_scheme u) + 3;
          auth = takeWhile (\<lambda>c. c \<notin> set ''/?#'') (drop k url)
      in k + (if CHR ''@'' \<in> set auth then Suc (length (takeWhile (\<lambda>c. c \<noteq> CHR ''@'') auth)) else 0))"

text \<open>\<^verbatim>\<open>host.data()\<close> and \<^verbatim>\<open>port.data()\<close> read as C strings: to the first zero of the memory behind the URL.\<close>

definition c_string :: "string \<Rightarrow> nat \<Rightarrow> string" where
  "c_string mem off = takeWhile (\<lambda>c. c \<noteq> CHR 0x00) (drop off mem)"

definition resolver_name :: "string \<Rightarrow> absolute_uri \<Rightarrow> string" where
  "resolver_name url u = c_string (url @ [CHR 0x00]) (host_offset url u)"

definition resolver_port :: "string \<Rightarrow> absolute_uri \<Rightarrow> string" where
  "resolver_port url u =
     (if au_port u = [] then ''80'' else c_string (url @ [CHR 0x00]) (host_offset url u + length (au_host u) + 1))"

definition get_target :: "absolute_uri \<Rightarrow> request_builder \<Rightarrow> request_builder option" where
  "get_target u b =
     (if au_path u = [] then append_str (origin_form u) (append_char (CHR ''/'') (append_char SP b))
      else set_target (origin_form u) b)"

definition get_request :: "absolute_uri \<Rightarrow> request_builder option" where
  "get_request u =
     Option.bind (set_method GET request_builder_new) (\<lambda>b1. Option.bind (get_target u b1) (\<lambda>b2.
       Option.bind (set_version HTTP_1_1 b2) (\<lambda>b3. Option.bind (add_header ''Host'' (au_host u) b3) (\<lambda>b4.
         Option.bind (add_header ''User-Agent'' API_VERSION b4) (add_header ''Accept'' ''*/*'')))))"

text \<open>What \<^verbatim>\<open>get\<close> does before it connects: an error, undefined behaviour (\<^verbatim>\<open>std::unreachable\<close>), a builder that never
  returns, or a request for a name and a port.\<close>

datatype get_out = GetError errc | GetUnreachable | GetHangs | GetSend string string request_builder

definition http_get :: "string \<Rightarrow> get_out" where
  "http_get url =
     (case absolute_uri_match url of
        None \<Rightarrow> GetError invalid_argument
      | Some u \<Rightarrow>
          if au_scheme u = [] \<or> au_host u = [] then GetError invalid_argument
          else if au_scheme u \<noteq> ''http'' \<and> au_scheme u \<noteq> ''https'' then GetError not_supported
          else case get_request u of
                 None \<Rightarrow> GetHangs
               | Some b \<Rightarrow>
                   if au_scheme u = ''https'' then GetUnreachable
                   else GetSend (resolver_name url u) (resolver_port url u) b)"

definition get_text :: "absolute_uri \<Rightarrow> string" where
  "get_text u = ''GET '' @ (if au_path u = [] then ''/'' else []) @ origin_form u @ '' HTTP/1.1'' @ CRLF @
     ''Host: '' @ au_host u @ CRLF @ ''User-Agent: '' @ API_VERSION @ CRLF @ ''Accept: */*'' @ CRLF"

definition short :: "string \<Rightarrow> bool" where
  "short s \<longleftrightarrow> length s \<le> HTTP_BUFFER_BLOCK_SIZE"

section \<open>What reaches the wire\<close>

lemma write_blocks_delivers:
  assumes "write_blocks bs d = Some (r, d')" "steady_tx d" "\<forall>x\<in>set bs. length x = HTTP_BUFFER_BLOCK_SIZE"
  shows "steady_tx d' \<and> (\<exists>n\<le>length (concat bs). tx_wire d' = tx_wire d @ take n (concat bs) \<and> (res_ok r \<longrightarrow> n = length (concat bs)))"
  using assms
proof (induction bs arbitrary: d)
  case (Cons b bs)
  obtain r1 d1 where s: "send b d = Some (r1, d1)" using Cons.prems by (auto split: option.splits)
  note p = socket.put_prefix [OF s] and q = socket.put_steady [OF s Cons.prems(2)]
  show ?case
  proof (cases "res_ok r1")
    case False
    then have "r = r1" "d' = d1" using Cons.prems s by simp_all
    then show ?thesis using p q False by (intro conjI exI [of _ "res_size r1"]) auto
  next
    case True
    then have w: "write_blocks bs d1 = Some (r, d')" and f: "res_size r1 = length b" using Cons.prems s q by auto
    from Cons.IH [OF w conjunct1 [OF q]] Cons.prems(3) obtain n where
      n: "steady_tx d'" "n \<le> length (concat bs)" "tx_wire d' = tx_wire d1 @ take n (concat bs)" "res_ok r \<longrightarrow> n = length (concat bs)" by auto
    then show ?thesis using p f by (intro conjI exI [of _ "length b + n"]) auto
  qed
qed (simp add: res_ok_def)

lemma rb_write_delivers:
  assumes "rb_inv b" "rb_write b d = Some (e, b', d')" "steady_tx d"
  shows "\<exists>n\<le>length (rb_to_string b). tx_wire d' = tx_wire d @ take n (rb_to_string b) \<and> (e = ok \<longrightarrow> n = length (rb_to_string b))"
proof -
  have c: "length CRLF \<le> HTTP_BUFFER_BLOCK_SIZE" by (simp add: HTTP_BUFFER_BLOCK_SIZE_def)
  obtain b1 where b1: "append_str CRLF b = Some b1" "rb_inv b1" "rb_text b1 = rb_to_string b"
    using append_str_ok [OF assms(1) c] by (auto simp: rb_to_string_def)
  let ?x = "concat (butlast (rb_raw b1))" and ?y = "take (rb_offset b1) (last (rb_raw b1))"
  have t: "rb_to_string b = ?x @ ?y" using b1(3) by (simp add: rb_text_def)
  have l: "\<forall>x\<in>set (butlast (rb_raw b1)). length x = HTTP_BUFFER_BLOCK_SIZE" using b1(2) by (auto simp: rb_inv_def dest: in_set_butlastD)
  have "rb_raw b \<noteq> []" using assms(1) by (simp add: rb_inv_def)
  then obtain r d1 where w: "write_blocks (butlast (rb_raw b1)) d = Some (r, d1)"
    using assms(2) b1(1) by (auto simp: rb_write_def split: option.splits)
  from write_blocks_delivers [OF w assms(3) l] obtain n where
    n: "steady_tx d1" "n \<le> length ?x" "tx_wire d1 = tx_wire d @ take n ?x" "res_ok r \<longrightarrow> n = length ?x" by blast
  show ?thesis
  proof (cases "res_ok r \<and> rb_offset b1 > 0")
    case True
    then obtain r2 where s: "send ?y d1 = Some (r2, d')" "e = res_ec r2"
      using assms(2) b1(1) w \<open>rb_raw b \<noteq> []\<close> by (auto simp: rb_write_def)
    note p = socket.put_prefix [OF s(1)] and q = socket.put_steady [OF s(1) n(1)]
    have "n = length ?x" using n True by simp
    then show ?thesis using p q n s(2) unfolding t
      by (intro exI [of _ "length ?x + res_size r2"]) (auto simp: res_ok_def)
  next
    case False
    then have "d' = d1" "e = ok \<longrightarrow> res_ok r \<and> rb_offset b1 = 0"
      using assms(2) b1(1) w \<open>rb_raw b \<noteq> []\<close> by (auto simp: rb_write_def res_ok_def split: if_splits)
    then show ?thesis using n unfolding t by (intro exI [of _ n]) auto
  qed
qed

section \<open>The request of a URL\<close>

lemma add_header_ok: "rb_inv b \<Longrightarrow> short k \<Longrightarrow> short v \<Longrightarrow> \<exists>b'. add_header k v b = Some b' \<and> rb_inv b' \<and> rb_text b' = rb_text b @ k @ '': '' @ v @ CRLF"
  unfolding add_header_def short_def using append_all_ok [of b "[k, '': '', v, CRLF]"] by (auto simp: HTTP_BUFFER_BLOCK_SIZE_def)

lemma get_target_ok:
  assumes "rb_inv b" "short (origin_form u)"
  shows "\<exists>b'. get_target u b = Some b' \<and> rb_inv b' \<and> rb_text b' = rb_text b @ SP # (if au_path u = [] then ''/'' else []) @ origin_form u"
proof -
  note c = append_char_ok [OF assms(1), of SP] and d = append_char_ok [OF conjunct1 [OF append_char_ok [OF assms(1), of SP]], of "CHR ''/''"]
  show ?thesis using append_str_ok [OF conjunct1 [OF c], of "origin_form u"] append_str_ok [OF conjunct1 [OF d], of "origin_form u"] c d assms(2)
    by (auto simp: get_target_def set_target_def short_def)
qed

lemma get_request_text:
  assumes "short (origin_form u)" "short (au_host u)"
  shows "\<exists>b. get_request u = Some b \<and> rb_inv b \<and> rb_text b = get_text u"
proof -
  have m: "method_to_string_view GET = ''GET''" by (simp add: method_to_string_view_def method_is_valid_def method_code_def methods_def HTTP_METHOD_STR_def)
  have sh: "short ''GET''" "short ''Host''" "short ''User-Agent''" "short API_VERSION" "short ''Accept''" "short ''*/*''"
    by (simp_all add: short_def HTTP_BUFFER_BLOCK_SIZE_def API_VERSION_def)
  obtain b1 where b1: "set_method GET request_builder_new = Some b1" "rb_inv b1" "rb_text b1 = ''GET''"
    using append_str_ok [OF rb_inv_new(1), of "''GET''"] sh(1) by (auto simp: set_method_def m rb_inv_new short_def)
  obtain b2 where b2: "get_target u b1 = Some b2" "rb_inv b2" "rb_text b2 = rb_text b1 @ SP # (if au_path u = [] then ''/'' else []) @ origin_form u"
    using get_target_ok [OF b1(2) assms(1)] by blast
  have v: "version_to_string_view HTTP_1_1 = ''HTTP/1.1''" by code_simp
  have vl: "\<forall>s\<in>set [''HTTP/1.1'', CRLF]. length s \<le> HTTP_BUFFER_BLOCK_SIZE" by (simp add: HTTP_BUFFER_BLOCK_SIZE_def)
  obtain b3 where b3: "set_version HTTP_1_1 b2 = Some b3" "rb_inv b3" "rb_text b3 = rb_text b2 @ SP # ''HTTP/1.1'' @ CRLF"
    using append_all_ok [OF conjunct1 [OF append_char_ok [OF b2(2), of SP]] vl] append_char_ok [OF b2(2), of SP]
    unfolding set_version_def v by auto
  obtain b4 where b4: "add_header ''Host'' (au_host u) b3 = Some b4" "rb_inv b4" "rb_text b4 = rb_text b3 @ ''Host'' @ '': '' @ au_host u @ CRLF"
    using add_header_ok [OF b3(2) sh(2) assms(2)] by blast
  obtain b5 where b5: "add_header ''User-Agent'' API_VERSION b4 = Some b5" "rb_inv b5" "rb_text b5 = rb_text b4 @ ''User-Agent'' @ '': '' @ API_VERSION @ CRLF"
    using add_header_ok [OF b4(2) sh(3,4)] by blast
  obtain b6 where b6: "add_header ''Accept'' ''*/*'' b5 = Some b6" "rb_inv b6" "rb_text b6 = rb_text b5 @ ''Accept'' @ '': '' @ ''*/*'' @ CRLF"
    using add_header_ok [OF b5(2) sh(5,6)] by blast
  have "get_request u = Some b6" using b1(1) b2(1) b3(1) b4(1) b5(1) b6(1) by (simp add: get_request_def)
  then show ?thesis using b1(3) b2(3) b3(3) b4(3) b5(3) b6(2,3) by (simp add: get_text_def)
qed

text \<open>C23. A client's \<^verbatim>\<open>get\<close> puts exactly its request on the wire: for a URL it accepts, with a host and a target that
  fit a block, whatever partial writes, waits and errors the socket shows, what has been written is a prefix
  of the request line, the Host, User-Agent and Accept headers and the empty line, and it is all of that
  when the write reports success.\<close>

theorem client_get_on_wire:
  assumes "absolute_uri_match url = Some u" "http_get url = GetSend name port b" "short (origin_form u)" "short (au_host u)"
    and "rb_write b d = Some (e, b', d')" "steady_tx d"
  shows "\<exists>n. tx_wire d' = tx_wire d @ take n (get_text u @ CRLF) \<and> (e = ok \<longrightarrow> tx_wire d' = tx_wire d @ get_text u @ CRLF)"
proof -
  obtain b0 where b0: "get_request u = Some b0" "rb_inv b0" "rb_text b0 = get_text u" using get_request_text [OF assms(3,4)] by blast
  have "b = b0" using assms(1,2) b0(1) by (auto simp: http_get_def split: if_splits)
  then have t: "rb_to_string b = get_text u @ CRLF" "rb_inv b" using b0 by (simp_all add: rb_to_string_def)
  from rb_write_delivers [OF t(2) assms(5,6)] obtain n where "n \<le> length (rb_to_string b)"
    "tx_wire d' = tx_wire d @ take n (rb_to_string b)" "e = ok \<longrightarrow> n = length (rb_to_string b)" by blast
  then show ?thesis unfolding t(1) by (intro exI [of _ n]) auto
qed

lemma rb_single_block:
  assumes "rb_inv b" "length (rb_text b) < HTTP_BUFFER_BLOCK_SIZE"
  shows "butlast (rb_raw b) = []" "rb_offset b = length (rb_text b)"
proof -
  have l: "\<forall>x\<in>set (butlast (rb_raw b)). length x = HTTP_BUFFER_BLOCK_SIZE" "length (last (rb_raw b)) = HTTP_BUFFER_BLOCK_SIZE"
    "rb_offset b \<le> HTTP_BUFFER_BLOCK_SIZE"
    using assms(1) by (auto simp: rb_inv_def dest: in_set_butlastD)
  show e: "butlast (rb_raw b) = []"
  proof (cases "butlast (rb_raw b)")
    case (Cons x xs)
    then have "length x \<le> length (rb_text b)" by (simp add: rb_text_def)
    then show ?thesis using l(1) assms(2) Cons by simp
  qed
  show "rb_offset b = length (rb_text b)" using l(2,3) by (simp add: rb_text_def e)
qed

lemma rb_write_single:
  assumes "rb_inv b" "length (rb_to_string b) < HTTP_BUFFER_BLOCK_SIZE"
  shows "\<exists>b' d'. rb_write b \<lparr>tx_wire = w, tx_script = [Ret HTTP_BUFFER_BLOCK_SIZE]\<rparr> = Some (ok, b', d')"
proof -
  obtain b1 where b1: "append_str CRLF b = Some b1" "rb_inv b1" "rb_text b1 = rb_to_string b"
    using append_str_ok [OF assms(1), of CRLF] by (auto simp: rb_to_string_def HTTP_BUFFER_BLOCK_SIZE_def)
  note s = rb_single_block [OF b1(2), unfolded b1(3), OF assms(2)]
  have "rb_raw b \<noteq> []" "rb_offset b1 > 0" "take (rb_offset b1) (last (rb_raw b1)) = rb_to_string b"
    using assms(1) s b1(3) by (auto simp: rb_inv_def rb_to_string_def rb_text_def)
  then show ?thesis using b1(1) s(1) assms(2) by (auto simp: rb_write_def res_ok_def send_def Let_def rb_to_string_def)
qed

definition root_uri :: absolute_uri where
  "root_uri = \<lparr>au_scheme = ''http'', au_host = ''a'', au_port = [], au_path = ''/'', au_query = []\<rparr>"

definition one_write :: "char tx" where
  "one_write = \<lparr>tx_wire = [], tx_script = [Ret HTTP_BUFFER_BLOCK_SIZE]\<rparr>"

lemma one_write_steady: "steady_tx one_write" "tx_wire one_write = []"
  by (simp_all add: one_write_def steady_tx_def HTTP_BUFFER_BLOCK_SIZE_def)

lemma root_text: "get_text root_uri = ''GET / HTTP/1.1'' @ CRLF @ ''Host: a'' @ CRLF @ ''User-Agent: XSL/0.1'' @ CRLF @ ''Accept: */*'' @ CRLF"
  by (simp add: get_text_def origin_form_def root_uri_def API_VERSION_def)

lemma root_request:
  "\<exists>name port b b' d'. absolute_uri_match ''http://a/'' = Some root_uri \<and> short (origin_form root_uri) \<and> short (au_host root_uri) \<and>
     http_get ''http://a/'' = GetSend name port b \<and> rb_write b one_write = Some (ok, b', d')"
proof -
  have m: "absolute_uri_match ''http://a/'' = Some root_uri" unfolding root_uri_def by code_simp
  have o: "short (origin_form root_uri)" "short (au_host root_uri)"
    by (simp_all add: root_uri_def origin_form_def short_def HTTP_BUFFER_BLOCK_SIZE_def)
  obtain b where b: "get_request root_uri = Some b" "rb_inv b" "rb_text b = get_text root_uri" using get_request_text [OF o] by blast
  have g: "http_get ''http://a/'' = GetSend (resolver_name ''http://a/'' root_uri) (resolver_port ''http://a/'' root_uri) b"
    using m b(1) by (simp add: http_get_def root_uri_def)
  have "length (rb_to_string b) < HTTP_BUFFER_BLOCK_SIZE" using b(3) by (simp add: rb_to_string_def HTTP_BUFFER_BLOCK_SIZE_def root_text)
  from rb_write_single [OF b(2) this, of "[]"] m o g show ?thesis unfolding one_write_def by blast
qed

theorem client_get_on_wire_witness:
  "\<exists>name port b b' d'. http_get ''http://a/'' = GetSend name port b \<and>
     rb_write b one_write = Some (ok, b', d') \<and>
     tx_wire d' = ''GET / HTTP/1.1'' @ CRLF @ ''Host: a'' @ CRLF @ ''User-Agent: XSL/0.1'' @ CRLF @ ''Accept: */*'' @ CRLF @ CRLF"
proof -
  obtain name port b b' d' where r: "absolute_uri_match ''http://a/'' = Some root_uri" "http_get ''http://a/'' = GetSend name port b"
    "short (origin_form root_uri)" "short (au_host root_uri)" "rb_write b one_write = Some (ok, b', d')" using root_request by blast
  from client_get_on_wire [OF r one_write_steady(1)] r(2,5) show ?thesis by (auto simp: root_text one_write_steady(2))
qed

text \<open>The resolver is given the rest of the URL as the name, and the rest behind the colon as the port.\<close>

lemma resolver_gets_rest:
  "map_option (\<lambda>u. (resolver_name ''http://a:8/x'' u, resolver_port ''http://a:8/x'' u)) (absolute_uri_match ''http://a:8/x'') = Some (''a:8/x'', ''8/x'')"
  by code_simp

lemma https_unreachable:
  assumes "absolute_uri_match url = Some u" "au_scheme u = ''https''" "au_host u \<noteq> []" "short (origin_form u)" "short (au_host u)"
  shows "http_get url = GetUnreachable"
  using get_request_text [OF assms(4,5)] assms(1-3) by (auto simp: http_get_def)

end
