(* ===== verification/Shared_Memory.thy ===== *)
theory Shared_Memory
  imports Net_Prelude "HOL-Library.Word"
begin

text \<open>
  The shared owner of devices, \<^verbatim>\<open>shared_memory\<close> (\<^verbatim>\<open>include/xsl/compose.h\<close>), whose handles are copied, moved, assigned
  and destroyed by several threads.  A step is one access to the atomic reference count, the deletion that follows the
  last decrement, or a read of the pointers of another handle; an assignment is several steps in the order of the code,
  which releases the old object before it reads the other handle.  No two threads change the same handle at the same
  time or change a handle that another one is reading, as for any object of the language, but handles of the same
  object are used concurrently.  The state is seen from one object: a handle that is empty or belongs to another object
  is \<open>HNull\<close>.
\<close>

section \<open>Handles\<close>

text \<open>What follows when a handle has released its object: nothing, or reading the handle it is assigned from.\<close>

datatype follow = Stop | CopyFrom nat | MoveFrom nat

text \<open>A handle does not hold the object, holds it, has read the pointers of the handle it is copied from but not yet
  incremented the count, has decremented the count to zero and is about to delete, or is about to read the handle it is
  assigned from.\<close>

datatype hstate = HNull | HHeld | HCopying nat | HDeleting follow | HReading follow

text \<open>\<open>sm_inside\<close> are the handles that are themselves parts of the object: they go away with it.\<close>

record shm =
  sm_count :: "32 word"
  sm_live :: bool
  sm_deleted :: nat
  sm_faults :: nat
  sm_inside :: "nat set"
  sm_handles :: "hstate list"

definition set_handle :: "nat \<Rightarrow> hstate \<Rightarrow> shm \<Rightarrow> shm" where
  "set_handle h x s = s\<lparr>sm_handles := (sm_handles s)[h := x]\<rparr>"

text \<open>Every access to the count or the object of deleted memory is a fault, and so is reading a handle that was part of it.\<close>

definition touch :: "shm \<Rightarrow> shm" where
  "touch s = (if sm_live s then s else s\<lparr>sm_faults := Suc (sm_faults s)\<rparr>)"

definition look :: "nat \<Rightarrow> shm \<Rightarrow> shm" where
  "look src s = (if src \<in> sm_inside s then touch s else s)"

text \<open>The default constructor: one handle among \<open>n\<close> places for handles, those in \<open>ins\<close> inside the object.\<close>

definition shm_new :: "nat \<Rightarrow> nat set \<Rightarrow> shm" where
  "shm_new n ins = \<lparr>sm_count = 1, sm_live = True, sm_deleted = 0, sm_faults = 0, sm_inside = ins, sm_handles = HHeld # replicate n HNull\<rparr>"

text \<open>\<^verbatim>\<open>_inc\<close>, and \<^verbatim>\<open>_dec\<close> up to the decision, and the deletion.  A handle without an object returns from \<^verbatim>\<open>_dec\<close> at once.\<close>

fun resume :: "follow \<Rightarrow> hstate" where
  "resume Stop = HNull"
| "resume f = HReading f"

definition shm_inc :: "nat \<Rightarrow> shm \<Rightarrow> shm" where
  "shm_inc h s = set_handle h HHeld ((touch s)\<lparr>sm_count := sm_count s + 1\<rparr>)"

definition shm_dec :: "nat \<Rightarrow> follow \<Rightarrow> shm \<Rightarrow> shm" where
  "shm_dec h f s =
     (if sm_handles s ! h \<noteq> HHeld then set_handle h (resume f) s
      else set_handle h (if sm_count s \<noteq> 1 then resume f else HDeleting f) ((touch s)\<lparr>sm_count := sm_count s - 1\<rparr>))"

definition shm_delete :: "nat \<Rightarrow> follow \<Rightarrow> shm \<Rightarrow> shm" where
  "shm_delete h f s = set_handle h (resume f) ((touch s)\<lparr>sm_live := False, sm_deleted := Suc (sm_deleted s)\<rparr>)"

text \<open>Reading the pointers of another handle, and taking them out of it.\<close>

definition shm_read :: "nat \<Rightarrow> nat \<Rightarrow> shm \<Rightarrow> shm" where
  "shm_read h src s = set_handle h (if sm_handles s ! src = HHeld then HCopying src else HNull) (look src s)"

definition shm_move :: "nat \<Rightarrow> nat \<Rightarrow> shm \<Rightarrow> shm" where
  "shm_move h src s =
     (if sm_handles s ! src = HHeld then set_handle h HHeld (set_handle src HNull (look src s)) else set_handle h HNull (look src s))"

section \<open>Steps\<close>

definition holds :: "shm \<Rightarrow> nat \<Rightarrow> bool" where
  "holds s h \<longleftrightarrow> h < length (sm_handles s) \<and> sm_handles s ! h = HHeld"

definition idle :: "shm \<Rightarrow> nat \<Rightarrow> bool" where
  "idle s h \<longleftrightarrow> h < length (sm_handles s) \<and> sm_handles s ! h \<in> {HNull, HHeld}"

text \<open>The handle another one is being copied or moved from.\<close>

fun copies :: "hstate \<Rightarrow> nat set" where
  "copies (HCopying src) = {src}"
| "copies (HDeleting (CopyFrom src)) = {src}"
| "copies (HReading (CopyFrom src)) = {src}"
| "copies _ = {}"

fun takes :: "hstate \<Rightarrow> nat set" where
  "takes (HDeleting (MoveFrom src)) = {src}"
| "takes (HReading (MoveFrom src)) = {src}"
| "takes _ = {}"

definition copied :: "shm \<Rightarrow> nat \<Rightarrow> bool" where
  "copied s h \<longleftrightarrow> (\<exists>x\<in>set (sm_handles s). h \<in> copies x)"

definition taken :: "shm \<Rightarrow> nat \<Rightarrow> bool" where
  "taken s h \<longleftrightarrow> (\<exists>x\<in>set (sm_handles s). h \<in> takes x)"

text \<open>A handle may be changed when it is not at work and nobody reads it, and read when nobody takes it.\<close>

definition own :: "shm \<Rightarrow> nat \<Rightarrow> bool" where
  "own s h \<longleftrightarrow> idle s h \<and> \<not> copied s h \<and> \<not> taken s h"

definition readable :: "shm \<Rightarrow> nat \<Rightarrow> bool" where
  "readable s h \<longleftrightarrow> idle s h \<and> \<not> taken s h"

text \<open>
  The constructors from another handle start from a handle without an object; the assignments first release the
  object (nothing happens when a handle is assigned to itself); the destructor only releases it; \<open>access\<close> is any
  access through a handle.
\<close>

inductive shm_step :: "shm \<Rightarrow> shm \<Rightarrow> bool" where
  copy: "own s h \<Longrightarrow> sm_handles s ! h = HNull \<Longrightarrow> readable s src \<Longrightarrow> src \<noteq> h \<Longrightarrow> shm_step s (shm_read h src s)"
| move: "own s h \<Longrightarrow> sm_handles s ! h = HNull \<Longrightarrow> own s src \<Longrightarrow> src \<noteq> h \<Longrightarrow> shm_step s (shm_move h src s)"
| assign: "own s h \<Longrightarrow> readable s src \<Longrightarrow> src \<noteq> h \<Longrightarrow> shm_step s (shm_dec h (CopyFrom src) s)"
| move_assign: "own s h \<Longrightarrow> own s src \<Longrightarrow> src \<noteq> h \<Longrightarrow> shm_step s (shm_dec h (MoveFrom src) s)"
| destroy: "own s h \<Longrightarrow> shm_step s (shm_dec h Stop s)"
| delete: "h < length (sm_handles s) \<Longrightarrow> sm_handles s ! h = HDeleting f \<Longrightarrow> shm_step s (shm_delete h f s)"
| read: "h < length (sm_handles s) \<Longrightarrow> sm_handles s ! h = HReading (CopyFrom src) \<Longrightarrow> shm_step s (shm_read h src s)"
| take_over: "h < length (sm_handles s) \<Longrightarrow> sm_handles s ! h = HReading (MoveFrom src) \<Longrightarrow> shm_step s (shm_move h src s)"
| inc: "h < length (sm_handles s) \<Longrightarrow> sm_handles s ! h = HCopying src \<Longrightarrow> shm_step s (shm_inc h s)"
| access: "holds s h \<Longrightarrow> shm_step s (touch s)"

inductive_cases shm_stepE: "shm_step s s'"

fun is_deleting :: "hstate \<Rightarrow> bool" where
  "is_deleting (HDeleting f) = True"
| "is_deleting _ = False"

definition held :: "shm \<Rightarrow> nat" where
  "held s = length (filter (\<lambda>x. x = HHeld) (sm_handles s))"

definition deleting :: "shm \<Rightarrow> nat" where
  "deleting s = length (filter is_deleting (sm_handles s))"

section \<open>The invariant\<close>

text \<open>The count is the number of handles that hold the object; a handle whose pointers were read for a copy holds it;
  nobody is copied and taken at once; at most one handle deletes, when nobody holds the object any more.\<close>

definition copy_ok :: "hstate list \<Rightarrow> bool" where
  "copy_ok hs \<longleftrightarrow> (\<forall>src. HCopying src \<in> set hs \<longrightarrow> src < length hs \<and> hs ! src = HHeld) \<and>
     (\<forall>x\<in>set hs. copies x \<union> takes x \<subseteq> {..<length hs} \<and> (\<forall>y\<in>set hs. copies x \<inter> takes y = {}))"

definition count_ok :: "shm \<Rightarrow> bool" where
  "count_ok s \<longleftrightarrow> sm_count s = of_nat (held s) \<and> sm_faults s = 0 \<and> deleting s \<le> 1 \<and> (0 < deleting s \<longrightarrow> held s = 0) \<and>
     (sm_live s \<longleftrightarrow> 0 < held s + deleting s) \<and> sm_deleted s = (if sm_live s then 0 else 1)"

definition shm_inv :: "shm \<Rightarrow> bool" where
  "shm_inv s \<longleftrightarrow> sm_inside s = {} \<and> length (sm_handles s) < 2 ^ 32 \<and> copy_ok (sm_handles s) \<and> count_ok s"

lemma filter_update:
  "i < length xs \<Longrightarrow> length (filter P (xs[i := x])) + (if P (xs ! i) then 1 else 0) = length (filter P xs) + (if P x then 1 else 0)"
proof (induction xs arbitrary: i)
  case (Cons a xs)
  then show ?case by (cases i) auto
qed simp

lemma set_handle_sel [simp]:
  "sm_count (set_handle h x s) = sm_count s" "sm_live (set_handle h x s) = sm_live s" "sm_deleted (set_handle h x s) = sm_deleted s"
  "sm_faults (set_handle h x s) = sm_faults s" "sm_inside (set_handle h x s) = sm_inside s"
  "sm_handles (set_handle h x s) = (sm_handles s)[h := x]"
  by (simp_all add: set_handle_def)

lemma touch_live [simp]: "sm_live s \<Longrightarrow> touch s = s"
  by (simp add: touch_def)

lemma look_outside [simp]: "sm_inside s = {} \<Longrightarrow> look src s = s"
  by (simp add: look_def)

lemma counts_after:
  assumes "h < length (sm_handles s)" "sm_handles t = (sm_handles s)[h := x]"
  shows "held t + (if sm_handles s ! h = HHeld then 1 else 0) = held s + (if x = HHeld then 1 else 0)"
    "deleting t + (if is_deleting (sm_handles s ! h) then 1 else 0) = deleting s + (if is_deleting x then 1 else 0)"
  using filter_update [OF assms(1), of "\<lambda>x. x = HHeld" x] filter_update [OF assms(1), of is_deleting x]
  by (simp_all add: held_def deleting_def assms(2))

lemma resume_simps [simp]: "resume f \<noteq> HHeld" "\<not> is_deleting (resume f)" "resume f \<noteq> HCopying z" "HCopying z \<noteq> resume f"
  "copies (resume f) = copies (HDeleting f)" "takes (resume f) = takes (HDeleting f)"
  by (cases f; simp)+

lemma held_bound: "held s \<le> length (sm_handles s)"
  by (simp add: held_def)

lemma holds_pos: "h < length (sm_handles s) \<Longrightarrow> sm_handles s ! h = HHeld \<Longrightarrow> 0 < held s"
  unfolding held_def by (metis (mono_tags) filter_empty_conv length_greater_0_conv nth_mem)

lemma deleting_pos: "h < length (sm_handles s) \<Longrightarrow> sm_handles s ! h = HDeleting f \<Longrightarrow> 0 < deleting s"
  unfolding deleting_def by (metis filter_empty_conv is_deleting.simps(1) length_greater_0_conv nth_mem)

text \<open>The count tells the last handle from the others: it cannot have wrapped around.\<close>

lemma count_one:
  assumes "count_ok s" "length (sm_handles s) < 2 ^ 32"
  shows "sm_count s = 1 \<longleftrightarrow> held s = 1"
proof -
  have "held s < 2 ^ 32" using held_bound [of s] assms(2) by simp
  then have u: "unat (sm_count s) = held s" using assms(1) by (simp add: count_ok_def unsigned_of_nat take_bit_nat_eq_self)
  show ?thesis
  proof
    assume "sm_count s = 1" then show "held s = 1" using u by simp
  next
    assume "held s = 1" then show "sm_count s = 1" using assms(1) by (simp add: count_ok_def)
  qed
qed

section \<open>Every step keeps it\<close>

lemma copy_okD:
  assumes "copy_ok hs"
  shows "HCopying src \<in> set hs \<Longrightarrow> src < length hs \<and> hs ! src = HHeld" "x \<in> set hs \<Longrightarrow> copies x \<union> takes x \<subseteq> {..<length hs}"
    "x \<in> set hs \<Longrightarrow> y \<in> set hs \<Longrightarrow> copies x \<inter> takes y = {}"
  using assms unfolding copy_ok_def by blast+

lemma copy_ok_update:
  assumes "copy_ok hs" "h < length hs"
    and c: "\<And>src. x = HCopying src \<Longrightarrow> hs ! src = HHeld \<and> src \<noteq> h"
    and k: "x = HHeld \<or> hs ! h \<noteq> HHeld \<or> HCopying h \<notin> set hs"
    and xs: "copies x \<union> takes x \<subseteq> {..<length hs}" "copies x \<inter> takes x = {}"
    and d: "\<And>y. y \<in> set hs \<Longrightarrow> copies x \<inter> takes y = {} \<and> copies y \<inter> takes x = {}"
  shows "copy_ok (hs[h := x])"
proof -
  have m: "y = x \<or> y \<in> set hs" if "y \<in> set (hs[h := x])" for y using that set_update_subset_insert by fastforce
  have 1: "src < length (hs[h := x]) \<and> hs[h := x] ! src = HHeld" if "HCopying src \<in> set (hs[h := x])" for src
  proof (cases "HCopying src = x")
    case True
    then show ?thesis using c xs(1) by (auto simp: nth_list_update)
  next
    case False
    with m [OF that] have "HCopying src \<in> set hs" by blast
    then show ?thesis using copy_okD(1) [OF assms(1)] k by (cases "src = h") auto
  qed
  show ?thesis
    unfolding copy_ok_def using 1 m copy_okD(2,3) [OF assms(1)] xs d by (auto dest!: m; blast)
qed

lemma shm_invD:
  assumes "shm_inv s"
  shows "sm_inside s = {}" "length (sm_handles s) < 2 ^ 32" "copy_ok (sm_handles s)" "count_ok s"
  using assms by (simp_all add: shm_inv_def)

lemma count_okD:
  assumes "count_ok s"
  shows "sm_count s = of_nat (held s)" "sm_faults s = 0" "deleting s \<le> 1" "0 < deleting s \<Longrightarrow> held s = 0"
    "sm_live s \<longleftrightarrow> 0 < held s + deleting s" "sm_deleted s = (if sm_live s then 0 else 1)"
  using assms by (simp_all add: count_ok_def)

lemma held_live: "count_ok s \<Longrightarrow> 0 < held s \<Longrightarrow> sm_live s \<and> deleting s = 0 \<and> sm_deleted s = 0 \<and> sm_faults s = 0"
  using count_okD [of s] by (cases "deleting s") auto

text \<open>A change of a handle that is neither a gain nor a loss of the object keeps the counts.\<close>

lemma count_ok_neutral:
  assumes "count_ok s" "h < length (sm_handles s)" "sm_handles s ! h \<noteq> HHeld" "\<not> is_deleting (sm_handles s ! h)"
    and "x \<noteq> HHeld" "\<not> is_deleting x"
  shows "count_ok (set_handle h x s)"
  using counts_after [OF assms(2), of "set_handle h x s" x] assms count_okD [OF assms(1)] by (simp add: count_ok_def)

lemma inv_inc:
  assumes i: "shm_inv s" and l: "h < length (sm_handles s)" and h: "sm_handles s ! h = HCopying src"
  shows "shm_inv (shm_inc h s)"
proof -
  have "HCopying src \<in> set (sm_handles s)" using l h nth_mem by fastforce
  then have "0 < held s" using copy_okD(1) [OF shm_invD(3) [OF i]] holds_pos by blast
  note p = this held_live [OF shm_invD(4) [OF i] this]
  let ?t = "shm_inc h s"
  have t: "sm_handles ?t = (sm_handles s)[h := HHeld]" using p by (simp add: shm_inc_def)
  have c: "held ?t = Suc (held s)" "deleting ?t = deleting s" using counts_after [OF l t] h by simp_all
  have "count_ok ?t" using c p count_okD(1) [OF shm_invD(4) [OF i]] by (simp add: count_ok_def) (simp add: shm_inc_def add.commute)
  moreover have "copy_ok (sm_handles ?t)" unfolding t by (rule copy_ok_update [OF shm_invD(3) [OF i] l]) simp_all
  ultimately show ?thesis using shm_invD(1,2) [OF i] p by (simp add: shm_inv_def) (simp add: shm_inc_def)
qed

lemma inv_read:
  assumes i: "shm_inv s" and l: "h < length (sm_handles s)" "sm_handles s ! h \<noteq> HHeld" "\<not> is_deleting (sm_handles s ! h)"
    and src: "src < length (sm_handles s)" "\<not> taken s src"
  shows "shm_inv (shm_read h src s)"
proof -
  let ?x = "if sm_handles s ! src = HHeld then HCopying src else HNull"
  have t: "shm_read h src s = set_handle h ?x s" using shm_invD(1) [OF i] by (simp add: shm_read_def)
  have "copy_ok ((sm_handles s)[h := ?x])"
    by (rule copy_ok_update [OF shm_invD(3) [OF i] l(1)]) (use l(2) src in \<open>auto simp: taken_def split: if_splits\<close>)
  moreover have "count_ok (set_handle h ?x s)" by (rule count_ok_neutral [OF shm_invD(4) [OF i] l]) simp_all
  ultimately show ?thesis unfolding t using shm_invD(1,2) [OF i] by (simp add: shm_inv_def)
qed

lemma inv_move:
  assumes i: "shm_inv s" and l: "h < length (sm_handles s)" "sm_handles s ! h \<noteq> HHeld" "\<not> is_deleting (sm_handles s ! h)"
    and src: "src < length (sm_handles s)" "\<not> copied s src"
  shows "shm_inv (shm_move h src s)"
proof (cases "sm_handles s ! src = HHeld")
  case False
  then have t: "shm_move h src s = set_handle h HNull s" using shm_invD(1) [OF i] by (simp add: shm_move_def)
  have "copy_ok ((sm_handles s)[h := HNull])" by (rule copy_ok_update [OF shm_invD(3) [OF i] l(1)]) (use l(2) in auto)
  moreover have "count_ok (set_handle h HNull s)" by (rule count_ok_neutral [OF shm_invD(4) [OF i] l]) simp_all
  ultimately show ?thesis unfolding t using shm_invD(1,2) [OF i] by (simp add: shm_inv_def)
next
  case True
  let ?m = "set_handle src HNull s" and ?t = "set_handle h HHeld (set_handle src HNull s)"
  have n: "src \<noteq> h" using True l(2) by auto
  have t: "shm_move h src s = ?t" using True shm_invD(1) [OF i] by (simp add: shm_move_def)
  have "HCopying src \<notin> set (sm_handles s)" using src(2) by (fastforce simp: copied_def)
  then have "copy_ok ((sm_handles s)[src := HNull])" by (intro copy_ok_update [OF shm_invD(3) [OF i] src(1)]) auto
  then have "copy_ok (sm_handles ?t)" unfolding set_handle_sel by (rule copy_ok_update) (use l in auto)
  moreover have "held ?m + 1 = held s" "deleting ?m = deleting s" using counts_after [OF src(1), of ?m HNull] True by simp_all
  moreover have "held ?t = held ?m + 1" "deleting ?t = deleting ?m" using counts_after [of h ?m ?t HHeld] l n by simp_all
  ultimately show ?thesis unfolding t using shm_invD [OF i] by (simp add: shm_inv_def count_ok_def)
qed

text \<open>Releasing the object, whatever follows.\<close>

lemma inv_dec:
  assumes i: "shm_inv s" and o: "own s h"
    and f: "copies (HDeleting f) \<union> takes (HDeleting f) \<subseteq> {..<length (sm_handles s)}"
      "\<And>z. z \<in> copies (HDeleting f) \<Longrightarrow> \<not> taken s z" "\<And>z. z \<in> takes (HDeleting f) \<Longrightarrow> \<not> copied s z"
  shows "shm_inv (shm_dec h f s)"
proof -
  have l: "h < length (sm_handles s)" "HCopying h \<notin> set (sm_handles s)" using o by (fastforce simp: own_def idle_def copied_def)+
  have ok: "copy_ok ((sm_handles s)[h := x])" if "x = resume f \<or> x = HDeleting f" for x
  proof (rule copy_ok_update [OF shm_invD(3) [OF i] l(1)])
    show "copies x \<inter> takes x = {}" using that by (cases f) auto
    show "copies x \<inter> takes y = {} \<and> copies y \<inter> takes x = {}" if "y \<in> set (sm_handles s)" for y
      using f(2,3) that \<open>x = resume f \<or> x = HDeleting f\<close> by (auto simp: taken_def copied_def)
  qed (use that f(1) l in auto)
  show ?thesis
  proof (cases "sm_handles s ! h = HHeld")
    case False
    then have h: "sm_handles s ! h = HNull" using o by (simp add: own_def idle_def)
    then have "count_ok (set_handle h (resume f) s)" by (intro count_ok_neutral [OF shm_invD(4) [OF i] l(1)]) simp_all
    then show ?thesis using False ok [of "resume f"] shm_invD(1,2) [OF i] by (simp add: shm_dec_def shm_inv_def)
  next
    case True
    let ?x = "if sm_count s \<noteq> 1 then resume f else HDeleting f" and ?t = "shm_dec h f s"
    note p = holds_pos [OF l(1) True] and one = count_one [OF shm_invD(4,2) [OF i]]
    note q = held_live [OF shm_invD(4) [OF i] p]
    have t: "sm_handles ?t = (sm_handles s)[h := ?x]" using True q by (simp add: shm_dec_def)
    have c: "held ?t + 1 = held s" "deleting ?t = (if held s \<noteq> 1 then 0 else 1)"
      using counts_after [OF l(1) t] True q one by (auto split: if_splits)
    have "sm_count ?t = sm_count s - 1" using True q by (simp add: shm_dec_def)
    moreover have "of_nat (held s) = of_nat (held ?t) + (1 :: 32 word)" unfolding c(1) [symmetric] by simp
    ultimately have sc: "sm_count ?t = of_nat (held ?t)" using count_okD(1) [OF shm_invD(4) [OF i]] by simp
    have "count_ok ?t" using c p q sc by (auto simp: count_ok_def shm_dec_def True)
    moreover have "copy_ok (sm_handles ?t)" unfolding t by (rule ok) simp
    ultimately show ?thesis using shm_invD(1,2) [OF i] q True by (simp add: shm_inv_def) (simp add: shm_dec_def)
  qed
qed

lemma inv_delete:
  assumes i: "shm_inv s" and l: "h < length (sm_handles s)" and h: "sm_handles s ! h = HDeleting f"
  shows "shm_inv (shm_delete h f s)"
proof -
  let ?t = "shm_delete h f s"
  note d = deleting_pos [OF l h] and c = count_okD [OF shm_invD(4) [OF i]]
  have t: "sm_handles ?t = (sm_handles s)[h := resume f]" using d c by (simp add: shm_delete_def)
  have "HDeleting f \<in> set (sm_handles s)" using l h nth_mem by fastforce
  then have "copy_ok (sm_handles ?t)"
    unfolding t using copy_okD [OF shm_invD(3) [OF i]] h
    by (intro copy_ok_update [OF shm_invD(3) [OF i] l]) auto
  moreover have "held ?t = 0" "deleting ?t = 0" using counts_after [OF l t] h d c by simp_all
  moreover have "sm_count ?t = 0" "\<not> sm_live ?t" "sm_faults ?t = 0" "sm_deleted ?t = 1" "sm_inside ?t = sm_inside s"
    using c d by (simp_all add: shm_delete_def)
  ultimately show ?thesis using shm_invD(1,2) [OF i] t by (simp add: shm_inv_def count_ok_def)
qed

lemma at_work:
  assumes "shm_inv s" "h < length (sm_handles s)"
  shows "sm_handles s ! h = HReading (CopyFrom src) \<Longrightarrow> src < length (sm_handles s) \<and> \<not> taken s src"
    "sm_handles s ! h = HReading (MoveFrom src) \<Longrightarrow> src < length (sm_handles s) \<and> \<not> copied s src"
  using copy_okD(2,3) [OF shm_invD(3) [OF assms(1)]] nth_mem [OF assms(2)] by (fastforce simp: taken_def copied_def)+

lemma shm_step_inv: "shm_step s s' \<Longrightarrow> shm_inv s \<Longrightarrow> shm_inv s'"
proof (induction rule: shm_step.induct)
  case (copy s h src)
  then show ?case by (intro inv_read) (auto simp: own_def readable_def idle_def)
next
  case (move s h src)
  then show ?case by (intro inv_move) (auto simp: own_def idle_def)
next
  case (assign s h src)
  then show ?case by (intro inv_dec) (auto simp: readable_def idle_def)
next
  case (move_assign s h src)
  then show ?case by (intro inv_dec) (auto simp: own_def idle_def)
next
  case (destroy s h)
  then show ?case by (intro inv_dec) auto
next
  case (read h s src)
  then show ?case using at_work(1) [OF read.prems read.hyps(1)] by (intro inv_read) auto
next
  case (take_over h s src)
  then show ?case using at_work(2) [OF take_over.prems take_over.hyps(1)] by (intro inv_move) auto
next
  case (access s h)
  then have "0 < held s" using holds_pos by (auto simp: holds_def)
  then show ?case using access held_live [OF shm_invD(4)] by simp
qed (simp_all add: inv_inc inv_delete)

lemma shm_inv_new: "n + 1 < 2 ^ 32 \<Longrightarrow> shm_inv (shm_new n {})"
  by (simp add: shm_inv_def copy_ok_def count_ok_def held_def deleting_def shm_new_def filter_False)

lemma shm_reach_inv: "shm_step\<^sup>*\<^sup>* (shm_new n {}) s \<Longrightarrow> n + 1 < 2 ^ 32 \<Longrightarrow> shm_inv s"
  by (induction rule: rtranclp_induct) (auto intro: shm_inv_new shm_step_inv)

text \<open>C13. A shared object is deleted exactly once and never used afterwards: for fewer than \<open>2 ^ 32\<close> handles, none of them a part of
  the object itself, in every interleaving of the steps of copies, moves, assignments, destructions and accesses by any
  number of threads no deleted memory is touched, the 32-bit count is the number of handles that hold the object, the
  object exists as long as there is such a handle, and when no handle holds it or is about to delete it, it has
  been deleted once.\<close>

theorem shared_memory_once:
  assumes "shm_step\<^sup>*\<^sup>* (shm_new n {}) s" "n + 1 < 2 ^ 32"
  shows "sm_faults s = 0 \<and> unat (sm_count s) = held s \<and> sm_deleted s \<le> 1 \<and> (0 < held s \<longrightarrow> sm_live s \<and> sm_deleted s = 0) \<and>
    (held s = 0 \<longrightarrow> deleting s = 0 \<longrightarrow> \<not> sm_live s \<and> sm_deleted s = 1)"
proof -
  note i = shm_reach_inv [OF assms]
  note c = count_okD [OF shm_invD(4) [OF i]]
  have "held s < 2 ^ 32" using held_bound [of s] shm_invD(2) [OF i] by simp
  then have "unat (sm_count s) = held s" using c(1) by (simp add: unsigned_of_nat take_bit_nat_eq_self)
  then show ?thesis using c by auto
qed

text \<open>Two handles, of which the first is then assigned from an empty one, and the second destroyed.\<close>

theorem shared_memory_once_witness:
  "let s = shm_delete 1 Stop (shm_dec 1 Stop (shm_read 0 2 (shm_dec 0 (CopyFrom 2) (shm_inc 1 (shm_read 1 0 (shm_new 2 {}))))))
   in sm_faults s = 0 \<and> sm_deleted s = 1 \<and> \<not> sm_live s \<and> unat (sm_count s) = 0"
proof -
  define a where "a = shm_read 1 0 (shm_new 2 {})"
  define b where "b = shm_inc 1 a"
  define c where "c = shm_dec 0 (CopyFrom 2) b"
  define d where "d = shm_read 0 2 c"
  define e where "e = shm_dec 1 Stop d"
  define f where "f = shm_delete 1 Stop e"
  note defs = a_def b_def c_def d_def e_def f_def
  note st = own_def readable_def idle_def copied_def taken_def shm_read_def shm_inc_def shm_dec_def shm_delete_def set_handle_def
    shm_new_def look_def touch_def numeral_2_eq_2
  have "shm_step (shm_new 2 {}) a" unfolding a_def by (rule shm_step.copy) (simp_all add: st)
  moreover have "shm_step a b" unfolding b_def by (rule shm_step.inc [of _ _ 0]) (simp_all add: defs st)
  moreover have "shm_step b c" unfolding c_def by (rule shm_step.assign) (simp_all add: defs st)
  moreover have "shm_step c d" unfolding d_def by (rule shm_step.read) (simp_all add: defs st)
  moreover have "shm_step d e" unfolding e_def by (rule shm_step.destroy) (simp_all add: defs st)
  moreover have "shm_step e f" unfolding f_def by (rule shm_step.delete) (simp_all add: defs st)
  ultimately have "shm_step\<^sup>*\<^sup>* (shm_new 2 {}) f" by (meson rtranclp.rtrancl_into_rtrancl rtranclp.rtrancl_refl)
  note r = shared_memory_once [OF this]
  have "held f = 0" "deleting f = 0" by (simp_all add: held_def deleting_def defs st)
  with r show ?thesis unfolding Let_def defs [symmetric] by simp
qed

text \<open>Without the condition that no handle is part of the object it is false: an assignment deletes the old object
  before it reads the handle it assigns from.  Handle 0 is the last owner of a node and handle 1 the link in the
  node: \<^verbatim>\<open>p = p->next\<close> reads the link from deleted memory.\<close>

lemma assign_from_member_faults:
  "\<exists>s. shm_step\<^sup>*\<^sup>* (shm_new 1 {1}) s \<and> sm_faults s = 1"
proof -
  define a where "a = shm_dec 0 (CopyFrom 1) (shm_new 1 {1})"
  define b where "b = shm_delete 0 (CopyFrom 1) a"
  define c where "c = shm_read 0 1 b"
  note defs = a_def b_def c_def
  note st = own_def readable_def idle_def copied_def taken_def shm_read_def shm_dec_def shm_delete_def set_handle_def
    shm_new_def look_def touch_def
  have "shm_step (shm_new 1 {1}) a" unfolding a_def by (rule shm_step.assign) (simp_all add: st)
  moreover have "shm_step a b" unfolding b_def by (rule shm_step.delete) (simp_all add: defs st)
  moreover have "shm_step b c" unfolding c_def by (rule shm_step.read) (simp_all add: defs st)
  moreover have "sm_faults c = 1" by (simp add: defs st)
  ultimately show ?thesis by (meson rtranclp.rtrancl_into_rtrancl rtranclp.rtrancl_refl)
qed

end
