(* ===== verification/Asio_Tls.thy ===== *)
theory Asio_Tls
  imports Async_Io "HOL-Library.Multiset"
begin

text \<open>
  TLS contexts and streams (\<^verbatim>\<open>include/xsl/asio/tls.h\<close>).  The results of the OpenSSL calls are arguments: for a stream a
  script of what \<^verbatim>\<open>SSL_read_ex\<close> and \<^verbatim>\<open>SSL_write_ex\<close> report, with what the awaited signal gives.  The lemmas show
  when a context is built, that it is freed once, how the loops of the stream end, and where the stream
  differs from a socket of theory \<^verbatim>\<open>Async_Io\<close>.
\<close>

section \<open>Contexts\<close>

text \<open>The store of native contexts: how many were created and which were freed; null is \<^term>\<open>None\<close>.\<close>

record ssl_store =
  ss_next :: nat
  ss_freed :: "nat list"

record builder =
  tb_ctx :: "nat option"
  tb_code :: nat

definition ssl_free :: "nat option \<Rightarrow> ssl_store \<Rightarrow> ssl_store" where
  "ssl_free c s = (case c of None \<Rightarrow> s | Some k \<Rightarrow> s\<lparr>ss_freed := ss_freed s @ [k]\<rparr>)"

text \<open>\<^verbatim>\<open>client()\<close>: \<^verbatim>\<open>SSL_CTX_new\<close> succeeds or leaves an error code in the queue of the library.\<close>

definition tls_client :: "bool \<Rightarrow> nat \<Rightarrow> ssl_store \<Rightarrow> builder \<times> ssl_store" where
  "tls_client created err s =
     (if created then (\<lparr>tb_ctx = Some (ss_next s), tb_code = 0\<rparr>, s\<lparr>ss_next := Suc (ss_next s)\<rparr>)
      else (\<lparr>tb_ctx = None, tb_code = err\<rparr>, s))"

definition tb_ok :: "builder \<Rightarrow> bool" where
  "tb_ok b \<longleftrightarrow> tb_code b = 0 \<and> tb_ctx b \<noteq> None"

text \<open>\<^verbatim>\<open>safe_chain\<close>: a call that fails stores the next error of the queue, 0 when it is empty.\<close>

definition safe_chain :: "bool \<Rightarrow> nat \<Rightarrow> builder \<Rightarrow> builder" where
  "safe_chain success err b = (if \<not> tb_ok b then b else if success then b else b\<lparr>tb_code := err\<rparr>)"

definition set_verify_mode :: "builder \<Rightarrow> builder" where
  "set_verify_mode b = safe_chain True 0 b"

definition default_verify_paths :: "bool \<Rightarrow> nat \<Rightarrow> builder \<Rightarrow> builder" where
  "default_verify_paths r err b = safe_chain r err b"

definition set_min_version :: "bool \<Rightarrow> nat \<Rightarrow> builder \<Rightarrow> builder" where
  "set_min_version r err b = safe_chain r err b"

definition add_mode :: "builder \<Rightarrow> builder" where
  "add_mode b = safe_chain True 0 b"

text \<open>\<^verbatim>\<open>build\<close>: the context is taken out of the builder; the destructors free what they still hold.\<close>

definition tls_build :: "builder \<Rightarrow> (nat + nat) \<times> builder" where
  "tls_build b =
     (if \<not> tb_ok b then (Inl (tb_code b), b) else (Inr (the (tb_ctx b)), b\<lparr>tb_ctx := None\<rparr>))"

definition builder_destroy :: "builder \<Rightarrow> ssl_store \<Rightarrow> ssl_store" where
  "builder_destroy b s = ssl_free (tb_ctx b) s"

text \<open>Moving a context: the constructor takes the pointer, the assignment frees the old one first and leaves an
  object assigned to itself alone.  The pair holds the target and the source afterwards.\<close>

definition context_move :: "nat option \<Rightarrow> nat option \<times> nat option" where
  "context_move src = (src, None)"

definition context_assign :: "bool \<Rightarrow> nat option \<Rightarrow> nat option \<Rightarrow> ssl_store \<Rightarrow> (nat option \<times> nat option) \<times> ssl_store" where
  "context_assign same dst src s = (if same then ((dst, src), s) else (context_move src, ssl_free dst s))"

text \<open>The builder moves with its error; the source no longer owns the context.\<close>

definition builder_move :: "builder \<Rightarrow> builder \<times> builder" where
  "builder_move b = (b, b\<lparr>tb_ctx := None\<rparr>)"

definition context_is_valid :: "nat option \<Rightarrow> bool" where
  "context_is_valid c \<longleftrightarrow> c \<noteq> None"

text \<open>\<^verbatim>\<open>tls_err_gen\<close> takes the oldest error from the queue of the thread, 0 when it is empty, and prints it into 256
  bytes with the closing zero; \<open>txt\<close> is the text of the library for a code.\<close>

definition tls_err_gen :: "(nat \<Rightarrow> string) \<Rightarrow> nat list \<Rightarrow> (nat \<times> string) \<times> nat list" where
  "tls_err_gen txt q =
     (let c = (case q of [] \<Rightarrow> 0 | x # _ \<Rightarrow> x) in ((c, takeWhile (\<lambda>ch. ch \<noteq> CHR 0x00) (take 255 (txt c))), tl q))"

text \<open>\<^verbatim>\<open>new_ssl\<close>: the error is fetched only when \<^verbatim>\<open>SSL_new\<close> gave null; \<open>es\<close> is what the failed call left in the queue.\<close>

definition new_ssl :: "(nat \<Rightarrow> string) \<Rightarrow> nat option \<Rightarrow> nat list \<Rightarrow> nat list \<Rightarrow> ((nat \<times> string) + nat) \<times> nat list" where
  "new_ssl txt ssl es q =
     (case ssl of Some s \<Rightarrow> (Inr s, q) | None \<Rightarrow> (let (e, q1) = tls_err_gen txt (q @ es) in (Inl e, q1)))"

text \<open>The settings of the host name report whether OpenSSL returned 1.\<close>

definition set_tls_ext_hostname :: "int \<Rightarrow> bool" where
  "set_tls_ext_hostname ret \<longleftrightarrow> ret = 1"

definition set1_host :: "int \<Rightarrow> bool" where
  "set1_host ret \<longleftrightarrow> ret = 1"

text \<open>A whole use of the builder: the calls with their results, \<^verbatim>\<open>build\<close>, and the destruction of the builder.\<close>

definition tls_configure :: "(bool \<times> nat) list \<Rightarrow> builder \<Rightarrow> builder" where
  "tls_configure calls b = fold (\<lambda>(r, err). safe_chain r err) calls b"

definition tls_context :: "bool \<Rightarrow> nat \<Rightarrow> (bool \<times> nat) list \<Rightarrow> ssl_store \<Rightarrow> (nat + nat) \<times> ssl_store" where
  "tls_context created err calls s =
     (let (b, s1) = tls_client created err s; (r, b1) = tls_build (tls_configure calls b)
      in (r, builder_destroy b1 s1))"

section \<open>Streams\<close>

text \<open>What a call reports: bytes transferred, that it wants to read or write (with what the signal then gives),
  that the peer closed, or another error.\<close>

datatype ssl_out = SslDone nat | WantRead bool | WantWrite bool | ZeroReturn | SslError

definition operation_canceled :: errc where "operation_canceled = Errno 125"

fun tls_read :: "ssl_out list \<Rightarrow> (result \<times> ssl_out list) option" where
  "tls_read [] = None"
| "tls_read (SslDone n # s) = Some (Res n ok, s)"
| "tls_read (WantRead sig # s) = (if sig then tls_read s else Some (Res 0 (Some operation_canceled), s))"
| "tls_read (WantWrite sig # s) = (if sig then tls_read s else Some (Res 0 (Some operation_canceled), s))"
| "tls_read (ZeroReturn # s) = Some (Res 0 (Some io_error), s)"
| "tls_read (SslError # s) = Some (Res 0 (Some io_error), s)"

fun tls_write :: "ssl_out list \<Rightarrow> (result \<times> ssl_out list) option" where
  "tls_write [] = None"
| "tls_write (SslDone n # s) = Some (Res n ok, s)"
| "tls_write (WantRead sig # s) = (if sig then tls_write s else Some (Res 0 (Some operation_canceled), s))"
| "tls_write (WantWrite sig # s) = (if sig then tls_write s else Some (Res 0 (Some operation_canceled), s))"
| "tls_write (ZeroReturn # s) = Some (Res 0 (Some not_connected), s)"
| "tls_write (SslError # s) = Some (Res 0 (Some io_error), s)"

text \<open>\<^verbatim>\<open>connect\<close>: the result of \<^verbatim>\<open>SSL_connect\<close> and of the verification of the certificate (0 is \<^verbatim>\<open>X509_V_OK\<close>).\<close>

definition tls_connect :: "int \<Rightarrow> nat \<Rightarrow> ec" where
  "tls_connect ret verify = (if ret < 1 \<and> verify \<noteq> 0 then Some (Errno 13) else ok)"

section \<open>Building\<close>

lemma safe_chain_ok: "tb_ok (safe_chain r err b) \<longleftrightarrow> tb_ok b \<and> (r \<or> err = 0)"
  by (auto simp: safe_chain_def tb_ok_def)

lemma safe_chain_ctx [simp]: "tb_ctx (safe_chain r err b) = tb_ctx b"
  by (simp add: safe_chain_def)

lemma configure_ok: "tb_ok (tls_configure calls b) \<longleftrightarrow> tb_ok b \<and> (\<forall>(r, err)\<in>set calls. r \<or> err = 0)"
  by (induction calls arbitrary: b) (auto simp: tls_configure_def safe_chain_ok split: prod.splits)

lemma configure_ctx: "tb_ctx (tls_configure calls b) = tb_ctx b"
  by (induction calls arbitrary: b) (auto simp: tls_configure_def split: prod.splits)

text \<open>The first failure is the one reported: later calls do not run.\<close>

lemma configure_first_error:
  assumes "tb_ok b" "\<forall>(r, err)\<in>set xs. r" "err \<noteq> 0"
  shows "tb_code (tls_configure (xs @ (False, err) # ys) b) = err"
proof -
  have skip: "tb_code (tls_configure zs c) = tb_code c" if "\<not> tb_ok c" for zs c
    using that by (induction zs arbitrary: c) (auto simp: tls_configure_def safe_chain_def split: prod.splits)
  have "tb_ok (tls_configure xs b)" using assms(1,2) configure_ok by blast
  then have "tb_code (safe_chain False err (tls_configure xs b)) = err" "\<not> tb_ok (safe_chain False err (tls_configure xs b))"
    using assms(3) by (simp_all add: safe_chain_def tb_ok_def)
  then show ?thesis using skip [of "safe_chain False err (tls_configure xs b)" ys] by (simp add: tls_configure_def)
qed

text \<open>A context is handed out unfreed exactly when it was created and every call succeeded or left no error code; in
  every other case what was created has been freed once.\<close>

lemma tls_context_spec:
  "tls_context created err calls s =
     (if \<not> created then (Inl err, s)
      else if \<forall>(r, e)\<in>set calls. r \<or> e = 0 then (Inr (ss_next s), s\<lparr>ss_next := Suc (ss_next s)\<rparr>)
      else (Inl (tb_code (tls_configure calls \<lparr>tb_ctx = Some (ss_next s), tb_code = 0\<rparr>)),
            s\<lparr>ss_next := Suc (ss_next s), ss_freed := ss_freed s @ [ss_next s]\<rparr>))"
proof (cases created)
  case True
  let ?b = "\<lparr>tb_ctx = Some (ss_next s), tb_code = 0\<rparr>"
  have "tb_ok ?b" by (simp add: tb_ok_def)
  then have good: "tb_ok (tls_configure calls ?b) \<longleftrightarrow> (\<forall>(r, e)\<in>set calls. r \<or> e = 0)"
    by (simp only: configure_ok simp_thms)
  have ctx: "tb_ctx (tls_configure calls ?b) = Some (ss_next s)" by (simp add: configure_ctx)
  show ?thesis
    by (cases "tb_ok (tls_configure calls ?b)")
       (simp_all add: True good [symmetric] ctx tls_context_def tls_client_def tls_build_def builder_destroy_def ssl_free_def)
next
  case False
  have "tls_configure calls \<lparr>tb_ctx = None, tb_code = err\<rparr> = \<lparr>tb_ctx = None, tb_code = err\<rparr>"
    by (induction calls) (auto simp: tls_configure_def safe_chain_def tb_ok_def)
  then show ?thesis using False
    by (simp add: tls_context_def tls_client_def tls_build_def builder_destroy_def ssl_free_def tb_ok_def)
qed

text \<open>A failure that leaves no error in the queue is not noticed.\<close>

lemma silent_failure_builds: "fst (tls_context True 0 [(False, 0)] s) = Inr (ss_next s)"
  by (simp add: tls_context_spec)

text \<open>What two contexts own after an assignment, with what has been freed, is what they owned before: nothing leaks
  and nothing is freed twice.\<close>

lemma context_assign_conserves:
  assumes "context_assign False dst src s = ((d, r), s')"
  shows "mset (ss_freed s') + mset (List.map_filter (\<lambda>x. x) [d, r]) =
         mset (ss_freed s) + mset (List.map_filter (\<lambda>x. x) [dst, src])"
  using assms by (auto simp: context_assign_def context_move_def ssl_free_def List.map_filter_def split: option.splits)

lemma context_assign_self: "context_assign True c c s = ((c, c), s)"
  by (simp add: context_assign_def)

text \<open>Moving a builder keeps what is owned, so that both can be destroyed.\<close>

lemma builder_move_destroy:
  "builder_destroy (fst (builder_move b)) (builder_destroy (snd (builder_move b)) s) = builder_destroy b s"
  "tb_ok (fst (builder_move b)) = tb_ok b" "\<not> tb_ok (snd (builder_move b))"
  by (simp_all add: builder_move_def builder_destroy_def ssl_free_def tb_ok_def)

text \<open>The text of an error fits its buffer.\<close>

lemma err_text_fits: "length (snd (fst (tls_err_gen txt q))) < 256 \<and> CHR 0x00 \<notin> set (snd (fst (tls_err_gen txt q)))"
proof -
  have "length (takeWhile P (take 255 s)) < 256" for P and s :: string
    using length_takeWhile_le [of P "take 255 s"] by (simp add: less_Suc_eq_le)
  then show ?thesis by (auto simp: tls_err_gen_def Let_def dest: set_takeWhileD)
qed

text \<open>The queue is never cleared: an error left there by an earlier operation is reported instead of the one that made the
  call fail, which is reported by the failure after it.\<close>

lemma stale_error_reported:
  "\<exists>m. new_ssl txt None [e] [old] = (Inl (old, m), [e])"
  by (simp add: new_ssl_def tls_err_gen_def)

section \<open>The loops\<close>

definition waiting :: "ssl_out \<Rightarrow> bool" where
  "waiting o1 \<longleftrightarrow> o1 = WantRead True \<or> o1 = WantWrite True"

lemma tls_read_skips: "tls_read s = tls_read (dropWhile waiting s)"
  by (induction s rule: tls_read.induct) (auto simp: waiting_def)

lemma tls_write_skips: "tls_write s = tls_write (dropWhile waiting s)"
  by (induction s rule: tls_write.induct) (auto simp: waiting_def)

text \<open>A write reports what one call took: success does not mean that everything was written, and nobody calls
  again.\<close>

lemma tls_write_partial: "n < len \<Longrightarrow> \<exists>r. tls_write (SslDone n # s) = Some (r, s) \<and> res_ok r \<and> res_size r < len"
  by (simp add: res_ok_def)

text \<open>The regular end of a stream is an error for the reader.\<close>

lemma tls_read_end: "tls_read (ZeroReturn # s) = Some (Res 0 (Some io_error), s)"
  by simp

text \<open>A handshake that failed or is not finished is a success when no certificate was rejected.\<close>

lemma tls_connect_unfinished: "tls_connect (-1) 0 = ok"
  by (simp add: tls_connect_def)

end
