(* ===== verification/Feature_Flags.thy ===== *)
theory Feature_Flags
  imports Net_Prelude
begin

text \<open>
  The compile-time layer: operations on packs of types (\<^verbatim>\<open>include/xsl/type_traits.h\<close>) and the selection of
  feature flags (\<^verbatim>\<open>include/xsl/feature.h\<close>) by which the library assembles its device and signal types.
  A template instance is a term of type \<^verbatim>\<open>ty\<close>, a pack is a list, a binary type predicate is a function,
  and a metafunction that recurses over a pack is a function on lists.  The assertions the headers carry are
  evaluated; the lemmas give each metafunction its closed form, and the theorem shows when the order of the
  flags a user writes does not matter.
\<close>

section \<open>Types\<close>

datatype ty = Void | Placeholder | Name string | Inst string "ty list"

type_synonym tpred = "ty \<Rightarrow> ty \<Rightarrow> bool"

definition is_same :: tpred where "is_same l r \<longleftrightarrow> l = r"

definition always_true :: tpred where "always_true l r \<longleftrightarrow> True"

text \<open>Two instances of one template over types.\<close>

fun is_same_pack :: tpred where
  "is_same_pack (Inst p xs) (Inst q ys) \<longleftrightarrow> p = q"
| "is_same_pack _ _ \<longleftrightarrow> False"

section \<open>Packs\<close>

fun first_t :: "ty \<Rightarrow> ty option" where
  "first_t (Inst p (x # xs)) = Some x"
| "first_t _ = None"

fun inner_t :: "ty \<Rightarrow> ty option" where
  "inner_t (Inst p (x # xs)) = Some x"
| "inner_t _ = None"

fun at_t :: "nat \<Rightarrow> ty list \<Rightarrow> ty option" where
  "at_t 0 (x # xs) = Some x"
| "at_t (Suc i) (x # xs) = at_t i xs"
| "at_t i [] = None"

definition size_v :: "ty list \<Rightarrow> nat" where "size_v ts = length ts"

fun find_if :: "tpred \<Rightarrow> ty \<Rightarrow> ty list \<Rightarrow> nat \<Rightarrow> nat" where
  "find_if p t [] i = i"
| "find_if p t (x # xs) i = (if p t x then i else find_if p t xs (i + 1))"

definition find_if_v :: "tpred \<Rightarrow> ty \<Rightarrow> ty list \<Rightarrow> nat" where "find_if_v p t ts = find_if p t ts 0"

fun find_value :: "'a \<Rightarrow> 'a list \<Rightarrow> nat \<Rightarrow> nat" where
  "find_value v [] i = i"
| "find_value v (x # xs) i = (if x = v then i else find_value v xs (i + 1))"

definition find_value_v :: "'a \<Rightarrow> 'a list \<Rightarrow> nat" where "find_value_v v xs = find_value v xs 0"

definition existing_v :: "ty \<Rightarrow> ty list \<Rightarrow> bool" where
  "existing_v t ts \<longleftrightarrow> find_if_v is_same t ts \<noteq> size_v ts"

text \<open>Removal returns the remaining pack and the removed type, \<^verbatim>\<open>void\<close> when there was none; the last argument
  collects what has been checked.\<close>

fun remove_first_if :: "tpred \<Rightarrow> ty \<Rightarrow> ty list \<Rightarrow> ty list \<Rightarrow> ty list \<times> ty" where
  "remove_first_if p t [] checked = (checked, Void)"
| "remove_first_if p t (x # xs) checked = (if p t x then (checked @ xs, x) else remove_first_if p t xs (checked @ [x]))"

fun remove_first_of_if :: "tpred \<Rightarrow> ty list \<Rightarrow> ty list \<Rightarrow> ty list \<Rightarrow> ty list \<times> ty" where
  "remove_first_of_if p opts [] checked = (checked, Void)"
| "remove_first_of_if p opts (x # xs) checked =
     (if find_if_v p x opts \<noteq> size_v opts then (checked @ xs, x) else remove_first_of_if p opts xs (checked @ [x]))"

fun swap_t :: "ty \<Rightarrow> ty \<Rightarrow> (ty \<times> ty) option" where
  "swap_t (Inst p xs) (Inst q ys) = Some (Inst p ys, Inst q xs)"
| "swap_t _ _ = None"

fun copy_t :: "ty \<Rightarrow> ty \<Rightarrow> ty option" where
  "copy_t (Inst p xs) (Inst q ys) = Some (Inst q xs)"
| "copy_t _ _ = None"

fun for_each :: "(ty \<Rightarrow> ty) \<Rightarrow> ty list \<Rightarrow> ty list \<Rightarrow> ty list" where
  "for_each m [] res = res"
| "for_each m (x # xs) res = for_each m xs (res @ [m x])"

subsection \<open>Qualifiers\<close>

text \<open>A qualified type: for a reference the flag tells whether what it refers to is const.\<close>

datatype refq = NoRef | LRef | RRef

record qual =
  q_const :: bool
  q_ref :: refq
  q_base :: ty

definition is_const :: "qual \<Rightarrow> bool" where "is_const t \<longleftrightarrow> q_ref t = NoRef \<and> q_const t"

definition remove_reference :: "qual \<Rightarrow> qual" where "remove_reference t = t\<lparr>q_ref := NoRef\<rparr>"

definition remove_cvref :: "qual \<Rightarrow> qual" where "remove_cvref t = t\<lparr>q_ref := NoRef, q_const := False\<rparr>"

definition add_const :: "qual \<Rightarrow> qual" where "add_const t = (if q_ref t = NoRef then t\<lparr>q_const := True\<rparr> else t)"

definition like :: "qual \<Rightarrow> qual \<Rightarrow> qual" where
  "like t u =
     (let no_ref_t = remove_reference t;
          no_ref_u = if is_const no_ref_t then add_const u else u;
          ref_u = if q_ref t = LRef then no_ref_u\<lparr>q_ref := LRef\<rparr>
                  else if q_ref t = RRef then no_ref_u\<lparr>q_ref := RRef\<rparr> else no_ref_u
      in if is_const t then add_const ref_u else ref_u)"

definition like_t :: "qual \<Rightarrow> qual \<Rightarrow> qual" where "like_t t u = like t (remove_cvref u)"

section \<open>Feature flags\<close>

text \<open>A slot of a feature template as written: a type, a set of types, an item with predicate, default and
  options, or the rest of the flags; and a formatted slot.\<close>

datatype flag_item = Flag ty | Formatted tpred ty "ty list" | RestFlag

datatype item = Item tpred ty "ty list" | Rest

fun off_fmt_single :: "flag_item \<Rightarrow> item" where
  "off_fmt_single (Flag (Inst p fs)) = (if p = ''_n'' then Item is_same Placeholder fs else Item is_same Placeholder [Inst p fs])"
| "off_fmt_single (Flag f) = Item is_same Placeholder [f]"
| "off_fmt_single (Formatted p d []) = Item p d [d]"
| "off_fmt_single (Formatted p d (f # fs)) = Item p d (f # fs)"
| "off_fmt_single RestFlag = Rest"

definition off_fmt :: "flag_item list \<Rightarrow> item list" where "off_fmt fs = map off_fmt_single fs"

fun off_fill :: "ty list \<Rightarrow> item list \<Rightarrow> ty list \<Rightarrow> ty list" where
  "off_fill flags [] complete = complete"
| "off_fill flags (Rest # items) complete = complete @ flags"
| "off_fill flags (Item p d opts # items) complete =
     (let (rest, found) = remove_first_of_if p opts flags []
      in off_fill rest items (complete @ [if found = Void then d else found]))"

definition select_feature_flags :: "flag_item list \<Rightarrow> ty list \<Rightarrow> ty list" where
  "select_feature_flags full flags = off_fill flags (off_fmt full) []"

fun merge :: "('r \<Rightarrow> 'f \<Rightarrow> 'r) \<Rightarrow> 'r \<Rightarrow> 'f list \<Rightarrow> 'r" where
  "merge p r [] = r"
| "merge p r (x # xs) = merge p (p r x) xs"

section \<open>Closed forms\<close>

lemma at_t_nth: "at_t i xs = (if i < length xs then Some (xs ! i) else None)"
  by (induction i xs rule: at_t.induct) auto

lemma find_if_eq: "find_if p t xs i = i + length (takeWhile (\<lambda>x. \<not> p t x) xs)"
  by (induction xs arbitrary: i) auto

lemma find_value_eq: "find_value v xs i = i + length (takeWhile (\<lambda>x. x \<noteq> v) xs)"
  by (induction xs arbitrary: i) auto

lemma takeWhile_all_iff: "length (takeWhile P xs) = length xs \<longleftrightarrow> (\<forall>x\<in>set xs. P x)"
  by (induction xs) auto

lemma find_if_v_found: "find_if_v p t xs \<noteq> size_v xs \<longleftrightarrow> (\<exists>x\<in>set xs. p t x)"
  by (simp add: find_if_v_def find_if_eq size_v_def takeWhile_all_iff)

text \<open>\<^verbatim>\<open>existing_v\<close> is membership, and the position of a value tells whether the pack has it, as the constraint of
  \<^verbatim>\<open>PubSub::subscribe\<close> expects.\<close>

lemma existing_v_iff: "existing_v t ts \<longleftrightarrow> t \<in> set ts"
  unfolding existing_v_def find_if_v_found by (auto simp: is_same_def)

lemma find_value_v_member: "find_value_v v xs < length xs \<longleftrightarrow> v \<in> set xs"
proof -
  have "length (takeWhile (\<lambda>x. x \<noteq> v) xs) < length xs \<longleftrightarrow> \<not> (\<forall>x\<in>set xs. x \<noteq> v)"
    using takeWhile_all_iff [of "\<lambda>x. x \<noteq> v" xs] length_takeWhile_le [of "\<lambda>x. x \<noteq> v" xs] by linarith
  then show ?thesis by (auto simp: find_value_v_def find_value_eq)
qed

lemma find_value_v_nth: "v \<in> set xs \<Longrightarrow> xs ! find_value_v v xs = v"
  by (induction xs) (auto simp: find_value_v_def find_value_eq)

lemma for_each_map: "for_each m xs res = res @ map m xs"
  by (induction xs arbitrary: res) auto

lemma copy_swap: "swap_t a b = Some (c, d) \<longleftrightarrow> copy_t b a = Some c \<and> copy_t a b = Some d"
  by (cases a; cases b) auto

lemma like_t_eq: "like_t t u = \<lparr>q_const = q_const t, q_ref = q_ref t, q_base = q_base u\<rparr>"
  by (cases t; cases u; cases "q_ref t")
     (auto simp: like_t_def like_def remove_cvref_def remove_reference_def is_const_def add_const_def Let_def)

lemma find_holds: "find m fs = Some f \<Longrightarrow> f \<in> set fs \<and> m f"
  by (auto simp: find_Some_iff)

lemma remove_first_of_if_found:
  "find (\<lambda>f. \<exists>x\<in>set opts. p f x) fs = Some f \<Longrightarrow> remove_first_of_if p opts fs ch = (ch @ remove1 f fs, f)"
  by (induction fs arbitrary: ch) (auto simp: find_if_v_found split: if_splits dest: find_holds)

lemma remove_first_of_if_none:
  "find (\<lambda>f. \<exists>x\<in>set opts. p f x) fs = None \<Longrightarrow> remove_first_of_if p opts fs ch = (ch @ fs, Void)"
  by (induction fs arbitrary: ch) (auto simp: find_if_v_found split: if_splits)

section \<open>Selection\<close>

fun accepts :: "item \<Rightarrow> ty \<Rightarrow> bool" where
  "accepts (Item p d opts) f \<longleftrightarrow> (\<exists>x\<in>set opts. p f x)"
| "accepts Rest f \<longleftrightarrow> False"

fun item_default :: "item \<Rightarrow> ty" where
  "item_default (Item p d opts) = d"
| "item_default Rest = Void"

text \<open>What a slot gets on its own: the first flag it accepts.\<close>

definition pick :: "item \<Rightarrow> ty list \<Rightarrow> ty" where
  "pick it fs = (case find (accepts it) fs of Some f \<Rightarrow> if f = Void then item_default it else f | None \<Rightarrow> item_default it)"

text \<open>No flag fits two slots.\<close>

fun exclusive :: "item list \<Rightarrow> ty set \<Rightarrow> bool" where
  "exclusive [] F \<longleftrightarrow> True"
| "exclusive (it # its) F \<longleftrightarrow> (\<forall>f\<in>F. accepts it f \<longrightarrow> (\<forall>jt\<in>set its. \<not> accepts jt f)) \<and> exclusive its F"

lemma exclusive_mono: "exclusive its F \<Longrightarrow> G \<subseteq> F \<Longrightarrow> exclusive its G"
  by (induction its) auto

lemma find_remove1: "\<not> m f \<Longrightarrow> find m (remove1 f fs) = find m fs"
  by (induction fs) auto

lemma pick_remove1: "\<not> accepts it f \<Longrightarrow> pick it (remove1 f fs) = pick it fs"
  by (simp add: pick_def find_remove1)

lemma accepts_item: "accepts (Item p d opts) = (\<lambda>f. \<exists>x\<in>set opts. p f x)"
  by (rule ext) simp

lemma off_fill_picks:
  "Rest \<notin> set its \<Longrightarrow> exclusive its (set fs) \<Longrightarrow> off_fill fs its acc = acc @ map (\<lambda>it. pick it fs) its"
proof (induction its arbitrary: fs acc)
  case (Cons it its)
  obtain p d opts where it: "it = Item p d opts" using Cons.prems(1) by (cases it) auto
  show ?case
  proof (cases "find (accepts it) fs")
    case None
    then have "remove_first_of_if p opts fs [] = (fs, Void)" by (simp add: it accepts_item remove_first_of_if_none)
    with None Cons show ?thesis by (simp add: it pick_def)
  next
    case (Some f)
    have f: "f \<in> set fs" "accepts it f" using find_holds [OF Some] by simp_all
    have "exclusive its (set (remove1 f fs))"
      using Cons.prems(2) exclusive_mono [OF _ set_remove1_subset] by simp
    moreover have "pick jt (remove1 f fs) = pick jt fs" if "jt \<in> set its" for jt
      using Cons.prems(2) f that by (intro pick_remove1) auto
    moreover have "remove_first_of_if p opts fs [] = (remove1 f fs, f)" using Some by (simp add: it accepts_item remove_first_of_if_found)
    ultimately show ?thesis using Some Cons.IH [of "remove1 f fs"] Cons.prems(1) by (simp add: it pick_def)
  qed
qed simp

lemma find_unique:
  assumes "set fs = set gs" "\<forall>f\<in>set fs. \<forall>g\<in>set fs. m f \<longrightarrow> m g \<longrightarrow> f = g"
  shows "find m fs = find m gs"
proof (cases "find m fs")
  case None
  then show ?thesis using assms(1) by (metis find_None_iff)
next
  case (Some f)
  then have f: "f \<in> set fs" "m f" by (simp_all add: find_holds)
  then obtain g where g: "find m gs = Some g" using assms(1) by (cases "find m gs") (auto simp: find_None_iff)
  then have "g \<in> set gs" "m g" by (simp_all add: find_holds)
  then show ?thesis using Some g f assms by auto
qed

text \<open>When no flag fits two slots of a feature template and no slot accepts two different flags, the selected
  arguments do not depend on the order in which the flags are written, on repetitions, or on flags that fit nowhere:
  each slot holds the flag it accepts, or its default.\<close>

lemma select_order_irrelevant:
  assumes "Rest \<notin> set (off_fmt full)" "exclusive (off_fmt full) (set fs)" "set fs = set gs"
    and "\<forall>it\<in>set (off_fmt full). \<forall>f\<in>set fs. \<forall>g\<in>set fs. accepts it f \<longrightarrow> accepts it g \<longrightarrow> f = g"
  shows "select_feature_flags full fs = select_feature_flags full gs \<and>
    select_feature_flags full fs = map (\<lambda>it. pick it fs) (off_fmt full)"
proof -
  have "pick it fs = pick it gs" if "it \<in> set (off_fmt full)" for it
    using find_unique [OF assms(3)] assms(4) that by (simp add: pick_def)
  then show ?thesis using off_fill_picks [OF assms(1,2)] off_fill_picks [of "off_fmt full" gs "[]"] assms
    by (simp add: select_feature_flags_def)
qed

lemma select_on_example:
  "map (\<lambda>it. pick it [Name ''double'', Name ''char'', Name ''int'']) (off_fmt [Flag (Inst ''_n'' [Name ''int'', Name ''float'']), Flag (Name ''char'')]) =
     [Name ''int'', Name ''char'']"
  by code_simp

lemma select_order_irrelevant_witness:
  "let full = [Flag (Inst ''_n'' [Name ''int'', Name ''float'']), Flag (Name ''char'')];
       fs = [Name ''double'', Name ''char'', Name ''int'']; gs = [Name ''int'', Name ''char'', Name ''int'', Name ''double'']
   in select_feature_flags full fs = select_feature_flags full gs \<and> select_feature_flags full fs = [Name ''int'', Name ''char'']"
proof -
  let ?full = "[Flag (Inst ''_n'' [Name ''int'', Name ''float'']), Flag (Name ''char'')]"
  let ?fs = "[Name ''double'', Name ''char'', Name ''int'']" and ?gs = "[Name ''int'', Name ''char'', Name ''int'', Name ''double'']"
  have "set ?fs = set ?gs" by auto
  then have "select_feature_flags ?full ?fs = select_feature_flags ?full ?gs \<and>
      select_feature_flags ?full ?fs = map (\<lambda>it. pick it ?fs) (off_fmt ?full)"
    by (intro select_order_irrelevant) (auto simp: off_fmt_def is_same_def)
  then show ?thesis unfolding Let_def by (metis (no_types, lifting) select_on_example)
qed

text \<open>With a rest slot nothing is lost: the flags given are those selected and those handed on.\<close>

lemma rest_gets_remaining: "off_fill fs [Rest] acc = acc @ fs"
  by simp

lemma select_length: "Rest \<notin> set its \<Longrightarrow> length (off_fill fs its acc) = length acc + length its"
proof (induction its arbitrary: fs acc)
  case (Cons it its)
  then show ?case by (cases it) (auto simp: split_beta)
qed simp

section \<open>The assertions of the headers\<close>

lemma select_assertions:
  "select_feature_flags [Flag (Name ''int''), Flag (Name ''float'')] [Name ''float'', Name ''int''] = [Name ''int'', Name ''float'']"
  "select_feature_flags [Flag (Name ''int''), Flag (Name ''float'')] [Name ''double'', Name ''int''] = [Name ''int'', Placeholder]"
  "select_feature_flags [Flag (Name ''int''), Flag (Name ''float'')] [Name ''double'', Name ''char''] = [Placeholder, Placeholder]"
  "select_feature_flags [Flag (Inst ''_n'' [Name ''char'', Name ''float'']), Flag (Name ''char'')] [Name ''char'', Name ''int''] = [Name ''char'', Placeholder]"
  "select_feature_flags [Flag (Inst ''_n'' [Name ''char'', Name ''float'']), Flag (Inst ''_n'' [Name ''char'', Name ''double''])] [Name ''char'', Name ''char''] = [Name ''char'', Name ''char'']"
  "select_feature_flags [Formatted is_same_pack Placeholder [Inst ''Wrapper'' [Name ''_n'']]] [Inst ''Wrapper'' [Name ''BaseOn'']] = [Inst ''Wrapper'' [Name ''BaseOn'']]"
  by code_simp+

lemma like_assertions:
  "like_t \<lparr>q_const = True, q_ref = LRef, q_base = Name ''int''\<rparr> \<lparr>q_const = False, q_ref = NoRef, q_base = Name ''char''\<rparr> =
     \<lparr>q_const = True, q_ref = LRef, q_base = Name ''char''\<rparr>"
  "like_t \<lparr>q_const = True, q_ref = NoRef, q_base = Name ''int''\<rparr> \<lparr>q_const = False, q_ref = RRef, q_base = Name ''char''\<rparr> =
     \<lparr>q_const = True, q_ref = NoRef, q_base = Name ''char''\<rparr>"
  by (simp_all add: like_t_eq)

section \<open>Allocators of composed devices\<close>

text \<open>\<^verbatim>\<open>LocalCompose\<close> asks for an allocator with the predicate \<^verbatim>\<open>is_allocator\<close>, whose second argument must be
  \<^verbatim>\<open>void\<close> for it to hold; the selection puts the option there instead, so that no flag is ever taken for an
  allocator: it stays among the parts of the composite.\<close>

definition is_allocator :: "(ty \<Rightarrow> bool) \<Rightarrow> tpred" where
  "is_allocator alloc t second \<longleftrightarrow> second = Void \<and> alloc t"

definition local_compose :: "(ty \<Rightarrow> bool) \<Rightarrow> ty list \<Rightarrow> ty list" where
  "local_compose alloc S =
     select_feature_flags [Formatted (is_allocator alloc) (Inst ''allocator'' [Void]) [], RestFlag] S"

lemma local_compose_default_allocator: "local_compose alloc S = Inst ''allocator'' [Void] # S"
proof -
  have "find (\<lambda>f. \<exists>x\<in>set [Inst ''allocator'' [Void]]. is_allocator alloc f x) S = None"
    by (simp add: find_None_iff is_allocator_def)
  then show ?thesis by (simp add: local_compose_def select_feature_flags_def off_fmt_def remove_first_of_if_none)
qed

end
