(* ===== verification/Sys_Socket.thy ===== *)
theory Sys_Socket
  imports Net_Connect Sys_Sockaddr Feature_Flags
begin

text \<open>
  Sockets of the system layer: the traits a list of flags stands for (\<^verbatim>\<open>include/xsl/sys/net/def.h\<close>), the operations on
  a socket (\<^verbatim>\<open>include/xsl/sys/net/socket.h\<close>), the functions that create bound, listening and connected sockets
  (\<^verbatim>\<open>include/xsl/sys/net.h\<close>), and the request to the resolver (\<^verbatim>\<open>include/xsl/sys/net/gai.h\<close>).  The kernel is a table of
  open sockets with a script of error numbers, one for each system call.  The theorem shows that creating a
  listener gives a completely configured socket or leaves the table as it was; the counterexamples show which
  flags are ignored and how a service number is cut.
\<close>

section \<open>Traits\<close>

text \<open>The flags of \<^verbatim>\<open>feature.h\<close> and the traits derived from them.\<close>

datatype sty =
    Tcp | Udp | Ip | TcpIp | UdpIp | Ipv4 | Ipv6 | TcpIpv4 | TcpIpv6 | UdpIpv4 | UdpIpv6
  | AnySocketTraits | TcpIpv4SocketTraits | TcpIpv6SocketTraits | TcpIpSocketTraits
  | UdpIpv4SocketTraits | UdpIpv6SocketTraits | UdpIpSocketTraits

fun bases :: "sty \<Rightarrow> sty list" where
  "bases TcpIp = [Tcp, Ip]"
| "bases UdpIp = [Udp, Ip]"
| "bases Ipv4 = [Ip]"
| "bases Ipv6 = [Ip]"
| "bases TcpIpv4 = [TcpIp]"
| "bases TcpIpv6 = [TcpIp]"
| "bases UdpIpv4 = [UdpIp]"
| "bases UdpIpv6 = [UdpIp]"
| "bases TcpIpv4SocketTraits = [TcpIpv4]"
| "bases TcpIpv6SocketTraits = [TcpIpv6]"
| "bases TcpIpSocketTraits = [TcpIp]"
| "bases UdpIpv4SocketTraits = [UdpIpv4]"
| "bases UdpIpv6SocketTraits = [UdpIpv6]"
| "bases UdpIpSocketTraits = [UdpIp]"
| "bases _ = []"

text \<open>The class hierarchy is three deep below the most derived traits.\<close>

fun ancestors :: "nat \<Rightarrow> sty \<Rightarrow> sty list" where
  "ancestors 0 t = [t]"
| "ancestors (Suc n) t = t # concat (map (ancestors n) (bases t))"

definition is_base_of :: "sty \<Rightarrow> sty \<Rightarrow> bool" where
  "is_base_of b d \<longleftrightarrow> b \<in> set (ancestors 3 d)"

definition special_merges :: "((sty \<times> sty) \<times> sty) list" where
  "special_merges =
     [((Tcp, Ip), TcpIpSocketTraits), ((Udp, Ip), UdpIpSocketTraits),
      ((TcpIp, Ipv4), TcpIpv4SocketTraits), ((TcpIp, Ipv6), TcpIpv6SocketTraits),
      ((UdpIp, Ipv4), UdpIpv4SocketTraits), ((UdpIp, Ipv6), UdpIpv6SocketTraits),
      ((Tcp, Ipv4), TcpIpv4SocketTraits), ((Tcp, Ipv6), TcpIpv6SocketTraits),
      ((Udp, Ipv4), UdpIpv4SocketTraits), ((Udp, Ipv6), UdpIpv6SocketTraits),
      ((AnySocketTraits, AnySocketTraits), AnySocketTraits),
      ((AnySocketTraits, Tcp), TcpIpSocketTraits), ((AnySocketTraits, Udp), UdpIpSocketTraits),
      ((AnySocketTraits, Ipv4), TcpIpv4SocketTraits), ((AnySocketTraits, Ipv6), TcpIpv6SocketTraits),
      ((AnySocketTraits, TcpIp), TcpIpSocketTraits), ((AnySocketTraits, UdpIp), UdpIpSocketTraits),
      ((AnySocketTraits, TcpIpv4), TcpIpv4SocketTraits), ((AnySocketTraits, TcpIpv6), TcpIpv6SocketTraits),
      ((AnySocketTraits, UdpIpv4), UdpIpv4SocketTraits), ((AnySocketTraits, UdpIpv6), UdpIpv6SocketTraits)]"

text \<open>The specialisations for given types come first, then those for patterns, then the primary template.\<close>

definition SocketMerge :: "sty \<Rightarrow> sty \<Rightarrow> sty" where
  "SocketMerge t u =
     (case map_of special_merges (t, u) of
        Some r \<Rightarrow> r
      | None \<Rightarrow> if t = AnySocketTraits then u else if t = u then t
                else if is_base_of t u then u else if is_base_of u t then t else t)"

definition SocketTraits :: "sty list \<Rightarrow> sty" where
  "SocketTraits fs = merge SocketMerge AnySocketTraits fs"

text \<open>The constants traits give statically: family, type and protocol; no traits for a bare flag.\<close>

record traits =
  t_family :: "nat option"
  t_type :: "nat option"
  t_protocol :: "nat option"

definition SOCK_STREAM :: nat where "SOCK_STREAM = 1"
definition SOCK_DGRAM :: nat where "SOCK_DGRAM = 2"
definition IPPROTO_TCP :: nat where "IPPROTO_TCP = 6"
definition IPPROTO_UDP :: nat where "IPPROTO_UDP = 17"

definition tcp_traits :: "nat option \<Rightarrow> traits" where
  "tcp_traits f = \<lparr>t_family = f, t_type = Some SOCK_STREAM, t_protocol = Some IPPROTO_TCP\<rparr>"

definition udp_traits :: "nat option \<Rightarrow> traits" where
  "udp_traits f = \<lparr>t_family = f, t_type = Some SOCK_DGRAM, t_protocol = Some IPPROTO_UDP\<rparr>"

fun traits_of :: "sty \<Rightarrow> traits option" where
  "traits_of AnySocketTraits = Some \<lparr>t_family = None, t_type = None, t_protocol = None\<rparr>"
| "traits_of TcpIpv4SocketTraits = Some (tcp_traits (Some AF_INET))"
| "traits_of TcpIpv6SocketTraits = Some (tcp_traits (Some AF_INET6))"
| "traits_of TcpIpSocketTraits = Some (tcp_traits None)"
| "traits_of UdpIpv4SocketTraits = Some (udp_traits (Some AF_INET))"
| "traits_of UdpIpv6SocketTraits = Some (udp_traits (Some AF_INET6))"
| "traits_of UdpIpSocketTraits = Some (udp_traits None)"
| "traits_of _ = None"

definition is_connection_based :: "traits \<Rightarrow> bool" where
  "is_connection_based t \<longleftrightarrow> t_type t = Some SOCK_STREAM"

definition is_tcp :: "traits \<Rightarrow> bool" where
  "is_tcp t \<longleftrightarrow> t_protocol t = Some IPPROTO_TCP"

definition traits_compatible :: "traits \<Rightarrow> traits \<Rightarrow> bool" where
  "traits_compatible up down \<longleftrightarrow>
     (t_family down = None \<or> t_family down = t_family up) \<and>
     (t_type down = None \<or> t_type down = t_type up) \<and>
     (t_protocol down = None \<or> t_protocol down = t_protocol up)"

section \<open>Sockets\<close>

text \<open>An open socket and the table; a system call takes the next error number of the script, 0 when it succeeds.\<close>

record 'a ksock =
  ks_reuse_addr :: bool
  ks_reuse_port :: bool
  ks_nodelay :: bool
  ks_bound :: "'a option"
  ks_listening :: "nat option"
  ks_peer :: "'a option"

record 'a kernel =
  k_socks :: "nat \<Rightarrow> 'a ksock option"
  k_next :: nat
  k_errs :: "code list"

definition fresh_sock :: "'a ksock" where
  "fresh_sock = \<lparr>ks_reuse_addr = False, ks_reuse_port = False, ks_nodelay = False, ks_bound = None, ks_listening = None, ks_peer = None\<rparr>"

definition syscall :: "'a kernel \<Rightarrow> code \<times> 'a kernel" where
  "syscall k = (case k_errs k of [] \<Rightarrow> (0, k) | e # es \<Rightarrow> (e, k\<lparr>k_errs := es\<rparr>))"

definition upd_sock :: "nat \<Rightarrow> ('a ksock \<Rightarrow> 'a ksock) \<Rightarrow> 'a kernel \<Rightarrow> 'a kernel" where
  "upd_sock fd f k = k\<lparr>k_socks := (k_socks k)(fd := map_option f (k_socks k fd))\<rparr>"

definition close_fd :: "nat \<Rightarrow> 'a kernel \<Rightarrow> 'a kernel" where
  "close_fd fd k = k\<lparr>k_socks := (k_socks k)(fd := None)\<rparr>"

text \<open>A call on a socket: on success the socket changes.\<close>

definition sock_call :: "nat \<Rightarrow> ('a ksock \<Rightarrow> 'a ksock) \<Rightarrow> 'a kernel \<Rightarrow> (code + unit) \<times> 'a kernel" where
  "sock_call fd f k =
     (let (e, k1) = syscall k in case ensec_bool e (e = 0) of Some c \<Rightarrow> (Inl c, k1) | None \<Rightarrow> (Inr (), upd_sock fd f k1))"

definition sys_socket :: "'a kernel \<Rightarrow> (code + nat) \<times> 'a kernel" where
  "sys_socket k =
     (let (e, k1) = syscall k in case ensec_bool e (e = 0) of
        Some c \<Rightarrow> (Inl c, k1)
      | None \<Rightarrow> (Inr (k_next k1), k1\<lparr>k_socks := (k_socks k1)(k_next k1 := Some fresh_sock), k_next := Suc (k_next k1)\<rparr>))"

definition reuse_addr :: "nat \<Rightarrow> bool \<Rightarrow> 'a kernel \<Rightarrow> (code + unit) \<times> 'a kernel" where
  "reuse_addr fd on k = sock_call fd (\<lambda>s. s\<lparr>ks_reuse_addr := on\<rparr>) k"

definition reuse_port :: "nat \<Rightarrow> bool \<Rightarrow> 'a kernel \<Rightarrow> (code + unit) \<times> 'a kernel" where
  "reuse_port fd on k = sock_call fd (\<lambda>s. s\<lparr>ks_reuse_port := on\<rparr>) k"

definition no_delay :: "traits \<Rightarrow> nat \<Rightarrow> bool \<Rightarrow> 'a kernel \<Rightarrow> (code + unit) \<times> 'a kernel" where
  "no_delay t fd on k = (if is_tcp t then sock_call fd (\<lambda>s. s\<lparr>ks_nodelay := on\<rparr>) k else (Inr (), k))"

definition sock_bind :: "nat \<Rightarrow> 'a \<Rightarrow> 'a kernel \<Rightarrow> (code + unit) \<times> 'a kernel" where
  "sock_bind fd a k = sock_call fd (\<lambda>s. s\<lparr>ks_bound := Some a\<rparr>) k"

definition sock_listen :: "nat \<Rightarrow> nat \<Rightarrow> 'a kernel \<Rightarrow> (code + unit) \<times> 'a kernel" where
  "sock_listen fd n k = sock_call fd (\<lambda>s. s\<lparr>ks_listening := Some n\<rparr>) k"

text \<open>\<^verbatim>\<open>connect\<close> repeats the call while it is interrupted.\<close>

definition sock_connect :: "nat \<Rightarrow> 'a \<Rightarrow> 'a kernel \<Rightarrow> (code + unit) \<times> 'a kernel" where
  "sock_connect fd a k = sock_call fd (\<lambda>s. s\<lparr>ks_peer := Some a\<rparr>) (k\<lparr>k_errs := dropWhile (\<lambda>e. e = EINTR) (k_errs k)\<rparr>)"

definition sock_accept :: "'a kernel \<Rightarrow> (code + nat) \<times> 'a kernel" where
  "sock_accept k = sys_socket k"

section \<open>Creating sockets\<close>

text \<open>\<^verbatim>\<open>b\<close>, \<^verbatim>\<open>cb\<close>, \<^verbatim>\<open>l\<close>, \<^verbatim>\<open>cl\<close> of \<^verbatim>\<open>TcpIpSocketCreator\<close>, \<^verbatim>\<open>c\<close> and \<^verbatim>\<open>c2\<close> of \<^verbatim>\<open>UdpIpSocketCreator\<close>.  Sequencing with \<^verbatim>\<open>ENSEC\<close> stops at
  the first error; a socket that was created is closed when its owner goes out of scope.\<close>

definition and_then :: "(code + unit) \<times> 'a kernel \<Rightarrow> ('a kernel \<Rightarrow> (code + unit) \<times> 'a kernel) \<Rightarrow> (code + unit) \<times> 'a kernel" where
  "and_then r f = (case ensec_exp (fst r) of Some c \<Rightarrow> (Inl c, snd r) | None \<Rightarrow> f (snd r))"

definition with_socket :: "(nat \<Rightarrow> 'a kernel \<Rightarrow> (code + unit) \<times> 'a kernel) \<Rightarrow> 'a kernel \<Rightarrow> (code + nat) \<times> 'a kernel" where
  "with_socket f k =
     (case sys_socket k of
        (Inl c, k1) \<Rightarrow> (Inl c, k1)
      | (Inr fd, k1) \<Rightarrow> (let (r, k2) = f fd k1 in case ensec_exp r of Some c \<Rightarrow> (Inl c, close_fd fd k2) | None \<Rightarrow> (Inr fd, k2)))"

definition tcp_b :: "nat \<Rightarrow> 'a \<Rightarrow> 'a kernel \<Rightarrow> (code + unit) \<times> 'a kernel" where
  "tcp_b fd a k = and_then (and_then (reuse_addr fd True k) (reuse_port fd True)) (sock_bind fd a)"

definition tcp_cb :: "'a \<Rightarrow> 'a kernel \<Rightarrow> (code + nat) \<times> 'a kernel" where
  "tcp_cb a k = with_socket (\<lambda>fd. tcp_b fd a) k"

definition tcp_l :: "nat \<Rightarrow> 'a \<Rightarrow> 'a kernel \<Rightarrow> (code + unit) \<times> 'a kernel" where
  "tcp_l fd a k = and_then (tcp_b fd a k) (sock_listen fd 128)"

definition tcp_cl :: "'a \<Rightarrow> 'a kernel \<Rightarrow> (code + nat) \<times> 'a kernel" where
  "tcp_cl a k = with_socket (\<lambda>fd. tcp_l fd a) k"

text \<open>The overloads that build the address first.\<close>

definition tcp_cl_text :: "code + 'a \<Rightarrow> 'a kernel \<Rightarrow> (code + nat) \<times> 'a kernel" where
  "tcp_cl_text addr k = (case addr of Inl e \<Rightarrow> (Inl e, k) | Inr a \<Rightarrow> tcp_cl a k)"

definition tcp_cb_text :: "code + 'a \<Rightarrow> 'a kernel \<Rightarrow> (code + nat) \<times> 'a kernel" where
  "tcp_cb_text addr k = (case addr of Inl e \<Rightarrow> (Inl e, k) | Inr a \<Rightarrow> tcp_cb a k)"

definition udp_c :: "code + 'a \<Rightarrow> 'a kernel \<Rightarrow> (code + nat) \<times> 'a kernel" where
  "udp_c addr k =
     (case addr of Inl e \<Rightarrow> (Inl e, k)
      | Inr a \<Rightarrow> with_socket (\<lambda>fd k1. and_then (reuse_addr fd True k1) (sock_bind fd a)) k)"

definition udp_c2 :: "code + 'a \<Rightarrow> 'a kernel \<Rightarrow> (code + nat) \<times> 'a kernel" where
  "udp_c2 addr k = (case addr of Inl e \<Rightarrow> (Inl e, k) | Inr a \<Rightarrow> with_socket (\<lambda>fd. sock_connect fd a) k)"

section \<open>Resolving\<close>

record hints =
  h_flags :: nat
  h_family :: nat
  h_type :: nat
  h_protocol :: nat

definition AI_PASSIVE :: nat where "AI_PASSIVE = 1"
definition AI_ADDRCONFIG :: nat where "AI_ADDRCONFIG = 32"

text \<open>\<^verbatim>\<open>ResolveFlag\<close> by name, and the flags for servers and clients.\<close>

definition resolve_flag :: "string \<Rightarrow> nat option" where
  "resolve_flag name = map_of [(''ZERO'', 0), (''V4MAPPED'', 8), (''ALL'', 16), (''ADDRCONFIG'', AI_ADDRCONFIG), (''CANONNAME'', 2),
     (''NUMERICHOST'', 4), (''NUMERICSERV'', 1024), (''PASSIVE'', AI_PASSIVE)] name"

definition flag_or :: "nat \<Rightarrow> nat \<Rightarrow> nat" where
  "flag_or a b = Bit_Operations.or a b"

definition SERVER_FLAGS :: nat where "SERVER_FLAGS = flag_or AI_ADDRCONFIG AI_PASSIVE"
definition CLIENT_FLAGS :: nat where "CLIENT_FLAGS = AI_ADDRCONFIG"

definition resolve_hints :: "traits \<Rightarrow> nat \<Rightarrow> hints" where
  "resolve_hints t flags =
     \<lparr>h_flags = flags, h_family = (case t_family t of Some f \<Rightarrow> f | None \<Rightarrow> 0),
      h_type = (case t_type t of Some x \<Rightarrow> x | None \<Rightarrow> 0), h_protocol = (case t_protocol t of Some p \<Rightarrow> p | None \<Rightarrow> 0)\<rparr>"

text \<open>The resolver of the system gives an error number, 0 for none, and the list of addresses.\<close>

definition resolve :: "(string option \<Rightarrow> string \<Rightarrow> hints \<Rightarrow> int \<times> 'a list) \<Rightarrow> traits \<Rightarrow> string option \<Rightarrow> string \<Rightarrow> nat \<Rightarrow> int + 'a list" where
  "resolve gai t name serv flags =
     (let (ec, res) = gai name serv (resolve_hints t flags) in if ec \<noteq> 0 then Inl ec else Inr res)"

text \<open>\<^verbatim>\<open>snprintf\<close> into a buffer of six characters keeps five.\<close>

definition int_text :: "int \<Rightarrow> string" where
  "int_text n = (if n < 0 then CHR ''-'' # dec_digits (nat (- n)) else dec_digits (nat n))"

definition serv_str :: "int \<Rightarrow> string" where
  "serv_str n = take 5 (int_text n)"

definition getaddrinfo_int :: "(string option \<Rightarrow> string \<Rightarrow> hints \<Rightarrow> int \<times> 'a list) \<Rightarrow> sty list \<Rightarrow> string \<Rightarrow> int \<Rightarrow> nat \<Rightarrow> (int + 'a list) option" where
  "getaddrinfo_int gai fs name serv flags = map_option (\<lambda>t. resolve gai t (Some name) (serv_str serv) flags) (traits_of (SocketTraits fs))"

definition getaddrinfo_name :: "(string option \<Rightarrow> string \<Rightarrow> hints \<Rightarrow> int \<times> 'a list) \<Rightarrow> sty list \<Rightarrow> string \<Rightarrow> string \<Rightarrow> nat \<Rightarrow> (int + 'a list) option" where
  "getaddrinfo_name gai fs name serv flags = map_option (\<lambda>t. resolve gai t (Some name) serv flags) (traits_of (SocketTraits fs))"

definition getaddrinfo_port :: "(string option \<Rightarrow> string \<Rightarrow> hints \<Rightarrow> int \<times> 'a list) \<Rightarrow> sty list \<Rightarrow> 16 word \<Rightarrow> nat \<Rightarrow> (int + 'a list) option" where
  "getaddrinfo_port gai fs p flags = map_option (\<lambda>t. resolve gai t None (serv_str (uint p)) flags) (traits_of (SocketTraits fs))"

definition getaddrinfo_serv :: "(string option \<Rightarrow> string \<Rightarrow> hints \<Rightarrow> int \<times> 'a list) \<Rightarrow> sty list \<Rightarrow> string \<Rightarrow> nat \<Rightarrow> (int + 'a list) option" where
  "getaddrinfo_serv gai fs serv flags = map_option (\<lambda>t. resolve gai t None serv flags) (traits_of (SocketTraits fs))"

section \<open>Flags\<close>

lemma bases_rank: "set (ancestors (Suc 3) t) = set (ancestors 3 t)"
  by (cases t) (simp_all add: numeral_3_eq_3)

text \<open>Once traits are chosen, no further flag changes them.\<close>

lemma traits_absorb: "traits_of t \<noteq> None \<Longrightarrow> t \<noteq> AnySocketTraits \<Longrightarrow> SocketMerge t u = t"
  by (cases t; cases u) (simp_all add: SocketMerge_def special_merges_def is_base_of_def numeral_3_eq_3)

lemma merge_absorb: "traits_of t \<noteq> None \<Longrightarrow> t \<noteq> AnySocketTraits \<Longrightarrow> merge SocketMerge t fs = t"
  by (induction fs) (simp_all add: traits_absorb)

lemma first_flag_traits: "f \<noteq> AnySocketTraits \<Longrightarrow> f \<noteq> Ip \<Longrightarrow>
    traits_of (SocketMerge AnySocketTraits f) \<noteq> None \<and> SocketMerge AnySocketTraits f \<noteq> AnySocketTraits"
  by (cases f) (simp_all add: SocketMerge_def special_merges_def)

text \<open>The first flag decides: what follows it in the list is ignored.\<close>

lemma first_flag_decides:
  assumes "f \<noteq> AnySocketTraits" "f \<noteq> Ip"
  shows "SocketTraits (f # fs) = SocketTraits [f]"
  using merge_absorb [of "SocketMerge AnySocketTraits f"] first_flag_traits [OF assms] by (simp add: SocketTraits_def)

lemma tcp_ipv4_has_no_family: "traits_of (SocketTraits [Tcp, Ipv4]) = Some (tcp_traits None)"
  by (simp add: SocketTraits_def SocketMerge_def special_merges_def is_base_of_def numeral_3_eq_3)

lemma ipv4_udp_is_tcp: "traits_of (SocketTraits [Ipv4, Udp]) = Some (tcp_traits (Some AF_INET))"
  by (simp add: SocketTraits_def SocketMerge_def special_merges_def is_base_of_def numeral_3_eq_3)

lemma traits_compatible_trans: "traits_compatible a b \<Longrightarrow> traits_compatible b c \<Longrightarrow> traits_compatible a c"
  by (auto simp: traits_compatible_def)

section \<open>Creation\<close>

text \<open>A list of calls on one socket, in order, up to the first error.\<close>

fun run_calls :: "nat \<Rightarrow> ('a ksock \<Rightarrow> 'a ksock) list \<Rightarrow> 'a kernel \<Rightarrow> (code + unit) \<times> 'a kernel" where
  "run_calls fd [] k = (Inr (), k)"
| "run_calls fd (f # fs) k = and_then (sock_call fd f k) (run_calls fd fs)"

lemma and_then_assoc: "and_then (and_then r f) g = and_then r (\<lambda>k. and_then (f k) g)"
  by (auto simp: and_then_def ensec_exp_def split: sum.splits)

lemma and_then_unit [simp]: "and_then r (\<lambda>k. (Inr (), k)) = r"
  by (cases r) (auto simp: and_then_def ensec_exp_def split: sum.splits)

definition first_error :: "code list \<Rightarrow> code option" where
  "first_error es = find (\<lambda>e. e \<noteq> 0) es"

lemma first_error_nonzero: "first_error es = Some e \<Longrightarrow> e \<noteq> 0"
  using find_holds [of "\<lambda>e. e \<noteq> 0" es e] by (simp add: first_error_def)

lemma sock_call_result:
  "sock_call fd f k =
     (case k_errs k of
        [] \<Rightarrow> (Inr (), upd_sock fd f k)
      | e # es \<Rightarrow> if e \<noteq> 0 then (Inl e, k\<lparr>k_errs := es\<rparr>) else (Inr (), upd_sock fd f (k\<lparr>k_errs := es\<rparr>)))"
  by (simp add: sock_call_def syscall_def ensec_bool_def split: list.splits)

lemma run_calls_first_error:
  "fst (run_calls fd fs k) = (case first_error (take (length fs) (k_errs k)) of Some e \<Rightarrow> Inl e | None \<Rightarrow> Inr ())"
proof (induction fs arbitrary: k)
  case (Cons f fs)
  show ?case
    by (cases "k_errs k") (simp_all add: sock_call_result and_then_def ensec_exp_def upd_sock_def Cons.IH first_error_def)
qed (simp add: first_error_def)

lemma run_calls_updates:
  "fst (run_calls fd fs k) = Inr () \<Longrightarrow>
     k_socks (snd (run_calls fd fs k)) = (k_socks k)(fd := map_option (fold (\<lambda>f. f) fs) (k_socks k fd))"
proof (induction fs arbitrary: k)
  case (Cons f fs)
  show ?case using Cons.prems
    by (cases "k_errs k")
       (auto simp: sock_call_result and_then_def ensec_exp_def upd_sock_def Cons.IH option.map_comp comp_def split: if_splits)
qed (simp add: option.map_id0 fun_upd_idem)

lemma run_calls_frame: "x \<noteq> fd \<Longrightarrow> k_socks (snd (run_calls fd fs k)) x = k_socks k x"
proof (induction fs arbitrary: k)
  case (Cons f fs)
  then show ?case
    by (cases "k_errs k") (simp_all add: sock_call_result and_then_def ensec_exp_def upd_sock_def)
qed simp

text \<open>A socket that is created and configured by a list of calls.\<close>

lemma with_socket_spec:
  assumes "with_socket (\<lambda>fd. run_calls fd fs) k = (r, k')" "k_socks k (k_next k) = None"
  shows "r = (case first_error (take (Suc (length fs)) (k_errs k)) of Some e \<Rightarrow> Inl e | None \<Rightarrow> Inr (k_next k)) \<and>
    k_socks k' = (case r of Inl _ \<Rightarrow> k_socks k | Inr fd \<Rightarrow> (k_socks k)(fd \<mapsto> fold (\<lambda>f. f) fs fresh_sock))"
proof -
  let ?k1 = "k\<lparr>k_errs := tl (k_errs k), k_socks := (k_socks k)(k_next k := Some fresh_sock), k_next := Suc (k_next k)\<rparr>"
  show ?thesis
  proof (cases "k_errs k \<noteq> [] \<and> hd (k_errs k) \<noteq> 0")
    case True
    then show ?thesis using assms
      by (cases "k_errs k") (auto simp: with_socket_def sys_socket_def syscall_def ensec_bool_def first_error_def)
  next
    case False
    then have s: "sys_socket k = (Inr (k_next k), ?k1)"
      by (cases "k_errs k") (auto simp: sys_socket_def syscall_def ensec_bool_def)
    have e: "first_error (take (Suc (length fs)) (k_errs k)) = first_error (take (length fs) (tl (k_errs k)))"
      using False by (cases "k_errs k") (auto simp: first_error_def)
    show ?thesis
    proof (cases "first_error (take (length fs) (tl (k_errs k)))")
      case None
      then have f: "fst (run_calls (k_next k) fs ?k1) = Inr ()" by (simp add: run_calls_first_error)
      then show ?thesis using assms(1) None s e run_calls_updates [OF f]
        by (auto simp: with_socket_def split_beta ensec_exp_def)
    next
      case (Some c)
      then have f: "fst (run_calls (k_next k) fs ?k1) = Inl c" by (simp add: run_calls_first_error)
      have "(k_socks (snd (run_calls (k_next k) fs ?k1)))(k_next k := None) = k_socks k"
        using run_calls_frame [of _ "k_next k" fs ?k1] assms(2) by (auto simp: fun_eq_iff)
      then show ?thesis using assms(1) Some s e f by (auto simp: with_socket_def split_beta ensec_exp_def close_fd_def)
    qed
  qed
qed

definition listener_calls :: "'a \<Rightarrow> ('a ksock \<Rightarrow> 'a ksock) list" where
  "listener_calls a = [\<lambda>s. s\<lparr>ks_reuse_addr := True\<rparr>, \<lambda>s. s\<lparr>ks_reuse_port := True\<rparr>, \<lambda>s. s\<lparr>ks_bound := Some a\<rparr>,
     \<lambda>s. s\<lparr>ks_listening := Some 128\<rparr>]"

lemma calls_fun:
  "reuse_addr fd on = sock_call fd (\<lambda>s. s\<lparr>ks_reuse_addr := on\<rparr>)" "reuse_port fd on = sock_call fd (\<lambda>s. s\<lparr>ks_reuse_port := on\<rparr>)"
  "sock_bind fd a = sock_call fd (\<lambda>s. s\<lparr>ks_bound := Some a\<rparr>)" "sock_listen fd n = sock_call fd (\<lambda>s. s\<lparr>ks_listening := Some n\<rparr>)"
  by (rule ext, simp add: reuse_addr_def reuse_port_def sock_bind_def sock_listen_def)+

lemma run_calls_fun:
  "run_calls fd [f] = sock_call fd f" "run_calls fd (f # g # fs) = (\<lambda>k. and_then (sock_call fd f k) (run_calls fd (g # fs)))"
  by (rule ext, simp add: run_calls.simps(1) [abs_def])+

lemma tcp_l_calls: "tcp_l fd a = run_calls fd (listener_calls a)"
  by (rule ext) (simp add: tcp_l_def tcp_b_def listener_calls_def calls_fun run_calls_fun and_then_assoc del: run_calls.simps)

lemma tcp_b_calls: "tcp_b fd a = run_calls fd (take 3 (listener_calls a))"
  by (rule ext) (simp add: tcp_b_def listener_calls_def calls_fun run_calls_fun and_then_assoc del: run_calls.simps)

lemma tcp_cl_calls: "tcp_cl a = with_socket (\<lambda>fd. run_calls fd (listener_calls a))"
  by (rule ext) (simp add: tcp_cl_def tcp_l_calls)

text \<open>A socket that is only bound obeys the same rule with one call less.\<close>

lemma tcp_cb_all_or_nothing:
  assumes "tcp_cb a k = (r, k')" "k_socks k (k_next k) = None"
  shows "r = (case first_error (take 4 (k_errs k)) of Some e \<Rightarrow> Inl e | None \<Rightarrow> Inr (k_next k)) \<and>
    (\<forall>c. r = Inl c \<longrightarrow> k_socks k' = k_socks k)"
  using with_socket_spec [OF _ assms(2), of "take 3 (listener_calls a)"] assms(1)
  by (simp add: tcp_cb_def tcp_b_calls listener_calls_def eval_nat_numeral)

text \<open>C19. Creating a listening socket reports the first error of its system calls, in the order socket, address reuse,
  port reuse, bind, listen, and then no socket is left open; without an error it returns a socket that is bound to the
  given address, listens with a backlog of 128 and shares its address and port, and no other socket has
  changed.\<close>

theorem listener_complete_or_absent:
  assumes "tcp_cl a k = (r, k')" "k_socks k (k_next k) = None"
  shows "r = (case first_error (take 5 (k_errs k)) of Some e \<Rightarrow> Inl e | None \<Rightarrow> Inr (k_next k)) \<and>
    k_socks k' = (case r of Inl _ \<Rightarrow> k_socks k
      | Inr fd \<Rightarrow> (k_socks k)(fd \<mapsto> \<lparr>ks_reuse_addr = True, ks_reuse_port = True, ks_nodelay = False, ks_bound = Some a,
                     ks_listening = Some 128, ks_peer = None\<rparr>))"
  using with_socket_spec [OF assms(1) [unfolded tcp_cl_calls] assms(2)]
  by (simp add: listener_calls_def fresh_sock_def eval_nat_numeral split: sum.splits)

theorem listener_complete_or_absent_witness:
  "let k = \<lparr>k_socks = \<lambda>_. None, k_next = 3, k_errs = [0, 0, 0, 98]\<rparr>; (r, k') = tcp_cl ''addr'' k
   in r = Inl 98 \<and> k_socks k' 3 = None"
proof -
  let ?k = "\<lparr>k_socks = \<lambda>_. None, k_next = 3, k_errs = [0, 0, 0, 98]\<rparr> :: string kernel"
  obtain r k' where c: "tcp_cl ''addr'' ?k = (r, k')" by (cases "tcp_cl ''addr'' ?k")
  have "first_error (take 5 (k_errs ?k)) = Some 98" by (simp add: first_error_def)
  then show ?thesis using listener_complete_or_absent [OF c] c by simp
qed

text \<open>A datagram socket that cannot be bound is closed as well.\<close>

lemma udp_c_all_or_nothing:
  assumes "udp_c (Inr a) k = (r, k')" "k_socks k (k_next k) = None"
  shows "r = (case first_error (take 3 (k_errs k)) of Some e \<Rightarrow> Inl e | None \<Rightarrow> Inr (k_next k)) \<and>
    (\<forall>c. r = Inl c \<longrightarrow> k_socks k' = k_socks k)"
proof -
  have "udp_c (Inr a) = with_socket (\<lambda>fd. run_calls fd [\<lambda>s. s\<lparr>ks_reuse_addr := True\<rparr>, \<lambda>s. s\<lparr>ks_bound := Some a\<rparr>])"
    by (rule ext) (simp add: udp_c_def calls_fun run_calls_fun del: run_calls.simps)
  then show ?thesis using with_socket_spec [of "[\<lambda>s. s\<lparr>ks_reuse_addr := True\<rparr>, \<lambda>s. s\<lparr>ks_bound := Some a\<rparr>]" k r k'] assms
    by (simp add: eval_nat_numeral)
qed

section \<open>Service numbers\<close>

lemma port_text_complete: "serv_str (uint (p :: 16 word)) = dec_digits (unat p)"
proof -
  have "unat p < 2 ^ 16" using unsigned_less [of p] by simp
  then have "unat p < 10 ^ Suc 4" by simp
  then have "length (dec_digits (unat p)) \<le> 5" using dec_digits_length [of "unat p" 4] by simp
  then show ?thesis by (simp add: serv_str_def int_text_def)
qed

text \<open>An \<^verbatim>\<open>int\<close> service number of more than five digits is cut, and names another port.\<close>

lemma long_service_cut: "serv_str 654321 = serv_str 65432"
  by (simp add: serv_str_def int_text_def dec_digits.simps)

end
