(* ===== verification/Poller_Group.thy ===== *)
theory Poller_Group
  imports Io_Context Net_Connect
begin

text \<open>
  Several pollers side by side (\<^verbatim>\<open>include/xsl/asio/poller_group.h\<close>, \<^verbatim>\<open>asio_ctx\<close> of \<^verbatim>\<open>include/xsl/asio/def.h\<close>): contexts of
  theory \<^verbatim>\<open>Io_Context\<close>, each run by a thread of its own. The thread of a poller tests whether its context is
  valid, waits in \<^verbatim>\<open>epoll_pwait\<close>, which returns with events or after a timeout of 100 milliseconds, and handles the
  events; a step is one of these, or an operation on a context from elsewhere.  The coroutines are those the group starts,
  in the contexts of its pollers.  The theorem shows that stopping the group resumes everybody who waits, closes every
  context, and lets all threads be joined.
\<close>

section \<open>The group\<close>

text \<open>A thread is about to test the condition of its loop, waits in \<^verbatim>\<open>epoll_pwait\<close>, has returned or was joined.\<close>

datatype thread = Testing | Polling | Returned | Joined

record 'h group =
  pg_n :: nat
  pg_ctxs :: "'h io_sys list"
  pg_threads :: "thread list"
  pg_joined :: bool

definition pg_new :: "nat \<Rightarrow> 'h group" where
  "pg_new n = \<lparr>pg_n = n, pg_ctxs = [], pg_threads = [], pg_joined = False\<rparr>"

text \<open>\<^verbatim>\<open>IOContext::create\<close> judges the descriptor that \<^verbatim>\<open>epoll_create1\<close> returned, together with \<^verbatim>\<open>errno\<close>, by \<^verbatim>\<open>!fd\<close>: only 0
  counts as a failure, and -1 gives a context that is not valid.\<close>

definition io_create :: "int \<times> code \<Rightarrow> code + 'h io_sys" where
  "io_create r = (if fst r = 0 then Inl (snd r) else Inr (io_context_new\<lparr>ic_open := fst r \<noteq> -1\<rparr>))"

definition asio_ctx :: "int \<times> code \<Rightarrow> code + 'h io_sys" where
  "asio_ctx r = (case io_create r of Inl e \<Rightarrow> Inl e | Inr c \<Rightarrow> Inr c)"

text \<open>\<^verbatim>\<open>start\<close>: the setup task of a poller runs up to its first await on the calling thread, which is a list of
  operations on its context; then the thread starts.\<close>

fun start_loop :: "(nat \<Rightarrow> int \<times> code) \<Rightarrow> (nat \<Rightarrow> 'h io_op list) \<Rightarrow> nat \<Rightarrow> nat \<Rightarrow> 'h group \<Rightarrow> code option \<times> 'h group" where
  "start_loop create setup i 0 g = (None, g)"
| "start_loop create setup i (Suc m) g =
     (case asio_ctx (create i) of
        Inl e \<Rightarrow> (Some e, g)
      | Inr c \<Rightarrow> start_loop create setup (Suc i) m
          (g\<lparr>pg_ctxs := pg_ctxs g @ [fold io_exec (setup i) c], pg_threads := pg_threads g @ [Testing]\<rparr>))"

definition pg_start :: "(nat \<Rightarrow> int \<times> code) \<Rightarrow> (nat \<Rightarrow> 'h io_op list) \<Rightarrow> 'h group \<Rightarrow> code option \<times> 'h group" where
  "pg_start create setup g = start_loop create setup 0 (pg_n g) g"

definition pg_stop :: "'h group \<Rightarrow> 'h list \<times> 'h group" where
  "pg_stop g = (concat (map (fst \<circ> ic_shutdown) (pg_ctxs g)), g\<lparr>pg_ctxs := map (snd \<circ> ic_shutdown) (pg_ctxs g)\<rparr>)"

text \<open>\<^verbatim>\<open>join\<close> blocks, \<^term>\<open>None\<close>, while a thread is running.\<close>

definition running :: "thread \<Rightarrow> bool" where
  "running t \<longleftrightarrow> t = Testing \<or> t = Polling"

definition pg_join :: "'h group \<Rightarrow> 'h group option" where
  "pg_join g =
     (if pg_joined g then Some g
      else if list_ex running (pg_threads g) then None
      else Some (g\<lparr>pg_threads := map (\<lambda>_. Joined) (pg_threads g), pg_joined := True\<rparr>))"

definition pg_destroy :: "'h group \<Rightarrow> 'h group option" where
  "pg_destroy g = pg_join (snd (pg_stop g))"

definition pg_size :: "'h group \<Rightarrow> nat" where "pg_size g = length (pg_ctxs g)"

definition set_ctx :: "nat \<Rightarrow> 'h io_sys \<Rightarrow> 'h group \<Rightarrow> 'h group" where
  "set_ctx i c g = g\<lparr>pg_ctxs := (pg_ctxs g)[i := c]\<rparr>"

definition set_thread :: "nat \<Rightarrow> thread \<Rightarrow> 'h group \<Rightarrow> 'h group" where
  "set_thread i t g = g\<lparr>pg_threads := (pg_threads g)[i := t]\<rparr>"

text \<open>The loop of a poller: the test of \<^verbatim>\<open>valid\<close>, and the return of \<^verbatim>\<open>epoll_pwait\<close> with the events to be handled, none when it
  timed out or failed.\<close>

inductive poller_step :: "'h group \<Rightarrow> 'h group \<Rightarrow> bool" where
  test: "i < length (pg_threads g) \<Longrightarrow> pg_threads g ! i = Testing \<Longrightarrow>
     poller_step g (set_thread i (if ic_open (pg_ctxs g ! i) then Polling else Returned) g)"
| events: "i < length (pg_threads g) \<Longrightarrow> pg_threads g ! i = Polling \<Longrightarrow>
     poller_step g (set_thread i Testing (set_ctx i (io_exec (Poll es) (pg_ctxs g ! i)) g))"

text \<open>Beside that, coroutines and other threads operate on the contexts.\<close>

inductive pg_step :: "'h group \<Rightarrow> 'h group \<Rightarrow> bool" where
  poller: "poller_step g g' \<Longrightarrow> pg_step g g'"
| act: "i < length (pg_ctxs g) \<Longrightarrow> pg_step g (set_ctx i (io_exec p (pg_ctxs g ! i)) g)"

section \<open>Invariants\<close>

definition pg_inv :: "'h group \<Rightarrow> bool" where
  "pg_inv g \<longleftrightarrow> length (pg_ctxs g) = length (pg_threads g) \<and> list_all run_inv (pg_ctxs g) \<and>
     list_all (\<lambda>c. \<forall>h. ic_domain c h) (pg_ctxs g) \<and> \<not> pg_joined g"

text \<open>A context that was shut down, or was never valid.\<close>

definition pg_closed :: "'h group \<Rightarrow> bool" where
  "pg_closed g \<longleftrightarrow> list_all (\<lambda>c. \<not> ic_open c) (pg_ctxs g)"

lemma created_inv: "asio_ctx r = Inr c \<Longrightarrow> run_inv c \<and> (\<forall>h. ic_domain c h)"
  by (auto simp: asio_ctx_def io_create_def run_inv_def nobody_waits_def io_context_new_def split: if_splits)

lemma start_loop_inv: "pg_inv g \<Longrightarrow> pg_inv (snd (start_loop create setup i m g))"
proof (induction m arbitrary: i g)
  case (Suc m)
  show ?case
  proof (cases "asio_ctx (create i) :: code + 'a io_sys")
    case (Inr c)
    have "run_inv (fold io_exec (setup i) c)" "\<forall>h. ic_domain (fold io_exec (setup i) c) h"
      using io_runs_inv created_inv [OF Inr] by (auto simp: runs_domain)
    then have "pg_inv (g\<lparr>pg_ctxs := pg_ctxs g @ [fold io_exec (setup i) c], pg_threads := pg_threads g @ [Testing]\<rparr>)"
      using Suc.prems(1) by (simp add: pg_inv_def)
    from Suc.IH [OF this] show ?thesis using Inr by simp
  qed (use Suc.prems(1) in simp)
qed simp

text \<open>As many pollers are created as there are contexts before the first for which \<^verbatim>\<open>epoll_create1\<close> returns 0.\<close>

lemma start_loop_size:
  "length (pg_ctxs (snd (start_loop create setup i m g))) =
     length (pg_ctxs g) + length (takeWhile (\<lambda>j. fst (create j) \<noteq> 0) [i..<i + m])"
proof (induction m arbitrary: i g)
  case (Suc m)
  have u: "[i..<i + Suc m] = i # [Suc i..<Suc i + m]" by (simp add: upt_rec)
  show ?case
    unfolding u using Suc.IH [of "Suc i"] by (auto simp: asio_ctx_def io_create_def)
qed simp

text \<open>A call of \<^verbatim>\<open>epoll_create1\<close> that fails is taken for a context; nothing can be registered with it.\<close>

lemma create_failure_unnoticed: "\<exists>c. asio_ctx (-1, e) = Inr (c :: 'h io_sys) \<and> \<not> ic_open c"
  by (simp add: asio_ctx_def io_create_def)

lemma list_all_upd: "list_all P xs \<Longrightarrow> (i < length xs \<Longrightarrow> P (xs ! i) \<Longrightarrow> P x) \<Longrightarrow> list_all P (xs[i := x])"
  unfolding list_all_length by (metis length_list_update nth_list_update_eq nth_list_update_neq)

lemma poll_open: "ic_open (snd (poll_batch es c)) = ic_open c"
  by (induction es arbitrary: c) (auto simp: Let_def case_prod_beta poll_one_def ic_remove_def split: option.split)

lemma closed_stays: "\<not> ic_open c \<Longrightarrow> \<not> ic_open (io_exec p c)"
  by (cases p)
     (auto simp: dv_await_def set_signals_def deregister_def ic_remove_def ic_shutdown_def init_async_device_def ic_add_def Let_def
        split: prod.splits option.splits)

lemma shutdown_closes: "\<not> ic_open (snd (ic_shutdown c))"
  by (simp add: ic_shutdown_def split_beta)

lemma set_ctx_inv: "pg_inv g \<Longrightarrow> pg_inv (set_ctx i (io_exec p (pg_ctxs g ! i)) g)"
  by (auto simp: pg_inv_def set_ctx_def io_exec_run_inv io_exec_domain intro!: list_all_upd)

lemma set_ctx_closed: "pg_closed g \<Longrightarrow> pg_closed (set_ctx i (io_exec p (pg_ctxs g ! i)) g)"
  by (auto simp: pg_closed_def set_ctx_def closed_stays intro!: list_all_upd simp del: io_exec.simps)

lemma set_thread_keeps [simp]: "pg_inv (set_thread i t g) = pg_inv g" "pg_closed (set_thread i t g) = pg_closed g"
  by (simp_all add: pg_inv_def pg_closed_def set_thread_def)

lemma pg_step_keeps: "pg_step g g' \<Longrightarrow> pg_inv g \<Longrightarrow> pg_inv g' \<and> (pg_closed g \<longrightarrow> pg_closed g')"
  by (induction rule: pg_step.induct) (auto simp del: io_exec.simps simp: set_ctx_inv set_ctx_closed elim!: poller_step.cases)

lemma pg_steps_keep: "pg_step\<^sup>*\<^sup>* g g' \<Longrightarrow> pg_inv g \<Longrightarrow> pg_inv g' \<and> (pg_closed g \<longrightarrow> pg_closed g')"
  by (induction rule: rtranclp_induct) (auto dest: pg_step_keeps)

lemma shutdown_domain: "ic_domain (snd (ic_shutdown c)) = ic_domain c"
  using io_exec_domain [of Shutdown c] by simp

lemma pg_stop_inv: "pg_inv g \<Longrightarrow> pg_inv (snd (pg_stop g)) \<and> pg_closed (snd (pg_stop g))"
  by (auto simp: pg_inv_def pg_stop_def pg_closed_def list_all_iff shutdown_closes shutdown_run_inv shutdown_domain)

section \<open>Joining\<close>

text \<open>How many steps the threads of a closed group have left.\<close>

definition thread_left :: "thread \<Rightarrow> nat" where
  "thread_left t = (case t of Polling \<Rightarrow> 2 | Testing \<Rightarrow> 1 | _ \<Rightarrow> 0)"

definition steps_left :: "'h group \<Rightarrow> nat" where
  "steps_left g = sum_list (map thread_left (pg_threads g))"

lemma steps_left_set:
  assumes "i < length (pg_threads g)"
  shows "steps_left (set_thread i t g) + thread_left (pg_threads g ! i) = steps_left g + thread_left t"
proof -
  have "sum_list ((map thread_left (pg_threads g))[i := thread_left t]) + map thread_left (pg_threads g) ! i =
      sum_list (map thread_left (pg_threads g)) + thread_left t"
    using assms elem_le_sum_list [of i "map thread_left (pg_threads g)"] by (simp add: sum_list_update)
  then show ?thesis using assms by (simp add: steps_left_def set_thread_def map_update)
qed

lemma poller_step_left:
  assumes "poller_step g g'" "pg_inv g" "pg_closed g"
  shows "steps_left g' < steps_left g \<and> pg_inv g' \<and> pg_closed g' \<and> length (pg_ctxs g') = length (pg_ctxs g)"
  using assms(1)
proof cases
  case (test i)
  have "\<not> ic_open (pg_ctxs g ! i)" using assms(2,3) test(2) by (auto simp: pg_inv_def pg_closed_def list_all_length)
  then show ?thesis using test assms(2,3) steps_left_set [OF test(2), of Returned]
    by (simp add: thread_left_def) (simp add: set_thread_def)
next
  case (events i es)
  let ?h = "set_ctx i (io_exec (Poll es) (pg_ctxs g ! i)) g"
  have h: "pg_threads ?h = pg_threads g" "steps_left ?h = steps_left g" by (simp_all add: set_ctx_def steps_left_def)
  show ?thesis using events(1,2) h events(3) assms(2,3) steps_left_set [of i ?h Testing] set_ctx_inv [OF assms(2), of i "Poll es"]
      set_ctx_closed [OF assms(3), of i "Poll es"]
    by (simp add: thread_left_def del: io_exec.simps) (simp add: set_thread_def set_ctx_def)
qed

lemma poller_runs_left:
  "(poller_step ^^ n) g g' \<Longrightarrow> pg_inv g \<Longrightarrow> pg_closed g \<Longrightarrow>
     n + steps_left g' \<le> steps_left g \<and> pg_inv g' \<and> pg_closed g' \<and> length (pg_ctxs g') = length (pg_ctxs g)"
proof (induction n arbitrary: g')
  case (Suc n)
  then obtain h where h: "(poller_step ^^ n) g h" "poller_step h g'" by auto
  with Suc.IH [OF h(1) Suc.prems(2,3)] poller_step_left [OF h(2)] show ?case by auto
qed simp

lemma steps_left_bound: "steps_left g \<le> 2 * length (pg_threads g)"
proof -
  have b: "thread_left t \<le> 2" for t by (cases t) (simp_all add: thread_left_def)
  have "sum_list (map thread_left ts) \<le> 2 * length ts" for ts
  proof (induction ts)
    case (Cons t ts)
    then show ?case using b [of t] by simp
  qed simp
  then show ?thesis by (simp add: steps_left_def)
qed

lemma stuck_joins:
  assumes "pg_inv g" "\<And>x. \<not> poller_step g x"
  shows "\<exists>h. pg_join g = Some h \<and> set (pg_threads h) \<subseteq> {Joined} \<and> length (pg_threads h) = length (pg_ctxs g)"
proof -
  have "\<not> running (pg_threads g ! i)" if "i < length (pg_threads g)" for i
    using assms(2) poller_step.intros [OF that] by (auto simp: running_def)
  then show ?thesis using assms(1) by (auto simp: pg_join_def pg_inv_def list_ex_length)
qed

lemma stop_resumes:
  assumes "pg_inv g" "c \<in> set (pg_ctxs g)" "ic_open c" "waits_at h d c"
  shows "h \<in> set (fst (pg_stop g))"
  using assms shutdown_resumes [of c h d] by (auto simp: pg_inv_def pg_stop_def list_all_iff)

text \<open>After a stop request nobody waits.\<close>

lemma stopped_quiet:
  assumes "pg_inv g" "c \<in> set (pg_ctxs g)" "ic_cancelled c"
  shows "\<not> waits_at h d c"
  using assms domain_quiet(1) [of c h d] by (auto simp: pg_inv_def list_all_iff)

text \<open>C18. Stopping a group of pollers: whatever the pollers and their coroutines did before, hang-ups included, \<^verbatim>\<open>stop\<close> resumes
  every coroutine that waits at a device of a poller that is not closed yet.  From then on, whatever else
  happens, every context is closed, the threads make at most two further steps each, each of which is enabled as soon
  as \<^verbatim>\<open>epoll_pwait\<close> returns, and when they have made them \<^verbatim>\<open>join\<close> does not block and every thread is joined.\<close>

theorem group_stop_joins:
  assumes "pg_step\<^sup>*\<^sup>* (snd (pg_start create setup (pg_new n))) g" "pg_stop g = (resumed, g0)" "pg_step\<^sup>*\<^sup>* g0 g'"
  shows "(\<forall>c\<in>set (pg_ctxs g). \<forall>h d. ic_open c \<longrightarrow> waits_at h d c \<longrightarrow> h \<in> set resumed) \<and>
    (\<forall>c\<in>set (pg_ctxs g'). \<not> ic_open c) \<and>
    (\<forall>k g''. (poller_step ^^ k) g' g'' \<longrightarrow> k \<le> 2 * pg_size g' \<and>
      ((\<forall>x. \<not> poller_step g'' x) \<longrightarrow>
        (\<exists>h. pg_join g'' = Some h \<and> set (pg_threads h) \<subseteq> {Joined} \<and> length (pg_threads h) = pg_size g')))"
proof (intro conjI ballI allI impI)
  have "pg_inv (pg_new n)" by (simp add: pg_inv_def pg_new_def)
  then have "pg_inv (snd (pg_start create setup (pg_new n)))" unfolding pg_start_def by (rule start_loop_inv)
  then have g: "pg_inv g" using pg_steps_keep [OF assms(1)] by blast
  then have i: "pg_inv g'" "pg_closed g'" using pg_steps_keep [OF assms(3)] pg_stop_inv [of g] assms(2) by auto
  show "h \<in> set resumed" if "c \<in> set (pg_ctxs g)" "ic_open c" "waits_at h d c" for c h d
    using stop_resumes [OF g that] assms(2) by simp
  show "\<not> ic_open c" if "c \<in> set (pg_ctxs g')" for c using i(2) that by (simp add: pg_closed_def list_all_iff)
  fix k g''
  assume "(poller_step ^^ k) g' g''"
  note l = poller_runs_left [OF this i]
  show "k \<le> 2 * pg_size g'" using l steps_left_bound [of g'] i(1) by (simp add: pg_inv_def pg_size_def)
  assume "\<forall>x. \<not> poller_step g'' x"
  then show "\<exists>h. pg_join g'' = Some h \<and> set (pg_threads h) \<subseteq> {Joined} \<and> length (pg_threads h) = pg_size g'"
    using stuck_joins [of g''] l by (simp add: pg_size_def)
qed

text \<open>Two pollers, each with a reader, the second one stranded by a hang-up.\<close>

definition two_readers :: "nat \<Rightarrow> nat io_op list" where
  "two_readers i = [Init 0 (5 + i) [EV_IN], Wait 0 EV_IN i] @ (if i = 1 then [Poll [(6, EV_HUP)]] else [])"

theorem group_stop_joins_witness:
  "let g0 = snd (pg_start (\<lambda>_. (3, 0)) two_readers (pg_new 2)); (resumed, g) = pg_stop g0
   in {0, 1} \<subseteq> set resumed \<and>
     (\<exists>g'' h. (poller_step ^^ 2) g g'' \<and> pg_join g'' = Some h \<and> length (pg_threads h) = 2)"
proof -
  let ?g0 = "snd (pg_start (\<lambda>_. (3, 0)) two_readers (pg_new 2))"
  obtain ws g where s: "pg_stop ?g0 = (ws, g)" by (cases "pg_stop ?g0")
  note t = group_stop_joins [OF rtranclp.rtrancl_refl s rtranclp.rtrancl_refl]
  have e: "map (\<lambda>c. (ic_open c, waits_at 0 0 c, waits_at 1 0 c)) (pg_ctxs ?g0) = [(True, True, False), (True, False, True)]" by code_simp
  then obtain a b where ab: "pg_ctxs ?g0 = [a, b]" "ic_open a" "ic_open b" "waits_at 0 0 a" "waits_at 1 0 b"
    by (auto simp: map_eq_Cons_conv)
  have w: "{0, 1} \<subseteq> set ws" using t ab by auto
  have g: "pg_threads g = [Testing, Testing]" "map ic_open (pg_ctxs g) = [False, False]" "pg_size g = 2"
  proof -
    have "pg_threads (snd (pg_stop ?g0)) = [Testing, Testing]" "map ic_open (pg_ctxs (snd (pg_stop ?g0))) = [False, False]"
      "pg_size (snd (pg_stop ?g0)) = 2" by code_simp+
    then show "pg_threads g = [Testing, Testing]" "map ic_open (pg_ctxs g) = [False, False]" "pg_size g = 2" by (simp_all add: s)
  qed
  define g1 g2 where "g1 = set_thread 0 Returned g" and "g2 = set_thread 1 Returned (set_thread 0 Returned g)"
  have o: "\<not> ic_open (pg_ctxs g ! 0)" "\<not> ic_open (pg_ctxs g ! 1)" using g(2) by (auto simp: map_eq_Cons_conv)
  have "poller_step g g1" using poller_step.test [of 0 g] o g(1) by (simp add: g1_def)
  moreover have "poller_step g1 g2" using poller_step.test [of 1 g1] o g(1) by (simp add: g1_def g2_def) (simp add: set_thread_def)
  ultimately have r: "(poller_step ^^ 2) g g2" by (auto simp: numeral_2_eq_2)
  have th: "pg_threads g2 = [Returned, Returned]" using g(1) by (simp add: g2_def set_thread_def)
  have "\<not> poller_step g2 x" for x
    using th by (auto elim!: poller_step.cases simp: less_Suc_eq nth_Cons')
  then have "\<exists>h. pg_join g2 = Some h \<and> length (pg_threads h) = 2" using t [THEN conjunct2, THEN conjunct2, rule_format, OF r] g(3) by auto
  then show ?thesis using s w r by auto
qed

text \<open>A group that was joined once does not join the threads of a second start: they are still joinable when the group
  is destroyed, which ends the program.\<close>

lemma restart_not_joined:
  "pg_joined g \<Longrightarrow> 0 < pg_n g \<Longrightarrow> \<exists>h. pg_destroy (snd (pg_start (\<lambda>_. (3, 0)) (\<lambda>_. []) g)) = Some h \<and> Testing \<in> set (pg_threads h)"
proof -
  assume "pg_joined g" "0 < pg_n g"
  have j: "pg_joined (snd (start_loop (\<lambda>_. (3, 0)) (\<lambda>_. []) i m f)) = pg_joined f \<and>
      set (pg_threads f) \<subseteq> set (pg_threads (snd (start_loop (\<lambda>_. (3, 0)) (\<lambda>_. []) i m f)))" for i m and f :: "'a group"
    by (induction m arbitrary: i f) (fastforce simp: asio_ctx_def io_create_def)+
  obtain m where "pg_n g = Suc m" using \<open>0 < pg_n g\<close> gr0_implies_Suc by blast
  then show ?thesis using j [of 0 "pg_n g" g] j [of 1 m "g\<lparr>pg_ctxs := pg_ctxs g @ [io_context_new\<lparr>ic_open := True\<rparr>], pg_threads := pg_threads g @ [Testing]\<rparr>"] \<open>pg_joined g\<close>
    by (auto simp: pg_destroy_def pg_join_def pg_stop_def pg_start_def asio_ctx_def io_create_def)
qed

end
