(* ===== verification/Errors.thy ===== *)
theory Errors
  imports Net_Connect
begin

text \<open>
  Error objects and the macros that pass them on (\<^verbatim>\<open>include/xsl/error.h\<close>).  An error is a code with an optional message; the
  text the system has for a code is a parameter.  A result is what the macros are applied to: a value tested with
  \<^verbatim>\<open>!\<close>, an \<^verbatim>\<open>errc\<close>, or an \<^verbatim>\<open>Expected\<close> with an error object or an \<^verbatim>\<open>errc\<close>; the forms that no
  specialisation of \<^verbatim>\<open>ResultError\<close> accepts do not compile and give \<^term>\<open>None\<close>.  The lemmas show that codes are kept
  exactly and that messages accumulate in the order of the calls.
\<close>

section \<open>Error objects\<close>

type_synonym ecode = "32 word"

record error =
  e_code :: "64 word"
  e_msg :: "string option"

text \<open>\<^verbatim>\<open>Error(errc)\<close> and \<^verbatim>\<open>Error(uint64_t)\<close>; \<^verbatim>\<open>errc\<close> is a signed 32-bit number.\<close>

definition Error_errc :: "ecode \<Rightarrow> error" where
  "Error_errc c = \<lparr>e_code = scast c, e_msg = None\<rparr>"

definition Error_u64 :: "64 word \<Rightarrow> error" where
  "Error_u64 c = \<lparr>e_code = c, e_msg = None\<rparr>"

definition StringError_errc :: "ecode \<Rightarrow> string \<Rightarrow> error" where
  "StringError_errc c m = \<lparr>e_code = scast c, e_msg = Some m\<rparr>"

definition StringError_u64 :: "64 word \<Rightarrow> string \<Rightarrow> error" where
  "StringError_u64 c m = \<lparr>e_code = c, e_msg = Some m\<rparr>"

definition message :: "(ecode \<Rightarrow> string) \<Rightarrow> error \<Rightarrow> string" where
  "message strerror e = (case e_msg e of None \<Rightarrow> strerror (ucast (e_code e)) | Some m \<Rightarrow> m)"

text \<open>\<^verbatim>\<open>StringError(std::unique_ptr<Error>&&, const char*)\<close>: the message is appended on a line of its own.\<close>

definition StringError_chain :: "(ecode \<Rightarrow> string) \<Rightarrow> error \<Rightarrow> string \<Rightarrow> error" where
  "StringError_chain strerror e m = \<lparr>e_code = e_code e, e_msg = Some (message strerror e @ [LF] @ m)\<rparr>"

definition sint_text :: "int \<Rightarrow> string" where
  "sint_text n = (if n < 0 then CHR ''-'' # dec_digits (nat (- n)) else dec_digits (nat n))"

definition to_exception :: "(ecode \<Rightarrow> string) \<Rightarrow> error \<Rightarrow> string" where
  "to_exception strerror e = ''Error '' @ sint_text (sint (e_code e)) @ '': '' @ message strerror e"

section \<open>Results\<close>

datatype 'v res = Truth bool | Ec ecode | ExpError "error + 'v" | ExpEc "ecode + 'v"

fun res_fails :: "'v res \<Rightarrow> bool" where
  "res_fails (Truth b) \<longleftrightarrow> \<not> b"
| "res_fails (Ec c) \<longleftrightarrow> c \<noteq> 0"
| "res_fails (ExpError r) \<longleftrightarrow> isl r"
| "res_fails (ExpEc r) \<longleftrightarrow> isl r"

text \<open>The further arguments of a macro.\<close>

datatype args = NoArgs | Msg string | Code ecode | CodeMsg ecode string | Given error

text \<open>\<^verbatim>\<open>ResultError\<close> for an error object, with \<^verbatim>\<open>StringError\<close> as the constructed type, and for an \<^verbatim>\<open>errc\<close>.\<close>

fun result_error :: "(ecode \<Rightarrow> string) \<Rightarrow> 'v res \<Rightarrow> args \<Rightarrow> error option" where
  "result_error se (ExpError (Inl e)) NoArgs = Some e"
| "result_error se (ExpError (Inl e)) (Msg m) = Some (StringError_chain se e m)"
| "result_error se (ExpEc (Inl c)) NoArgs = Some (Error_errc c)"
| "result_error se (ExpEc (Inl c)) (Msg m) = Some (StringError_errc c m)"
| "result_error se (Ec c) (Msg m) = Some (StringError_errc c m)"
| "result_error se (Truth b) (Given e) = Some e"
| "result_error se (Truth b) (CodeMsg c m) = Some (StringError_errc c m)"
| "result_error se _ _ = None"

fun result_ec :: "ecode \<Rightarrow> 'v res \<Rightarrow> args \<Rightarrow> ecode option" where
  "result_ec errno (ExpEc (Inl c)) NoArgs = Some c"
| "result_ec errno (Ec c) NoArgs = Some c"
| "result_ec errno (Truth b) NoArgs = Some errno"
| "result_ec errno (Truth b) (Code c) = Some c"
| "result_ec errno _ _ = None"

text \<open>\<^verbatim>\<open>ENSURE\<close> and \<^verbatim>\<open>ENSEC\<close>: go on, or return an error; \<^verbatim>\<open>EXPECT_N\<close> evaluates its expressions in turn up to the first
  that differs from the expected value, and \<^verbatim>\<open>MUST\<close> throws.\<close>

definition ENSURE :: "(ecode \<Rightarrow> string) \<Rightarrow> 'v res \<Rightarrow> args \<Rightarrow> error option" where
  "ENSURE se r a = (if res_fails r then result_error se r a else None)"

definition ENSEC :: "ecode \<Rightarrow> 'v res \<Rightarrow> args \<Rightarrow> ecode option" where
  "ENSEC errno r a = (if res_fails r then result_ec errno r a else None)"

text \<open>\<^verbatim>\<open>TRV\<close>: the value, unless the result is a failure.\<close>

definition TRV :: "(ecode \<Rightarrow> string) \<Rightarrow> (error + 'v) \<Rightarrow> args \<Rightarrow> error option + 'v" where
  "TRV se r a = (case r of Inr v \<Rightarrow> Inr v | Inl e \<Rightarrow> Inl (result_error se (ExpError r) a))"

fun expect_n :: "'v \<Rightarrow> error \<Rightarrow> (nat \<times> 'v) list \<Rightarrow> nat list \<times> error option" where
  "expect_n expected gen [] = ([], None)"
| "expect_n expected gen ((i, v) # es) =
     (if v \<noteq> expected then ([i], Some gen)
      else (let (evaluated, r) = expect_n expected gen es in (i # evaluated, r)))"

definition MUST :: "(ecode \<Rightarrow> string) \<Rightarrow> 'v res \<Rightarrow> string option" where
  "MUST se r = (if res_fails r then map_option (to_exception se) (result_error se r NoArgs) else None)"

text \<open>\<^verbatim>\<open>ErrorUtil\<close>: an error built from arguments, with a test before them that it ignores, or taken from a result, where a
  generator may replace the code, and an error held by value is copied as an \<^verbatim>\<open>Error\<close>.  What no overload accepts gives \<^term>\<open>None\<close>.\<close>

datatype 'v util_call = Build args | BuildIf bool args | FromError "error + 'v" | FromEc "ecode + 'v" | FromEcGen "ecode + 'v" "ecode \<Rightarrow> ecode"
  | FromObject "error + 'v"

fun build_error :: "args \<Rightarrow> error option" where
  "build_error (Code c) = Some (Error_errc c)"
| "build_error (CodeMsg c m) = Some (StringError_errc c m)"
| "build_error (Given e) = Some e"
| "build_error _ = None"

fun error_util :: "'v util_call \<Rightarrow> error option" where
  "error_util (Build a) = build_error a"
| "error_util (BuildIf b (CodeMsg c m)) = Some (StringError_errc c m)"
| "error_util (BuildIf b (Given e)) = (if e_msg e = None then None else Some e)"
| "error_util (FromError (Inl e)) = Some e"
| "error_util (FromEc (Inl c)) = Some (Error_errc c)"
| "error_util (FromEcGen (Inl c) gen) = Some (Error_errc (gen c))"
| "error_util (FromObject (Inl e)) = Some (e\<lparr>e_msg := None\<rparr>)"
| "error_util _ = None"

text \<open>\<^verbatim>\<open>EcUtil\<close>: the current \<^verbatim>\<open>errno\<close>, a code, or the code of a result.\<close>

fun ec_util :: "ecode \<Rightarrow> 'v res + args \<Rightarrow> ecode option" where
  "ec_util errno (Inr NoArgs) = Some errno"
| "ec_util errno (Inr (Code c)) = Some c"
| "ec_util errno (Inl (ExpEc (Inl c))) = Some c"
| "ec_util errno _ = None"

text \<open>\<^verbatim>\<open>ENSURE2\<close> without a message, \<^verbatim>\<open>MUST\<close> with a variable, which binds the value (of an \<^verbatim>\<open>Expected\<close> the one it holds) or throws, and \<^verbatim>\<open>CONTV\<close> in the body of a
  loop, which goes on with the next element when the result is a failure.\<close>

definition ENSURE2 :: "'v res \<Rightarrow> error option" where
  "ENSURE2 r = (if res_fails r then (case r of ExpError x \<Rightarrow> error_util (FromError x) | ExpEc x \<Rightarrow> error_util (FromEc x) | _ \<Rightarrow> None) else None)"

datatype 'v bound = Value 'v | Itself "'v res"

fun res_value :: "'v res \<Rightarrow> 'v bound" where
  "res_value (ExpError (Inr v)) = Value v"
| "res_value (ExpEc (Inr v)) = Value v"
| "res_value r = Itself r"

definition MUST_var :: "(ecode \<Rightarrow> string) \<Rightarrow> 'v res \<Rightarrow> string option + 'v bound" where
  "MUST_var se r = (if res_fails r then Inl (MUST se r) else Inr (res_value r))"

fun contv :: "('x \<Rightarrow> 'v res) \<Rightarrow> ('v bound \<Rightarrow> 'r option) \<Rightarrow> 'x list \<Rightarrow> 'r option" where
  "contv expr body [] = None"
| "contv expr body (x # xs) =
     (if res_fails (expr x) then contv expr body xs
      else case body (res_value (expr x)) of Some r \<Rightarrow> Some r | None \<Rightarrow> contv expr body xs)"

text \<open>An error that passes through functions, each of which adds a message with \<^verbatim>\<open>ENSURE(expr, msg)\<close>.\<close>

fun propagate :: "(ecode \<Rightarrow> string) \<Rightarrow> error \<Rightarrow> string list \<Rightarrow> error" where
  "propagate se e [] = e"
| "propagate se e (m # ms) =
     (case ENSURE se (ExpError (Inl e) :: unit res) (Msg m) of Some e' \<Rightarrow> propagate se e' ms | None \<Rightarrow> e)"

section \<open>Lemmas\<close>

text \<open>A code of the system is kept through the 64-bit store, also a negative one.\<close>

lemma ucast_scast_code: "ucast (scast (c :: ecode) :: 64 word) = c"
  by (rule bit_word_eqI) (simp add: bit_simps)

lemma sint_scast_code: "sint (scast (c :: ecode) :: 64 word) = sint c"
  by (rule bit_eqI) (auto simp: bit_simps min_def)

lemma code_kept: "message se (Error_errc c) = se c"
  by (simp add: message_def Error_errc_def ucast_scast_code)

lemma message_chain: "message se (StringError_chain se e m) = message se e @ [LF] @ m"
  by (simp add: message_def StringError_chain_def)

text \<open>Passing on keeps the code of the first error, and the message is the first message followed by one line for each
  function on the way.\<close>

lemma propagate_spec:
  "e_code (propagate se e ms) = e_code e \<and>
   message se (propagate se e ms) = message se e @ concat (map (\<lambda>m. LF # m) ms)"
proof (induction ms arbitrary: e)
  case (Cons m ms)
  have "propagate se e (m # ms) = propagate se (StringError_chain se e m) ms" by (simp add: ENSURE_def)
  then show ?case using Cons.IH [of "StringError_chain se e m"] by (simp add: message_chain) (simp add: StringError_chain_def)
qed simp

text \<open>A failure never passes unnoticed in a form that compiles, and a code of 0 is never reported for an \<^verbatim>\<open>errc\<close>.\<close>

lemma ensure_reports:
  "result_error se r a \<noteq> None \<Longrightarrow> ENSURE se r a = None \<longleftrightarrow> \<not> res_fails r"
  by (simp add: ENSURE_def)

lemma ensec_nonzero: "ENSEC errno (Ec c) NoArgs = Some d \<Longrightarrow> d = c \<and> d \<noteq> 0"
  by (auto simp: ENSEC_def split: if_splits)

lemma ensec_bool_refines: "ENSEC (of_nat e) (Truth b :: unit res) NoArgs = map_option of_nat (ensec_bool e b)"
  by (simp add: ENSEC_def ensec_bool_def)

text \<open>The two families of macros report the same error for a result that carries one.\<close>

lemma ensure2_agrees:
  assumes "r = ExpError x \<or> r = ExpEc y"
  shows "ENSURE2 r = ENSURE se r NoArgs"
  using assms by (cases x; cases y) (auto simp: ENSURE2_def ENSURE_def)

text \<open>The copy of an error held by value is cut down to its base class: the text of a \<^verbatim>\<open>StringError\<close> is lost.\<close>

lemma object_error_loses_message:
  "map_option (message se) (error_util (FromObject (Inl (StringError_errc c m)))) = Some (se c)"
  by (simp add: StringError_errc_def message_def ucast_scast_code)

lemma ec_util_agrees: "result_ec errno (ExpEc (Inl c)) NoArgs = ec_util errno (Inl (ExpEc (Inl c)))"
  by simp

text \<open>A value of an \<^verbatim>\<open>Expected\<close> is bound exactly when \<^verbatim>\<open>MUST\<close> does not throw, and the text thrown names the code of the error.\<close>

lemma must_var_expected:
  "MUST_var se (ExpEc x) = (case x of Inr v \<Rightarrow> Inr (Value v)
     | Inl c \<Rightarrow> Inl (Some (''Error '' @ sint_text (sint c) @ '': '' @ se c)))"
  by (cases x) (simp_all add: MUST_var_def MUST_def to_exception_def code_kept, simp add: Error_errc_def sint_scast_code)

text \<open>A loop with \<^verbatim>\<open>CONTV\<close> is the loop over the elements whose result is no failure.\<close>

lemma contv_skips_failures:
  "contv expr body xs = contv expr body (filter (\<lambda>x. \<not> res_fails (expr x)) xs)"
  by (induction expr body xs rule: contv.induct) (auto split: option.split)

lemma expect_n_evaluates:
  "expect_n v gen es = (map fst (takeWhile (\<lambda>e. snd e = v) es) @ map fst (take 1 (dropWhile (\<lambda>e. snd e = v) es)),
     if \<forall>e\<in>set es. snd e = v then None else Some gen)"
  by (induction v gen es rule: expect_n.induct) auto

end
