(* ===== verification/Asio_Pipe.thy ===== *)
theory Asio_Pipe
  imports Io_Context Net_Connect
begin

text \<open>
  Pipes and the blocking mode of descriptors: \<^verbatim>\<open>async_pipe\<close> (\<^verbatim>\<open>src/asio/pipe.cpp\<close>) on a context of theory
  \<^verbatim>\<open>Io_Context\<close> with a table of open descriptors, and \<^verbatim>\<open>set_blocking\<close> (\<^verbatim>\<open>include/xsl/sys/raw.h\<close>, \<^verbatim>\<open>src/sys/raw.cpp\<close>) on the flags of a
  descriptor.  The lemmas show what is open after each outcome, one of which leaks a descriptor, and that
  the mode changes one bit.
\<close>

section \<open>Blocking mode\<close>

definition O_NONBLOCK :: "32 word" where "O_NONBLOCK = 0x800"

text \<open>The flags \<^verbatim>\<open>F_GETFL\<close> gives and the error of \<^verbatim>\<open>F_SETFL\<close>, 0 for none; the result is the flags afterwards.\<close>

definition set_blocking :: "code + 32 word \<Rightarrow> code \<Rightarrow> bool \<Rightarrow> code + 32 word" where
  "set_blocking getfl setfl blocking =
     (case getfl of
        Inl e \<Rightarrow> Inl e
      | Inr flags \<Rightarrow>
          if \<not> blocking then (if setfl \<noteq> 0 then Inl setfl else Inr (flags OR O_NONBLOCK))
          else (if setfl \<noteq> 0 then Inl setfl else Inr (flags AND NOT O_NONBLOCK)))"

lemma set_blocking_bit:
  assumes "set_blocking (Inr flags) 0 b = Inr f"
  shows "bit f n = (if n = 11 then \<not> b else bit flags n)"
proof -
  have w: "O_NONBLOCK = 2 ^ 11" by (simp add: O_NONBLOCK_def)
  have o: "bit O_NONBLOCK m \<longleftrightarrow> m = 11" for m unfolding w bit_exp_iff by auto
  have "bit flags n \<Longrightarrow> n < 32" using bit_imp_le_length [of flags n] by simp
  then
  show ?thesis using assms by (auto simp: set_blocking_def bit_simps o split: if_splits)
qed

lemma set_blocking_restores:
  "\<not> bit flags 11 \<Longrightarrow> set_blocking (Inr flags) 0 False = Inr f \<Longrightarrow> set_blocking (Inr f) 0 True = Inr flags"
proof -
  assume a: "\<not> bit flags 11" "set_blocking (Inr flags) 0 False = Inr f"
  obtain g where g: "set_blocking (Inr f) 0 True = Inr g" by (simp add: set_blocking_def)
  have "g = flags"
    by (rule bit_word_eqI) (use a set_blocking_bit [OF a(2)] set_blocking_bit [OF g] in auto)
  with g show ?thesis by simp
qed

section \<open>Pipes\<close>

text \<open>\<^verbatim>\<open>async_pipe\<close>: what \<^verbatim>\<open>pipe2\<close> gives, the numbers of the two devices, the descriptors open so far and the context.  A device
  that goes out of scope is deregistered and closes its descriptor; a descriptor no owner was made for stays
  open.\<close>

definition async_pipe ::
  "code + (nat \<times> nat) \<Rightarrow> nat \<Rightarrow> nat \<Rightarrow> nat list \<Rightarrow> 'h io_sys \<Rightarrow> (code + nat \<times> nat) \<times> nat list \<times> 'h io_sys" where
  "async_pipe p dr dw opened c =
     (case p of
        Inl e \<Rightarrow> (Inl e, opened, c)
      | Inr (r, w) \<Rightarrow>
          (case init_async_device dr r [EV_IN] c of
             (Some e, c1) \<Rightarrow> (Inl (case e of EBADF \<Rightarrow> 9 | EEXIST \<Rightarrow> 17), opened @ [w], c)
           | (None, c1) \<Rightarrow>
               (case init_async_device dw w [EV_OUT] c1 of
                  (Some e, c2) \<Rightarrow> (Inl (case e of EBADF \<Rightarrow> 9 | EEXIST \<Rightarrow> 17), opened, deregister dr c1)
                | (None, c2) \<Rightarrow> (Inr (dr, dw), opened @ [r, w], c2))))"

text \<open>On a running context with two fresh descriptors the pipe is created and both ends are registered.\<close>

lemma async_pipe_created:
  assumes "ic_open c" "ic_interest c r = None" "ic_interest c w = None" "r \<noteq> w"
  obtains c' where "async_pipe (Inr (r, w)) dr dw opened c = (Inr (dr, dw), opened @ [r, w], c')"
    "ic_interest c' r \<noteq> None" "ic_interest c' w \<noteq> None"
  using assms by (auto simp: async_pipe_def init_async_device_def ic_add_def Let_def)

text \<open>When the context is closed already, the reading end is closed but the writing end stays open without an owner.\<close>

lemma async_pipe_leak:
  "\<not> ic_open c \<Longrightarrow> async_pipe (Inr (r, w)) dr dw opened c = (Inl 9, opened @ [w], c)"
  by (simp add: async_pipe_def init_async_device_def ic_add_def)

text \<open>A failure on the writing end leaves neither descriptor open and the interest of the context as it was.\<close>

lemma async_pipe_write_failed:
  assumes "ic_open c" "ic_interest c r = None" "ic_interest c w \<noteq> None"
  shows "\<exists>c'. async_pipe (Inr (r, w)) dr dw opened c = (Inl 17, opened, c') \<and> ic_interest c' = ic_interest c"
proof -
  have "r \<noteq> w" using assms by auto
  then show ?thesis using assms
    by (auto simp: async_pipe_def init_async_device_def ic_add_def deregister_def ic_remove_def Let_def fun_eq_iff)
qed

end
