(* ===== verification/Http_Date.thy ===== *)
theory Http_Date
  imports Net_Prelude
begin

text \<open>
  HTTP dates: \<^verbatim>\<open>to_date_string\<close> and \<^verbatim>\<open>from_date_string\<close> of \<^verbatim>\<open>include/xsl/net/http/proto.h\<close>, with the calendar and the format
  \<^verbatim>\<open>%a, %d %b %Y %T %Z\<close> of the standard library they use.  A time is a 64-bit count of nanoseconds since the epoch of its
  clock, and the epoch a parameter in seconds after 1970: 0 for \<^verbatim>\<open>system_clock\<close>, and for \<^verbatim>\<open>file_clock\<close> up to the implementation
  (6437664000, the year 2174, in libstdc++, where the times of today are negative).  Printing cuts the count to seconds, towards
  zero.  The calendar is shown to be exact in both directions, and a printed date to be read back as the second it was
  made from, where the counts fit.
\<close>

section \<open>The calendar\<close>

definition is_leap :: "int \<Rightarrow> bool" where
  "is_leap y \<longleftrightarrow> y mod 4 = 0 \<and> (y mod 100 \<noteq> 0 \<or> y mod 400 = 0)"

definition year_days :: "int \<Rightarrow> int" where
  "year_days y = (if is_leap y then 366 else 365)"

definition month_lengths :: "int \<Rightarrow> int list" where
  "month_lengths y = [31, if is_leap y then 29 else 28, 31, 30, 31, 30, 31, 31, 30, 31, 30, 31]"

text \<open>The year a number of days after the start of year \<open>y\<close> falls into with the days left, and the same for months.\<close>

function split_years :: "int \<Rightarrow> int \<Rightarrow> int \<times> int" where
  "split_years y d = (if d < year_days y then (y, d) else split_years (y + 1) (d - year_days y))"
  by pat_completeness auto
termination
  by (relation "measure (\<lambda>(y, d). nat d)") (auto simp: year_days_def split: if_splits)

declare split_years.simps [simp del]

fun split_months :: "int list \<Rightarrow> int \<Rightarrow> nat \<times> int" where
  "split_months [] d = (0, d)"
| "split_months (l # ls) d = (if d < l then (0, d) else (let (m, r) = split_months ls (d - l) in (Suc m, r)))"

record civil =
  c_year :: int
  c_month :: nat
  c_day :: int

text \<open>\<^verbatim>\<open>year_month_day\<close> of a number of days since 1970 and back; the calendar repeats after 400 years.\<close>

definition civil_of_days :: "int \<Rightarrow> civil" where
  "civil_of_days d =
     (let (y, r) = split_years 1970 (d mod 146097); (m, k) = split_months (month_lengths y) r
      in \<lparr>c_year = y + 400 * (d div 146097), c_month = m, c_day = k + 1\<rparr>)"

definition days_of_civil :: "civil \<Rightarrow> int" where
  "days_of_civil c =
     146097 * ((c_year c - 1970) div 400) + sum_list (map (\<lambda>i. year_days (1970 + int i)) [0..<nat ((c_year c - 1970) mod 400)])
     + sum_list (take (c_month c) (month_lengths (c_year c))) + c_day c - 1"

text \<open>Sunday is 0; the first of January 1970 was a Thursday.\<close>

definition weekday :: "int \<Rightarrow> nat" where
  "weekday d = nat ((d + 4) mod 7)"

section \<open>Texts\<close>

definition weekday_names :: "string list" where
  "weekday_names = [''Sunday'', ''Monday'', ''Tuesday'', ''Wednesday'', ''Thursday'', ''Friday'', ''Saturday'']"

definition month_names :: "string list" where
  "month_names = [''January'', ''February'', ''March'', ''April'', ''May'', ''June'', ''July'', ''August'', ''September'',
     ''October'', ''November'', ''December'']"

definition digit :: "int \<Rightarrow> char" where
  "digit k = char_of (48 + nat k)"

definition pad2 :: "int \<Rightarrow> string" where
  "pad2 n = [digit (n div 10), digit (n mod 10)]"

definition pad4 :: "int \<Rightarrow> string" where
  "pad4 n = [digit (n div 1000), digit (n div 100 mod 10), digit (n div 10 mod 10), digit (n mod 10)]"

definition year_text :: "int \<Rightarrow> string" where
  "year_text y = (if y < 0 then CHR ''-'' # pad4 (- y) else if y \<le> 9999 then pad4 y else dec_digits (nat y))"

text \<open>\<^verbatim>\<open>time_point_cast\<close> rounds the count of the clock towards zero; the format converts it to the time since 1970.\<close>

definition to_seconds :: "int \<Rightarrow> int" where
  "to_seconds t = (if t < 0 then - ((- t) div 1000000000) else t div 1000000000)"

definition to_date_string :: "int \<Rightarrow> int \<Rightarrow> string" where
  "to_date_string epoch t =
     (let s = to_seconds t + epoch; d = s div 86400; r = s mod 86400; c = civil_of_days d
      in take 3 (weekday_names ! weekday d) @ '', '' @ pad2 (c_day c) @ '' '' @ take 3 (month_names ! c_month c) @ '' '' @
         year_text (c_year c) @ '' '' @ pad2 (r div 3600) @ '':'' @ pad2 (r div 60 mod 60) @ '':'' @ pad2 (r mod 60) @ '' UTC'')"

section \<open>Reading\<close>

definition skip_ws :: "string \<Rightarrow> string" where
  "skip_ws s = dropWhile (\<lambda>c. c \<in> set [CHR '' '', CHR 0x09, CHR 0x0A, CHR 0x0B, CHR 0x0C, CHR 0x0D]) s"

definition parse_num :: "nat \<Rightarrow> string \<Rightarrow> (int \<times> string) option" where
  "parse_num n s =
     (let ds = takeWhile is_digit (take n s) in if ds = [] then None else Some (int (digits_value ds), drop (length ds) s))"

definition parse_year :: "string \<Rightarrow> (int \<times> string) option" where
  "parse_year s =
     (case s of
        c # t \<Rightarrow> if c = CHR ''-'' then map_option (\<lambda>(y, r). (- y, r)) (parse_num 4 t) else parse_num 4 s
      | [] \<Rightarrow> None)"

text \<open>A full or an abbreviated name, without regard to case.\<close>

definition same_text :: "string \<Rightarrow> string \<Rightarrow> bool" where
  "same_text a b \<longleftrightarrow> map lower_char a = map lower_char b"

definition parse_name :: "string list \<Rightarrow> string \<Rightarrow> (nat \<times> string) option" where
  "parse_name names s =
     (case find_idx (\<lambda>f. same_text (take (length f) s) f) names of
        Some i \<Rightarrow> Some (i, drop (length (names ! i)) s)
      | None \<Rightarrow> map_option (\<lambda>i. (i, drop 3 s)) (find_idx (\<lambda>f. same_text (take 3 s) (take 3 f)) names))"

fun expect :: "char \<Rightarrow> string \<Rightarrow> string option" where
  "expect c [] = None"
| "expect c (x # s) = (if x = c then Some s else None)"

text \<open>\<^verbatim>\<open>%S\<close> at a precision of nanoseconds takes a fraction of up to nine digits.\<close>

definition parse_fraction :: "string \<Rightarrow> int \<times> string" where
  "parse_fraction s =
     (case s of
        c # t \<Rightarrow>
          if c = CHR ''.'' then
            (let ds = takeWhile is_digit (take 9 t) in (int (digits_value ds) * 10 ^ (9 - length ds), drop (length ds) t))
          else (0, s)
      | [] \<Rightarrow> (0, s))"

definition zone_char :: "char \<Rightarrow> bool" where
  "zone_char c \<longleftrightarrow> is_digit c \<or> c \<in> set ''_-+'' \<or> (let l = (of_char (lower_char c) :: nat) in 97 \<le> l \<and> l \<le> 122)"

definition parse_time :: "string \<Rightarrow> ((int \<times> int \<times> int \<times> int) \<times> string) option" where
  "parse_time s =
     Option.bind (parse_num 2 s) (\<lambda>(h, s1). Option.bind (expect CHR '':'' s1) (\<lambda>s2.
     Option.bind (parse_num 2 s2) (\<lambda>(m, s3). Option.bind (expect CHR '':'' s3) (\<lambda>s4.
     Option.bind (parse_num 2 s4) (\<lambda>(sec, s5).
       let (f, s6) = parse_fraction s5 in Some ((h, m, sec, f), s6))))))"

definition parse_day :: "string \<Rightarrow> ((nat \<times> civil) \<times> string) option" where
  "parse_day s =
     Option.bind (parse_name weekday_names s) (\<lambda>(w, s1). Option.bind (expect CHR '','' s1) (\<lambda>s2.
     Option.bind (parse_num 2 (skip_ws s2)) (\<lambda>(d, s3). Option.bind (parse_name month_names (skip_ws s3)) (\<lambda>(m, s4).
     Option.bind (parse_year (skip_ws s4)) (\<lambda>(y, s5). Some ((w, \<lparr>c_year = y, c_month = m, c_day = d\<rparr>), s5))))))"

definition civil_ok :: "civil \<Rightarrow> bool" where
  "civil_ok c \<longleftrightarrow> c_month c < 12 \<and> 1 \<le> c_day c \<and> c_day c \<le> month_lengths (c_year c) ! c_month c"

text \<open>\<^verbatim>\<open>from_stream\<close> adds the day and the time since 1970 in the duration of the clock, nanoseconds, and then subtracts the
  epoch; a count that does not fit 64 bits on the way is a signed overflow, which has no defined result.  \<open>strict\<close>
  tells whether the library refuses a weekday that does not fit the date.\<close>

definition int64 :: "int \<Rightarrow> bool" where
  "int64 x \<longleftrightarrow> - (2 ^ 63) \<le> x \<and> x < 2 ^ 63"

datatype date_result = NoDate | Date int | DateOverflow

definition file_count :: "int \<Rightarrow> int \<Rightarrow> int \<Rightarrow> date_result" where
  "file_count epoch days ns =
     (let day_ns = days * 86400 * 1000000000; count = day_ns + ns - epoch * 1000000000
      in if int64 day_ns \<and> int64 (day_ns + ns) \<and> int64 count then Date count else DateOverflow)"

definition from_date_string :: "int \<Rightarrow> bool \<Rightarrow> string \<Rightarrow> date_result" where
  "from_date_string epoch strict s =
     (case parse_day s of
        None \<Rightarrow> NoDate
      | Some ((w, c), s1) \<Rightarrow>
          (case parse_time (skip_ws s1) of
             None \<Rightarrow> NoDate
           | Some ((h, m, sec, f), s2) \<Rightarrow>
               if takeWhile zone_char (skip_ws s2) \<noteq> [] \<and> civil_ok c \<and> h < 24 \<and> m < 60 \<and> sec < 60 \<and>
                  (strict \<longrightarrow> w = weekday (days_of_civil c))
               then file_count epoch (days_of_civil c) ((h * 3600 + m * 60 + sec) * 1000000000 + f) else NoDate))"

section \<open>The calendar is exact\<close>

lemma year_days_pos: "0 < year_days y"
  by (simp add: year_days_def)

lemma split_years_spec:
  "0 \<le> d \<Longrightarrow> split_years y d = (y', r) \<Longrightarrow>
     y \<le> y' \<and> 0 \<le> r \<and> r < year_days y' \<and> d = sum_list (map (\<lambda>i. year_days (y + int i)) [0..<nat (y' - y)]) + r"
proof (induction y d arbitrary: y' r rule: split_years.induct)
  case (1 y d)
  show ?case
  proof (cases "d < year_days y")
    case False
    then have "split_years (y + 1) (d - year_days y) = (y', r)" using "1.prems" by (subst (asm) split_years.simps) simp
    then have h: "y + 1 \<le> y'" "0 \<le> r" "r < year_days y'"
      "d - year_days y = sum_list (map (\<lambda>i. year_days (y + 1 + int i)) [0..<nat (y' - (y + 1))]) + r"
      using "1.IH" [OF False, of y' r] False "1.prems"(1) by auto
    have n: "nat (y' - y) = Suc (nat (y' - (y + 1)))" using h(1) by simp
    have "map (\<lambda>i. year_days (y + int i)) [0..<nat (y' - y)] = year_days y # map (\<lambda>i. year_days (y + 1 + int i)) [0..<nat (y' - (y + 1))]"
      unfolding n by (simp add: upt_conv_Cons map_Suc_upt [symmetric] del: upt_Suc) (simp add: add.assoc)
    then show ?thesis using h by simp
  next
    case True
    then show ?thesis using "1.prems" by (subst (asm) split_years.simps) auto
  qed
qed

lemma split_months_spec:
  "0 \<le> d \<Longrightarrow> d < sum_list ls \<Longrightarrow> split_months ls d = (m, r) \<Longrightarrow>
     m < length ls \<and> 0 \<le> r \<and> r < ls ! m \<and> d = sum_list (take m ls) + r"
proof (induction ls arbitrary: d m r)
  case (Cons l ls)
  show ?case
  proof (cases "d < l")
    case False
    obtain k q where k: "split_months ls (d - l) = (k, q)" by (cases "split_months ls (d - l)")
    then show ?thesis using Cons.IH [of "d - l" k q] Cons.prems False by auto
  qed (use Cons.prems in auto)
qed simp

lemma month_sum: "sum_list (month_lengths y) = year_days y"
  by (simp add: month_lengths_def year_days_def)

lemma length_month_lengths [simp]: "length (month_lengths y) = 12"
  by (simp add: month_lengths_def)

lemma leap_period: "is_leap (y + 400 * n) = is_leap y"
proof -
  have "(y + 400 * n) mod 4 = y mod 4" using mod_mult_self2 [of y 4 "100 * n"] by simp
  moreover have "(y + 400 * n) mod 100 = y mod 100" using mod_mult_self2 [of y 100 "4 * n"] by simp
  ultimately show ?thesis by (simp add: is_leap_def)
qed

lemma period_lengths: "month_lengths (y + 400 * n) = month_lengths y" "year_days (y + 400 * n) = year_days y"
  by (simp_all add: month_lengths_def year_days_def leap_period)

lemma cycle_days: "sum_list (map (\<lambda>i. year_days (1970 + int i)) [0..<400]) = 146097"
  by code_simp

lemma year_sums_mono: "m \<le> n \<Longrightarrow> sum_list (map (\<lambda>i. year_days (y + int i)) [0..<m]) \<le> sum_list (map (\<lambda>i. year_days (y + int i)) [0..<n])"
proof (induction n)
  case (Suc n)
  show ?case
  proof (cases "m = Suc n")
    case False
    then show ?thesis using Suc year_days_pos [of "y + int n"] by simp
  qed simp
qed simp

text \<open>The day number of the date of a day is that day, and the date is valid.\<close>

lemma civil_exact: "days_of_civil (civil_of_days d) = d \<and> civil_ok (civil_of_days d) \<and>
   c_year (civil_of_days d) - 400 * (d div 146097) \<in> {1970..<2370}"
proof -
  obtain y r where yr: "split_years 1970 (d mod 146097) = (y, r)" by (cases "split_years 1970 (d mod 146097)")
  have Y: "1970 \<le> y" "0 \<le> r" "r < year_days y"
    "d mod 146097 = sum_list (map (\<lambda>i. year_days (1970 + int i)) [0..<nat (y - 1970)]) + r"
    using split_years_spec [OF _ yr] by simp_all
  have k: "nat (y - 1970) < 400"
  proof (rule ccontr)
    assume "\<not> nat (y - 1970) < 400"
    then have "146097 \<le> sum_list (map (\<lambda>i. year_days (1970 + int i)) [0..<nat (y - 1970)])"
      using year_sums_mono [of 400 "nat (y - 1970)" 1970] cycle_days by simp
    then show False using Y(2,4) pos_mod_bound [of 146097 d] by simp
  qed
  obtain m q where mq: "split_months (month_lengths y) r = (m, q)" by (cases "split_months (month_lengths y) r")
  have M: "m < 12" "0 \<le> q" "q < month_lengths y ! m" "r = sum_list (take m (month_lengths y)) + q"
    using split_months_spec [OF Y(2) _ mq] Y(3) by (simp_all add: month_sum)
  let ?n = "d div 146097"
  have c: "civil_of_days d = \<lparr>c_year = y + 400 * ?n, c_month = m, c_day = q + 1\<rparr>" by (simp add: civil_of_days_def yr mq)
  obtain a where a: "y = a + 1970" by (metis diff_add_cancel)
  have e: "(y + 400 * ?n - 1970) div 400 = ?n" "(y + 400 * ?n - 1970) mod 400 = y - 1970"
    using Y(1) k by (simp_all add: a)
  have "days_of_civil (civil_of_days d) = 146097 * ?n + d mod 146097"
    using Y(4) M(4) by (simp add: c days_of_civil_def e period_lengths)
  moreover have "civil_ok (civil_of_days d)" using M by (simp add: c civil_ok_def period_lengths)
  moreover have "c_year (civil_of_days d) - 400 * ?n \<in> {1970..<2370}" using Y(1) k by (simp add: c)
  ultimately show ?thesis by simp
qed

section \<open>Dates are read back\<close>

lemma digit_cases: "0 \<le> k \<Longrightarrow> k < 10 \<Longrightarrow> is_digit (digit k) \<and> (of_char (digit k) :: nat) = 48 + nat k"
  using is_digit_char [of "nat k"] by (simp add: digit_def)

lemma parse_pad2: "0 \<le> n \<Longrightarrow> n < 100 \<Longrightarrow> parse_num 2 (pad2 n @ s) = Some (n, s)"
  using digit_cases [of "n div 10"] digit_cases [of "n mod 10"]
  by (simp add: parse_num_def pad2_def digits_value_def div_less_iff_less_mult eval_nat_numeral nat_add_distrib [symmetric])

lemma parse_four_digits:
  assumes "0 \<le> a" "a < 10" "0 \<le> b" "b < 10" "0 \<le> c" "c < 10" "0 \<le> d" "d < 10"
  shows "parse_num 4 ([digit a, digit b, digit c, digit d] @ s) = Some (10 * (10 * (10 * a + b) + c) + d, s)"
  using digit_cases [of a] digit_cases [of b] digit_cases [of c] digit_cases [of d] assms
  by (simp add: parse_num_def digits_value_def eval_nat_numeral)

lemma parse_pad4: "0 \<le> n \<Longrightarrow> n < 10000 \<Longrightarrow> parse_num 4 (pad4 n @ s) = Some (n, s)"
proof -
  assume n: "0 \<le> n" "n < 10000"
  have q: "n div 100 = n div 10 div 10" "n div 1000 = n div 10 div 10 div 10"
    using zdiv_zmult2_eq [of 10 n 10] zdiv_zmult2_eq [of 10 n 100] by simp_all
  have e: "10 * (10 * (10 * (n div 1000) + n div 100 mod 10) + n div 10 mod 10) + n mod 10 = n"
    unfolding q by (simp only: mult_div_mod_eq)
  have d: "0 \<le> n div 1000" "n div 1000 < 10" using n by (simp_all add: div_less_iff_less_mult pos_imp_zdiv_nonneg_iff)
  have "parse_num 4 (pad4 n @ s) = Some (10 * (10 * (10 * (n div 1000) + n div 100 mod 10) + n div 10 mod 10) + n mod 10, s)"
    unfolding pad4_def by (rule parse_four_digits [OF d]) simp_all
  then show ?thesis by (simp only: e)
qed

lemma find_idx_unique:
  "i < length xs \<Longrightarrow> P (xs ! i) \<Longrightarrow> (\<And>j. j < length xs \<Longrightarrow> P (xs ! j) \<Longrightarrow> j = i) \<Longrightarrow> find_idx P xs = Some i"
proof (induction xs arbitrary: i)
  case (Cons x xs)
  show ?case
  proof (cases i)
    case 0
    then show ?thesis using Cons.prems by simp
  next
    case (Suc k)
    have "\<not> P x" using Cons.prems(3) [of 0] Suc by auto
    moreover have "find_idx P xs = Some k" using Cons.IH [of k] Cons.prems Suc by fastforce
    ultimately show ?thesis using Suc by simp
  qed
qed simp

text \<open>Names that differ in their first three letters, none of which continues with a given character.\<close>

definition abbreviable :: "string list \<Rightarrow> char \<Rightarrow> bool" where
  "abbreviable names c \<longleftrightarrow>
     list_all (\<lambda>f. 3 \<le> length f \<and> (length f = 3 \<or> lower_char (f ! 3) \<noteq> lower_char c)) names \<and>
     distinct (map (\<lambda>f. map lower_char (take 3 f)) names)"

lemma parse_abbreviated:
  assumes "abbreviable names c" "i < length names"
  shows "parse_name names (take 3 (names ! i) @ c # s) = Some (i, c # s)"
proof -
  let ?t = "take 3 (names ! i) @ c # s"
  have l: "3 \<le> length f" "length f = 3 \<or> lower_char (f ! 3) \<noteq> lower_char c" if "f \<in> set names" for f
    using assms(1) that by (auto simp: abbreviable_def list_all_iff)
  have li: "length (take 3 (names ! i)) = 3" using l(1) [of "names ! i"] assms(2) by simp
  then have t3: "take 3 ?t = take 3 (names ! i)" "drop 3 ?t = c # s" "?t ! 3 = c" by (simp_all add: nth_append)
  have uniq: "j = i" if "j < length names" "same_text (take 3 ?t) (take 3 (names ! j))" for j
  proof -
    let ?m = "map (\<lambda>f. map lower_char (take 3 f)) names"
    have "?m ! j = ?m ! i" using that assms(2) t3(1) by (simp add: same_text_def)
    moreover have "distinct ?m" using assms(1) by (simp add: abbreviable_def)
    ultimately show ?thesis using that(1) assms(2) nth_eq_iff_index_eq [of ?m j i] by simp
  qed
  have full: "length f = 3 \<and> same_text (take 3 ?t) (take 3 f)" if "f \<in> set names" "same_text (take (length f) ?t) f" for f
  proof -
    have m: "map lower_char (take (length f) ?t) = map lower_char f" using that(2) by (simp add: same_text_def)
    have "length f = 3"
    proof (rule ccontr)
      assume "length f \<noteq> 3"
      then have n: "3 < length f" using l(1) [OF that(1)] by simp
      then have "lower_char (take (length f) ?t ! 3) = lower_char (f ! 3)" using m by (metis length_map nth_map)
      moreover have "take (length f) ?t ! 3 = c" using nth_take [OF n, of ?t] t3(3) by (simp only:)
      ultimately show False using n l(2) [OF that(1)] by auto
    qed
    then show ?thesis using that(2) by simp
  qed
  have two: "find_idx (\<lambda>f. same_text (take 3 ?t) (take 3 f)) names = Some i"
    by (rule find_idx_unique) (use assms(2) uniq t3(1) in \<open>auto simp: same_text_def\<close>)
  show ?thesis
  proof (cases "find_idx (\<lambda>f. same_text (take (length f) ?t) f) names")
    case None
    then show ?thesis using two t3(2) by (simp add: parse_name_def)
  next
    case (Some k)
    then have k: "k < length names" "same_text (take (length (names ! k)) ?t) (names ! k)" by (auto simp: find_idx_Some)
    then have "length (names ! k) = 3" "same_text (take 3 ?t) (take 3 (names ! k))" using full [of "names ! k"] by simp_all
    moreover have "k = i" using uniq [OF k(1)] calculation by simp
    ultimately show ?thesis using Some t3(2) by (simp add: parse_name_def)
  qed
qed

lemma weekdays_abbreviable: "abbreviable weekday_names CHR '',''" "length weekday_names = 7"
  by code_simp+

lemma months_abbreviable: "abbreviable month_names CHR '' ''" "length month_names = 12"
  by code_simp+

lemma skip_space: "skip_ws (CHR '' '' # s) = skip_ws s"
  by (simp add: skip_ws_def)

lemma skip_digit: "0 \<le> k \<Longrightarrow> k < 10 \<Longrightarrow> skip_ws (digit k # s) = digit k # s"
  using digit_cases [of k] by (auto simp: skip_ws_def is_digit_def)

lemma skip_pad2: "0 \<le> n \<Longrightarrow> n < 100 \<Longrightarrow> skip_ws (pad2 n @ s) = pad2 n @ s"
  using skip_digit [of "n div 10"] by (simp add: pad2_def div_less_iff_less_mult)

lemma skip_pad4: "0 \<le> n \<Longrightarrow> n < 10000 \<Longrightarrow> skip_ws (pad4 n @ s) = pad4 n @ s"
  using skip_digit [of "n div 1000"] by (simp add: pad4_def div_less_iff_less_mult)

lemma skip_month: "i < 12 \<Longrightarrow> skip_ws (take 3 (month_names ! i) @ s) = take 3 (month_names ! i) @ s"
proof -
  assume "i < 12"
  moreover have "\<forall>f\<in>set month_names. skip_ws (take 1 f) = take 1 f \<and> take 3 f \<noteq> [] \<and> f \<noteq> []" by code_simp
  ultimately have "skip_ws (take 1 (month_names ! i)) = take 1 (month_names ! i)" "month_names ! i \<noteq> []"
    using months_abbreviable(2) nth_mem [of i month_names] by simp_all
  then show ?thesis by (cases "month_names ! i") (auto simp: skip_ws_def split: if_splits)
qed

lemma parse_year_pad4: "0 \<le> y \<Longrightarrow> y \<le> 9999 \<Longrightarrow> parse_year (year_text y @ s) = Some (y, s)"
proof -
  assume y: "0 \<le> y" "y \<le> 9999"
  have "is_digit (digit (y div 1000))" using y digit_cases [of "y div 1000"] by (simp add: div_less_iff_less_mult)
  then have "digit (y div 1000) \<noteq> CHR ''-''" by (auto simp: is_digit_def)
  then show ?thesis using y parse_pad4 [of y s] by (simp add: parse_year_def year_text_def pad4_def)
qed


lemma skip_year: "0 \<le> y \<Longrightarrow> y \<le> 9999 \<Longrightarrow> skip_ws (year_text y @ s) = year_text y @ s"
  using skip_pad4 [of y s] by (simp add: year_text_def)

lemmas reading = skip_space skip_pad2 parse_pad2 skip_month skip_year parse_year_pad4
  parse_abbreviated [OF weekdays_abbreviable(1), unfolded weekdays_abbreviable(2)]
  parse_abbreviated [OF months_abbreviable(1), unfolded months_abbreviable(2)]

lemma parse_day_printed:
  assumes "w < 7" "c_month c < 12" "1 \<le> c_day c" "c_day c < 100" "0 \<le> c_year c" "c_year c \<le> 9999"
  shows "parse_day (take 3 (weekday_names ! w) @ '', '' @ pad2 (c_day c) @ '' '' @ take 3 (month_names ! c_month c) @ '' '' @
    year_text (c_year c) @ s) = Some ((w, c), s)"
  using assms by (simp add: parse_day_def reading)

lemma parse_time_printed:
  assumes "0 \<le> h" "h < 24" "0 \<le> m" "m < 60" "0 \<le> x" "x < 60"
  shows "parse_time (pad2 h @ '':'' @ pad2 m @ '':'' @ pad2 x @ '' UTC'') = Some ((h, m, x, 0), '' UTC'')"
  using assms by (simp add: parse_time_def reading parse_fraction_def)

lemma month_length_bound: "m < 12 \<Longrightarrow> month_lengths y ! m \<le> 31"
proof -
  have "list_all (\<lambda>l. l \<le> 31) (month_lengths y)" by (simp add: month_lengths_def)
  then show "m < 12 \<Longrightarrow> month_lengths y ! m \<le> 31" by (simp add: list_all_length)
qed

text \<open>A time whose count of nanoseconds since 1970 fits lies in a year of four digits.\<close>

lemma int64_year:
  assumes "int64 (s div 86400 * 86400 * 1000000000)"
  shows "0 \<le> c_year (civil_of_days (s div 86400))" "c_year (civil_of_days (s div 86400)) \<le> 9999"
proof -
  let ?d = "s div 86400"
  have "- 146097 \<le> ?d" "?d < 146097" using assms by (simp_all add: int64_def)
  then have "?d div 146097 \<in> {-1, 0}"
    using div_pos_pos_trivial [of ?d 146097] div_neg_pos_less0 [of ?d 146097] zdiv_mono1 [of "- 146097" ?d 146097] by fastforce
  then show "0 \<le> c_year (civil_of_days ?d)" "c_year (civil_of_days ?d) \<le> 9999" using civil_exact [of ?d] by auto
qed

lemma http_date_text:
  assumes "s = to_seconds t + epoch" "int64 (s div 86400 * 86400 * 1000000000)" "int64 (s * 1000000000)" "int64 t"
  shows "from_date_string epoch strict (to_date_string epoch t) = Date (to_seconds t * 1000000000)"
proof -
  define d r c where "d = s div 86400" and "r = s mod 86400" and "c = civil_of_days d"
  have c: "days_of_civil c = d" "civil_ok c" using civil_exact [of d] by (simp_all add: c_def)
  have b: "weekday d < 7" "c_month c < 12" "1 \<le> c_day c" "c_day c < 100" "0 \<le> c_year c" "c_year c \<le> 9999"
    using c(2) month_length_bound [of "c_month c" "c_year c"] int64_year [OF assms(2)]
    by (auto simp: weekday_def civil_ok_def c_def d_def)
  have r: "0 \<le> r" "r < 86400" by (simp_all add: r_def)
  have hms: "0 \<le> r div 3600" "r div 3600 < 24" "0 \<le> r div 60 mod 60" "r div 60 mod 60 < 60" "0 \<le> r mod 60" "r mod 60 < 60"
    using r by (simp_all add: div_less_iff_less_mult pos_imp_zdiv_nonneg_iff)
  have q: "r div 3600 = r div 60 div 60" using zdiv_zmult2_eq [of 60 r 60] by simp
  have v: "r div 3600 * 3600 + r div 60 mod 60 * 60 + r mod 60 = r"
  proof -
    have g: "a * 3600 + b * 60 + e = 60 * (60 * a + b) + e" for a b e :: int by simp
    show ?thesis by (simp only: q g mult_div_mod_eq)
  qed
  have x: "to_date_string epoch t = take 3 (weekday_names ! weekday d) @ '', '' @ pad2 (c_day c) @ '' '' @ take 3 (month_names ! c_month c) @ '' '' @
      year_text (c_year c) @ (CHR '' '' # pad2 (r div 3600) @ '':'' @ pad2 (r div 60 mod 60) @ '':'' @ pad2 (r mod 60) @ '' UTC'')"
    by (simp add: to_date_string_def Let_def assms(1) d_def r_def c_def)
  have z: "takeWhile zone_char (skip_ws '' UTC'') = ''UTC''" by code_simp
  have "skip_ws (CHR '' '' # pad2 (r div 3600) @ u) = pad2 (r div 3600) @ u" for u using hms by (simp add: skip_space skip_pad2)
  then have f: "from_date_string epoch strict (to_date_string epoch t) = file_count epoch d (r * 1000000000)"
    unfolding from_date_string_def x parse_day_printed [OF b] using parse_time_printed [OF hms] c z hms v by simp
  have e: "d * 86400 * 1000000000 + r * 1000000000 = s * 1000000000"
    using div_mult_mod_eq [of s 86400] unfolding d_def r_def by (metis distrib_right)
  have "int64 (to_seconds t * 1000000000)"
    using assms(4) pos_mod_sign [of 1000000000 t] pos_mod_sign [of 1000000000 "- t"]
    by (auto simp: int64_def to_seconds_def minus_mod_eq_div_mult [symmetric])
  then show ?thesis using assms(1-3) unfolding f file_count_def Let_def e by (simp add: d_def algebra_simps)
qed

text \<open>C35. Dates round trip: let the second a time is cut to, and the start of its day, have a 64-bit count of nanoseconds since 1970 (the years
  1678 to 2261).  Then the date printed for the time is read back, on a clock with any epoch, as exactly the second it was made from, whether or not the
  reader checks the day of the week, and without an overflow.\<close>

theorem http_date_round_trip:
  assumes "int64 t" "s = to_seconds t + epoch" "int64 (s div 86400 * 86400 * 1000000000)" "int64 (s * 1000000000)"
  shows "from_date_string epoch strict (to_date_string epoch t) = Date (to_seconds t * 1000000000)"
  by (rule http_date_text [OF assms(2-4,1)])

text \<open>The same time on a clock that counts from 1970, and on the file clock of libstdc++, where it is negative and is
  cut to the later second.\<close>

definition libstdcxx_file_epoch :: int where
  "libstdcxx_file_epoch = 6437664000"

theorem http_date_round_trip_witness:
  "from_date_string 0 True (to_date_string 0 784111777500000000) = Date 784111777000000000 \<and>
   to_date_string 0 784111777500000000 = ''Sun, 06 Nov 1994 08:49:37 UTC'' \<and>
   from_date_string libstdcxx_file_epoch True (to_date_string libstdcxx_file_epoch (- 5653552222500000000)) = Date (- 5653552222000000000) \<and>
   to_date_string libstdcxx_file_epoch (- 5653552222500000000) = ''Sun, 06 Nov 1994 08:49:38 UTC''"
proof -
  have 1: "to_seconds 784111777500000000 = 784111777" "to_seconds (- 5653552222500000000) = - 5653552222" by (simp_all add: to_seconds_def)
  have "from_date_string 0 True (to_date_string 0 784111777500000000) = Date (784111777 * 1000000000)"
    using http_date_round_trip [of 784111777500000000 784111777 0 True] by (simp add: 1 int64_def)
  moreover have "from_date_string libstdcxx_file_epoch True (to_date_string libstdcxx_file_epoch (- 5653552222500000000)) = Date (- 5653552222 * 1000000000)"
    using http_date_round_trip [of "- 5653552222500000000" 784111778 libstdcxx_file_epoch True] by (simp add: 1 int64_def libstdcxx_file_epoch_def)
  moreover have "to_date_string 0 784111777500000000 = ''Sun, 06 Nov 1994 08:49:37 UTC''"
    "to_date_string libstdcxx_file_epoch (- 5653552222500000000) = ''Sun, 06 Nov 1994 08:49:38 UTC''" by code_simp+
  ultimately show ?thesis by simp
qed

text \<open>A date outside these years overflows, also one that a client sends.\<close>

lemma far_date_overflows: "from_date_string libstdcxx_file_epoch True ''Fri, 31 Dec 9999 23:59:59 GMT'' = DateOverflow"
  by code_simp

end
