(* ===== verification/Http_Revalidate.thy ===== *)
theory Http_Revalidate
  imports Http_Static Http_Date
begin

text \<open>
  Conditional requests for static files, with the dates of theory \<^verbatim>\<open>Http_Date\<close> in place of the date parameters of theory
  \<^verbatim>\<open>Http_Static\<close>: what \<^verbatim>\<open>StaticFileServer::sendfile\<close> answers when a client sends back the date it was given.
\<close>

section \<open>Revalidation\<close>

text \<open>The date functions on a file clock with the given epoch; what reading gives for a date whose count overflows is left
  open.\<close>

definition uses_dates :: "int \<Rightarrow> bool \<Rightarrow> static_env \<Rightarrow> bool" where
  "uses_dates epoch strict e \<longleftrightarrow> to_date e = to_date_string epoch \<and>
     (\<forall>s. case from_date_string epoch strict s of NoDate \<Rightarrow> from_date e s = None | Date t \<Rightarrow> from_date e s = Some t | DateOverflow \<Rightarrow> True)"

lemma uses_datesD:
  assumes "uses_dates epoch strict e" "from_date_string epoch strict s = Date t"
  shows "from_date e s = Some t"
proof -
  have "case from_date_string epoch strict s of NoDate \<Rightarrow> from_date e s = None | Date t \<Rightarrow> from_date e s = Some t | DateOverflow \<Rightarrow> True"
    using assms(1) unfolding uses_dates_def by blast
  then show ?thesis by (simp only: assms(2) date_result.case)
qed

lemma to_seconds_le:
  "t \<le> to_seconds t * 1000000000 \<longleftrightarrow> t \<le> 0 \<or> t mod 1000000000 = 0"
proof (cases "t < 0")
  case True
  have "(- t) div 1000000000 * 1000000000 \<le> - t" using pos_mod_sign [of 1000000000 "- t"] by (simp add: minus_mod_eq_div_mult [symmetric])
  then show ?thesis using True by (simp add: to_seconds_def)
next
  case False
  then have "to_seconds t * 1000000000 = t - t mod 1000000000" by (simp add: to_seconds_def minus_mod_eq_div_mult)
  then show ?thesis using False pos_mod_sign [of 1000000000 t] by (cases "t = 0") auto
qed


text \<open>A request for a file of the small site that carries the date of the file, changed at a time given in nanoseconds.\<close>

definition dated_site :: "int \<Rightarrow> int \<Rightarrow> static_env" where
  "dated_site epoch t = small_site\<lparr>fs_mtime := \<lambda>p. Inr t, to_date := to_date_string epoch,
     from_date := \<lambda>s. (case from_date_string epoch True s of Date x \<Rightarrow> Some x | _ \<Rightarrow> None)\<rparr>"

definition dated_ctx :: "string \<Rightarrow> handle_ctx" where
  "dated_ctx date =
     (let m = (message_new (request_line_new\<lparr>rl_method := GET\<rparr>))\<lparr>buffer := [''If-Modified-Since'' @ date], headers := [((0, (0, 17)), (0, (17, 29)))]\<rparr>
      in ctx_new ''/a.txt'' m \<lparr>chunks = [], at_end = not_connected\<rparr>)"

lemma dated_site_uses: "uses_dates epoch True (dated_site epoch t)"
  by (auto simp: uses_dates_def dated_site_def split: date_result.split)


end
