(* ===== verification/Asio_Socket.thy ===== *)
theory Asio_Socket
  imports Sys_Socket Io_Context
begin

text \<open>
  Asynchronous sockets (\<^verbatim>\<open>include/xsl/asio/net/socket.h\<close>): \<^verbatim>\<open>make_async_socket\<close> and the functions of
  \<^verbatim>\<open>AsyncSocketCreator\<close> that create listeners, connected and datagram sockets.  They join the kernel's table of sockets
  of theory \<^verbatim>\<open>Sys_Socket\<close> with the poller of theory \<^verbatim>\<open>Io_Context\<close>; a world is a pair of the two.  The device a socket
  becomes is named by the caller.  The lemmas show that a listener is created completely and registered, or
  that neither the table nor the poller has changed, and that a connection attempt given up after its
  registration leaves its socket open.
\<close>

section \<open>Devices for sockets\<close>

type_synonym ('a, 'h) world = "'a kernel \<times> 'h io_sys"

definition io_err_code :: "io_err \<Rightarrow> code" where
  "io_err_code e = (case e of EBADF \<Rightarrow> 9 | EEXIST \<Rightarrow> 17)"

definition drop_device :: "nat \<Rightarrow> 'h io_sys \<Rightarrow> 'h io_sys" where
  "drop_device d c = c\<lparr>ic_devices := (ic_devices c)(d := None)\<rparr>"

text \<open>\<^verbatim>\<open>make_async_socket\<close>: when the registration fails, the device is destroyed and with it the descriptor it owns.\<close>

definition make_async_socket :: "nat \<Rightarrow> nat \<Rightarrow> ('a, 'h) world \<Rightarrow> (code + nat) \<times> ('a, 'h) world" where
  "make_async_socket d fd w =
     (let (e, c1) = init_async_device d fd [EV_IN, EV_OUT] (snd w)
      in case e of
           Some x \<Rightarrow> (Inl (io_err_code x), (close_fd fd (fst w), drop_device d c1))
         | None \<Rightarrow> (Inr d, (fst w, c1)))"

text \<open>A socket of the system layer that becomes a device, unless it could not be created.\<close>

definition then_async :: "nat \<Rightarrow> (code + nat) \<times> 'a kernel \<Rightarrow> 'h io_sys \<Rightarrow> (code + nat) \<times> ('a, 'h) world" where
  "then_async d r c =
     (case fst r of Inl e \<Rightarrow> (Inl e, (snd r, c)) | Inr fd \<Rightarrow> make_async_socket d fd (snd r, c))"

section \<open>Listeners and datagram sockets\<close>

text \<open>\<^verbatim>\<open>cb\<close>: the socket listens before it is registered, and is closed when \<^verbatim>\<open>listen\<close> fails.\<close>

definition async_cb :: "nat \<Rightarrow> code + 'a \<Rightarrow> ('a, 'h) world \<Rightarrow> (code + nat) \<times> ('a, 'h) world" where
  "async_cb d addr w =
     (case tcp_cb_text addr (fst w) of
        (Inl e, k1) \<Rightarrow> (Inl e, (k1, snd w))
      | (Inr fd, k1) \<Rightarrow>
          (let (r, k2) = sock_listen fd 128 k1
           in case ensec_exp r of
                Some e \<Rightarrow> (Inl e, (close_fd fd k2, snd w))
              | None \<Rightarrow> make_async_socket d fd (k2, snd w)))"

definition async_cl :: "nat \<Rightarrow> code + 'a \<Rightarrow> ('a, 'h) world \<Rightarrow> (code + nat) \<times> ('a, 'h) world" where
  "async_cl d addr w = then_async d (tcp_cl_text addr (fst w)) (snd w)"

definition async_udp_c :: "nat \<Rightarrow> code + 'a \<Rightarrow> ('a, 'h) world \<Rightarrow> (code + nat) \<times> ('a, 'h) world" where
  "async_udp_c d addr w = then_async d (udp_c addr (fst w)) (snd w)"

definition async_udp_c2 :: "nat \<Rightarrow> code + 'a \<Rightarrow> ('a, 'h) world \<Rightarrow> (code + nat) \<times> ('a, 'h) world" where
  "async_udp_c2 d addr w = then_async d (udp_c2 addr (fst w)) (snd w)"

text \<open>The overloads with the port as a text read it with \<^verbatim>\<open>atoi\<close> and cut it to 16 bits; \<^term>\<open>None\<close> is a number outside
  \<^verbatim>\<open>int\<close>.  \<open>mk\<close> is \<^verbatim>\<open>make_sockaddr\<close> for the address text.\<close>

definition async_udp_c_text :: "nat \<Rightarrow> (16 word \<Rightarrow> code + 'a) \<Rightarrow> string \<Rightarrow> ('a, 'h) world \<Rightarrow> ((code + nat) \<times> ('a, 'h) world) option" where
  "async_udp_c_text d mk port w = map_option (\<lambda>v. async_udp_c d (mk (word_of_int v)) w) (atoi port)"

definition async_udp_c2_text :: "nat \<Rightarrow> (16 word \<Rightarrow> code + 'a) \<Rightarrow> string \<Rightarrow> ('a, 'h) world \<Rightarrow> ((code + nat) \<times> ('a, 'h) world) option" where
  "async_udp_c2_text d mk port w = map_option (\<lambda>v. async_udp_c2 d (mk (word_of_int v)) w) (atoi port)"

section \<open>Connections\<close>

text \<open>\<^verbatim>\<open>async_connect\<close> on a descriptor: it is closed with its owner unless it became a device, which the poller keeps.
  A device whose registration failed is destroyed by the caller.\<close>

definition connect_dev :: "attempt \<Rightarrow> nat \<Rightarrow> nat \<Rightarrow> ('a, 'h) world \<Rightarrow> ((code + unit) \<times> ('a, 'h) world) option" where
  "connect_dev at d fd w =
     (let (e, c1) = init_async_device d fd [EV_IN, EV_OUT] (snd w);
          reg = (case e of None \<Rightarrow> 0 | Some x \<Rightarrow> io_err_code x)
      in map_option (\<lambda>(r, registered). (r, if registered then (fst w, c1) else (close_fd fd (fst w), snd w)))
           (async_connect (at\<lparr>at_register := reg\<rparr>)))"

definition async_ca2 :: "attempt \<Rightarrow> nat \<Rightarrow> ('a, 'h) world \<Rightarrow> ((code + nat) \<times> ('a, 'h) world) option" where
  "async_ca2 at d w =
     (case sys_socket (fst w) of
        (Inl e, k1) \<Rightarrow> Some (Inl e, (k1, snd w))
      | (Inr fd, k1) \<Rightarrow>
          map_option (\<lambda>(r, w1). (case ensec_exp r of Some e \<Rightarrow> Inl e | None \<Rightarrow> Inr d, w1)) (connect_dev at d fd (k1, snd w)))"

text \<open>The overload that builds the address first.\<close>

definition async_ca2_text :: "code + 'a \<Rightarrow> attempt \<Rightarrow> nat \<Rightarrow> ('a, 'h) world \<Rightarrow> ((code + nat) \<times> ('a, 'h) world) option" where
  "async_ca2_text addr at d w = (case addr of Inl e \<Rightarrow> Some (Inl e, w) | Inr _ \<Rightarrow> async_ca2 at d w)"

text \<open>\<^verbatim>\<open>a2\<close> connects a device of the caller and ends without \<^verbatim>\<open>co_return\<close>.\<close>

definition async_a2 :: "attempt \<Rightarrow> nat \<Rightarrow> ('a, 'h) world \<Rightarrow> conn_out option" where
  "async_a2 at d w =
     (case sys_socket (fst w) of
        (Inl e, _) \<Rightarrow> Some (ConnErr e)
      | (Inr fd, k1) \<Rightarrow>
          map_option (\<lambda>(r, _). case ensec_exp r of Some e \<Rightarrow> ConnErr e | None \<Rightarrow> FlowsOff) (connect_dev at d fd (k1, snd w)))"

text \<open>\<^verbatim>\<open>a2_dyn\<close> is \<^verbatim>\<open>ca2_impl\<close>, and \<^verbatim>\<open>ca2_dyn\<close> awaits it.  The result of a coroutine that flowed off its end is undefined, and so is
  everything after the await.\<close>

definition a2_dyn :: "address list \<Rightarrow> conn_out option" where
  "a2_dyn as = ca2_impl as"

definition ca2_dyn :: "address list \<Rightarrow> conn_out option" where
  "ca2_dyn as = map_option (\<lambda>r. case r of ConnErr e \<Rightarrow> ConnErr e | FlowsOff \<Rightarrow> FlowsOff) (a2_dyn as)"

section \<open>Lemmas\<close>

text \<open>What the rest of the program sees of a poller.\<close>

definition same_poller :: "'h io_sys \<Rightarrow> 'h io_sys \<Rightarrow> bool" where
  "same_poller c c' \<longleftrightarrow> ic_handlers c' = ic_handlers c \<and> ic_interest c' = ic_interest c \<and> ic_devices c' = ic_devices c"

text \<open>A device that is registered for both directions.\<close>

definition registered :: "nat \<Rightarrow> nat \<Rightarrow> 'h io_sys \<Rightarrow> bool" where
  "registered d fd c \<longleftrightarrow> map_of (ic_handlers c) fd = Some d \<and> ic_interest c fd = Some (interest_of [EV_IN, EV_OUT]) \<and>
     ic_devices c d = Some \<lparr>dv_raw = fd, dv_signals = pub_sub_new [EV_IN, EV_OUT], dv_bound = True\<rparr>"

lemma make_async_socket_spec:
  assumes "make_async_socket d fd (k, c) = (r, (k', c'))" "ic_devices c d = None"
  shows "case r of Inl _ \<Rightarrow> k' = close_fd fd k \<and> same_poller c c' | Inr x \<Rightarrow> x = d \<and> k' = k \<and> registered d fd c'"
proof (cases "\<not> ic_open c \<or> ic_interest c fd \<noteq> None")
  case True
  then show ?thesis using assms
    by (auto simp: make_async_socket_def init_async_device_def ic_add_def same_poller_def drop_device_def fun_upd_idem Let_def split: if_splits)
next
  case False
  then show ?thesis using assms
    by (auto simp: make_async_socket_def init_async_device_def ic_add_def registered_def table_put_def Let_def)
qed

text \<open>Listening after binding makes the same socket as the listener of the system layer, in the same order of calls.\<close>

lemma tcp_cb_then_listen:
  "(case tcp_cb a k of
      (Inl e, k1) \<Rightarrow> (Inl e, k1)
    | (Inr fd, k1) \<Rightarrow> (let (r, k2) = sock_listen fd 128 k1 in case ensec_exp r of Some e \<Rightarrow> (Inl e, close_fd fd k2) | None \<Rightarrow> (Inr fd, k2)))
   = tcp_cl a k"
  by (auto simp: tcp_cb_def tcp_cl_def with_socket_def tcp_l_def and_then_def Let_def ensec_exp_def split: prod.splits sum.splits option.splits)

lemma async_cb_eq_cl: "async_cb d (Inr a) w = async_cl d (Inr a) w"
  unfolding async_cb_def async_cl_def tcp_cb_text_def tcp_cl_text_def then_async_def sum.case tcp_cb_then_listen [symmetric]
  by (auto simp: Let_def split: prod.splits sum.splits option.splits)

text \<open>A listener of the poller is complete and registered, or nothing is left of it: for every sequence of results of the
  system calls and every state of the poller, \<^verbatim>\<open>cb\<close> and \<^verbatim>\<open>cl\<close> either give a device registered for both directions whose
  socket is bound, shares address and port and listens, or an error with all sockets and the poller
  as they were.\<close>

lemma async_listener_complete_or_absent:
  assumes "async_cb d (Inr a) (k, c) = (r, (k', c'))" "k_socks k (k_next k) = None" "ic_devices c d = None"
  shows "async_cl d (Inr a) (k, c) = (r, (k', c')) \<and>
    (case r of
       Inl _ \<Rightarrow> k_socks k' = k_socks k \<and> same_poller c c'
     | Inr x \<Rightarrow> x = d \<and> registered d (k_next k) c' \<and> k_socks k' = (k_socks k)(k_next k \<mapsto> fold (\<lambda>f. f) (listener_calls a) fresh_sock))"
proof -
  have cl: "async_cl d (Inr a) (k, c) = (r, (k', c'))" using assms(1) by (simp add: async_cb_eq_cl)
  obtain s k1 where t: "tcp_cl a k = (s, k1)" by (cases "tcp_cl a k")
  from with_socket_spec [OF t [unfolded tcp_cl_calls] assms(2)] have
    s: "s = (case first_error (take (Suc (length (listener_calls a))) (k_errs k)) of Some e \<Rightarrow> Inl e | None \<Rightarrow> Inr (k_next k))"
    "k_socks k1 = (case s of Inl _ \<Rightarrow> k_socks k | Inr fd \<Rightarrow> (k_socks k)(fd \<mapsto> fold (\<lambda>f. f) (listener_calls a) fresh_sock))" by auto
  show ?thesis
  proof (cases s)
    case (Inl e)
    then show ?thesis using cl t s(2) by (auto simp: async_cl_def tcp_cl_text_def then_async_def same_poller_def)
  next
    case (Inr fd)
    then have fd: "fd = k_next k" using s(1) by (auto split: option.splits)
    have m: "make_async_socket d fd (k1, c) = (r, (k', c'))" using cl t Inr by (simp add: async_cl_def tcp_cl_text_def then_async_def)
    from make_async_socket_spec [OF this assms(3)] show ?thesis
      using cl s(2) Inr fd assms(2) by (auto simp: close_fd_def split: sum.splits)
  qed
qed

text \<open>A port given as text wraps around: 65616 is port 80.\<close>

lemma udp_port_wraps: "async_udp_c_text d mk ''65616'' w = Some (async_udp_c d (mk 80) w)"
proof -
  have "atoi ''65616'' = Some 65616" by (simp add: atoi_def Let_def is_digit_def digits_value_def)
  moreover have "word_of_int 65616 = (80 :: 16 word)" by simp
  ultimately show ?thesis by (simp only: async_udp_c_text_def option.map)
qed

text \<open>An attempt that is cancelled while it waits for the connection: the error is reported, but the socket stays open and
  registered, and nobody holds the device to deregister it.\<close>

lemma cancelled_connect_stays_open:
  assumes "sys_socket k = (Inr fd, k1)" "ic_open c" "ic_interest c fd = None"
  shows "\<exists>c'. async_ca2 \<lparr>at_connect = [(-1, EINPROGRESS)], at_register = 0, at_writable = False, at_pending = Inr 0\<rparr> d (k, c)
      = Some (Inl ENOTCONN, (k1, c')) \<and> k_socks k1 fd \<noteq> None \<and> registered d fd c'"
proof -
  have "k_socks k1 fd \<noteq> None" using assms(1) by (auto simp: sys_socket_def Let_def split: prod.splits option.splits)
  then show ?thesis using assms
    by (auto simp: async_ca2_def connect_dev_def async_connect_def init_async_device_def ic_add_def registered_def table_put_def
        ensec_ec_def ensec_exp_def EINPROGRESS_def EINTR_def Let_def)
qed

text \<open>An attempt that fails before it is registered leaves neither a socket nor a device.\<close>

lemma refused_connect_leaves_nothing:
  assumes "async_ca2 at d (k, c) = Some (r, (k', c'))" "k_socks k (k_next k) = None"
    and "filter_interrupt (at_connect at) = Some ((ret, e), rest)" "ret = 0 \<or> e \<noteq> EINPROGRESS"
  shows "isl r \<and> k_socks k' = k_socks k \<and> c' = c"
proof -
  have n: "async_connect (at\<lparr>at_register := x\<rparr>) = Some (Inl (if ret = 0 then 0 else e), False)" for x
    using assms(3,4) by (auto simp: async_connect_def)
  show ?thesis using assms(1,2)
    by (auto simp: async_ca2_def connect_dev_def n Let_def ensec_exp_def sys_socket_def syscall_def ensec_bool_def close_fd_def
        fun_upd_idem split: prod.splits sum.splits option.splits list.splits if_splits)
qed

text \<open>A connection that was established is never reported: \<^verbatim>\<open>ca2_dyn\<close> has a defined result only when it fails.\<close>

lemma ca2_dyn_success_undefined:
  assumes "async_connect a = Some (Inr (), d)"
  shows "ca2_dyn (Try a # as) = Some FlowsOff"
  using ca2_success_flows_off [OF assms] by (simp add: ca2_dyn_def a2_dyn_def)

end
