(* ===== verification/Http_Exchange.thy ===== *)
theory Http_Exchange
  imports Http_Client Http_Server Asio_Socket
begin

text \<open>
  A request and its answer, from end to end: \<^verbatim>\<open>HttpClient::get\<close> (\<^verbatim>\<open>src/asio/http.cpp\<close>), with the resolver of the
  system as a parameter and the attempts to connect as in theory \<^verbatim>\<open>Net_Connect\<close>, and what it does on a connection, against
  the connection loop of theory \<^verbatim>\<open>Http_Server\<close>.  What the client writes is what the server reads, cut in any way, and what
  the server writes is what the client reads, cut in any way.  The theorem shows that the client gets exactly the
  answer of the service to its path and query.  It starts with the connection, because the way of \<^verbatim>\<open>get\<close> to it is
  undefined: the coroutine that connects has no result when it succeeds.
\<close>

section \<open>The client\<close>

text \<open>How \<^verbatim>\<open>get\<close> ends: an error with its text, an error of the resolver, undefined behaviour, no return, or the
  response with the connection.\<close>

datatype get_end = GetFails errc string | GaiFails int | ConnFails code string | Undefined | Suspends
  | Answered "status_line message" reader "char tx"

definition get_exchange :: "request_builder \<Rightarrow> char tx \<Rightarrow> reader \<Rightarrow> get_end" where
  "get_exchange b d rd =
     (case rb_write b d of
        None \<Rightarrow> Suspends
      | Some (Some e, _, _) \<Rightarrow> GetFails e ''Failed to write request''
      | Some (None, _, d1) \<Rightarrow>
          (case read status_line_parse (message_new status_line_new) rd of
             (Some e, _, _) \<Rightarrow> GetFails e ''Failed to read response''
           | (None, m, r) \<Rightarrow> Answered m r d1))"

definition get_error_text :: "errc \<Rightarrow> string" where
  "get_error_text e = (if e = not_supported then ''Only http and https are supported'' else ''Invalid URL'')"

text \<open>\<^verbatim>\<open>get\<close> up to the connection: \<open>attempts\<close> is what connecting to the addresses meets.  When an attempt succeeds the behaviour is
  undefined; the code means to go on with \<^term>\<open>get_exchange\<close>.\<close>

definition client_get ::
    "(string option \<Rightarrow> string \<Rightarrow> hints \<Rightarrow> int \<times> 'a list) \<Rightarrow> ('a list \<Rightarrow> address list) \<Rightarrow> string \<Rightarrow> get_end" where
  "client_get gai attempts url =
     (case http_get url of
        GetError e \<Rightarrow> GetFails e (get_error_text e)
      | GetUnreachable \<Rightarrow> Undefined
      | GetHangs \<Rightarrow> Suspends
      | GetSend name port b \<Rightarrow>
          (case getaddrinfo_name gai [TcpIp] name port AI_ADDRCONFIG of
             None \<Rightarrow> Undefined
           | Some (Inl e) \<Rightarrow> GaiFails e
           | Some (Inr ais) \<Rightarrow>
               (case ca2_dyn (attempts ais) of
                  None \<Rightarrow> Suspends
                | Some (ConnErr c) \<Rightarrow> ConnFails c ''Failed to connect''
                | Some FlowsOff \<Rightarrow> Undefined)))"

text \<open>So \<^verbatim>\<open>get\<close> never has an answer by the rules of the language.\<close>

lemma client_get_no_answer: "client_get gai attempts url \<noteq> Answered m r d"
  by (auto simp: client_get_def split: get_out.split option.split sum.split conn_out.split)

section \<open>What the server reads\<close>

definition get_headers :: "absolute_uri \<Rightarrow> (string \<times> string) list" where
  "get_headers u = [(''Host'', au_host u), (''User-Agent'', API_VERSION), (''Accept'', ''*/*'')]"

definition target_path :: "string \<Rightarrow> string" where
  "target_path p = (if p = [] then ''/'' else p)"

definition get_target_text :: "absolute_uri \<Rightarrow> string" where
  "get_target_text u = (if au_path u = [] then ''/'' else []) @ origin_form u"

lemma get_text_eq:
  "get_text u @ CRLF = method_to_string_view GET @ SP # get_target_text u @ SP # version_to_string_view HTTP_1_1 @ CRLF @
     print_headers (get_headers u) @ CRLF @ []"
proof -
  have m: "method_to_string_view GET = ''GET''" "version_to_string_view HTTP_1_1 = ''HTTP/1.1''" by code_simp+
  show ?thesis unfolding m by (simp add: get_text_def get_target_text_def get_headers_def print_headers_def)
qed

text \<open>The path and query of the URL as a client encodes them.\<close>

definition url_encodes :: "absolute_uri \<Rightarrow> char set \<Rightarrow> string \<Rightarrow> string \<Rightarrow> bool" where
  "url_encodes u keep p q \<longleftrightarrow> safe_keep keep \<and> au_path u = encode keep p \<and> au_query u = encode keep q \<and>
     (p = [] \<or> hd p = CHR ''/'') \<and> length (origin_form u) < 4000"

lemma encode_empty: "encode keep s = [] \<longleftrightarrow> s = []"
  by (cases s) (auto simp: encode_def pct_def)

lemma target_stored:
  assumes "url_encodes u keep p q"
  shows "\<exists>l1. store_target (get_target_text u) l = (ok, l1) \<and> stored keep (target_path p) q l l1"
proof (rule store_target_parts [of keep])
  show "safe_keep keep" using assms by (simp add: url_encodes_def)
  then have s: "encode keep ''/'' = ''/''" by (simp add: safe_keep_def encode_def)
  show "target_path p \<noteq> []" "hd (target_path p) = CHR ''/''" using assms by (auto simp: target_path_def url_encodes_def)
  show "get_target_text u = encode keep (target_path p) \<and> q = [] \<or> get_target_text u = encode keep (target_path p) @ CHR ''?'' # encode keep q"
    using assms s by (cases "q = []"; cases "p = []") (auto simp: get_target_text_def origin_form_def target_path_def url_encodes_def encode_empty)
qed

lemma target_plain:
  assumes "url_encodes u keep p q"
  shows "SP \<notin> set (get_target_text u)" "CR \<notin> set (get_target_text u)" "length (get_target_text u) \<le> 4000"
proof -
  have k: "safe_keep keep" using assms by (simp add: url_encodes_def)
  show "SP \<notin> set (get_target_text u)" "CR \<notin> set (get_target_text u)" "length (get_target_text u) \<le> 4000"
    using assms encode_safe [OF k] by (auto simp: get_target_text_def origin_form_def url_encodes_def)
qed

lemma server_reads_get:
  assumes "url_encodes u keep p q" "header_ok (''Host'', au_host u)" "path_stays keep (target_path p) q l"
  shows "\<exists>l'. spec_head request_line_parse l (get_text u @ CRLF) = Done (l', get_headers u) [] \<and>
    rl_method l' = GET \<and> reads (rl_path l') = Some (target_path p) \<and> reads (rl_query l') = Some q \<and> reads (rl_version l') = Some ''HTTP/1.1''"
proof -
  obtain l1 where st: "store_target (get_target_text u) ((lose InBlocks l)\<lparr>rl_method := GET\<rparr>) = (ok, l1)"
    and l1: "stored keep (target_path p) q ((lose InBlocks l)\<lparr>rl_method := GET\<rparr>) l1"
    using target_stored [OF assms(1)] by blast
  have m: "method_is_valid GET" "plain_version HTTP_1_1" "version_to_string_view HTTP_1_1 = ''HTTP/1.1''"
    by (simp_all add: method_is_valid_def method_code_def methods_def HTTP_METHOD_COUNT_def plain_version_def HTTP_VERSION_STR_def)
  have h: "list_all header_ok (get_headers u)"
    using assms(2) by (simp add: get_headers_def header_ok_def API_VERSION_def HTTP_BUFFER_BLOCK_SIZE_def)
  from spec_head_request [OF m(1,2) h target_plain [OF assms(1)] st, of "[]"] l1 assms(3) show ?thesis
    unfolding get_text_eq m(3) by (auto simp: stored_def)
qed

section \<open>The answer\<close>

text \<open>A response that the head reader of the client can take.\<close>

definition response_ok :: "response \<Rightarrow> bool" where
  "response_ok rs \<longleftrightarrow> (let p = rs_part rs in
     plain_version (version p) \<and> status_code p \<in> set status_codes \<and> CR \<notin> set (status_message p) \<and>
     length (status_message p) \<le> 4000 \<and> list_all header_ok (shm_entries (part_headers p)) \<and> shm_inv (part_headers p))"

definition is_answer :: "response \<Rightarrow> status_line message \<Rightarrow> reader \<Rightarrow> bool" where
  "is_answer rs m r \<longleftrightarrow>
     line m = \<lparr>sl_version = version_to_string_view (version (rs_part rs)), sl_status_code = status_code (rs_part rs),
               sl_status_message = status_message (rs_part rs)\<rparr> \<and>
     get_header m = map_of (printed_headers (rs_part rs)) \<and> pending m r = rs_raw rs"

lemma client_reads_response:
  assumes "response_ok rs" "[] \<notin> set cs" "concat cs = response_text rs"
  shows "\<exists>m r. read status_line_parse (message_new l) \<lparr>chunks = cs, at_end = e\<rparr> = (ok, m, r) \<and> is_answer rs m r"
proof -
  let ?p = "rs_part rs" and ?r = "\<lparr>chunks = cs, at_end = e\<rparr>"
  obtain ec m r where rd: "read status_line_parse (message_new l) ?r = (ec, m, r)" using prod_cases3 by blast
  have a: "plain_version (version ?p)" "status_code ?p \<in> set status_codes" "CR \<notin> set (status_message ?p)"
    "length (status_message ?p) \<le> 4000" "list_all header_ok (shm_entries (part_headers ?p))" "shm_inv (part_headers ?p)"
    using assms(1) by (simp_all add: response_ok_def Let_def)
  have "reader_ok ?r" using assms(2) by (simp add: reader_ok_def)
  then show ?thesis
    using response_head.read_spec [OF msg_wf_new _ rd] spec_head_response [OF a(1-5), of l "rs_raw rs"] rd assms(3)
      printed_headers_rev [OF a(6)]
    by (simp add: is_answer_def response_text_def)
qed

lemma conn_text_single:
  assumes "spec_head request_line_parse l bs = Done (l', hs) []" "map_of (rev hs) ''Connection'' \<noteq> Some ''close''" "0 < fuel"
  shows "conn_text fuel ans dates k l bs = response_text (ans l' (map_of (rev hs)) (dates k))"
proof -
  have e: "spec_head request_line_parse x [] = Incomplete" for x
    by (simp add: spec_head_def spec_line_def HTTP_BUFFER_BLOCK_SIZE_def)
  obtain n where n: "fuel = Suc n" using assms(3) gr0_implies_Suc by blast
  have "conn_text n ans dates (k + 1) l' [] = []" by (cases n) (simp_all add: e)
  then show ?thesis using assms(1,2) unfolding n by (simp add: Let_def)
qed

lemma paths_readable_single:
  assumes "spec_head request_line_parse l bs = Done (l', hs) []" "reads (rl_path l') \<noteq> None"
  shows "paths_readable fuel l bs"
proof -
  have e: "spec_head request_line_parse x [] = Incomplete" for x
    by (simp add: spec_head_def spec_line_def HTTP_BUFFER_BLOCK_SIZE_def)
  have "paths_readable n l' []" for n by (cases n) (simp_all add: e)
  then show ?thesis using assms by (cases fuel) simp_all
qed

lemma get_headers_no_close: "map_of (rev (get_headers u)) ''Connection'' = None"
  by (simp add: get_headers_def)

lemma get_written:
  assumes "absolute_uri_match url = Some u" "http_get url = GetSend name port b" "url_encodes u keep p q" "header_ok (''Host'', au_host u)"
    and "rb_write b d = Some (ok, b', d')" "steady_tx d" "tx_wire d = []"
  shows "tx_wire d' = get_text u @ CRLF"
proof -
  have sh: "short (origin_form u)" "short (au_host u)"
    using assms(3,4) by (simp_all add: url_encodes_def header_ok_def short_def HTTP_BUFFER_BLOCK_SIZE_def)
  obtain b0 where b0: "get_request u = Some b0" "rb_inv b0" "rb_text b0 = get_text u" using get_request_text [OF sh] by blast
  have "b = b0" using assms(1,2) b0(1) by (auto simp: http_get_def split: if_splits)
  with rb_write_delivers [OF _ assms(5,6)] b0 show ?thesis using assms(7) by (auto simp: rb_to_string_def)
qed

text \<open>C2. A request and its answer: let \<^verbatim>\<open>get\<close> have built its request for a URL whose path and query are percent-encoded, let it be
  on a connection that takes the whole request, and let the bytes reach, cut into any chunks, a server that answers
  every request from its line, headers and date, on a device that accepts bytes; let the path stay readable on the server
  while the query is decoded (nothing of it is escaped, or the buffer of decoded fields has room).  Then the server closes the
  connection after one response, its service was asked for GET with the decoded path and query and the client's
  headers, and, however the bytes of the response are cut, the client returns with exactly the status, the headers and
  the body of that answer.\<close>

theorem client_gets_answer:
  assumes "absolute_uri_match url = Some u" "http_get url = GetSend name port b" "url_encodes u keep p q" "header_ok (''Host'', au_host u)"
    and "rb_write b d = Some (ok, b', d')" "steady_tx d" "tx_wire d = []"
    and "[] \<notin> set cs" "concat cs = tx_wire d'" "length (tx_wire d') < fuel"
    and "answers s ans" "open_tx sd" "tx_wire sd = []"
    and "\<And>l hm. response_ok (ans l hm (dates 0)) \<and> length (response_text (ans l hm (dates 0))) \<le> length (tx_script sd)"
    and "path_stays keep (target_path p) q request_line_new"
  shows "\<exists>l sd'. imm_serve_connection fuel s dates \<lparr>chunks = cs, at_end = e\<rparr> sd = Closed sd' \<and>
    rl_method l = GET \<and> reads (rl_path l) = Some (target_path p) \<and> reads (rl_query l) = Some q \<and>
    tx_wire sd' = response_text (ans l (map_of (get_headers u)) (dates 0)) \<and>
    (\<forall>cs'. [] \<notin> set cs' \<longrightarrow> concat cs' = tx_wire sd' \<longrightarrow>
      (\<exists>m r. get_exchange b d \<lparr>chunks = cs', at_end = e'\<rparr> = Answered m r d' \<and>
        is_answer (ans l (map_of (get_headers u)) (dates 0)) m r))"
proof -
  have w: "tx_wire d' = get_text u @ CRLF" by (rule get_written [OF assms(1-7)])
  obtain l' where l': "spec_head request_line_parse request_line_new (get_text u @ CRLF) = Done (l', get_headers u) []"
    "rl_method l' = GET" "reads (rl_path l') = Some (target_path p)" "reads (rl_query l') = Some q"
    using server_reads_get [OF assms(3,4,15)] by blast
  have rv: "map_of (rev (get_headers u)) = map_of (get_headers u)" by (auto simp: get_headers_def fun_eq_iff)
  let ?rs = "ans l' (map_of (get_headers u)) (dates 0)"
  have ct: "conn_text fuel ans dates 0 request_line_new (concat cs) = response_text ?rs"
    using conn_text_single [OF l'(1), of fuel ans dates 0] get_headers_no_close [of u] assms(9,10) w rv by simp
  have pr: "paths_readable fuel request_line_new (concat cs)"
    using paths_readable_single [OF l'(1)] l'(3) assms(9) w by simp
  have "reader_ok \<lparr>chunks = cs, at_end = e\<rparr>" using assms(8) by (simp add: reader_ok_def)
  from serve_spec [OF assms(11) msg_wf_new this assms(12), of fuel dates 0 request_line_new] obtain sd' where
    sd': "imm_serve_connection fuel s dates \<lparr>chunks = cs, at_end = e\<rparr> sd = Closed sd'" "tx_wire sd' = response_text ?rs"
    using ct pr assms(9,10,13,14) by (auto simp: imm_serve_connection_def)
  have "\<exists>m r. get_exchange b d \<lparr>chunks = cs', at_end = e'\<rparr> = Answered m r d' \<and> is_answer ?rs m r"
    if "[] \<notin> set cs'" "concat cs' = tx_wire sd'" for cs'
    using client_reads_response [of ?rs cs' status_line_new e'] that sd'(2) assms(5,14)
    by (auto simp: get_exchange_def)
  then show ?thesis using sd' l'(2-4) by blast
qed

lemma not_found_ok:
  "response_ok (not_found_answer l hm ''now'')" "length (response_text (not_found_answer l hm ''now'')) = 54"
  "status_code (rs_part (not_found_answer l hm ''now'')) = 404" "rs_raw (not_found_answer l hm ''now'') = []"
proof -
  have e: "not_found_answer l hm ''now'' = not_found_answer request_line_new Map.empty ''now''" by (simp add: not_found_answer_def)
  show "length (response_text (not_found_answer l hm ''now'')) = 54" unfolding e by code_simp
  show "status_code (rs_part (not_found_answer l hm ''now'')) = 404" "rs_raw (not_found_answer l hm ''now'') = []"
    unfolding e by code_simp+
  show "response_ok (not_found_answer l hm ''now'')"
    by (simp add: response_ok_def not_found_answer_def check_and_add_date_def response_builder_def response_part_def part_emplace_def
        shm_new_def shm_contains_def shm_emplace_def plain_version_def status_codes_def shm_entries_eq header_ok_def shm_inv_def
        inline_capacity_def key_buffer_size_def value_buffer_size_def HTTP_BUFFER_BLOCK_SIZE_def)
qed

text \<open>The request for \<^verbatim>\<open>http://a/\<close>, answered by a service without routes.\<close>

theorem client_gets_answer_witness:
  "\<exists>name port b m r d'. http_get ''http://a/'' = GetSend name port b \<and>
    get_exchange b one_write \<lparr>chunks = [response_text (not_found_answer request_line_new Map.empty ''now'')], at_end = not_connected\<rparr>
      = Answered m r d' \<and>
    sl_status_code (line m) = 404 \<and> pending m r = []"
proof -
  let ?sd = "\<lparr>tx_wire = [], tx_script = replicate 54 (Ret 1)\<rparr>" and ?rs = "not_found_answer request_line_new Map.empty ''now''"
  obtain name port b b' d' where r: "absolute_uri_match ''http://a/'' = Some root_uri" "http_get ''http://a/'' = GetSend name port b"
    "rb_write b one_write = Some (ok, b', d')" using root_request by blast
  have u: "url_encodes root_uri {CHR ''/''} ''/'' []" "header_ok (''Host'', au_host root_uri)"
    using safe_slash by (simp_all add: url_encodes_def root_uri_def encode_def origin_form_def header_ok_def HTTP_BUFFER_BLOCK_SIZE_def)
  have "tx_wire d' = get_text root_uri @ CRLF" using get_written [OF r(1,2) u r(3) one_write_steady] .
  then have w: "[] \<notin> set [tx_wire d']" "concat [tx_wire d'] = tx_wire d'" "length (tx_wire d') < 100" by (simp_all add: root_text)
  have sd: "open_tx ?sd" "tx_wire ?sd = []" by (simp_all add: open_tx_def list_all_iff)
  have last: "response_ok (not_found_answer l hm ''now'') \<and> length (response_text (not_found_answer l hm ''now'')) \<le> length (tx_script ?sd)" for l hm
    by (simp add: not_found_ok)
  obtain l and sd' :: "char tx" where s: "tx_wire sd' = response_text (not_found_answer l (map_of (get_headers root_uri)) ''now'')"
    "\<forall>cs'. [] \<notin> set cs' \<longrightarrow> concat cs' = tx_wire sd' \<longrightarrow> (\<exists>m r. get_exchange b one_write \<lparr>chunks = cs', at_end = not_connected\<rparr>
       = Answered m r d' \<and> is_answer (not_found_answer l (map_of (get_headers root_uri)) ''now'') m r)"
    using client_gets_answer [where dates = "\<lambda>_. ''now''" and e = not_connected and e' = not_connected,
      OF r(1,2) u r(3) one_write_steady w service_new_answers sd last path_stays_no_query [of "{CHR ''/''}" "target_path ''/''"]] by blast
  have "tx_wire sd' = response_text ?rs" using s(1) by (simp add: not_found_answer_def)
  moreover have "response_text ?rs \<noteq> []" by (simp add: response_text_def to_string_nonempty)
  ultimately have "\<exists>m r. get_exchange b one_write \<lparr>chunks = [response_text ?rs], at_end = not_connected\<rparr>
       = Answered m r d' \<and> is_answer (not_found_answer l (map_of (get_headers root_uri)) ''now'') m r"
    using spec [OF s(2), of "[response_text ?rs]"] by simp
  then show ?thesis using r(2) by (auto simp: is_answer_def not_found_ok)
qed

end
