(* ===== verification/Http_Connection.thy ===== *)
theory Http_Connection
  imports Http_Server Asio_Socket
begin

text \<open>
  The life of a served connection (\<^verbatim>\<open>include/xsl/asio/http/conn.h\<close>): the socket accepted becomes a device, the
  connection loop of theory \<^verbatim>\<open>Http_Server\<close> runs over it, the device is deregistered, and the guard that kept
  it alive lets it go.  The poller holds a reference of its own, so the descriptor is closed only because the device is
  deregistered.  The lemmas show that a connection whose loop has ended leaves neither a socket nor an entry in the poller,
  whatever happened on the poller while it was served, and that without the deregistration its socket
  would stay open.  That the loop ends is the subject of theory \<^verbatim>\<open>Http_Server\<close>; after a hang-up it may wait for ever for a
  signal, see theory \<^verbatim>\<open>Io_Context\<close>.
\<close>

section \<open>Handles of a device\<close>

text \<open>The last handle of a device outside the poller goes: the device is destroyed, and its descriptor with it, unless the
  table of the poller holds it.\<close>

definition release_device :: "nat \<Rightarrow> ('a, 'h) world \<Rightarrow> ('a, 'h) world" where
  "release_device d w =
     (case ic_devices (snd w) d of
        None \<Rightarrow> w
      | Some x \<Rightarrow> if d \<in> snd ` set (ic_handlers (snd w)) then w else (close_fd (dv_raw x) (fst w), drop_device d (snd w)))"

section \<open>Serving\<close>

text \<open>The end of \<^verbatim>\<open>imm_serve_connection\<close>: when the loop is over the device is deregistered; \<open>c\<close> is the poller as it is then.\<close>

definition serve_and_deregister ::
    "nat \<Rightarrow> service \<Rightarrow> (nat \<Rightarrow> string) \<Rightarrow> nat \<Rightarrow> reader \<Rightarrow> char tx \<Rightarrow> 'h io_sys \<Rightarrow> conn_end \<times> 'h io_sys" where
  "serve_and_deregister fuel s dates d rd tx c =
     (let e = imm_serve_connection fuel s dates rd tx in (e, case e of Closed _ \<Rightarrow> deregister d c | _ \<Rightarrow> c))"

text \<open>\<^verbatim>\<open>serve_connection\<close>: the device moves into an \<^verbatim>\<open>ArgGuard\<close> and is released after the task.  A task that has not ended keeps it.\<close>

definition serve_connection ::
    "nat \<Rightarrow> service \<Rightarrow> (nat \<Rightarrow> string) \<Rightarrow> nat \<Rightarrow> reader \<Rightarrow> char tx \<Rightarrow> ('a, 'h) world \<Rightarrow> conn_end \<times> ('a, 'h) world" where
  "serve_connection fuel s dates d rd tx w =
     (let (e, c1) = serve_and_deregister fuel s dates d rd tx (snd w)
      in (e, case e of Closed _ \<Rightarrow> release_device d (fst w, c1) | _ \<Rightarrow> (fst w, c1)))"

section \<open>Lemmas\<close>

text \<open>Operations of other connections and of the poller itself: they set up other devices, and none deregisters this one or
  takes over its name.\<close>

fun op_spares :: "nat \<Rightarrow> 'h io_op \<Rightarrow> bool" where
  "op_spares d (Init d' fd ks) \<longleftrightarrow> d' \<noteq> d"
| "op_spares d (Dereg d') \<longleftrightarrow> d' \<noteq> d"
| "op_spares d _ \<longleftrightarrow> True"

text \<open>The descriptor of a device and whether it is bound; every entry of the table names a device with its descriptor.\<close>

definition binding :: "nat \<Rightarrow> 'h io_sys \<Rightarrow> (nat \<times> bool) option" where
  "binding d c = map_option (\<lambda>x. (dv_raw x, dv_bound x)) (ic_devices c d)"

definition table_ok :: "'h io_sys \<Rightarrow> bool" where
  "table_ok c \<longleftrightarrow> (\<forall>fd d. (fd, d) \<in> set (ic_handlers c) \<longrightarrow> (\<exists>b. binding d c = Some (fd, b)))"

lemma table_ok_mono:
  assumes "table_ok c" "set (ic_handlers c') \<subseteq> set (ic_handlers c)" "\<And>d. map_option fst (binding d c') = map_option fst (binding d c)"
  shows "table_ok c'"
  unfolding table_ok_def
proof (intro allI impI)
  fix fd d
  assume "(fd, d) \<in> set (ic_handlers c')"
  then obtain b where "binding d c = Some (fd, b)" using assms(1,2) unfolding table_ok_def by blast
  then have "map_option fst (binding d c') = Some fd" using assms(3) [of d] by simp
  then show "\<exists>b. binding d c' = Some (fd, b)" by auto
qed

lemma epoll_handle_binding: "dv_raw (snd (snd (epoll_handle ev x))) = dv_raw x" "dv_bound (snd (snd (epoll_handle ev x))) = dv_bound x"
  by (simp_all add: epoll_handle_def Let_def case_prod_beta)

lemma binding_ctl [simp]:
  "binding d (c\<lparr>ic_interest := i\<rparr>) = binding d c" "binding d (c\<lparr>ic_handlers := hs\<rparr>) = binding d c"
  "binding d (c\<lparr>ic_open := b\<rparr>) = binding d c"
  by (simp_all add: binding_def)

lemma poll_one_binding: "binding d (snd (poll_one e c)) = binding d c \<and> set (ic_handlers (snd (poll_one e c))) \<subseteq> set (ic_handlers c)"
  using epoll_handle_binding
  by (auto simp: poll_one_def ic_remove_def table_erase_def binding_def Let_def case_prod_beta split: option.split)

lemma poll_batch_binding:
  "binding d (snd (poll_batch es c)) = binding d c \<and> set (ic_handlers (snd (poll_batch es c))) \<subseteq> set (ic_handlers c)"
proof (induction es arbitrary: c)
  case (Cons e es)
  show ?case using Cons.IH [of "snd (poll_one e c)"] poll_one_binding [of d e c] by (auto simp: Let_def case_prod_beta)
qed simp

lemma await_binding: "binding d (snd (dv_await d' k h c)) = binding d c \<and> ic_handlers (snd (dv_await d' k h c)) = ic_handlers c"
  by (auto simp: dv_await_def set_signals_def binding_def Let_def case_prod_beta split: option.split)

lemma release_binding: "dv_raw (snd (release_domain mine x)) = dv_raw x" "dv_bound (snd (release_domain mine x)) = dv_bound x"
  by (simp_all add: release_domain_def case_prod_beta)

lemma notify_binding: "dv_raw (snd (shutdown_notify x)) = dv_raw x" "dv_bound (snd (shutdown_notify x)) = dv_bound x"
  by (simp_all add: shutdown_notify_def case_prod_beta)

lemma cancel_binding: "binding d (snd (cancel_contexts c)) = binding d c \<and> ic_handlers (snd (cancel_contexts c)) = ic_handlers c"
  using each_device_spec [of "release_domain (ic_domain c)" "ic_names c" "c\<lparr>ic_cancelled := True\<rparr>" d, OF release_idem]
  by (simp add: cancel_contexts_def binding_def option.map_comp comp_def release_binding)

lemma shutdown_binding: "binding d (snd (ic_shutdown c)) = binding d c \<and> set (ic_handlers (snd (ic_shutdown c))) \<subseteq> set (ic_handlers c)"
proof (cases "ic_open c")
  case True
  let ?c = "snd (cancel_contexts (c\<lparr>ic_stopped := True\<rparr>))"
  have "binding d (snd (notify_all (ic_handlers c) ?c)) = binding d ?c"
    using notify_devices [of "ic_handlers c" ?c d] by (simp add: binding_def option.map_comp comp_def notify_binding)
  also have "\<dots> = binding d c" using cancel_binding [of d "c\<lparr>ic_stopped := True\<rparr>"] by (simp add: binding_def)
  finally show ?thesis unfolding shutdown_eq [OF True] by simp
qed (simp add: ic_shutdown_def)

lemma init_binding:
  assumes "ic_devices c d' = None"
  shows "d' \<noteq> d \<Longrightarrow> binding d (io_exec (Init d' fd ks) c) = binding d c" "table_ok c \<Longrightarrow> table_ok (io_exec (Init d' fd ks) c)"
proof -
  show "d' \<noteq> d \<Longrightarrow> binding d (io_exec (Init d' fd ks) c) = binding d c"
    using assms by (auto simp: init_async_device_def ic_add_def binding_def Let_def)
  show "table_ok c \<Longrightarrow> table_ok (io_exec (Init d' fd ks) c)"
    using assms by (auto simp: init_async_device_def ic_add_def table_ok_def table_put_def binding_def Let_def) force
qed

lemma deregister_table: "table_ok c \<Longrightarrow> table_ok (deregister d c)"
  by (erule table_ok_mono) (auto simp: deregister_def ic_remove_def table_erase_def binding_def split: option.split)

lemmas kept_bindings = poll_batch_binding await_binding cancel_binding shutdown_binding

lemma op_keeps:
  assumes "table_ok c"
  shows "table_ok (io_exec p c)" "op_spares d p \<Longrightarrow> binding d (io_exec p c) = binding d c"
proof -
  show "table_ok (io_exec p c)"
  proof (cases p)
    case (Init d' fd ks)
    then show ?thesis using init_binding(2) [OF _ assms, of d' fd ks] assms by (cases "ic_devices c d'") auto
  next
    case (Dereg d')
    then show ?thesis using deregister_table [OF assms] by simp
  qed (use assms in \<open>auto intro!: table_ok_mono [OF assms] simp: kept_bindings dest!: subsetD [OF conjunct2 [OF poll_batch_binding]]
      subsetD [OF conjunct2 [OF shutdown_binding]]\<close>)
  show "binding d (io_exec p c) = binding d c" if "op_spares d p"
  proof (cases p)
    case (Init d' fd ks)
    then show ?thesis using init_binding(1) [of c d' d fd ks] that by (cases "ic_devices c d'") auto
  next
    case (Dereg d')
    then show ?thesis using that by (auto simp: deregister_def ic_remove_def binding_def split: option.split)
  qed (simp_all add: kept_bindings)
qed

lemma ops_keep:
  "table_ok c \<Longrightarrow> list_all (op_spares d) ops \<Longrightarrow> table_ok (fold io_exec ops c) \<and> binding d (fold io_exec ops c) = binding d c"
  by (induction ops arbitrary: c) (auto simp: op_keeps)

text \<open>A device that is deregistered and released is gone, its descriptor is closed, and nothing else has changed.\<close>

lemma deregister_release:
  assumes "table_ok c" "binding d c = Some (fd, True)" "release_device d (k, deregister d c) = (k', c')"
  shows "k' = close_fd fd k \<and> ic_devices c' = (ic_devices c)(d := None) \<and> ic_interest c' = (ic_interest c)(fd := None) \<and>
    ic_handlers c' = filter (\<lambda>e. fst e \<noteq> fd) (ic_handlers c) \<and> d \<notin> snd ` set (ic_handlers c')"
proof -
  obtain x where x: "ic_devices c d = Some x" "dv_raw x = fd" "dv_bound x" using assms(2) by (auto simp: binding_def)
  let ?c = "deregister d c"
  have e: "?c = c\<lparr>ic_interest := (ic_interest c)(fd := None), ic_handlers := filter (\<lambda>e. fst e \<noteq> fd) (ic_handlers c),
      ic_devices := (ic_devices c)(d \<mapsto> x\<lparr>dv_bound := False\<rparr>)\<rparr>"
    using x by (simp add: deregister_def ic_remove_def table_erase_def)
  have no: "d \<notin> snd ` set (filter (\<lambda>e. fst e \<noteq> fd) (ic_handlers c))"
    using assms(1,2) by (force simp: table_ok_def)
  then show ?thesis using assms(3) x(2) by (auto simp: release_device_def e drop_device_def)
qed

text \<open>Without the deregistration the poller would keep the device, and with it the descriptor.\<close>

lemma not_deregistered_stays_open:
  assumes "registered d fd c"
  shows "release_device d (k, c) = (k, c)"
proof -
  have "(fd, d) \<in> set (ic_handlers c)" using assms by (auto simp: registered_def dest: map_of_SomeD)
  then show ?thesis using assms by (force simp: release_device_def registered_def)
qed


definition accepted_kernel :: "nat kernel" where
  "accepted_kernel = \<lparr>k_socks = [3 \<mapsto> fresh_sock], k_next = 4, k_errs = []\<rparr>"


end
