(* ===== verification/Sync_Mutex.thy ===== *)
theory Sync_Mutex
  imports Net_Prelude
begin

text \<open>
  Guarded resources (\<^verbatim>\<open>include/xsl/sync/mutex.h\<close>): \<^verbatim>\<open>UnqRes\<close> with \<^verbatim>\<open>LockGuard\<close>, and \<^verbatim>\<open>ShardRes\<close> with \<^verbatim>\<open>LockGuard\<close> and
  \<^verbatim>\<open>ShardGuard\<close>.  A guard locks in its constructor, gives access to the value, and unlocks in its destructor.  The mutexes of the
  standard library are modelled by who holds them (a thread that takes a lock it has is undefined there); a lock that is not available cannot take its step.  Threads take
  steps in any order, and reading and writing the value are separate steps.  The lemmas show that updates
  under the exclusive guard behave as if they were applied one after the other, in the order in which they stored, and
  that the value does not change while a thread reads it under a shared guard; a shared guard used for writing loses
  an update.
\<close>

section \<open>Resources\<close>

text \<open>What a thread does: nothing, hold the exclusive guard before, between and after reading and storing with a
  function, or hold the shared guard with what it has read through it.\<close>

datatype 'v thread_pc = Idle | Locked "'v \<Rightarrow> 'v" | Loaded "'v \<Rightarrow> 'v" 'v | Stored | Sharing "'v list"

record 'v shard_res =
  sr_src :: 'v
  sr_owner :: "nat option"
  sr_sharers :: "nat set"

definition shard_res_new :: "'v \<Rightarrow> 'v shard_res" where
  "shard_res_new v = \<lparr>sr_src = v, sr_owner = None, sr_sharers = {}\<rparr>"

text \<open>The constructors of the guards; \<^term>\<open>None\<close> while the lock is not available.\<close>

definition lock_guard :: "nat \<Rightarrow> 'v shard_res \<Rightarrow> 'v shard_res option" where
  "lock_guard i r = (if sr_owner r = None \<and> sr_sharers r = {} then Some (r\<lparr>sr_owner := Some i\<rparr>) else None)"

definition lock_guard_end :: "'v shard_res \<Rightarrow> 'v shard_res" where
  "lock_guard_end r = r\<lparr>sr_owner := None\<rparr>"

definition shard_guard :: "nat \<Rightarrow> 'v shard_res \<Rightarrow> 'v shard_res option" where
  "shard_guard i r = (if sr_owner r = None then Some (r\<lparr>sr_sharers := insert i (sr_sharers r)\<rparr>) else None)"

definition shard_guard_end :: "nat \<Rightarrow> 'v shard_res \<Rightarrow> 'v shard_res" where
  "shard_guard_end i r = r\<lparr>sr_sharers := sr_sharers r - {i}\<rparr>"

text \<open>Access through a guard, by \<^verbatim>\<open>operator*\<close> and \<^verbatim>\<open>operator->\<close>.\<close>

definition guard_get :: "'v shard_res \<Rightarrow> 'v" where "guard_get r = sr_src r"

definition guard_set :: "'v \<Rightarrow> 'v shard_res \<Rightarrow> 'v shard_res" where "guard_set v r = r\<lparr>sr_src := v\<rparr>"

section \<open>Threads\<close>

record 'v lock_sys =
  ls_res :: "'v shard_res"
  ls_pc :: "nat \<Rightarrow> 'v thread_pc"
  ls_log :: "('v \<Rightarrow> 'v) list"

definition lock_sys_new :: "'v \<Rightarrow> 'v lock_sys" where
  "lock_sys_new v = \<lparr>ls_res = shard_res_new v, ls_pc = (\<lambda>_. Idle), ls_log = []\<rparr>"

definition goto :: "nat \<Rightarrow> 'v thread_pc \<Rightarrow> 'v shard_res \<Rightarrow> 'v lock_sys \<Rightarrow> 'v lock_sys" where
  "goto i p r s = s\<lparr>ls_res := r, ls_pc := (ls_pc s)(i := p)\<rparr>"

text \<open>\<open>UnqRes\<close> is the part with the exclusive guard only.  The log holds the functions stored with, in order.\<close>

inductive lock_step :: "'v lock_sys \<Rightarrow> 'v lock_sys \<Rightarrow> bool" where
  lock: "ls_pc s i = Idle \<Longrightarrow> lock_guard i (ls_res s) = Some r \<Longrightarrow> lock_step s (goto i (Locked f) r s)"
| load: "ls_pc s i = Locked f \<Longrightarrow> lock_step s (goto i (Loaded f (guard_get (ls_res s))) (ls_res s) s)"
| store: "ls_pc s i = Loaded f x \<Longrightarrow> lock_step s ((goto i Stored (guard_set (f x) (ls_res s)) s)\<lparr>ls_log := ls_log s @ [f]\<rparr>)"
| unlock: "ls_pc s i = Stored \<Longrightarrow> lock_step s (goto i Idle (lock_guard_end (ls_res s)) s)"
| lock_shared: "ls_pc s i = Idle \<Longrightarrow> shard_guard i (ls_res s) = Some r \<Longrightarrow> lock_step s (goto i (Sharing []) r s)"
| look: "ls_pc s i = Sharing vs \<Longrightarrow> lock_step s (goto i (Sharing (guard_get (ls_res s) # vs)) (ls_res s) s)"
| unlock_shared: "ls_pc s i = Sharing vs \<Longrightarrow> lock_step s (goto i Idle (shard_guard_end i (ls_res s)) s)"

fun exclusive :: "'v thread_pc \<Rightarrow> bool" where
  "exclusive (Locked f) = True"
| "exclusive (Loaded f x) = True"
| "exclusive Stored = True"
| "exclusive _ = False"

fun sharing :: "'v thread_pc \<Rightarrow> bool" where
  "sharing (Sharing vs) = True"
| "sharing _ = False"

text \<open>The invariant: the mutex knows exactly the guards that exist, an exclusive guard is alone, what was loaded or seen under a
  guard is still the value, and the value is the initial one with the logged functions applied in order.\<close>

definition lock_inv :: "'v \<Rightarrow> 'v lock_sys \<Rightarrow> bool" where
  "lock_inv v s \<longleftrightarrow>
     (\<forall>i. exclusive (ls_pc s i) \<longleftrightarrow> sr_owner (ls_res s) = Some i) \<and>
     (\<forall>i. i \<in> sr_sharers (ls_res s) \<longleftrightarrow> sharing (ls_pc s i)) \<and>
     (sr_owner (ls_res s) \<noteq> None \<longrightarrow> sr_sharers (ls_res s) = {}) \<and>
     (\<forall>i f x. ls_pc s i = Loaded f x \<longrightarrow> x = sr_src (ls_res s)) \<and>
     (\<forall>i vs x. ls_pc s i = Sharing vs \<longrightarrow> x \<in> set vs \<longrightarrow> x = sr_src (ls_res s)) \<and>
     sr_src (ls_res s) = fold (\<lambda>f. f) (ls_log s) v"

lemmas guard_defs = goto_def lock_guard_def lock_guard_end_def shard_guard_def shard_guard_end_def guard_get_def guard_set_def

lemma lock_inv_new: "lock_inv v (lock_sys_new v)"
  by (simp add: lock_inv_def lock_sys_new_def shard_res_new_def)

lemma nobody_shares: "lock_inv v s \<Longrightarrow> sr_owner (ls_res s) \<noteq> None \<Longrightarrow> \<not> sharing (ls_pc s j)"
  unfolding lock_inv_def by blast

lemma only_owner: "lock_inv v s \<Longrightarrow> exclusive (ls_pc s i) \<Longrightarrow> exclusive (ls_pc s j) \<Longrightarrow> i = j"
  unfolding lock_inv_def by (metis option.inject)

lemma lock_step_inv: "lock_step s s' \<Longrightarrow> lock_inv v s \<Longrightarrow> lock_inv v s'"
proof (induction rule: lock_step.induct)
  case (store s i f x)
  have e: "exclusive (ls_pc s i)" "x = sr_src (ls_res s)" using store by (auto simp: lock_inv_def)
  have "sr_owner (ls_res s) = Some i" using store.prems e(1) unfolding lock_inv_def by blast
  then have "\<not> sharing (ls_pc s j)" for j using nobody_shares [OF store.prems] by simp
  moreover have "j = i" if "exclusive (ls_pc s j)" for j using only_owner [OF store.prems that e(1)] .
  ultimately show ?case using store e(2) unfolding lock_inv_def guard_defs by (simp; metis sharing.simps(1) exclusive.simps(2))
next
  case (look s i vs)
  have "sr_owner (ls_res s) = None" using nobody_shares [OF look.prems, of i] look.hyps by fastforce
  then show ?case using look by (auto simp: lock_inv_def guard_defs)
next
  case (unlock_shared s i vs)
  have "sr_owner (ls_res s) = None" using nobody_shares [OF unlock_shared.prems, of i] unlock_shared.hyps by fastforce
  then show ?case using unlock_shared by (auto simp: lock_inv_def guard_defs)
qed (auto simp: lock_inv_def guard_defs split: if_splits)

lemma lock_steps_inv: "lock_step\<^sup>*\<^sup>* s s' \<Longrightarrow> lock_inv v s \<Longrightarrow> lock_inv v s'"
  by (induction rule: rtranclp_induct) (auto dest: lock_step_inv)

section \<open>What the guards promise\<close>

text \<open>No update is lost: whatever the threads do in whatever order, at most one of them holds the exclusive guard, nobody shares
  the resource meanwhile, and the value is the initial one with all stored updates applied one after the other.\<close>

lemma locked_updates_serialize:
  assumes "lock_step\<^sup>*\<^sup>* (lock_sys_new v) s"
  shows "sr_src (ls_res s) = fold (\<lambda>f. f) (ls_log s) v \<and>
    (\<forall>i j. exclusive (ls_pc s i) \<longrightarrow> exclusive (ls_pc s j) \<longrightarrow> i = j) \<and>
    (\<forall>i j. exclusive (ls_pc s i) \<longrightarrow> \<not> sharing (ls_pc s j))"
proof -
  note i = lock_steps_inv [OF assms lock_inv_new]
  then have "sr_owner (ls_res s) \<noteq> None" if "exclusive (ls_pc s k)" for k using that unfolding lock_inv_def by fastforce
  then show ?thesis using i only_owner [OF i] nobody_shares [OF i] unfolding lock_inv_def by blast
qed

text \<open>A reader under a shared guard sees one value, however often it looks.\<close>

lemma shared_reads_agree:
  assumes "lock_step\<^sup>*\<^sup>* (lock_sys_new v) s" "ls_pc s i = Sharing vs" "x \<in> set vs" "y \<in> set vs"
  shows "x = y"
  using lock_steps_inv [OF assms(1) lock_inv_new] assms(2-4) unfolding lock_inv_def by blast

text \<open>\<^verbatim>\<open>ShardGuard\<close> gives a reference that can be written through: two threads that hold shared guards and increment
  the value through them lose an increment.\<close>

lemma shared_writes_race:
  "\<exists>r1 r2. shard_guard 0 (shard_res_new 0) = Some r1 \<and> shard_guard 1 r1 = Some r2 \<and>
     (let x = guard_get r2; y = guard_get r2; r3 = guard_set (x + 1) r2; r4 = guard_set (y + 1) r3
      in sr_src (shard_guard_end 1 (shard_guard_end 0 r4)) = (1 :: int))"
  by (simp add: guard_defs shard_res_new_def Let_def)

end
