(* ===== verification/Handle_Owners.thy ===== *)
theory Handle_Owners
  imports Net_Connect "HOL-Library.Word"
begin

text \<open>
  Objects that own a handle: \<^verbatim>\<open>RawOwner\<close> (\<^verbatim>\<open>include/xsl/sys/raw.h\<close>), the list of addresses \<^verbatim>\<open>AddrInfos\<close> (\<^verbatim>\<open>include/xsl/sys/net/gai.h\<close>),
  the coroutine types \<^verbatim>\<open>Task\<close>, \<^verbatim>\<open>Detach\<close> and \<^verbatim>\<open>BlockShell\<close> (\<^verbatim>\<open>include/xsl/coro/core\<close>), and the parts of a \<^verbatim>\<open>LocalComposite\<close>
  (\<^verbatim>\<open>include/xsl/compose.h\<close>).  What they share is an interface: a handle is taken over by a new object, moved to another
  new object, and released by the destructor.  Its lemma says that a program of such steps releases every handle
  exactly as often as it was taken over, once all objects are gone; the classes are instances.  Beside it stand the
  operations that do not keep to it, with what they lose, the walk over a list of addresses, and the blocking mode of
  a descriptor.
\<close>

unbundle bit_operations_syntax

section \<open>The interface\<close>

datatype 'r own_op = New nat 'r | MoveTo nat nat | Drop nat

fun own_exec :: "(nat \<Rightarrow> 'r \<Rightarrow> 's \<Rightarrow> 's) \<Rightarrow> (nat \<Rightarrow> nat \<Rightarrow> 's \<Rightarrow> 's) \<Rightarrow> (nat \<Rightarrow> 's \<Rightarrow> 's) \<Rightarrow> 'r own_op \<Rightarrow> 's \<Rightarrow> 's" where
  "own_exec new move rel (New i r) s = new i r s"
| "own_exec new move rel (MoveTo i j) s = move i j s"
| "own_exec new move rel (Drop i) s = rel i s"

text \<open>A constructor makes an object that holds nothing yet.\<close>

fun own_ok :: "(nat \<Rightarrow> 'r option) \<Rightarrow> 'r own_op \<Rightarrow> bool" where
  "own_ok m (New i r) = (m i = None)"
| "own_ok m (MoveTo i j) = (m i = None)"
| "own_ok m (Drop i) = True"

primrec own_valid :: "('r own_op \<Rightarrow> 's \<Rightarrow> 's) \<Rightarrow> ('s \<Rightarrow> nat \<Rightarrow> 'r option) \<Rightarrow> 'r own_op list \<Rightarrow> 's \<Rightarrow> bool" where
  "own_valid step held [] s = True"
| "own_valid step held (x # xs) s = (own_ok (held s) x \<and> own_valid step held xs (step x s))"

fun taken :: "'r own_op list \<Rightarrow> 'r list" where
  "taken [] = []"
| "taken (New i r # ops) = r # taken ops"
| "taken (_ # ops) = taken ops"

definition holders :: "(nat \<Rightarrow> 'r option) \<Rightarrow> 'r \<Rightarrow> nat" where
  "holders m r = card {i. m i = Some r}"

lemma finite_holders: "finite (dom m) \<Longrightarrow> finite {i. m i = Some r}"
  by (rule finite_subset [of _ "dom m"]) auto

lemma holders_new:
  assumes "m i = None" "finite (dom m)"
  shows "holders (m(i \<mapsto> r)) x = holders m x + (if x = r then 1 else 0)"
proof -
  have "{j. (m(i \<mapsto> r)) j = Some x} = (if x = r then insert i {j. m j = Some x} else {j. m j = Some x})" using assms(1) by auto
  then show ?thesis using finite_holders [OF assms(2)] assms(1) by (simp add: holders_def)
qed

lemma holders_drop:
  assumes "finite (dom m)"
  shows "holders (m(i := None)) x + (if m i = Some x then 1 else 0) = holders m x"
proof (cases "m i = Some x")
  case True
  then have "{j. m j = Some x} = insert i {j. (m(i := None)) j = Some x}" by auto
  moreover have "i \<notin> {j. (m(i := None)) j = Some x}" "finite {j. (m(i := None)) j = Some x}"
    using finite_holders [of "m(i := None)"] assms by auto
  ultimately show ?thesis using True by (simp add: holders_def)
next
  case False
  then have "{j. (m(i := None)) j = Some x} = {j. m j = Some x}" by auto
  then show ?thesis using False by (simp add: holders_def)
qed

lemma holders_move:
  assumes "m i = None" "finite (dom m)"
  shows "holders (m(j := None, i := m j)) x = holders m x"
proof (cases "m j")
  case None
  then have "m(j := None, i := m j) = m" using assms(1) by auto
  then show ?thesis by simp
next
  case (Some r)
  have "(m(j := None)) i = None" "finite (dom (m(j := None)))" using assms by simp_all
  from holders_new [OF this, of r x] holders_drop [OF assms(2), of j x] Some show ?thesis by auto
qed

locale unique_owner =
  fixes held :: "'s \<Rightarrow> nat \<Rightarrow> 'r option" and freed :: "'s \<Rightarrow> 'r list" and new :: "nat \<Rightarrow> 'r \<Rightarrow> 's \<Rightarrow> 's"
    and move :: "nat \<Rightarrow> nat \<Rightarrow> 's \<Rightarrow> 's" and rel :: "nat \<Rightarrow> 's \<Rightarrow> 's"
  assumes new_law: "held (new i r s) = (held s)(i \<mapsto> r) \<and> freed (new i r s) = freed s"
    and move_law: "held (move i j s) = (held s)(j := None, i := held s j) \<and> freed (move i j s) = freed s"
    and drop_law: "held (rel i s) = (held s)(i := None) \<and>
      freed (rel i s) = freed s @ (case held s i of None \<Rightarrow> [] | Some r \<Rightarrow> [r])"
begin

lemma exec_accounts:
  assumes "own_ok (held s) x" "finite (dom (held s))"
  shows "finite (dom (held (own_exec new move rel x s))) \<and>
    count_list (freed (own_exec new move rel x s)) r + holders (held (own_exec new move rel x s)) r =
    count_list (freed s) r + holders (held s) r + count_list (taken [x]) r"
proof (cases x)
  case (New i v)
  then show ?thesis using assms holders_new [of "held s" i v r] by (simp add: new_law)
next
  case (MoveTo i j)
  then show ?thesis using assms holders_move [of "held s" i j r] by (simp add: move_law)
next
  case (Drop i)
  then show ?thesis using assms(2) holders_drop [OF assms(2), of i r] by (cases "held s i") (auto simp: drop_law)
qed

lemma taken_Cons: "taken (x # xs) = taken [x] @ taken xs"
  by (cases x) simp_all

lemma run_accounts:
  "own_valid (own_exec new move rel) held xs s \<Longrightarrow> finite (dom (held s)) \<Longrightarrow>
     count_list (freed (fold (own_exec new move rel) xs s)) r + holders (held (fold (own_exec new move rel) xs s)) r =
     count_list (freed s) r + holders (held s) r + count_list (taken xs) r"
proof (induction xs arbitrary: s)
  case (Cons x xs)
  have "own_ok (held s) x" using Cons.prems by simp
  from exec_accounts [OF this Cons.prems(2)] Cons.IH [of "own_exec new move rel x s"] Cons.prems
  show ?case by (subst taken_Cons) (simp add: count_list_append)
qed simp

text \<open>Every handle is released as often as it was taken over, and one that an object still holds has one release fewer.\<close>

lemma released_once:
  assumes "own_valid (own_exec new move rel) held xs s" "held s = Map.empty" "freed s = []"
  shows "count_list (taken xs) r = count_list (freed (fold (own_exec new move rel) xs s)) r + holders (held (fold (own_exec new move rel) xs s)) r"
  using run_accounts [OF assms(1), of r] assms(2,3) by (simp add: holders_def)

lemma all_released:
  assumes "own_valid (own_exec new move rel) held xs s" "held s = Map.empty" "freed s = []" "held (fold (own_exec new move rel) xs s) = Map.empty"
  shows "count_list (freed (fold (own_exec new move rel) xs s)) r = count_list (taken xs) r"
  using released_once [OF assms(1-3), of r] assms(4) by (simp add: holders_def)

end

section \<open>Descriptors\<close>

text \<open>The constructors of \<^verbatim>\<open>RawOwner\<close>; \<^verbatim>\<open>owner_move\<close> and \<^verbatim>\<open>owner_destroy\<close> are in theory \<^verbatim>\<open>Net_Connect\<close>.\<close>

definition owner_new :: "nat \<Rightarrow> nat \<Rightarrow> owners \<Rightarrow> owners" where
  "owner_new x fd w = w\<lparr>ow_fd := (ow_fd w)(x \<mapsto> fd)\<rparr>"

definition owner_valid :: "nat \<Rightarrow> owners \<Rightarrow> bool" where
  "owner_valid x w \<longleftrightarrow> ow_fd w x \<noteq> None"

interpretation raw: unique_owner ow_fd ow_closed owner_new owner_move owner_destroy
  by unfold_locales (auto simp: owner_new_def owner_move_def owner_destroy_def split: option.splits)

text \<open>\<^verbatim>\<open>set_blocking\<close>: the results of the two calls of \<^verbatim>\<open>fcntl\<close> with their error numbers; the flags that are set.\<close>

definition O_NONBLOCK :: "32 word" where "O_NONBLOCK = 0x800"

definition set_blocking :: "bool \<Rightarrow> int \<times> code \<Rightarrow> int \<times> code \<Rightarrow> code + 32 word" where
  "set_blocking blocking getfl setfl =
     (if fst getfl = -1 then Inl (snd getfl)
      else let flags = word_of_int (fst getfl); new = (if \<not> blocking then flags OR O_NONBLOCK else flags AND NOT O_NONBLOCK)
           in if fst setfl = -1 then Inl (snd setfl) else Inr new)"

text \<open>Only the one flag changes.\<close>

lemma set_blocking_flags:
  assumes "set_blocking blocking getfl setfl = Inr w"
  shows "bit w n \<longleftrightarrow> (if n = 11 then \<not> blocking else bit (word_of_int (fst getfl) :: 32 word) n)"
proof -
  have o: "bit O_NONBLOCK n \<longleftrightarrow> n = 11"
  proof -
    have "O_NONBLOCK = 2 ^ 11" by (simp add: O_NONBLOCK_def)
    then have "bit O_NONBLOCK n \<longleftrightarrow> bit (2 ^ 11 :: 32 word) n" by (rule arg_cong [of _ _ "\<lambda>w. bit w n"])
    then show ?thesis unfolding bit_exp_iff by auto
  qed
  show ?thesis using assms o by (cases "n < 32") (auto simp: set_blocking_def Let_def bit_simps split: if_splits)
qed

section \<open>Objects with one handle\<close>

record 'r slots =
  sl_held :: "nat \<Rightarrow> 'r option"
  sl_freed :: "'r list"

definition slots_new :: "'r slots" where "slots_new = \<lparr>sl_held = Map.empty, sl_freed = []\<rparr>"

definition slot_set :: "nat \<Rightarrow> 'r \<Rightarrow> 'r slots \<Rightarrow> 'r slots" where
  "slot_set i r s = s\<lparr>sl_held := (sl_held s)(i \<mapsto> r)\<rparr>"

text \<open>\<^verbatim>\<open>std::exchange(other.handle, {})\<close>\<close>

definition slot_exchange :: "nat \<Rightarrow> nat \<Rightarrow> 'r slots \<Rightarrow> 'r slots" where
  "slot_exchange i j s = s\<lparr>sl_held := (sl_held s)(j := None, i := sl_held s j)\<rparr>"

definition slot_free :: "nat \<Rightarrow> 'r slots \<Rightarrow> 'r slots" where
  "slot_free i s = (case sl_held s i of None \<Rightarrow> s | Some r \<Rightarrow> \<lparr>sl_held = (sl_held s)(i := None), sl_freed = sl_freed s @ [r]\<rparr>)"

interpretation slots: unique_owner sl_held sl_freed slot_set slot_exchange slot_free
  by unfold_locales (auto simp: slot_set_def slot_exchange_def slot_free_def split: option.splits)

abbreviation slot_step :: "'r own_op \<Rightarrow> 'r slots \<Rightarrow> 'r slots" where
  "slot_step \<equiv> own_exec slot_set slot_exchange slot_free"

text \<open>\<^verbatim>\<open>Task\<close>: its constructors and its destructor, which asserts that the coroutine has come to its end; \<^verbatim>\<open>then\<close> moves the handle
  into the awaiter it returns.\<close>

definition task_ctor :: "nat \<Rightarrow> 'f \<Rightarrow> 'f slots \<Rightarrow> 'f slots" where "task_ctor = slot_set"
definition task_move :: "nat \<Rightarrow> nat \<Rightarrow> 'f slots \<Rightarrow> 'f slots" where "task_move = slot_exchange"
definition task_dtor :: "nat \<Rightarrow> 'f slots \<Rightarrow> 'f slots" where "task_dtor = slot_free"

definition task_dtor_asserts :: "('f \<Rightarrow> bool) \<Rightarrow> nat \<Rightarrow> 'f slots \<Rightarrow> bool" where
  "task_dtor_asserts done i s \<longleftrightarrow> (case sl_held s i of None \<Rightarrow> True | Some f \<Rightarrow> done f)"

text \<open>\<^verbatim>\<open>Detach\<close>: the destructor asserts that nothing is held; the call hands the frame over to itself.\<close>

definition detach_ctor :: "nat \<Rightarrow> 'f \<Rightarrow> 'f slots \<Rightarrow> 'f slots" where "detach_ctor = slot_set"
definition detach_move :: "nat \<Rightarrow> nat \<Rightarrow> 'f slots \<Rightarrow> 'f slots" where "detach_move = slot_exchange"
definition detach_dtor :: "nat \<Rightarrow> 'f slots \<Rightarrow> 'f slots" where "detach_dtor = slot_free"

definition detach_dtor_asserts :: "nat \<Rightarrow> 'f slots \<Rightarrow> bool" where
  "detach_dtor_asserts i s \<longleftrightarrow> sl_held s i = None"

definition detach_call :: "nat \<Rightarrow> 'f slots \<Rightarrow> 'f option \<times> 'f slots" where
  "detach_call i s = (sl_held s i, s\<lparr>sl_held := (sl_held s)(i := None)\<rparr>)"

definition shell_ctor :: "nat \<Rightarrow> 'f \<Rightarrow> 'f slots \<Rightarrow> 'f slots" where "shell_ctor = slot_set"
definition shell_move :: "nat \<Rightarrow> nat \<Rightarrow> 'f slots \<Rightarrow> 'f slots" where "shell_move = slot_exchange"
definition shell_dtor :: "nat \<Rightarrow> 'f slots \<Rightarrow> 'f slots" where "shell_dtor = slot_free"

text \<open>A task that was moved from, or a detached task that was called, is destroyed without a release.\<close>

lemma task_moved_from: "task_dtor j (task_move i j s) = task_move i j s \<or> i = j"
  by (auto simp: task_dtor_def task_move_def slot_free_def slot_exchange_def)

lemma detach_called:
  assumes "detach_call i s = (h, s')"
  shows "detach_dtor_asserts i s' \<and> detach_dtor i s' = s' \<and> sl_freed s' = sl_freed s"
  using assms by (auto simp: detach_call_def detach_dtor_asserts_def detach_dtor_def slot_free_def)

section \<open>Addresses\<close>

text \<open>\<^verbatim>\<open>AddrInfos\<close>: its assignment destroys what it held, and is safe for an assignment to itself.\<close>

definition addrs_ctor :: "nat \<Rightarrow> 'p \<Rightarrow> 'p slots \<Rightarrow> 'p slots" where "addrs_ctor = slot_set"
definition addrs_move :: "nat \<Rightarrow> nat \<Rightarrow> 'p slots \<Rightarrow> 'p slots" where "addrs_move = slot_exchange"
definition addrs_dtor :: "nat \<Rightarrow> 'p slots \<Rightarrow> 'p slots" where "addrs_dtor = slot_free"

definition addrs_assign :: "nat \<Rightarrow> nat \<Rightarrow> 'p slots \<Rightarrow> 'p slots" where
  "addrs_assign i j s = (if i \<noteq> j then slot_exchange i j (slot_free i s) else s)"

text \<open>Assignment as a program of the interface: it releases the old list and loses nothing.\<close>

lemma addrs_assign_accounts:
  assumes "finite (dom (sl_held s))"
  shows "count_list (sl_freed (addrs_assign i j s)) r + holders (sl_held (addrs_assign i j s)) r =
    count_list (sl_freed s) r + holders (sl_held s) r"
proof (cases "i = j")
  case False
  have v: "own_valid slot_step sl_held [Drop i, MoveTo i j] s" by (simp add: slots.drop_law)
  from slots.run_accounts [OF this assms, of r] False show ?thesis by (simp add: addrs_assign_def)
qed (simp add: addrs_assign_def)

text \<open>The addresses are a list in memory, linked by \<^verbatim>\<open>ai_next\<close>; \<^verbatim>\<open>begin\<close>, \<^verbatim>\<open>++\<close> and the comparison with \<^verbatim>\<open>end\<close> walk over it.
  \<^term>\<open>None\<close> is a pointer to no address, or a list without an end.\<close>

partial_function (option) ai_walk :: "(nat \<Rightarrow> ('a \<times> nat option) option) \<Rightarrow> nat option \<Rightarrow> 'a list option" where
  "ai_walk mem p =
     (case p of
        None \<Rightarrow> Some []
      | Some x \<Rightarrow> (case mem x of None \<Rightarrow> None | Some (a, nx) \<Rightarrow> Option.bind (ai_walk mem nx) (\<lambda>as. Some (a # as))))"

fun ai_list :: "(nat \<Rightarrow> ('a \<times> nat option) option) \<Rightarrow> nat option \<Rightarrow> 'a list \<Rightarrow> bool" where
  "ai_list mem p [] = (p = None)"
| "ai_list mem p (a # as) = (\<exists>x nx. p = Some x \<and> mem x = Some (a, nx) \<and> ai_list mem nx as)"

lemma ai_walk_list: "ai_list mem p as \<Longrightarrow> ai_walk mem p = Some as"
  by (induction as arbitrary: p) (auto simp: ai_walk.simps)

section \<open>Parts of a composite\<close>

text \<open>\<^verbatim>\<open>emplace\<close> constructs in place, over whatever is there; \<^verbatim>\<open>destroy\<close> and \<^verbatim>\<open>abandon\<close> run destructors.\<close>

definition composite_emplace :: "nat \<Rightarrow> 'r \<Rightarrow> 'r slots \<Rightarrow> 'r slots" where "composite_emplace = slot_set"
definition composite_destroy :: "nat \<Rightarrow> 'r slots \<Rightarrow> 'r slots" where "composite_destroy = slot_free"

definition composite_abandon :: "nat list \<Rightarrow> 'r slots \<Rightarrow> 'r slots" where
  "composite_abandon ps s = fold composite_destroy ps s"

text \<open>A part that is emplaced once is released once.\<close>

lemma emplace_destroy:
  assumes "sl_held s p = None"
  shows "composite_destroy p (composite_emplace p r s) = s\<lparr>sl_freed := sl_freed s @ [r]\<rparr>"
  using assms by (auto simp: composite_destroy_def composite_emplace_def slot_free_def slot_set_def fun_upd_idem)

text \<open>A part that is emplaced over another is the only one released: the handle that was there is lost.  This is what
  happens to the descriptor of a connection attempt in progress when the next address is tried with the same socket
  object.\<close>

lemma emplace_twice_loses:
  "sl_freed (composite_destroy p (composite_emplace p r2 (composite_emplace p r1 slots_new))) = [r2]"
  "sl_held (composite_destroy p (composite_emplace p r2 (composite_emplace p r1 slots_new))) = Map.empty"
  by (auto simp: composite_destroy_def composite_emplace_def slot_free_def slot_set_def slots_new_def)

text \<open>Every coroutine handle that tasks take over is released once: an instance of the interface with the names of the
  class.\<close>

lemma task_frames_released:
  assumes "own_valid slot_step sl_held xs slots_new" "sl_held (fold slot_step xs slots_new) = Map.empty"
  shows "count_list (sl_freed (fold slot_step xs slots_new)) f = count_list (taken xs) f"
  using slots.all_released [OF assms(1) _ _ assms(2)] by (simp add: slots_new_def)

end
