(* ===== verification/Spec2Isabelle.thy ===== *)
theory Spec2Isabelle
  imports Wheel Spsc_Threads Spsc_Lifetime Coro_Signal_Threads Coro_Channel Coro_Then Io_Context Sys_Sockaddr Net_Connect Dns_Names_Correct Io_Buffer Http_Static Http_Client Shared_Memory Asio_Tls Sys_Socket Poller_Group Errors Asio_Pipe Http_Revalidate Http_Exchange Http_Connection Sync_Mutex Handle_Owners
begin

text \<open>
  Verification library of net-cpp, the xsl networking library: coroutines with signals, channels and executors over an
  \<^verbatim>\<open>epoll\<close> event loop, asynchronous sockets, an HTTP server and client, a DNS codec, and the small types below them.
  Paths are relative to the repository; a header \<^verbatim>\<open>xsl/...\<close> lies in \<^verbatim>\<open>include\<close>.

  \<^bold>\<open>How the program is put together.\<close>  A poller thread runs \<^verbatim>\<open>IOContext::run\<close>.  Each device (socket, pipe end) is shared by
  handles (\<^verbatim>\<open>shared_memory\<close>), holds one signal for each kind of event, and is registered with its context.  An operation of
  \<^verbatim>\<open>asio/io.h\<close> is a task that calls the system, and when the call would block awaits the signal of the device; the poller
  publishes events to the signals, which resumes the awaiting coroutine through its executor.  Above that,
  \<^verbatim>\<open>Message::read\<close> reads a message head into blocks and parses it, a service routes the request to a handler, and the
  connection writes the response; a client builds a request and reads the answer.  Shutting a context down
  cancels its domain and stops all signals.

  \<^bold>\<open>Theories and the code they model.\<close>

  \<^item> \<^verbatim>\<open>Net_Prelude\<close>: error codes, \<^verbatim>\<open>string_view\<close> operations, byte arrays, decimal numbers, counting.  Every other theory uses it.
  \<^item> \<^verbatim>\<open>Wheel\<close>: \<^verbatim>\<open>wheel/bit.h\<close> (rounding to powers of two, at any word width), \<^verbatim>\<open>wheel/rc.h\<close> (counted cells on a heap; every
    operation keeps count and owners equal), \<^verbatim>\<open>wheel/vec.h\<close>, \<^verbatim>\<open>wheel/str.h\<close> (the comparison is a total order).
  \<^item> \<^verbatim>\<open>Feature_Flags\<close>: \<^verbatim>\<open>type_traits.h\<close>, \<^verbatim>\<open>feature.h\<close>: packs of types as lists, closed forms of the metafunctions, and
    when the selection of feature flags depends on their order.  \<^verbatim>\<open>Errors\<close>: \<^verbatim>\<open>error.h\<close>: error objects and macros, accumulation of messages.
  \<^item> \<^verbatim>\<open>Spsc_Ring\<close>, \<^verbatim>\<open>Spsc_Threads\<close>, \<^verbatim>\<open>Spsc_Lifetime\<close>: \<^verbatim>\<open>sync/spsc.h\<close>.  The ring refines a bounded queue (locale \<open>bounded_fifo\<close>); under two
    threads, with one step for each atomic access, values come out in order, none is lost, and no slot is
    used by both sides; every value is destroyed once.  \<^verbatim>\<open>Sync_Mutex\<close>: \<^verbatim>\<open>sync/mutex.h\<close>: locked updates serialise, and a shared lock that
    writes does not.
  \<^item> \<^verbatim>\<open>Coro_Signal\<close>, \<^verbatim>\<open>Coro_Signal_Threads\<close>: \<^verbatim>\<open>coro/signal/core.h\<close>.  Both tiers refine one abstract signal; the exchange protocol
    of \<^verbatim>\<open>MPSCSignal\<close> under interleaving, with the runs in which a wakeup or a stop is lost.
  \<^item> \<^verbatim>\<open>Coro_Channel\<close>: \<^verbatim>\<open>coro/channel/spsc.h\<close>: awaiting on the ring, no lost wakeup.
  \<^item> \<^verbatim>\<open>Coro_Executor\<close>: \<^verbatim>\<open>coro/core/executor.h\<close> and \<^verbatim>\<open>context.h\<close>: the three executors behind one contract (locale \<open>executor\<close>),
    the thread pool as a step relation that starts tasks in order and drains its queue, cancellation domains.
  \<^item> \<^verbatim>\<open>Coro_Task\<close>: \<^verbatim>\<open>coro/core/task.h\<close>, \<^verbatim>\<open>then.h\<close>, \<^verbatim>\<open>detach.h\<close>, \<^verbatim>\<open>block.h\<close>: a machine of frames with continuations; \<^verbatim>\<open>block\<close> computes what
    direct evaluation of the body gives, exceptions and cancelled awaits included.  \<^verbatim>\<open>Coro_Then\<close>: continuations on void tasks, \<^verbatim>\<open>coro/guard.h\<close>, the context a task
    runs with.  \<^verbatim>\<open>Handle_Owners\<close>: the types that own a handle (tasks, frames, address lists, composites) as instances of
    one contract (locale \<open>unique_owner\<close>): what they took over is released once.
  \<^item> \<^verbatim>\<open>Io_Context\<close>: \<^verbatim>\<open>sys/io/context/epoll.h\<close>, \<^verbatim>\<open>coro/pub_sub.h\<close>, \<^verbatim>\<open>asio/io.h\<close> (registration): shutting down resumes every
    coroutine that waits on a device, also one that a hang-up had left behind, and then nobody waits.
    \<^verbatim>\<open>Poller_Group\<close>: \<^verbatim>\<open>asio/poller_group.h\<close>: after a stop every thread returns from
    its poll in at most two steps and can be joined, and every waiter was resumed.  \<^verbatim>\<open>Shared_Memory\<close>: the shared handle of
    \<^verbatim>\<open>compose.h\<close> under threads: deleted once and never used afterwards, unless a
    handle inside the object is assigned from.  \<^verbatim>\<open>Asio_Pipe\<close>: \<^verbatim>\<open>src/asio/pipe.cpp\<close>, \<^verbatim>\<open>src/sys/raw.cpp\<close>.
  \<^item> \<^verbatim>\<open>Sys_Sockaddr\<close>: \<^verbatim>\<open>sys/net/sockaddr.h\<close> with its source file: printing stays in its buffer, parsing inverts it.
    \<^verbatim>\<open>Sys_Socket\<close>: \<^verbatim>\<open>sys/net/def.h\<close>, \<^verbatim>\<open>socket.h\<close>, \<^verbatim>\<open>gai.h\<close>, \<^verbatim>\<open>sys/net.h\<close>: a listener is complete or absent.  \<^verbatim>\<open>Net_Connect\<close>: accept and
    connect loops, the server loop, \<^verbatim>\<open>gai_connect\<close>, \<^verbatim>\<open>gai_bind\<close>, \<^verbatim>\<open>splice\<close>.  \<^verbatim>\<open>Asio_Socket\<close>: \<^verbatim>\<open>asio/net/socket.h\<close>: sockets that become devices of
    a poller.
  \<^item> \<^verbatim>\<open>Async_Io\<close>: the reads and writes of \<^verbatim>\<open>asio/io.h\<close>: what is reported as sent is on the wire, in order; vectored and plain
    sending agree.  \<^verbatim>\<open>Io_Buffer\<close>: \<^verbatim>\<open>io/buf.h\<close>.  \<^verbatim>\<open>Asio_Tls\<close>: \<^verbatim>\<open>asio/tls.h\<close>.
  \<^item> \<^verbatim>\<open>Http_Proto\<close>, \<^verbatim>\<open>Uri\<close>, \<^verbatim>\<open>Uri_Query\<close>, \<^verbatim>\<open>Http_Head\<close>, \<^verbatim>\<open>Http_Message\<close>, \<^verbatim>\<open>Http_Lines\<close>: protocol vocabulary, percent decoding, request
    targets and queries, the header parser, the block reader and the first lines; the reader refines a parser of the
    whole text, however it arrives in chunks; the views of a request line carry the memory they point into, and a line is
    read back except for a path whose memory decoding the query frees (\<^verbatim>\<open>net/http\<close>, \<^verbatim>\<open>asio/http/common.h\<close>, \<^verbatim>\<open>src/net/uri.cpp\<close>).
  \<^item> \<^verbatim>\<open>Http_Router\<close>, \<^verbatim>\<open>Http_Response\<close>, \<^verbatim>\<open>Http_Server\<close>, \<^verbatim>\<open>Http_Client\<close>: the route tree refines tables of paths, responses and requests
    read back as they were built, dispatch and the keep-alive loop answer the requests in order, the client
    puts its request on the wire.  \<^verbatim>\<open>Http_Exchange\<close>: a request and its answer over an established connection.  \<^verbatim>\<open>Http_Connection\<close>:
    what a connection leaves on the poller when it has ended (\<^verbatim>\<open>net/http/router.h\<close>, \<^verbatim>\<open>asio/http\<close>, \<^verbatim>\<open>src/asio/http.cpp\<close>).
  \<^item> \<^verbatim>\<open>Http_Media\<close>, \<^verbatim>\<open>Http_Static\<close>, \<^verbatim>\<open>Http_Date\<close>, \<^verbatim>\<open>Http_Revalidate\<close>: media types, dates, \<^verbatim>\<open>Accept\<close> headers, and the static file component: only files below the root are
    sent, with their bytes (the index file of a directory apart, which is not checked), and when a client that asks again with the date it was sent gets 304, which
    depends on the epoch of the file clock (\<^verbatim>\<open>net/http/proto\<close>, \<^verbatim>\<open>asio/http/component/static.h\<close>).
  \<^item> \<^verbatim>\<open>Dns_Proto\<close>, \<^verbatim>\<open>Dns_Names\<close>, \<^verbatim>\<open>Dns_Names_Correct\<close>: \<^verbatim>\<open>ser.h\<close>, \<^verbatim>\<open>net/dns\<close>: record layouts, and compression of names that the
    decompressor inverts, over whole messages whose first name lies at their base.

  \<^bold>\<open>State, errors and loops.\<close>  Objects are records passed explicitly; pointers that matter are addresses into a store, a heap of
  cells or a list of handles.  An \<^verbatim>\<open>errc\<close> is an option or a number whose 0 is success, an \<^verbatim>\<open>Expected\<close> is a sum with the error on
  the left; a failed assertion or a read outside an array is \<^term>\<open>None\<close>.  Shared-memory components are step
  relations with one step for each atomic access, and their invariants hold in every reachable state.  Machine
  integers are words where they wrap or are used bitwise (ring indices, event masks, ports, DNS fields,
  error codes, reference counts) and naturals or integers otherwise; a signed count that may overflow has an explicit overflow result.

  \<^bold>\<open>Bounds and fuel.\<close>  The results of system calls, of OpenSSL and of awaited signals are scripts, lists that a loop consumes; a
  loop whose script runs out has not returned, and the theorems that claim a result say so for every script in
  which the peer makes progress.  The keep-alive loop takes fuel; more fuel than bytes pending is enough, since
  each request consumes at least one, and that is proved.  The request builder loops forever on a text longer than
  one block: it is a partial function, with a theorem that says exactly when it returns.
  The functions that follow the pointers of a DNS name are partial as well: a pointer cycle has no result.  All
  other loops are total functions with a measure.

  \<^bold>\<open>Parameters.\<close>  Handlers of a service, the file system of the static component, the time of day, the epoch of the file clock, the \<^verbatim>\<open>errno\<close> after an await, the order in which equal weights are sorted, \<^verbatim>\<open>inet_ntop\<close> and \<^verbatim>\<open>inet_pton\<close>, \<^verbatim>\<open>getaddrinfo\<close>, \<^verbatim>\<open>strerror\<close> and the results of OpenSSL are arguments; each theorem names what it
  needs of them, and its witness instantiates them.

  \<^bold>\<open>Findings.\<close>  Lemmas beside the components record where the code falls short of what it means: among others, a flag after the first
  is ignored by \<^verbatim>\<open>SocketTraits\<close>, a TLS handshake that failed counts as connected, a hang-up strands a reader until the shutdown, a
  released signal can strand the next consumer, a method nobody registered for a known path aborts the server, a target no form
  matches is accepted, \<^verbatim>\<open>p = p->next\<close> on shared handles reads deleted memory, and connecting successfully flows off the end of a coroutine.
  Where the code differs from its documents (the matching of routes) the theorems state the code.

  \<^bold>\<open>Not modelled.\<close>  Logging, the log of coroutines and the formatting of errors for it; umbrella headers, namespaces and macros; \<^verbatim>\<open>wheel/utils.h\<close>,
  which only wraps hashes and assertions of the standard library; the commented-out TLS connection helpers; memory order
  weaker than the interleaving of atomic accesses; examples, tests and benchmarks.
\<close>

end
